(* ===== verification/Prelude.thy ===== *)
theory Prelude
  imports Main "HOL-Library.Word"
begin

text \<open>
  What every component shares: machine integers as words, the outcome type of a Rust call
  (a value, an error value, or a panic), the \<open>?\<close> operator on it, slice indexing with its
  bounds check, and big-endian byte encodings with their round-trip laws.

  Integer arithmetic wraps, as in a build without overflow checks (the release profile);
  a build with overflow checks panics where a sum or difference wraps.
\<close>

unbundle bit_operations_syntax

type_synonym u8 = "8 word"
type_synonym u16 = "16 word"
type_synonym u32 = "32 word"
type_synonym u64 = "64 word"
type_synonym bytes = "8 word list"

named_theorems res_simps \<open>equations of the outcome type and of slicing\<close>
named_theorems codec_simps \<open>lengths and round trips of encoders\<close>

section \<open>Outcomes\<close>

text \<open>
  \<open>Ok\<close> and \<open>Err\<close> are the constructors of Rust's \<^verbatim>\<open>Result\<close>; \<open>Panic\<close> is the unwinding of
  an out-of-range index, an \<^verbatim>\<open>unwrap\<close> of nothing or a failed \<^verbatim>\<open>expect\<close>.
\<close>

datatype ('a, 'e) result = Ok 'a | Err 'e | Panic

fun rbind :: "('a, 'e) result \<Rightarrow> ('a \<Rightarrow> ('b, 'e) result) \<Rightarrow> ('b, 'e) result" where
  "rbind (Ok x) f = f x"
| "rbind (Err e) f = Err e"
| "rbind Panic f = Panic"

fun rmap :: "('a \<Rightarrow> 'b) \<Rightarrow> ('a, 'e) result \<Rightarrow> ('b, 'e) result" where
  "rmap f (Ok x) = Ok (f x)"
| "rmap f (Err e) = Err e"
| "rmap f Panic = Panic"

fun rmap_err :: "('e \<Rightarrow> 'f) \<Rightarrow> ('a, 'e) result \<Rightarrow> ('a, 'f) result" where
  "rmap_err g (Ok x) = Ok x"
| "rmap_err g (Err e) = Err (g e)"
| "rmap_err g Panic = Panic"

lemma rbind_eq_Ok [res_simps]: "rbind m f = Ok y \<longleftrightarrow> (\<exists>x. m = Ok x \<and> f x = Ok y)"
  by (cases m) auto

lemma rmap_eq_Ok [res_simps]: "rmap f m = Ok y \<longleftrightarrow> (\<exists>x. m = Ok x \<and> y = f x)"
  by (cases m) auto

lemma rmap_err_eq_Ok [simp]: "rmap_err g m = Ok y \<longleftrightarrow> m = Ok y"
  by (cases m) auto

lemma rbind_assoc: "rbind (rbind m f) g = rbind m (\<lambda>x. rbind (f x) g)"
  by (cases m) auto

lemma rbind_cong [fundef_cong]:
  "m = m' \<Longrightarrow> (\<And>x. m' = Ok x \<Longrightarrow> f x = f' x) \<Longrightarrow> rbind m f = rbind m' f'"
  by (cases m') auto

text \<open>\<open>iter().map(f).collect::<Result<Vec<_>, _>>()\<close>: the first error or panic wins.\<close>

fun rmapM :: "('a \<Rightarrow> ('b, 'e) result) \<Rightarrow> 'a list \<Rightarrow> ('b list, 'e) result" where
  "rmapM f [] = Ok []"
| "rmapM f (x # xs) = rbind (f x) (\<lambda>y. rbind (rmapM f xs) (\<lambda>ys. Ok (y # ys)))"

text \<open>A \<open>for\<close> loop whose body updates a state and may leave with an error.\<close>

fun rfoldM :: "('s \<Rightarrow> 'a \<Rightarrow> ('s, 'e) result) \<Rightarrow> 's \<Rightarrow> 'a list \<Rightarrow> ('s, 'e) result" where
  "rfoldM f s [] = Ok s"
| "rfoldM f s (x # xs) = rbind (f s x) (\<lambda>s'. rfoldM f s' xs)"

lemma rfoldM_append: "rfoldM f s (xs @ ys) = rbind (rfoldM f s xs) (\<lambda>s'. rfoldM f s' ys)"
  by (induction xs arbitrary: s) (auto simp: rbind_assoc)

lemma rmapM_eq_Ok:
  "rmapM f xs = Ok ys \<longleftrightarrow> length ys = length xs \<and> (\<forall>i < length xs. f (xs ! i) = Ok (ys ! i))"
proof (induction xs arbitrary: ys)
  case Nil
  then show ?case by auto
next
  case (Cons x xs)
  show ?case
  proof (cases ys)
    case Nil
    then show ?thesis by (auto simp: res_simps)
  next
    case (Cons y ys')
    then show ?thesis
      by (auto simp: res_simps Cons.IH less_Suc_eq_0_disj)
  qed
qed

lemma rmapM_Ok_map: "(\<And>x. x \<in> set xs \<Longrightarrow> f x = Ok (g x)) \<Longrightarrow> rmapM f xs = Ok (map g xs)"
  by (induction xs) auto

lemma rmapM_cong [fundef_cong]:
  "xs = xs' \<Longrightarrow> (\<And>x. x \<in> set xs' \<Longrightarrow> f x = f' x) \<Longrightarrow> rmapM f xs = rmapM f' xs'"
  by (induction xs arbitrary: xs') (auto intro: rbind_cong)

section \<open>Slices\<close>

text \<open>\<open>&xs[a..b]\<close> panics unless \<open>a <= b <= xs.len()\<close>.\<close>

definition subslice :: "nat \<Rightarrow> nat \<Rightarrow> 'a list \<Rightarrow> ('a list, 'e) result" where
  "subslice a b xs = (if a \<le> b \<and> b \<le> length xs then Ok (take (b - a) (drop a xs)) else Panic)"

lemma subslice_Ok [res_simps]:
  "a \<le> b \<Longrightarrow> b \<le> length xs \<Longrightarrow> subslice a b xs = Ok (take (b - a) (drop a xs))"
  by (simp add: subslice_def)

lemma subslice_eq_Ok:
  "subslice a b xs = Ok ys \<longleftrightarrow> a \<le> b \<and> b \<le> length xs \<and> ys = take (b - a) (drop a xs)"
  by (auto simp: subslice_def)

lemma subslice_not_Err [simp]: "subslice a b xs \<noteq> Err e"
  by (simp add: subslice_def)

lemma subslice_append3:
  "a = length xs \<Longrightarrow> b = length xs + length ys \<Longrightarrow> subslice a b (xs @ ys @ zs) = Ok ys"
  by (simp add: subslice_def)

text \<open>\<open>dst[a..a + src.len()].copy_from_slice(src)\<close>, in range.\<close>

definition copy_at :: "nat \<Rightarrow> 'a list \<Rightarrow> 'a list \<Rightarrow> 'a list" where
  "copy_at a src dst = take a dst @ src @ drop (a + length src) dst"

lemma length_copy_at [simp]:
  "a + length src \<le> length dst \<Longrightarrow> length (copy_at a src dst) = length dst"
  by (simp add: copy_at_def)

lemma nth_copy_at:
  assumes "a + length src \<le> length dst" and "i < length dst"
  shows "copy_at a src dst ! i =
    (if a \<le> i \<and> i < a + length src then src ! (i - a) else dst ! i)"
  using assms by (auto simp: copy_at_def nth_append min_def)

section \<open>Words\<close>

lemma xor_word_cancel:
  "a XOR c = b XOR c \<longleftrightarrow> a = (b :: 'w::len word)"
  "c XOR a = c XOR b \<longleftrightarrow> a = b"
  by (auto simp: bit_eq_iff bit_xor_iff)

lemma xor_word_eq_0: "a XOR b = 0 \<longleftrightarrow> a = (b :: 'w::len word)"
  by (auto simp: bit_eq_iff bit_xor_iff)

lemma word_less_power_iff:
  fixes w :: "'w::len word"
  assumes "n < LENGTH('w)"
  shows "w < 2 ^ n \<longleftrightarrow> take_bit n w = w"
  using assms by (simp add: take_bit_eq_mask mask_eq_iff_w2p word_size)

lemma unat_ucast_up:
  assumes "LENGTH('a) \<le> LENGTH('b)"
  shows "unat (ucast (w :: 'a::len word) :: 'b::len word) = unat w"
proof -
  have "unat w < 2 ^ LENGTH('a)" by simp
  also have "(2::nat) ^ LENGTH('a) \<le> 2 ^ LENGTH('b)"
    using assms by simp
  finally have "take_bit LENGTH('b) (unat w) = unat w"
    by (simp add: take_bit_nat_eq_self)
  then show ?thesis
    by (simp add: unsigned_ucast_eq)
qed

section \<open>Big-endian integers\<close>

text \<open>\<open>to_be_bytes\<close> of an \<open>n\<close>-byte integer and \<open>from_be_bytes\<close>.\<close>

fun be_bytes :: "nat \<Rightarrow> 'w::len word \<Rightarrow> bytes" where
  "be_bytes 0 w = []"
| "be_bytes (Suc n) w = ucast (drop_bit (8 * n) w) # be_bytes n w"

definition from_be :: "bytes \<Rightarrow> 'w::len word" where
  "from_be bs = foldl (\<lambda>acc b. push_bit 8 acc OR ucast b) 0 bs"

definition be16 :: "u16 \<Rightarrow> bytes" where
  "be16 w = be_bytes 2 w"
definition be32 :: "u32 \<Rightarrow> bytes" where
  "be32 w = be_bytes 4 w"
definition be64 :: "u64 \<Rightarrow> bytes" where
  "be64 w = be_bytes 8 w"

lemma length_be_bytes [simp]: "length (be_bytes n w) = n"
  by (induction n) auto

lemma length_be [simp]: "length (be16 a) = 2" "length (be32 b) = 4" "length (be64 c) = 8"
  by (simp_all add: be16_def be32_def be64_def)

lemma foldl_be_bytes:
  "foldl (\<lambda>acc b. push_bit 8 acc OR ucast b) acc (be_bytes n w) =
    push_bit (8 * n) acc OR take_bit (8 * n) (w :: 'w::len word)"
proof (induction n arbitrary: acc)
  case 0
  then show ?case by simp
next
  case (Suc n)
  show ?case
    by (simp add: Suc, rule bit_word_eqI)
      (auto simp: bit_simps not_le not_less algebra_simps le_diff_conv2 less_diff_conv2)
qed

lemma from_be_bytes: "LENGTH('w) \<le> 8 * n \<Longrightarrow> from_be (be_bytes n w) = (w :: 'w::len word)"
  by (simp add: from_be_def foldl_be_bytes) (rule bit_word_eqI, auto simp: bit_simps)

lemma foldl_be_or:
  fixes a :: "'w::len word"
  shows "foldl (\<lambda>acc b. push_bit 8 acc OR ucast b) a bs =
    push_bit (8 * length bs) a OR foldl (\<lambda>acc b. push_bit 8 acc OR ucast b) 0 bs"
proof (induction bs rule: rev_induct)
  case Nil
  then show ?case by simp
next
  case (snoc b bs)
  show ?case
    by (simp add: snoc push_bit_or) (simp add: add.commute or.assoc)
qed

lemma from_be_Cons: "from_be (b # bs) = push_bit (8 * length bs) (ucast b) OR from_be bs"
  by (simp add: from_be_def) (subst foldl_be_or, simp)

lemma bit_from_be_high: "8 * length bs \<le> n \<Longrightarrow> \<not> bit (from_be bs :: 'w::len word) n"
  by (induction bs)
    (auto simp: from_be_def [of "[]"] from_be_Cons bit_simps dest: bit_imp_le_length)

lemma be_bytes_drop_high:
  "(\<And>i. i < 8 * n \<Longrightarrow> bit v i = bit w i) \<Longrightarrow> be_bytes n (v :: 'w::len word) = be_bytes n w"
proof (induction n)
  case 0
  then show ?case by simp
next
  case (Suc n)
  have "(ucast (drop_bit (8 * n) v) :: u8) = ucast (drop_bit (8 * n) w)"
    by (rule bit_word_eqI) (auto simp: bit_simps Suc.prems)
  with Suc show ?case by simp
qed

lemma be_bytes_from_be:
  "8 * length bs \<le> LENGTH('w) \<Longrightarrow> be_bytes (length bs) (from_be bs :: 'w::len word) = bs"
proof (induction bs)
  case Nil
  then show ?case by simp
next
  case (Cons b bs)
  have top: "(ucast (drop_bit (8 * length bs) (from_be (b # bs) :: 'w word)) :: u8) = b"
    using Cons.prems
    by (intro bit_word_eqI) (auto simp: from_be_Cons bit_simps bit_from_be_high)
  have "be_bytes (length bs) (from_be (b # bs) :: 'w word) = be_bytes (length bs) (from_be bs :: 'w word)"
    by (rule be_bytes_drop_high) (auto simp: from_be_Cons bit_simps)
  with Cons top show ?case by simp
qed

lemma be_from_be:
  "length bs = 2 \<Longrightarrow> be16 (from_be bs) = bs"
  "length bs = 4 \<Longrightarrow> be32 (from_be bs) = bs"
  "length bs = 8 \<Longrightarrow> be64 (from_be bs) = bs"
  using be_bytes_from_be [of bs, where 'w = 16] be_bytes_from_be [of bs, where 'w = 32]
    be_bytes_from_be [of bs, where 'w = 64]
  by (simp_all add: be16_def be32_def be64_def)

lemma from_be_roundtrip [simp]:
  "from_be (be16 a) = a" "from_be (be32 b) = b" "from_be (be64 c) = c"
  by (simp_all add: be16_def be32_def be64_def from_be_bytes)

lemma be_inj [simp]:
  "be16 a = be16 a' \<longleftrightarrow> a = a'" "be32 b = be32 b' \<longleftrightarrow> b = b'" "be64 c = be64 c' \<longleftrightarrow> c = c'"
  by (metis from_be_roundtrip)+

end
