(* ===== verification/Checksum.thy ===== *)
theory Checksum
  imports Prelude "HOL-Library.Multiset"
begin

text \<open>
  CRC-64 checksums (\<^verbatim>\<open>src/ltx/checksum.rs\<close>): the lookup table, the streaming hasher, the
  \<open>Checksum\<close> newtype with its always-set flag bit, and the per-page checksum whose XOR is the
  rolling database checksum. The lemmas show that the table-driven loop is the bit-serial
  reflected CRC, that it detects every change of a single byte, and that the rolling checksum
  does not depend on the order of the pages and can be updated for one changed page.
\<close>

section \<open>Table and hasher\<close>

definition CHECKSUM_FLAG :: u64 where
  "CHECKSUM_FLAG = push_bit 63 1"

definition POLY_REFLECTED :: u64 where
  "POLY_REFLECTED = 0xD800000000000000"

text \<open>One iteration of the inner loop of \<^verbatim>\<open>build_table\<close>.\<close>

definition crc_step :: "u64 \<Rightarrow> u64" where
  "crc_step crc = (if crc AND 1 \<noteq> 0 then drop_bit 1 crc XOR POLY_REFLECTED else drop_bit 1 crc)"

definition build_table :: "u64 list" where
  "build_table = map (\<lambda>i. (crc_step ^^ 8) (of_nat i)) [0..<256]"

record hasher =
  crc :: u64

definition hasher_new :: hasher where
  "hasher_new = \<lparr>crc = NOT 0\<rparr>"

definition update_byte :: "u64 \<Rightarrow> u8 \<Rightarrow> u64" where
  "update_byte c b = build_table ! unat ((c XOR ucast b) AND 0xff) XOR drop_bit 8 c"

definition hasher_update :: "hasher \<Rightarrow> bytes \<Rightarrow> hasher" where
  "hasher_update h data = h\<lparr>crc := foldl update_byte (crc h) data\<rparr>"

definition sum64 :: "hasher \<Rightarrow> u64" where
  "sum64 h = crc h XOR NOT 0"

datatype checksum = Checksum (cksum: u64)

definition hasher_checksum :: "hasher \<Rightarrow> checksum" where
  "hasher_checksum h = Checksum (CHECKSUM_FLAG OR sum64 h)"

definition checksum_zero :: checksum where
  "checksum_zero = Checksum 0"

definition checksum_is_zero :: "checksum \<Rightarrow> bool" where
  "checksum_is_zero c \<longleftrightarrow> cksum c = 0"

definition checksum_page :: "u32 \<Rightarrow> bytes \<Rightarrow> checksum" where
  "checksum_page pgno data =
     (let h = hasher_new; h = hasher_update h (be32 pgno); h = hasher_update h data
      in hasher_checksum h)"

section \<open>The table loop is the bit-serial CRC\<close>

text \<open>Reference: shift the register once per message bit, the byte XORed into its low end.\<close>

definition crc_bitwise :: "u64 \<Rightarrow> u8 \<Rightarrow> u64" where
  "crc_bitwise c b = (crc_step ^^ 8) (c XOR ucast b)"

lemma crc_step_xor: "crc_step (a XOR b) = crc_step a XOR crc_step b"
proof -
  have odd: "(x :: u64) AND 1 \<noteq> 0 \<longleftrightarrow> bit x 0" for x
    by (simp add: and_one_eq bit_0 odd_iff_mod_2_eq_one)
  show ?thesis
    unfolding crc_step_def odd
    by (auto simp: bit_simps intro!: bit_word_eqI)
qed

lemma crc_steps_xor: "(crc_step ^^ n) (a XOR b) = (crc_step ^^ n) a XOR (crc_step ^^ n) b"
  by (induction n) (simp_all add: crc_step_xor)

lemma crc_step_even: "\<not> bit c 0 \<Longrightarrow> crc_step c = drop_bit 1 c"
  by (simp add: crc_step_def and_one_eq bit_0 odd_iff_mod_2_eq_one)

lemma crc_steps_low_zero: "(\<And>i. i < n \<Longrightarrow> \<not> bit c i) \<Longrightarrow> (crc_step ^^ n) c = drop_bit n c"
proof (induction n)
  case 0
  then show ?case by simp
next
  case (Suc n)
  then have "(crc_step ^^ n) c = drop_bit n c" and "\<not> bit (drop_bit n c) 0"
    by (auto simp: bit_simps)
  then show ?case by (simp add: crc_step_even)
qed

lemma crc_steps_split: "(crc_step ^^ 8) c = (crc_step ^^ 8) (c AND 0xff) XOR drop_bit 8 c"
proof -
  have split: "c = (c AND 0xff) XOR (c AND NOT 0xff)"
    by (rule bit_word_eqI) (auto simp: bit_simps)
  have mask: "(0xff :: u64) = mask 8"
    by (simp add: mask_eq_exp_minus_1)
  have "(crc_step ^^ 8) (c AND NOT 0xff) = drop_bit 8 (c AND NOT 0xff)"
    unfolding mask by (rule crc_steps_low_zero) (simp add: bit_simps)
  also have "\<dots> = drop_bit 8 c"
    unfolding mask by (rule bit_word_eqI) (auto simp: bit_simps dest: bit_imp_le_length)
  finally show ?thesis
    by (subst split) (simp only: crc_steps_xor)
qed

lemma build_table_nth: "i < 256 \<Longrightarrow> build_table ! i = (crc_step ^^ 8) (of_nat i)"
  by (simp add: build_table_def del: upt_rec_numeral)

lemma and_ff_less: "unat ((c :: u64) AND 0xff) < 256"
proof -
  have "(c AND 0xff) \<le> 0xff"
    by (rule word_and_le1)
  then show ?thesis
    by (simp add: word_le_nat_alt)
qed

lemma ucast8_and: "drop_bit 8 (ucast (b :: u8) :: u64) = 0"
  by (rule bit_word_eqI) (auto simp: bit_simps dest: bit_imp_le_length)

lemma update_byte_bitwise: "update_byte c b = crc_bitwise c b"
proof -
  have "drop_bit 8 (c XOR ucast b) = drop_bit 8 c"
    by (simp add: ucast8_and)
  then show ?thesis
    unfolding update_byte_def crc_bitwise_def
    using and_ff_less [of "c XOR ucast b"]
    by (subst crc_steps_split) (simp add: build_table_nth)
qed

lemma crc_update_is_bit_serial:
  "sum64 (hasher_update h data) = foldl crc_bitwise (crc h) data XOR NOT 0"
proof -
  have "update_byte = crc_bitwise"
    by (intro ext) (rule update_byte_bitwise)
  then show ?thesis
    by (simp add: sum64_def hasher_update_def)
qed

lemma hasher_update_append:
  "hasher_update h (xs @ ys) = hasher_update (hasher_update h xs) ys"
  by (simp add: hasher_update_def)

lemma hasher_update_Nil [simp]: "hasher_update h [] = h"
  by (simp add: hasher_update_def)

lemma checksum_flag_set: "bit (cksum (hasher_checksum h)) 63"
  by (simp add: hasher_checksum_def CHECKSUM_FLAG_def bit_simps)

lemma hasher_checksum_nonzero: "\<not> checksum_is_zero (hasher_checksum h)"
proof
  assume "checksum_is_zero (hasher_checksum h)"
  then have "\<not> bit (cksum (hasher_checksum h)) 63"
    by (simp add: checksum_is_zero_def)
  then show False
    by (simp add: checksum_flag_set)
qed

section \<open>Every change of one byte is detected\<close>

lemma bit_crc_step_top: "bit (crc_step c) 63 \<longleftrightarrow> bit c 0"
proof -
  have "bit POLY_REFLECTED 63"
    by (simp add: POLY_REFLECTED_def bit_numeral_rec)
  then show ?thesis
    by (auto simp: crc_step_def and_one_eq bit_0 odd_iff_mod_2_eq_one bit_simps dest: bit_imp_le_length)
qed

lemma crc_step_zero: "crc_step c = 0 \<Longrightarrow> c = 0"
proof -
  assume z: "crc_step c = 0"
  then have "\<not> bit c 0"
    using bit_crc_step_top [of c] by simp
  with z have d: "drop_bit 1 c = 0"
    by (simp add: crc_step_even)
  have "\<not> bit c i" for i
  proof (cases i)
    case 0
    with \<open>\<not> bit c 0\<close> show ?thesis by simp
  next
    case (Suc j)
    have "bit (drop_bit 1 c) j \<longleftrightarrow> bit c (Suc j)"
      by (simp add: bit_drop_bit_eq)
    with d Suc show ?thesis by simp
  qed
  then show "c = 0"
    by (intro bit_word_eqI) simp
qed

lemma crc_steps_zero: "(crc_step ^^ n) c = 0 \<Longrightarrow> c = 0"
  by (induction n) (auto dest: crc_step_zero)

lemma crc_steps_inj: "(crc_step ^^ n) a = (crc_step ^^ n) b \<Longrightarrow> a = b"
proof -
  assume "(crc_step ^^ n) a = (crc_step ^^ n) b"
  then have "(crc_step ^^ n) (a XOR b) = 0"
    by (simp add: crc_steps_xor)
  then have "a XOR b = 0"
    by (rule crc_steps_zero)
  then show "a = b"
    by (simp add: xor_word_eq_0)
qed

lemma crc_bitwise_inj_state: "crc_bitwise c b = crc_bitwise c' b \<Longrightarrow> c = c'"
proof -
  assume "crc_bitwise c b = crc_bitwise c' b"
  then have "c XOR ucast b = c' XOR ucast b"
    unfolding crc_bitwise_def by (rule crc_steps_inj)
  then show ?thesis
    by (simp add: xor_word_cancel)
qed

lemma crc_bitwise_inj_byte: "crc_bitwise c b = crc_bitwise c b' \<Longrightarrow> b = b'"
proof -
  assume "crc_bitwise c b = crc_bitwise c b'"
  then have "c XOR ucast b = c XOR ucast b'"
    unfolding crc_bitwise_def by (rule crc_steps_inj)
  then have "unat (ucast b :: u64) = unat (ucast b' :: u64)"
    by (simp add: xor_word_cancel)
  then show "b = b'"
    by (simp add: unat_ucast_up word_unat_eq_iff del: unsigned_ucast_eq)
qed

lemma crc_fold_inj: "foldl crc_bitwise c xs = foldl crc_bitwise c' xs \<Longrightarrow> c = c'"
  by (induction xs arbitrary: c c') (auto dest: crc_bitwise_inj_state)

text \<open>
  Two messages that differ in exactly one byte, wherever it is, have different CRC-64 values.
\<close>

theorem crc_detects_byte_change:
  assumes "b \<noteq> b'"
  shows "sum64 (hasher_update h (xs @ b # ys)) \<noteq> sum64 (hasher_update h (xs @ b' # ys))"
proof
  assume "sum64 (hasher_update h (xs @ b # ys)) = sum64 (hasher_update h (xs @ b' # ys))"
  then have "foldl crc_bitwise (crc h) (xs @ b # ys) = foldl crc_bitwise (crc h) (xs @ b' # ys)"
    by (simp only: crc_update_is_bit_serial xor_word_cancel)
  then have "foldl crc_bitwise (crc_bitwise (foldl crc_bitwise (crc h) xs) b) ys =
      foldl crc_bitwise (crc_bitwise (foldl crc_bitwise (crc h) xs) b') ys"
    by simp
  then have "b = b'"
    by (rule crc_bitwise_inj_byte [OF crc_fold_inj])
  with assms show False by simp
qed

theorem crc_detects_byte_change_witness:
  "sum64 (hasher_update hasher_new ([76, 84] @ 88 # [49])) \<noteq>
   sum64 (hasher_update hasher_new ([76, 84] @ 89 # [49]))"
proof -
  have "(88 :: u8) \<noteq> 89" by simp
  then show ?thesis by (rule crc_detects_byte_change)
qed

section \<open>The rolling database checksum\<close>

text \<open>
  Decoder and encoder accumulate the same expression page by page:
  \<open>Checksum(CHECKSUM_FLAG | (rolling.0 ^ checksum_page(pgno, data).0))\<close>.
\<close>

definition rolling_add :: "checksum \<Rightarrow> u32 \<times> bytes \<Rightarrow> checksum" where
  "rolling_add r pd =
     Checksum (CHECKSUM_FLAG OR (cksum r XOR cksum (checksum_page (fst pd) (snd pd))))"

definition rolling :: "checksum \<Rightarrow> (u32 \<times> bytes) list \<Rightarrow> checksum" where
  "rolling r pds = foldl rolling_add r pds"

lemma rolling_simps [simp]:
  "rolling r [] = r"
  "rolling r (pd # pds) = rolling (rolling_add r pd) pds"
  "rolling r (pds @ pds') = rolling (rolling r pds) pds'"
  by (simp_all add: rolling_def)

lemma rolling_add_commute:
  "rolling_add (rolling_add r a) b = rolling_add (rolling_add r b) a"
  by (auto simp: rolling_add_def CHECKSUM_FLAG_def bit_simps intro!: bit_word_eqI)

lemma rolling_fold: "rolling r pds = fold (\<lambda>pd r. rolling_add r pd) pds r"
  by (simp add: rolling_def foldl_conv_fold)

lemma rolling_move_last: "rolling r (xs @ pd # ys) = rolling_add (rolling r (xs @ ys)) pd"
  by (induction ys rule: rev_induct) (auto simp: rolling_def rolling_add_commute)

text \<open>
  The rolling checksum of a database does not depend on the order in which its pages are
  visited, so a decoder, an encoder and a compactor agree on it.
\<close>

theorem rolling_order_independent:
  assumes "mset pds = mset pds'"
  shows "rolling r pds = rolling r pds'"
proof -
  have "fold (\<lambda>pd r. rolling_add r pd) pds = fold (\<lambda>pd r. rolling_add r pd) pds'"
    using assms by (intro fold_multiset_equiv) (auto simp: rolling_add_commute)
  then show ?thesis
    by (simp add: rolling_fold)
qed

theorem rolling_order_independent_witness:
  "rolling (Checksum CHECKSUM_FLAG) [(1, [7]), (2, [9])] =
   rolling (Checksum CHECKSUM_FLAG) [(2, [9]), (1, [7])]"
proof -
  have "mset [(1 :: u32, [7 :: u8]), (2, [9])] = mset [(2, [9]), (1, [7])]"
    by simp
  then show ?thesis by (rule rolling_order_independent)
qed

lemma rolling_flagged: "pds \<noteq> [] \<Longrightarrow> bit (cksum (rolling r pds)) 63"
  by (induction pds rule: rev_induct)
    (auto simp: rolling_add_def CHECKSUM_FLAG_def bit_simps)

lemma rolling_add_update:
  "rolling_add r (p, new) =
    Checksum (CHECKSUM_FLAG OR (cksum (rolling_add r (p, old)) XOR
      cksum (checksum_page p old) XOR cksum (checksum_page p new)))"
  by (auto simp: rolling_add_def CHECKSUM_FLAG_def bit_simps intro!: bit_word_eqI)

text \<open>
  When one page of the database changes, XORing its old page checksum out of the rolling
  checksum and the new one in gives the checksum of the changed database; no other page is read.
\<close>

theorem rolling_incremental_update:
  "rolling r (xs @ (p, new) # ys) =
    Checksum (CHECKSUM_FLAG OR (cksum (rolling r (xs @ (p, old) # ys)) XOR
      cksum (checksum_page p old) XOR cksum (checksum_page p new)))"
proof -
  have perm: "rolling r (xs @ (p, d) # ys) = rolling_add (rolling r (xs @ ys)) (p, d)" for d
    using rolling_move_last [of r xs "(p, d)" ys] by simp
  show ?thesis
    unfolding perm by (rule rolling_add_update)
qed

end
