(* ===== verification/LtxFormat.thy ===== *)
theory LtxFormat
  imports Checksum
begin

text \<open>
  The on-disk LTX structures (\<^verbatim>\<open>src/ltx/format.rs\<close>) and the error type of the LTX layer
  (\<^verbatim>\<open>src/ltx/error.rs\<close>): header, page header and trailer with their encoders, decoders and
  validation. The three codecs share one contract, the locale \<open>codec\<close>: fixed width, round trip,
  and \<open>ShortBuffer\<close> on too few bytes.
\<close>

section \<open>Errors\<close>

datatype io_error = UnexpectedEof | NotFound | IoOther

datatype ltx_error =
    LtxIo io_error
  | ShortBuffer nat nat
  | InvalidMagic bytes
  | InvalidPageSize u32
  | ZeroPageNumber
  | Lz4
  | FrameFormatUnsupported
  | FileChecksumMismatch checksum checksum
  | PostApplyChecksumMismatch checksum checksum
  | NotASnapshot
  | UnexpectedPage u32 u32
  | InvalidTxidRange u64 u64
  | SnapshotPreApplyChecksum
  | PageOutOfOrder u32 u32
  | PageBeyondCommit u32 u32
  | LockPageEncoded u32
  | WrongPageLength u32 nat

section \<open>Constants and validation helpers\<close>

definition MAGIC :: bytes where
  "MAGIC = [0x4C, 0x54, 0x58, 0x31]"

definition HEADER_SIZE :: nat where
  "HEADER_SIZE = 100"
definition PAGE_HEADER_SIZE :: nat where
  "PAGE_HEADER_SIZE = 6"
definition TRAILER_SIZE :: nat where
  "TRAILER_SIZE = 16"

definition HEADER_FLAG_NO_CHECKSUM :: u32 where
  "HEADER_FLAG_NO_CHECKSUM = push_bit 1 1"
definition PAGE_HEADER_FLAG_SIZE :: u16 where
  "PAGE_HEADER_FLAG_SIZE = push_bit 0 1"
definition PENDING_BYTE :: u64 where
  "PENDING_BYTE = 0x40000000"

lemmas size_defs [simp] = HEADER_SIZE_def PAGE_HEADER_SIZE_def TRAILER_SIZE_def

text \<open>
  Division by a zero page size panics in Rust. The callers have validated the page size or have it from SQLite;
  those that have not, the restores to a path, have the panic as a branch.
\<close>

definition lock_pgno :: "u32 \<Rightarrow> u32" where
  "lock_pgno page_size = ucast (PENDING_BYTE div ucast page_size) + 1"

definition is_power_of_two :: "u32 \<Rightarrow> bool" where
  "is_power_of_two sz \<longleftrightarrow> (\<exists>k \<in> set [0..<32]. sz = push_bit k 1)"

definition is_valid_page_size :: "u32 \<Rightarrow> bool" where
  "is_valid_page_size sz \<longleftrightarrow> 512 \<le> sz \<and> sz \<le> 65536 \<and> is_power_of_two sz"

lemma valid_page_sizes:
  "is_valid_page_size sz \<longleftrightarrow> sz \<in> {512, 1024, 2048, 4096, 8192, 16384, 32768, 65536}"
proof -
  have "[0..<32] = [0, 1, 2, 3, 4, 5, 6, 7, 8, 9, 10, 11, 12, 13, 14, 15, 16, 17, 18, 19, 20, 21,
    22, 23, 24, 25, 26, 27, 28, 29, 30, 31]"
    by (simp add: upt_rec)
  then show ?thesis
    unfolding is_valid_page_size_def is_power_of_two_def by (auto simp: word_le_nat_alt)
qed

text \<open>Field reads \<open>u32::from_be_bytes(b[off..off + 4].try_into().unwrap())\<close>.\<close>

definition be_u16 :: "bytes \<Rightarrow> nat \<Rightarrow> (u16, ltx_error) result" where
  "be_u16 b off = rmap from_be (subslice off (off + 2) b)"
definition be_u32 :: "bytes \<Rightarrow> nat \<Rightarrow> (u32, ltx_error) result" where
  "be_u32 b off = rmap from_be (subslice off (off + 4) b)"
definition be_u64 :: "bytes \<Rightarrow> nat \<Rightarrow> (u64, ltx_error) result" where
  "be_u64 b off = rmap from_be (subslice off (off + 8) b)"

lemma be_u_Ok [res_simps]:
  "off + 2 \<le> length b \<Longrightarrow> be_u16 b off = Ok (from_be (take 2 (drop off b)))"
  "off + 4 \<le> length b \<Longrightarrow> be_u32 b off = Ok (from_be (take 4 (drop off b)))"
  "off + 8 \<le> length b \<Longrightarrow> be_u64 b off = Ok (from_be (take 8 (drop off b)))"
  by (simp_all add: be_u16_def be_u32_def be_u64_def subslice_Ok)

section \<open>Structures\<close>

text \<open>
  The \<^verbatim>\<open>i64\<close> fields (timestamp, WAL offset and size) are kept as their 64-bit pattern; \<open>sint\<close>
  reads them as signed.
\<close>

record header =
  h_flags :: u32
  h_page_size :: u32
  h_commit :: u32
  h_min_txid :: u64
  h_max_txid :: u64
  h_timestamp :: u64
  h_pre_apply_checksum :: checksum
  h_wal_offset :: u64
  h_wal_size :: u64
  h_wal_salt1 :: u32
  h_wal_salt2 :: u32
  h_node_id :: u64

record page_header =
  ph_pgno :: u32
  ph_flags :: u16

record trailer =
  t_post_apply_checksum :: checksum
  t_file_checksum :: checksum

subsection \<open>Header\<close>

definition header_decode :: "bytes \<Rightarrow> (header, ltx_error) result" where
  "header_decode b =
    (if length b < HEADER_SIZE then Err (ShortBuffer HEADER_SIZE (length b)) else
     rbind (subslice 0 4 b) (\<lambda>magic.
     if magic \<noteq> MAGIC then Err (InvalidMagic magic) else
     rbind (be_u32 b 4) (\<lambda>flags.
     rbind (be_u32 b 8) (\<lambda>page_size.
     rbind (be_u32 b 12) (\<lambda>commit.
     rbind (be_u64 b 16) (\<lambda>min_txid.
     rbind (be_u64 b 24) (\<lambda>max_txid.
     rbind (be_u64 b 32) (\<lambda>timestamp.
     rbind (be_u64 b 40) (\<lambda>pre_apply.
     rbind (be_u64 b 48) (\<lambda>wal_offset.
     rbind (be_u64 b 56) (\<lambda>wal_size.
     rbind (be_u32 b 64) (\<lambda>salt1.
     rbind (be_u32 b 68) (\<lambda>salt2.
     rbind (be_u64 b 72) (\<lambda>node_id.
     if \<not> is_valid_page_size page_size then Err (InvalidPageSize page_size)
     else Ok \<lparr>h_flags = flags, h_page_size = page_size, h_commit = commit,
       h_min_txid = min_txid, h_max_txid = max_txid, h_timestamp = timestamp,
       h_pre_apply_checksum = Checksum pre_apply, h_wal_offset = wal_offset,
       h_wal_size = wal_size, h_wal_salt1 = salt1, h_wal_salt2 = salt2,
       h_node_id = node_id\<rparr>))))))))))))))"

definition header_is_snapshot :: "header \<Rightarrow> bool" where
  "header_is_snapshot h \<longleftrightarrow> h_min_txid h = 1"

definition header_no_checksum :: "header \<Rightarrow> bool" where
  "header_no_checksum h \<longleftrightarrow> h_flags h AND HEADER_FLAG_NO_CHECKSUM \<noteq> 0"

text \<open>A zeroed 100-byte array filled field by field.\<close>

definition header_encode :: "header \<Rightarrow> bytes" where
  "header_encode h =
    (let b = replicate HEADER_SIZE 0;
         b = copy_at 0 MAGIC b;
         b = copy_at 4 (be32 (h_flags h)) b;
         b = copy_at 8 (be32 (h_page_size h)) b;
         b = copy_at 12 (be32 (h_commit h)) b;
         b = copy_at 16 (be64 (h_min_txid h)) b;
         b = copy_at 24 (be64 (h_max_txid h)) b;
         b = copy_at 32 (be64 (h_timestamp h)) b;
         b = copy_at 40 (be64 (cksum (h_pre_apply_checksum h))) b;
         b = copy_at 48 (be64 (h_wal_offset h)) b;
         b = copy_at 56 (be64 (h_wal_size h)) b;
         b = copy_at 64 (be32 (h_wal_salt1 h)) b;
         b = copy_at 68 (be32 (h_wal_salt2 h)) b;
         b = copy_at 72 (be64 (h_node_id h)) b
     in b)"

definition header_validate :: "header \<Rightarrow> (unit, ltx_error) result" where
  "header_validate h =
    (if \<not> is_valid_page_size (h_page_size h) then Err (InvalidPageSize (h_page_size h))
     else if h_min_txid h = 0 \<or> h_max_txid h = 0 \<or> h_min_txid h > h_max_txid h
     then Err (InvalidTxidRange (h_min_txid h) (h_max_txid h))
     else if header_is_snapshot h \<and> \<not> checksum_is_zero (h_pre_apply_checksum h)
     then Err SnapshotPreApplyChecksum
     else Ok ())"

subsection \<open>Page header and trailer\<close>

definition page_header_decode :: "bytes \<Rightarrow> (page_header, ltx_error) result" where
  "page_header_decode b =
    (if length b < PAGE_HEADER_SIZE then Err (ShortBuffer PAGE_HEADER_SIZE (length b)) else
     rbind (be_u32 b 0) (\<lambda>pgno.
     rbind (be_u16 b 4) (\<lambda>flags.
     Ok \<lparr>ph_pgno = pgno, ph_flags = flags\<rparr>)))"

definition page_header_is_zero :: "page_header \<Rightarrow> bool" where
  "page_header_is_zero ph \<longleftrightarrow> ph_pgno ph = 0 \<and> ph_flags ph = 0"

definition is_block_compressed :: "page_header \<Rightarrow> bool" where
  "is_block_compressed ph \<longleftrightarrow> ph_flags ph AND PAGE_HEADER_FLAG_SIZE \<noteq> 0"

definition page_header_encode :: "page_header \<Rightarrow> bytes" where
  "page_header_encode ph =
    (let b = replicate PAGE_HEADER_SIZE 0;
         b = copy_at 0 (be32 (ph_pgno ph)) b;
         b = copy_at 4 (be16 (ph_flags ph)) b
     in b)"

definition trailer_decode :: "bytes \<Rightarrow> (trailer, ltx_error) result" where
  "trailer_decode b =
    (if length b < TRAILER_SIZE then Err (ShortBuffer TRAILER_SIZE (length b)) else
     rbind (be_u64 b 0) (\<lambda>post.
     rbind (be_u64 b 8) (\<lambda>file.
     Ok \<lparr>t_post_apply_checksum = Checksum post, t_file_checksum = Checksum file\<rparr>)))"

definition trailer_encode :: "trailer \<Rightarrow> bytes" where
  "trailer_encode t =
    (let b = replicate TRAILER_SIZE 0;
         b = copy_at 0 (be64 (cksum (t_post_apply_checksum t))) b;
         b = copy_at 8 (be64 (cksum (t_file_checksum t))) b
     in b)"

section \<open>Layout of the encoded structures\<close>

lemma length_MAGIC [simp]: "length MAGIC = 4"
  by (simp add: MAGIC_def)

lemma copy_at_prefix:
  "length done = a \<Longrightarrow> length src \<le> n \<Longrightarrow>
    copy_at a src (done @ replicate n 0) = (done @ src) @ replicate (n - length src) 0"
  by (simp add: copy_at_def)

lemma copy_at_start:
  "length src \<le> n \<Longrightarrow> copy_at 0 src (replicate n 0) = src @ replicate (n - length src) 0"
  by (simp add: copy_at_def)

lemma header_encode_layout:
  "header_encode h = MAGIC @ be32 (h_flags h) @ be32 (h_page_size h) @ be32 (h_commit h) @
    be64 (h_min_txid h) @ be64 (h_max_txid h) @ be64 (h_timestamp h) @
    be64 (cksum (h_pre_apply_checksum h)) @ be64 (h_wal_offset h) @ be64 (h_wal_size h) @
    be32 (h_wal_salt1 h) @ be32 (h_wal_salt2 h) @ be64 (h_node_id h) @ replicate 20 0"
  unfolding header_encode_def Let_def HEADER_SIZE_def
  by (simp add: copy_at_start copy_at_prefix del: append_assoc)

lemma page_header_encode_layout:
  "page_header_encode ph = be32 (ph_pgno ph) @ be16 (ph_flags ph)"
  by (simp add: page_header_encode_def copy_at_def)

lemma trailer_encode_layout:
  "trailer_encode t = be64 (cksum (t_post_apply_checksum t)) @ be64 (cksum (t_file_checksum t))"
  by (simp add: trailer_encode_def copy_at_def)

lemma encoded_lengths [simp, codec_simps]:
  "length (header_encode h) = 100"
  "length (page_header_encode ph) = 6"
  "length (trailer_encode t) = 16"
  by (simp_all add: header_encode_layout page_header_encode_layout trailer_encode_layout)

section \<open>The codec contract\<close>

locale codec =
  fixes enc :: "'a \<Rightarrow> bytes"
    and dec :: "bytes \<Rightarrow> ('a, ltx_error) result"
    and width :: nat
    and valid :: "'a \<Rightarrow> bool"
  assumes enc_length: "length (enc x) = width"
    and dec_enc: "valid x \<Longrightarrow> dec (enc x @ rest) = Ok x"
    and dec_short: "length b < width \<Longrightarrow> dec b = Err (ShortBuffer width (length b))"
begin

lemma dec_enc_exact: "valid x \<Longrightarrow> dec (enc x) = Ok x"
  using dec_enc [of x "[]"] by simp

lemma enc_inj: "valid x \<Longrightarrow> valid y \<Longrightarrow> enc x = enc y \<Longrightarrow> x = y"
  by (metis dec_enc_exact result.inject(1))

lemma dec_slice: "valid x \<Longrightarrow> a = length pre \<Longrightarrow> dec (drop a (pre @ enc x @ rest)) = Ok x"
  by (simp add: dec_enc)

lemma dec_Ok_length: "dec b = Ok x \<Longrightarrow> width \<le> length b"
  by (metis dec_short not_le result.distinct(1))

end

lemma header_decode_encode:
  "is_valid_page_size (h_page_size h) \<Longrightarrow> header_decode (header_encode h @ rest) = Ok h"
  by (simp add: header_decode_def header_encode_layout res_simps)

lemma page_header_decode_encode: "page_header_decode (page_header_encode ph @ rest) = Ok ph"
  by (simp add: page_header_decode_def page_header_encode_layout res_simps)

lemma trailer_decode_encode: "trailer_decode (trailer_encode t @ rest) = Ok t"
  by (simp add: trailer_decode_def trailer_encode_layout res_simps)

interpretation header_codec: codec header_encode header_decode 100
    "\<lambda>h. is_valid_page_size (h_page_size h)"
  by unfold_locales (simp_all add: header_decode_encode, simp add: header_decode_def)

interpretation page_header_codec: codec page_header_encode page_header_decode 6 "\<lambda>_. True"
  by unfold_locales (simp_all add: page_header_decode_encode, simp add: page_header_decode_def)

interpretation trailer_codec: codec trailer_encode trailer_decode 16 "\<lambda>_. True"
  by unfold_locales (simp_all add: trailer_decode_encode, simp add: trailer_decode_def)

section \<open>What the header codec guarantees\<close>

lemma header_decode_Ok:
  assumes "header_decode b = Ok h"
  shows "is_valid_page_size (h_page_size h) \<and> 100 \<le> length b \<and>
    take 80 b = take 80 (header_encode h)"
proof -
  have len: "100 \<le> length b"
    using assms by (simp add: header_decode_def split: if_splits)
  have split80: "take 80 b = take 4 b @ take 4 (drop 4 b) @ take 4 (drop 8 b) @ take 4 (drop 12 b) @
      take 8 (drop 16 b) @ take 8 (drop 24 b) @ take 8 (drop 32 b) @ take 8 (drop 40 b) @
      take 8 (drop 48 b) @ take 8 (drop 56 b) @ take 4 (drop 64 b) @ take 4 (drop 68 b) @
      take 8 (drop 72 b)"
    using take_add [of 72 8 b] take_add [of 68 4 b] take_add [of 64 4 b] take_add [of 56 8 b]
      take_add [of 48 8 b] take_add [of 40 8 b] take_add [of 32 8 b] take_add [of 24 8 b]
      take_add [of 16 8 b] take_add [of 12 4 b] take_add [of 8 4 b] take_add [of 4 4 b]
    by simp
  from assms len show ?thesis
    unfolding split80
    by (auto simp: header_decode_def header_encode_layout res_simps be_from_be split: if_splits)
qed

text \<open>
  Decoding an encoded header gives the header back, bit for bit in every field, exactly when
  its page size is one SQLite allows; any other page size is reported and never decoded.
\<close>

theorem header_roundtrip:
  "header_decode (header_encode h @ rest) =
    (if is_valid_page_size (h_page_size h) then Ok h else Err (InvalidPageSize (h_page_size h)))"
  by (simp add: header_decode_encode)
    (simp add: header_decode_def header_encode_layout res_simps)

lemma lock_pgno_values:
  "lock_pgno 512 = 2097153" "lock_pgno 1024 = 1048577" "lock_pgno 2048 = 524289"
  "lock_pgno 4096 = 262145" "lock_pgno 8192 = 131073" "lock_pgno 16384 = 65537"
  "lock_pgno 32768 = 32769" "lock_pgno 65536 = 16385"
  by (simp_all add: lock_pgno_def PENDING_BYTE_def)

text \<open>
  For every page size SQLite allows, the lock page is the page whose bytes contain the
  pending byte at 1 GiB, and it is never one of the first 16384 pages.
\<close>

theorem lock_page_contains_pending_byte:
  assumes "is_valid_page_size ps"
  shows "(unat (lock_pgno ps) - 1) * unat ps \<le> unat PENDING_BYTE \<and>
    unat PENDING_BYTE < unat (lock_pgno ps) * unat ps \<and> 16384 < unat (lock_pgno ps)"
  using assms by (auto simp: valid_page_sizes lock_pgno_values PENDING_BYTE_def)

theorem lock_page_contains_pending_byte_witness:
  "(unat (lock_pgno 4096) - 1) * unat (4096 :: u32) \<le> unat PENDING_BYTE \<and>
    unat PENDING_BYTE < unat (lock_pgno 4096) * unat (4096 :: u32) \<and> 16384 < unat (lock_pgno 4096)"
proof -
  have "is_valid_page_size 4096"
    by (simp add: valid_page_sizes)
  then show ?thesis by (rule lock_page_contains_pending_byte)
qed

lemma lock_pgno_gt:
  "is_valid_page_size ps \<Longrightarrow> 16384 < unat (lock_pgno ps) \<and> unat (lock_pgno ps) \<le> 2097153"
  by (auto simp: valid_page_sizes lock_pgno_values)

end
