(* ===== verification/Uvarint.thy ===== *)
theory Uvarint
  imports LtxFormat
begin

text \<open>
  Go-compatible unsigned varints: \<^verbatim>\<open>append_uvarint\<close> of \<^verbatim>\<open>src/ltx/encoder.rs\<close> and
  \<^verbatim>\<open>read_uvarint\<close> of \<^verbatim>\<open>src/ltx/decoder.rs\<close>, their round trip, and what the reader does
  on input the writer never produces.
\<close>

lemma unat_drop_bit7: "unat (drop_bit 7 (v :: u64)) = unat v div 128"
  by (simp add: drop_bit_eq_div unat_div)

text \<open>The bytes \<^verbatim>\<open>append_uvarint\<close> pushes for \<open>v\<close>.\<close>

function append_uvarint :: "u64 \<Rightarrow> bytes" where
  "append_uvarint v =
    (if v \<ge> 0x80 then (ucast v OR 0x80) # append_uvarint (drop_bit 7 v) else [ucast v])"
  by pat_completeness auto

termination
  by (relation "measure unat")
    (auto simp: unat_drop_bit7 word_le_nat_alt intro!: div_less_dividend)

declare append_uvarint.simps [simp del]

text \<open>
  The loop of \<^verbatim>\<open>read_uvarint\<close>: \<open>got\<close> is the length of the whole buffer, \<open>i\<close> the bytes consumed.
  A shift by 64 or more uses the low six bits of the amount (the shift counter is a \<^verbatim>\<open>u32\<close>, whose
  own wrap-around does not change those bits).
\<close>

fun read_uvarint_loop ::
  "nat \<Rightarrow> bytes \<Rightarrow> nat \<Rightarrow> nat \<Rightarrow> u64 \<Rightarrow> (u64 \<times> bytes, ltx_error) result" where
  "read_uvarint_loop got [] i shift val = Err (ShortBuffer (i + 1) got)"
| "read_uvarint_loop got (byte # b) i shift val =
    (if byte < 0x80
     then Ok (val OR push_bit (shift mod 64) (ucast byte), b)
     else read_uvarint_loop got b (i + 1) (shift + 7)
            (val OR push_bit (shift mod 64) (ucast (byte AND 0x7f))))"

definition read_uvarint :: "bytes \<Rightarrow> (u64 \<times> bytes, ltx_error) result" where
  "read_uvarint b = read_uvarint_loop (length b) b 0 0 0"

lemma read_uvarint_loop_shorter:
  "read_uvarint_loop got b i s val = Ok (v, rest) \<Longrightarrow> length rest < length b"
  by (induction got b i s val rule: read_uvarint_loop.induct) (auto split: if_splits)

lemma read_uvarint_shorter: "read_uvarint b = Ok (v, rest) \<Longrightarrow> length rest < length b"
  by (auto simp: read_uvarint_def dest: read_uvarint_loop_shorter)

section \<open>Round trip\<close>

lemma length_append_uvarint: "length (append_uvarint v) \<le> 10 \<and> append_uvarint v \<noteq> []"
proof -
  have "unat v < 2 ^ (7 * Suc k) \<Longrightarrow> length (append_uvarint v) \<le> Suc k" for k and v :: u64
  proof (induction k arbitrary: v)
    case 0
    then show ?case
      by (subst append_uvarint.simps) (simp add: word_le_nat_alt)
  next
    case (Suc k)
    then have "unat (drop_bit 7 v) < 2 ^ (7 * Suc k)"
      by (simp add: unat_drop_bit7 less_mult_imp_div_less power_add)
    then show ?case
      using Suc.IH [of "drop_bit 7 v"] by (subst append_uvarint.simps) simp
  qed
  from this [of v 9] have "length (append_uvarint v) \<le> 10"
    using unsigned_less [of v, where 'a = nat] by simp
  moreover have "append_uvarint v \<noteq> []"
    by (subst append_uvarint.simps) simp
  ultimately show ?thesis by simp
qed

lemma less_128_iff:
  "(v :: u64) < 0x80 \<longleftrightarrow> take_bit 7 v = v"
  "(b :: u8) < 0x80 \<longleftrightarrow> take_bit 7 b = b"
  using word_less_power_iff [of 7 v] word_less_power_iff [of 7 b] by simp_all

lemma uvarint_last_byte:
  assumes "(v :: u64) < 0x80"
  shows "(ucast v :: u8) < 0x80" and "(ucast (ucast v :: u8) :: u64) = v"
proof -
  have bit: "bit v i \<Longrightarrow> i < 7" for i
    using assms unfolding less_128_iff by (metis bit_take_bit_iff)
  show "(ucast v :: u8) < 0x80"
    unfolding less_128_iff by (rule bit_word_eqI) (auto simp: bit_simps dest: bit)
  show "(ucast (ucast v :: u8) :: u64) = v"
    by (rule bit_word_eqI) (auto simp: bit_simps dest: bit)
qed

lemma uvarint_more_byte:
  fixes v :: u64
  shows "\<not> (ucast v OR 0x80 :: u8) < 0x80"
    and "(ucast ((ucast v OR 0x80 :: u8) AND 0x7f) :: u64) = take_bit 7 v"
proof -
  have "(0x80 :: u8) = push_bit 7 1"
    by simp
  then have b80: "bit (0x80 :: u8) i \<longleftrightarrow> i = 7" for i
    by (simp only: bit_push_bit_iff bit_1_iff) auto
  have b7f: "(0x7f :: u8) = mask 7"
    by (simp add: mask_eq_exp_minus_1)
  show "\<not> (ucast v OR 0x80 :: u8) < 0x80"
  proof
    assume "(ucast v OR 0x80 :: u8) < 0x80"
    then have "bit (ucast v OR 0x80 :: u8) 7 = bit (take_bit 7 (ucast v OR 0x80 :: u8)) 7"
      unfolding less_128_iff by simp
    then show False
      by (simp add: bit_or_iff bit_take_bit_iff b80)
  qed
  show "(ucast ((ucast v OR 0x80 :: u8) AND 0x7f) :: u64) = take_bit 7 v"
    unfolding b7f
    by (rule bit_word_eqI)
      (auto simp only: bit_unsigned_iff bit_and_iff bit_or_iff bit_take_bit_iff b80 bit_mask_iff
        possible_bit_word len_bit0 len_num1)
qed

lemma read_uvarint_loop_append:
  assumes "s < 64" and "unat v < 2 ^ (64 - s)"
  shows "read_uvarint_loop got (append_uvarint v @ rest) i s acc = Ok (acc OR push_bit s v, rest)"
  using assms
proof (induction v arbitrary: i s acc rule: append_uvarint.induct)
  case (1 v)
  show ?case
  proof (cases "v \<ge> 0x80")
    case False
    then have "append_uvarint v = [ucast v]" and "v < 0x80"
      by (simp_all add: append_uvarint.simps [of v])
    then show ?thesis
      using 1(2) uvarint_last_byte [of v] by simp
  next
    case True
    have room: "s + 7 < 64"
    proof (rule ccontr)
      assume "\<not> s + 7 < 64"
      then have "(2 :: nat) ^ (64 - s) \<le> 2 ^ 7"
        by (intro power_increasing) auto
      with 1(3) True show False by (simp add: word_le_nat_alt)
    qed
    then have "64 - s = 7 + (64 - (s + 7))"
      by simp
    then have "(2 :: nat) ^ (64 - s) = 2 ^ 7 * 2 ^ (64 - (s + 7))"
      by (metis power_add)
    then have small: "unat (drop_bit 7 v) < 2 ^ (64 - (s + 7))"
      using 1(3) by (simp add: unat_drop_bit7 less_mult_imp_div_less mult.commute)
    have "take_bit 7 v OR push_bit 7 (drop_bit 7 v) = v"
    proof (rule bit_word_eqI)
      fix n
      show "bit (take_bit 7 v OR push_bit 7 (drop_bit 7 v)) n = bit v n" if "n < LENGTH(64)"
        using that by (cases "n < 7") (auto simp: bit_simps)
    qed
    then have "push_bit s (take_bit 7 v) OR push_bit (s + 7) (drop_bit 7 v) = push_bit s v"
      by (metis push_bit_or push_bit_push_bit)
    then have "acc OR push_bit s (take_bit 7 v) OR push_bit (s + 7) (drop_bit 7 v) = acc OR push_bit s v"
      by (simp only: or.assoc)
    with 1(1) [OF True room small] True 1(2) show ?thesis
      by (subst append_uvarint.simps) (simp add: uvarint_more_byte or.assoc)
  qed
qed

lemma read_append_uvarint: "read_uvarint (append_uvarint v @ rest) = Ok (v, rest)"
  using read_uvarint_loop_append [of 0 v "length (append_uvarint v @ rest)" rest 0 0]
    unsigned_less [of v, where 'a = nat]
  by (simp add: read_uvarint_def)

text \<open>
  Reading back what \<^verbatim>\<open>append_uvarint\<close> wrote gives the same 64-bit value and leaves exactly
  the bytes that follow it, for every value.
\<close>

theorem uvarint_roundtrip:
  "read_uvarint (append_uvarint v @ rest) = Ok (v, rest) \<and> length (append_uvarint v) \<le> 10"
  by (simp add: read_append_uvarint length_append_uvarint)

lemma append_uvarint_0: "append_uvarint 0 = [0]"
  by (subst append_uvarint.simps) simp

text \<open>
  A varint longer than ten bytes is not rejected: the shift amount wraps and the extra byte is
  folded into the low bits. (Go's decoder reports an overflow for the same bytes.)
\<close>

lemma overlong_uvarint_accepted: "read_uvarint [0x80, 0x80, 0x80, 0x80, 0x80, 0x80, 0x80, 0x80, 0x80, 0x80, 1] = Ok (64, [])"
  by (simp add: read_uvarint_def)

end
