(* ===== verification/LtxEncoder.thy ===== *)
theory LtxEncoder
  imports Uvarint
begin

text \<open>
  The streaming LTX writer (\<^verbatim>\<open>src/ltx/encoder.rs\<close>). The underlying writer is a growing byte
  vector, so a write never fails; the LZ4 frame compressor of the \<^verbatim>\<open>lz4_flex\<close> crate is the
  parameter \<open>lz4c\<close>. The lemmas compute the bytes a successful run writes and characterise the
  runs that succeed.
\<close>

datatype enc_state = EHeader | EPage | EClosed

record encoder =
  e_w :: bytes
  e_state :: enc_state
  e_hash :: hasher
  e_n :: u64
  e_header :: "header option"
  e_post_apply :: checksum
  e_index :: "(u32 \<times> u64 \<times> u64) list"
  e_prev_pgno :: u32

definition encoder_new :: encoder where
  "encoder_new = \<lparr>e_w = [], e_state = EHeader, e_hash = hasher_new, e_n = 0, e_header = None,
     e_post_apply = checksum_zero, e_index = [], e_prev_pgno = 0\<rparr>"

definition write_hashed :: "encoder \<Rightarrow> bytes \<Rightarrow> encoder" where
  "write_hashed e b = e\<lparr>e_w := e_w e @ b, e_hash := hasher_update (e_hash e) b,
     e_n := e_n e + of_nat (length b)\<rparr>"

definition encode_header :: "encoder \<Rightarrow> header \<Rightarrow> (encoder, ltx_error) result" where
  "encode_header e h =
    rbind (header_validate h) (\<lambda>_.
    let e = write_hashed e (header_encode h)
    in Ok (e\<lparr>e_header := Some h, e_state := EPage\<rparr>))"

definition set_post_apply_checksum :: "encoder \<Rightarrow> checksum \<Rightarrow> encoder" where
  "set_post_apply_checksum e c = e\<lparr>e_post_apply := c\<rparr>"

definition encode_page ::
  "(bytes \<Rightarrow> bytes) \<Rightarrow> encoder \<Rightarrow> u32 \<Rightarrow> bytes \<Rightarrow> (encoder, ltx_error) result" where
  "encode_page lz4c e pgno data =
    (case e_header e of None \<Rightarrow> Panic | Some h \<Rightarrow>
     if length data \<noteq> unat (h_page_size h) then Err (WrongPageLength (h_page_size h) (length data))
     else if pgno = 0 then Err ZeroPageNumber
     else if pgno > h_commit h then Err (PageBeyondCommit pgno (h_commit h))
     else let lock = lock_pgno (h_page_size h) in
     if pgno = lock then Err (LockPageEncoded pgno)
     else if header_is_snapshot h \<and>
       \<not> (if e_prev_pgno e = 0 then pgno = 1
          else if e_prev_pgno e = lock - 1 then pgno = e_prev_pgno e + 2
          else pgno = e_prev_pgno e + 1)
     then Err (PageOutOfOrder (e_prev_pgno e) pgno)
     else if \<not> header_is_snapshot h \<and> pgno \<le> e_prev_pgno e
     then Err (PageOutOfOrder (e_prev_pgno e) pgno)
     else
       let offset = e_n e;
           compressed = lz4c data;
           e = write_hashed e (page_header_encode \<lparr>ph_pgno = pgno, ph_flags = 0\<rparr>);
           e = e\<lparr>e_w := e_w e @ compressed, e_n := e_n e + of_nat (length compressed),
             e_hash := hasher_update (e_hash e) data\<rparr>
       in Ok (e\<lparr>e_index := e_index e @ [(pgno, offset, e_n e - offset)], e_prev_pgno := pgno\<rparr>))"

definition index_entry_bytes :: "u32 \<times> u64 \<times> u64 \<Rightarrow> bytes" where
  "index_entry_bytes ent = (case ent of (pgno, offset, sz) \<Rightarrow>
     append_uvarint (ucast pgno) @ append_uvarint offset @ append_uvarint sz)"

definition encode_page_index :: "encoder \<Rightarrow> encoder" where
  "encode_page_index e =
    (let index = sort_key fst (e_index e);
         e = e\<lparr>e_index := []\<rparr>;
         index_start = e_n e;
         e = foldl (\<lambda>e ent. write_hashed e (index_entry_bytes ent)) e index;
         e = write_hashed e (append_uvarint 0);
         index_len = e_n e - index_start
     in write_hashed e (be64 index_len))"

definition encoder_finish :: "encoder \<Rightarrow> encoder \<times> trailer" where
  "encoder_finish e =
    (let e = write_hashed e (replicate PAGE_HEADER_SIZE 0);
         e = encode_page_index e;
         post = e_post_apply e;
         e = e\<lparr>e_hash := hasher_update (e_hash e) (be64 (cksum post))\<rparr>;
         trailer = \<lparr>t_post_apply_checksum = post, t_file_checksum = hasher_checksum (e_hash e)\<rparr>
     in (e\<lparr>e_w := e_w e @ trailer_encode trailer, e_n := e_n e + of_nat TRAILER_SIZE,
          e_state := EClosed\<rparr>, trailer))"

text \<open>
  How every caller drives the encoder: header, the pages in order, the post-apply checksum where
  one is set, \<^verbatim>\<open>finish\<close>. The result is the written bytes and the trailer.
\<close>

definition encode_pages ::
  "(bytes \<Rightarrow> bytes) \<Rightarrow> encoder \<Rightarrow> (u32 \<times> bytes) list \<Rightarrow> (encoder, ltx_error) result" where
  "encode_pages lz4c = rfoldM (\<lambda>e pd. encode_page lz4c e (fst pd) (snd pd))"

definition encode_file ::
  "(bytes \<Rightarrow> bytes) \<Rightarrow> header \<Rightarrow> (u32 \<times> bytes) list \<Rightarrow> checksum
    \<Rightarrow> (bytes \<times> trailer, ltx_error) result" where
  "encode_file lz4c h pds post =
    rbind (encode_header encoder_new h) (\<lambda>e.
    rbind (encode_pages lz4c e pds) (\<lambda>e.
    case encoder_finish (set_post_apply_checksum e post) of (e, t) \<Rightarrow> Ok (e_w e, t)))"

text \<open>\<^verbatim>\<open>write_snapshot\<close>: a whole database image as one snapshot file.\<close>

definition write_snapshot ::
  "(bytes \<Rightarrow> bytes) \<Rightarrow> u32 \<Rightarrow> bytes \<Rightarrow> u64 \<Rightarrow> u64 \<Rightarrow> (bytes \<times> trailer, ltx_error) result" where
  "write_snapshot lz4c page_size db max_txid timestamp_ms =
    (if page_size = 0 \<or> length db mod unat page_size \<noteq> 0
     then Err (WrongPageLength page_size (length db)) else
     let commit = of_nat (length db div unat page_size) :: u32;
         h = \<lparr>h_flags = 0, h_page_size = page_size, h_commit = commit, h_min_txid = 1,
           h_max_txid = max_txid, h_timestamp = timestamp_ms,
           h_pre_apply_checksum = checksum_zero, h_wal_offset = 0, h_wal_size = 0,
           h_wal_salt1 = 0, h_wal_salt2 = 0, h_node_id = 0\<rparr>;
         lock = lock_pgno page_size;
         ps = unat page_size
     in rbind (encode_header encoder_new h) (\<lambda>enc.
        rbind (rfoldM (\<lambda>(enc, post) pgno.
                 if of_nat pgno = lock then Ok (enc, post) else
                 let start = (pgno - 1) * ps in
                 rbind (subslice start (start + ps) db) (\<lambda>data.
                 rbind (encode_page lz4c enc (of_nat pgno) data) (\<lambda>enc.
                 Ok (enc, rolling_add post (of_nat pgno, data)))))
               (enc, checksum_zero) [1..<Suc (unat commit)])
          (\<lambda>(enc, post).
            case encoder_finish (set_post_apply_checksum enc post) of (e, t) \<Rightarrow> Ok (e_w e, t))))"

section \<open>Which pages the encoder accepts\<close>

definition next_snapshot_pgno :: "header \<Rightarrow> u32 \<Rightarrow> u32" where
  "next_snapshot_pgno h prev =
    (if prev = 0 then 1 else if prev = lock_pgno (h_page_size h) - 1 then prev + 2 else prev + 1)"

definition accepts :: "header \<Rightarrow> u32 \<Rightarrow> u32 \<times> bytes \<Rightarrow> bool" where
  "accepts h prev pd \<longleftrightarrow>
    length (snd pd) = unat (h_page_size h) \<and> fst pd \<noteq> 0 \<and> fst pd \<le> h_commit h \<and>
    fst pd \<noteq> lock_pgno (h_page_size h) \<and>
    (if header_is_snapshot h then fst pd = next_snapshot_pgno h prev else prev < fst pd)"

fun accepts_all :: "header \<Rightarrow> u32 \<Rightarrow> (u32 \<times> bytes) list \<Rightarrow> bool" where
  "accepts_all h prev [] = True"
| "accepts_all h prev (pd # pds) = (accepts h prev pd \<and> accepts_all h (fst pd) pds)"

section \<open>The bytes a run writes\<close>

definition frame :: "(bytes \<Rightarrow> bytes) \<Rightarrow> u32 \<times> bytes \<Rightarrow> bytes" where
  "frame lz4c pd = page_header_encode \<lparr>ph_pgno = fst pd, ph_flags = 0\<rparr> @ lz4c (snd pd)"

definition hashed_frame :: "u32 \<times> bytes \<Rightarrow> bytes" where
  "hashed_frame pd = page_header_encode \<lparr>ph_pgno = fst pd, ph_flags = 0\<rparr> @ snd pd"

fun index_from ::
  "(bytes \<Rightarrow> bytes) \<Rightarrow> u64 \<Rightarrow> (u32 \<times> bytes) list \<Rightarrow> (u32 \<times> u64 \<times> u64) list" where
  "index_from lz4c off [] = []"
| "index_from lz4c off (pd # pds) =
     (fst pd, off, of_nat (length (frame lz4c pd))) #
     index_from lz4c (off + of_nat (length (frame lz4c pd))) pds"

definition index_bytes :: "(u32 \<times> u64 \<times> u64) list \<Rightarrow> bytes" where
  "index_bytes ix = concat (map index_entry_bytes ix) @ append_uvarint 0"

lemma encode_page_run:
  assumes "e_header e = Some h"
  shows "encode_page lz4c e p d = Ok e' \<longleftrightarrow>
    accepts h (e_prev_pgno e) (p, d) \<and>
    e' = e\<lparr>e_w := e_w e @ frame lz4c (p, d), e_hash := hasher_update (e_hash e) (hashed_frame (p, d)),
      e_n := e_n e + of_nat (length (frame lz4c (p, d))),
      e_index := e_index e @ [(p, e_n e, of_nat (length (frame lz4c (p, d))))], e_prev_pgno := p\<rparr>"
  using assms
  by (auto simp: encode_page_def accepts_def next_snapshot_pgno_def Let_def write_hashed_def
      frame_def hashed_frame_def hasher_update_append not_le not_less algebra_simps)

text \<open>The encoder after the header and the pages \<open>pds\<close>.\<close>

definition after_pages :: "(bytes \<Rightarrow> bytes) \<Rightarrow> encoder \<Rightarrow> (u32 \<times> bytes) list \<Rightarrow> encoder" where
  "after_pages lz4c e pds =
    e\<lparr>e_w := e_w e @ concat (map (frame lz4c) pds),
      e_hash := hasher_update (e_hash e) (concat (map hashed_frame pds)),
      e_n := e_n e + of_nat (length (concat (map (frame lz4c) pds))),
      e_index := e_index e @ index_from lz4c (e_n e) pds,
      e_prev_pgno := (if pds = [] then e_prev_pgno e else fst (last pds))\<rparr>"

lemma encode_pages_run:
  assumes "e_header e = Some h"
  shows "encode_pages lz4c e pds = Ok e' \<longleftrightarrow>
    accepts_all h (e_prev_pgno e) pds \<and> e' = after_pages lz4c e pds"
  using assms
proof (induction pds arbitrary: e)
  case Nil
  then show ?case by (auto simp: encode_pages_def after_pages_def)
next
  case (Cons pd pds)
  obtain p d where pd: "pd = (p, d)" by (cases pd)
  let ?e1 = "e\<lparr>e_w := e_w e @ frame lz4c (p, d), e_hash := hasher_update (e_hash e) (hashed_frame (p, d)),
      e_n := e_n e + of_nat (length (frame lz4c (p, d))),
      e_index := e_index e @ [(p, e_n e, of_nat (length (frame lz4c (p, d))))], e_prev_pgno := p\<rparr>"
  have step: "encode_pages lz4c e (pd # pds) = Ok e' \<longleftrightarrow>
      accepts h (e_prev_pgno e) (p, d) \<and> encode_pages lz4c ?e1 pds = Ok e'"
    using encode_page_run [OF Cons.prems, of lz4c p d]
    by (auto simp: encode_pages_def pd res_simps)
  have "after_pages lz4c ?e1 pds = after_pages lz4c e (pd # pds)"
    by (simp add: after_pages_def pd hasher_update_append)
  with Cons.IH [of ?e1] Cons.prems show ?case
    unfolding step by (auto simp: pd)
qed

lemma foldl_write_hashed:
  "foldl (\<lambda>e x. write_hashed e (f x)) e xs = write_hashed e (concat (map f xs))"
  by (induction xs arbitrary: e) (auto simp: write_hashed_def hasher_update_append)

lemma write_hashed_twice: "write_hashed (write_hashed e xs) ys = write_hashed e (xs @ ys)"
  by (simp add: write_hashed_def hasher_update_append)

lemma encode_page_index_run:
  "encode_page_index e =
    (let ib = index_bytes (sort_key fst (e_index e))
     in write_hashed (e\<lparr>e_index := []\<rparr>) (ib @ be64 (of_nat (length ib))))"
  by (simp add: encode_page_index_def Let_def foldl_write_hashed write_hashed_twice index_bytes_def)
    (simp add: write_hashed_def)

lemma encoder_finish_run:
  fixes e :: encoder
  defines "ib \<equiv> index_bytes (sort_key fst (e_index e))"
  defines "tail \<equiv> replicate 6 0 @ ib @ be64 (of_nat (length ib))"
  defines "t \<equiv> \<lparr>t_post_apply_checksum = e_post_apply e, t_file_checksum = hasher_checksum
    (hasher_update (e_hash e) (tail @ be64 (cksum (e_post_apply e))))\<rparr>"
  shows "e_w (fst (encoder_finish e)) = e_w e @ tail @ trailer_encode t"
    and "snd (encoder_finish e) = t"
  by (simp_all add: encoder_finish_def Let_def encode_page_index_run ib_def tail_def t_def
      write_hashed_def hasher_update_append)

lemma index_from_pgnos [simp]: "map fst (index_from lz4c off pds) = map fst pds"
  by (induction pds arbitrary: off) auto

lemma sort_key_id: "sorted (map f xs) \<Longrightarrow> sort_key f xs = xs"
  by (simp add: sort_key_id_if_sorted)

section \<open>Files\<close>

definition file_tail :: "(bytes \<Rightarrow> bytes) \<Rightarrow> (u32 \<times> bytes) list \<Rightarrow> bytes" where
  "file_tail lz4c pds =
    (let ib = index_bytes (index_from lz4c 100 pds)
     in replicate 6 0 @ ib @ be64 (of_nat (length ib)))"

definition file_trailer ::
  "(bytes \<Rightarrow> bytes) \<Rightarrow> header \<Rightarrow> (u32 \<times> bytes) list \<Rightarrow> checksum \<Rightarrow> trailer" where
  "file_trailer lz4c h pds post =
    \<lparr>t_post_apply_checksum = post, t_file_checksum = hasher_checksum (hasher_update hasher_new
      (header_encode h @ concat (map hashed_frame pds) @ file_tail lz4c pds @ be64 (cksum post)))\<rparr>"

definition file_bytes ::
  "(bytes \<Rightarrow> bytes) \<Rightarrow> header \<Rightarrow> (u32 \<times> bytes) list \<Rightarrow> checksum \<Rightarrow> bytes" where
  "file_bytes lz4c h pds post =
    header_encode h @ concat (map (frame lz4c) pds) @ file_tail lz4c pds @
    trailer_encode (file_trailer lz4c h pds post)"

lemma encode_header_run:
  "encode_header encoder_new h = Ok e \<longleftrightarrow> header_validate h = Ok () \<and>
    e = (write_hashed encoder_new (header_encode h))\<lparr>e_header := Some h, e_state := EPage\<rparr>"
  by (auto simp: encode_header_def res_simps Let_def)

lemma encode_file_sorted:
  assumes "sorted (map fst pds)"
  shows "encode_file lz4c h pds post = Ok r \<longleftrightarrow>
    header_validate h = Ok () \<and> accepts_all h 0 pds \<and>
    r = (file_bytes lz4c h pds post, file_trailer lz4c h pds post)"
proof -
  let ?e0 = "(write_hashed encoder_new (header_encode h))\<lparr>e_header := Some h, e_state := EPage\<rparr>"
  let ?e1 = "set_post_apply_checksum (after_pages lz4c ?e0 pds) post"
  have hd: "e_header ?e0 = Some h" and pv: "e_prev_pgno ?e0 = 0"
    by (simp_all add: write_hashed_def encoder_new_def)
  have ix: "sort_key fst (e_index ?e1) = index_from lz4c 100 pds"
    using assms by (simp add: set_post_apply_checksum_def after_pages_def write_hashed_def
        encoder_new_def sort_key_id)
  have fin: "(case encoder_finish ?e1 of (e, t) \<Rightarrow> (e_w e, t)) =
      (file_bytes lz4c h pds post, file_trailer lz4c h pds post)"
    using encoder_finish_run [of ?e1] unfolding ix
    by (auto simp: set_post_apply_checksum_def after_pages_def write_hashed_def encoder_new_def
        file_bytes_def file_trailer_def file_tail_def hasher_update_append Let_def split: prod.splits)
  show ?thesis
    unfolding encode_file_def
    by (simp add: res_simps encode_header_run encode_pages_run [OF hd] pv split: prod.splits)
      (use fin in \<open>auto split: prod.splits\<close>)
qed

lemma word_less_Suc: "(w :: 'w::len word) + 1 \<noteq> 0 \<Longrightarrow> w < w + 1"
  by (simp add: word_less_nat_alt unatSuc add.commute [of w])

lemma next_snapshot_pgno_gt:
  assumes "is_valid_page_size (h_page_size h)" and "next_snapshot_pgno h prev \<noteq> 0"
  shows "prev < next_snapshot_pgno h prev"
proof (cases "prev = lock_pgno (h_page_size h) - 1")
  case True
  then show ?thesis
    using assms by (auto simp: next_snapshot_pgno_def valid_page_sizes lock_pgno_values word_gt_0)
next
  case False
  then show ?thesis
    using assms by (auto simp: next_snapshot_pgno_def word_gt_0 intro: word_less_Suc)
qed

lemma accepts_less:
  "is_valid_page_size (h_page_size h) \<Longrightarrow> accepts h prev pd \<Longrightarrow> prev < fst pd"
  using next_snapshot_pgno_gt [of h prev] by (auto simp: accepts_def split: if_splits)

lemma accepts_all_ascending:
  assumes "is_valid_page_size (h_page_size h)" and "accepts_all h prev pds"
  shows "sorted_wrt (<) (prev # map fst pds)"
  using assms(2)
proof (induction pds arbitrary: prev)
  case Nil
  then show ?case by simp
next
  case (Cons pd pds)
  then have "prev < fst pd" and "sorted_wrt (<) (fst pd # map fst pds)"
    using accepts_less [OF assms(1)] by auto
  then show ?case by (auto intro: less_trans)
qed

lemma header_validate_page_size: "header_validate h = Ok () \<Longrightarrow> is_valid_page_size (h_page_size h)"
  by (simp add: header_validate_def split: if_splits)

lemma accepts_all_sorted:
  "header_validate h = Ok () \<Longrightarrow> accepts_all h prev pds \<Longrightarrow> sorted (map fst pds) \<and> distinct (map fst pds)"
  using accepts_all_ascending [of h prev pds]
  by (auto dest!: header_validate_page_size simp: strict_sorted_iff)

lemma encode_file_accepts:
  assumes "encode_file lz4c h pds post = Ok r"
  shows "header_validate h = Ok () \<and> accepts_all h 0 pds"
proof -
  let ?e0 = "(write_hashed encoder_new (header_encode h))\<lparr>e_header := Some h, e_state := EPage\<rparr>"
  have "e_header ?e0 = Some h" and "e_prev_pgno ?e0 = 0"
    by (simp_all add: write_hashed_def encoder_new_def)
  then show ?thesis
    using assms by (auto simp: encode_file_def res_simps encode_header_run encode_pages_run)
qed

lemma encode_file_iff:
  "encode_file lz4c h pds post = Ok r \<longleftrightarrow>
    header_validate h = Ok () \<and> accepts_all h 0 pds \<and>
    r = (file_bytes lz4c h pds post, file_trailer lz4c h pds post)"
  using encode_file_accepts [of lz4c h pds post r] accepts_all_sorted [of h 0 pds]
    encode_file_sorted [of pds lz4c h post r]
  by blast

text \<open>
  C30: encoding succeeds exactly for a valid header and pages of the right size in the order the
  format prescribes (ascending; contiguous from 1 and skipping the lock page in a snapshot), and
  then the bytes are the header, one frame per page, the zero terminator, the page index with its
  length, and the trailer whose checksum covers the uncompressed data.
\<close>

theorem encode_file_layout:
  "encode_file lz4c h pds post = Ok r \<longleftrightarrow>
    header_validate h = Ok () \<and> accepts_all h 0 pds \<and>
    r = (file_bytes lz4c h pds post, file_trailer lz4c h pds post)"
  by (rule encode_file_iff)

lemma accepts_all_sizes:
  "accepts_all h prev pds \<Longrightarrow> pd \<in> set pds \<Longrightarrow>
    length (snd pd) = unat (h_page_size h) \<and> fst pd \<noteq> 0 \<and> fst pd \<le> h_commit h \<and>
    fst pd \<noteq> lock_pgno (h_page_size h)"
  by (induction pds arbitrary: prev) (auto simp: accepts_def)

lemma accepts_all_incremental:
  assumes "\<not> header_is_snapshot h"
  shows "accepts_all h prev pds \<longleftrightarrow> sorted_wrt (<) (prev # map fst pds) \<and>
    (\<forall>pd \<in> set pds. length (snd pd) = unat (h_page_size h) \<and> fst pd \<noteq> 0 \<and>
      fst pd \<le> h_commit h \<and> fst pd \<noteq> lock_pgno (h_page_size h))"
  using assms
proof (induction pds arbitrary: prev)
  case Nil
  then show ?case by simp
next
  case (Cons pd pds)
  then show ?case by (auto simp: accepts_def intro: less_trans)
qed

lemma encode_file_bytes:
  "encode_file lz4c h pds post = Ok (b, t) \<Longrightarrow> b = file_bytes lz4c h pds post"
  by (simp add: encode_file_iff)

section \<open>Complete snapshots\<close>

text \<open>
  The pages of a snapshot with contents \<open>D\<close>: every page number of \<open>pgnos\<close> but the lock page's; and
  page \<open>i\<close> of a database image.
\<close>

definition full_pages :: "u32 \<Rightarrow> (nat \<Rightarrow> bytes) \<Rightarrow> nat list \<Rightarrow> (u32 \<times> bytes) list" where
  "full_pages ps D pgnos =
    map (\<lambda>i. (of_nat i, D i)) (filter (\<lambda>i. (of_nat i :: u32) \<noteq> lock_pgno ps) pgnos)"

definition snapshot_pgnos :: "header \<Rightarrow> nat list" where
  "snapshot_pgnos h = [1..<Suc (unat (h_commit h))]"

definition page_of :: "nat \<Rightarrow> bytes \<Rightarrow> nat \<Rightarrow> bytes" where
  "page_of ps db i = take ps (drop ((i - 1) * ps) db)"

lemma page_of_copy_at:
  assumes "length src = ps" and "k * ps \<le> length db" and "0 < i" and "0 < k"
  shows "page_of ps (copy_at ((k - 1) * ps) src db) i = (if i = k then src else page_of ps db i)"
proof -
  have fits: "(k - 1) * ps + ps \<le> length db"
    using assms(2,4) by (cases k) auto
  show ?thesis
  proof (cases i k rule: linorder_cases)
    case less
    then obtain m where k: "k - 1 = i + m"
      by (metis Suc_pred' assms(4) less_Suc_eq_le nat_le_iff_add)
    have "(i - 1) * ps + ps = i * ps"
      using assms(3) by (cases i) auto
    then have "(i - 1) * ps + ps \<le> (k - 1) * ps"
      unfolding k by (simp add: add_mult_distrib)
    moreover from this have "ps \<le> (k - 1) * ps - (i - 1) * ps"
      by linarith
    ultimately have "take ps (drop ((i - 1) * ps) (take ((k - 1) * ps) db)) = take ps (drop ((i - 1) * ps) db)"
      by (simp only: drop_take take_take min_absorb1)
    with less fits \<open>(i - 1) * ps + ps \<le> (k - 1) * ps\<close> show ?thesis
      by (simp add: page_of_def copy_at_def assms(1))
  next
    case equal
    with fits show ?thesis
      by (simp add: page_of_def copy_at_def assms(1))
  next
    case greater
    then have le: "(k - 1) * ps + ps \<le> (i - 1) * ps"
      using assms(4) by (cases k; cases i) (auto simp flip: mult_Suc simp: add.commute [of _ ps] intro: mult_le_mono1)
    then obtain c where c: "(i - 1) * ps = (k - 1) * ps + ps + c"
      using le_Suc_ex by blast
    have "drop ((i - 1) * ps) (copy_at ((k - 1) * ps) src db) = drop ((i - 1) * ps) db"
      unfolding c using fits by (simp add: copy_at_def assms(1) add.commute add.left_commute)
    with greater show ?thesis
      by (simp add: page_of_def)
  qed
qed

lemma full_pages_Cons:
  "full_pages ps D (i # pgnos) = (if (of_nat i :: u32) = lock_pgno ps then full_pages ps D pgnos
    else (of_nat i, D i) # full_pages ps D pgnos)"
  by (simp add: full_pages_def)

lemma full_pages_Nil [simp]: "full_pages ps D [] = []"
  by (simp add: full_pages_def)

lemma accepts_all_full_from:
  assumes ps: "is_valid_page_size (h_page_size h)" and snap: "header_is_snapshot h"
    and "k + m \<le> Suc (unat (h_commit h))" and "0 < k"
    and "\<forall>i. length (D i) = unat (h_page_size h)"
    and prev: "prev = (if (of_nat k :: u32) = lock_pgno (h_page_size h) + 1
      then lock_pgno (h_page_size h) - 1 else of_nat k - 1)"
  shows "accepts_all h prev (full_pages (h_page_size h) D [k..<k + m])"
  using assms(3,4,6)
proof (induction m arbitrary: k prev)
  case 0
  then show ?case by simp
next
  case (Suc m)
  let ?lock = "lock_pgno (h_page_size h)"
  have bound: "k \<le> unat (h_commit h)" "k < 2 ^ 32"
    using Suc.prems(1) unsigned_less [of "h_commit h", where 'a = nat] by auto
  have list: "[k..<k + Suc m] = k # [Suc k..<Suc k + m]"
    by (simp add: upt_rec)
  have lock: "2 \<le> ?lock" "?lock < 2 ^ 31"
    using ps by (auto simp: valid_page_sizes lock_pgno_values)
  have k: "unat (of_nat k :: u32) = k"
    using bound by (simp add: unsigned_of_nat take_bit_nat_eq_self)
  have k0: "(of_nat k :: u32) \<noteq> 0" and le: "(of_nat k :: u32) \<le> h_commit h"
    using bound Suc.prems(2) k by (auto simp: word_le_nat_alt word_unat_eq_iff)
  have ne: "?lock - 1 \<noteq> 0" "?lock + 1 \<noteq> 0" "?lock + 1 \<noteq> ?lock" "?lock - 1 + 2 = ?lock + 1"
    using ps by (auto simp: valid_page_sizes lock_pgno_values)
  note IH = Suc.IH [of "Suc k", OF _ _ refl]
  show ?case
  proof (cases "(of_nat k :: u32) = ?lock")
    case True
    then have "prev = ?lock - 1"
      using Suc.prems(3) ne by auto
    then show ?thesis
      using IH Suc.prems(1) True unfolding list
      by (simp add: full_pages_Cons add.commute del: upt_Suc)
  next
    case False
    have acc: "accepts h prev (of_nat k, D k)"
      using False k0 le assms(5) snap Suc.prems(3) ne
      by (auto simp: accepts_def next_snapshot_pgno_def)
    have "(of_nat (Suc k) :: u32) = ?lock + 1 \<longleftrightarrow> of_nat k = ?lock"
      by (auto simp: add.commute)
    then show ?thesis
      using IH Suc.prems(1) False acc unfolding list
      by (simp add: full_pages_Cons del: upt_Suc)
  qed
qed

text \<open>A strictly ascending list of all page numbers but \<open>L\<close> is the snapshot's list.\<close>

lemma unat_snapshot_pgno: "i \<in> set (snapshot_pgnos h) \<Longrightarrow> unat (of_nat i :: u32) = i"
  using unsigned_less [of "h_commit h", where 'a = nat]
  by (auto simp: snapshot_pgnos_def unsigned_of_nat take_bit_nat_eq_self simp del: upt_Suc)

lemma snapshot_pgnos_complete:
  fixes L :: u32
  assumes "sorted_wrt (<) ps" and "\<forall>p \<in> set ps. p \<noteq> 0 \<and> p \<le> h_commit h \<and> p \<noteq> L"
    and "\<forall>i \<in> set (snapshot_pgnos h). of_nat i \<noteq> L \<longrightarrow> of_nat i \<in> set ps"
  shows "ps = map of_nat (filter (\<lambda>i. of_nat i \<noteq> L) (snapshot_pgnos h))"
proof (rule strict_sorted_equal [OF _ assms(1)])
  let ?ns = "map of_nat (filter (\<lambda>i. of_nat i \<noteq> L) (snapshot_pgnos h)) :: u32 list"
  have less: "(of_nat i :: u32) < of_nat j" if "i \<in> set (snapshot_pgnos h)" "j \<in> set (snapshot_pgnos h)" "i < j" for i j
    using that unat_snapshot_pgno by (simp add: word_less_nat_alt)
  have "sorted_wrt (<) (filter (\<lambda>i. of_nat i \<noteq> L) (snapshot_pgnos h))"
    by (rule sorted_wrt_filter) (simp add: snapshot_pgnos_def del: upt_Suc)
  then show "sorted_wrt (<) ?ns"
    unfolding sorted_wrt_map by (rule sorted_wrt_mono_rel [rotated]) (auto intro: less)
  show "set ps = set ?ns"
  proof (intro set_eqI iffI)
    fix p
    assume "p \<in> set ?ns"
    then show "p \<in> set ps"
      using assms(3) by auto
  next
    fix p
    assume p: "p \<in> set ps"
    then have "unat p \<in> set (snapshot_pgnos h)"
      using assms(2) by (auto simp: snapshot_pgnos_def word_le_nat_alt Suc_le_eq unat_gt_0 simp del: upt_Suc)
    then have "of_nat (unat p) \<in> set ?ns"
      using assms(2) p by (auto intro!: image_eqI [of _ _ "unat p"])
    then show "p \<in> set ?ns" by simp
  qed
qed

text \<open>The encoder accepts a complete snapshot.\<close>

lemma accepts_all_full:
  assumes "is_valid_page_size (h_page_size h)" and "header_is_snapshot h"
    and "\<forall>i. length (D i) = unat (h_page_size h)"
  shows "accepts_all h 0 (full_pages (h_page_size h) D (snapshot_pgnos h))"
proof -
  have "lock_pgno (h_page_size h) \<noteq> 0"
    using assms(1) by (auto simp: valid_page_sizes lock_pgno_values)
  then show ?thesis
    using accepts_all_full_from [OF assms(1,2), of 1 "unat (h_commit h)" D 0] assms(3)
    by (simp add: snapshot_pgnos_def del: upt_Suc)
qed

section \<open>Sample files\<close>

text \<open>Small concrete inputs, for evaluating the definitions: 512-byte pages of one repeated byte.\<close>

definition sample_header :: "u64 \<Rightarrow> u64 \<Rightarrow> u32 \<Rightarrow> header" where
  "sample_header lo hi commit = \<lparr>h_flags = HEADER_FLAG_NO_CHECKSUM, h_page_size = 512,
    h_commit = commit, h_min_txid = lo, h_max_txid = hi, h_timestamp = 0,
    h_pre_apply_checksum = checksum_zero, h_wal_offset = 0, h_wal_size = 0, h_wal_salt1 = 0,
    h_wal_salt2 = 0, h_node_id = 0\<rparr>"

definition sample_page :: "u32 \<Rightarrow> u8 \<Rightarrow> u32 \<times> bytes" where
  "sample_page p c = (p, replicate 512 c)"

lemma sample_page_sel [simp]: "fst (sample_page p c) = p" "snd (sample_page p c) = replicate 512 c"
  by (simp_all add: sample_page_def)

lemma sample_header_facts [simp]:
  "h_page_size (sample_header lo hi c) = 512" "h_commit (sample_header lo hi c) = c"
  "h_min_txid (sample_header lo hi c) = lo" "h_max_txid (sample_header lo hi c) = hi"
  "header_is_snapshot (sample_header lo hi c) \<longleftrightarrow> lo = 1"
  "header_no_checksum (sample_header lo hi c)"
  "lock_pgno 512 = 2097153" "is_valid_page_size 512"
  by (simp_all add: sample_header_def header_is_snapshot_def header_no_checksum_def
      HEADER_FLAG_NO_CHECKSUM_def lock_pgno_def PENDING_BYTE_def valid_page_sizes)

lemma sample_header_valid:
  "0 < lo \<Longrightarrow> lo \<le> hi \<Longrightarrow> header_validate (sample_header lo hi c) = Ok ()"
  by (auto simp: header_validate_def) (simp_all add: sample_header_def checksum_is_zero_def checksum_zero_def)

lemma length_index_bytes: "length (index_bytes ix) \<le> 30 * length ix + 10"
proof -
  have u: "length (append_uvarint v) \<le> 10" for v
    using length_append_uvarint by blast
  have "length (index_entry_bytes ent) \<le> 30" for ent
    using u [of "ucast (fst ent)"] u [of "fst (snd ent)"] u [of "snd (snd ent)"]
    by (cases ent) (simp add: index_entry_bytes_def)
  then have "length (concat (map index_entry_bytes ix)) \<le> 30 * length ix"
    by (induction ix) (auto simp: add_mono)
  then show ?thesis
    using u [of 0] by (simp add: index_bytes_def)
qed

lemma length_file_bytes:
  "length (file_bytes lz4c h pds post) \<le>
    length (concat (map (frame lz4c) pds)) + 30 * length pds + 140"
  using length_index_bytes [of "index_from lz4c 100 pds"]
    arg_cong [OF index_from_pgnos [of lz4c 100 pds], of length]
  unfolding length_map by (simp add: file_bytes_def file_tail_def Let_def)

end
