(* ===== verification/LtxDecoder.thy ===== *)
theory LtxDecoder
  imports LtxEncoder
begin

text \<open>
  The LTX readers (\<^verbatim>\<open>src/ltx/decoder.rs\<close>): the streaming \<open>Decoder\<close> with its running file
  checksum, the index-based \<^verbatim>\<open>read_file\<close>, the page-index parser and \<^verbatim>\<open>read_snapshot\<close>. A reader is
  the list of bytes not yet consumed. The LZ4 decompressors of the \<^verbatim>\<open>lz4_flex\<close> crate are the
  fields of the parameter record \<open>lz4_dec\<close>; what the readers rely on is \<open>lz4_frame_inverse\<close>.
\<close>

section \<open>The decompressors\<close>

text \<open>
  \<open>block_into b n\<close>: the bytes \<^verbatim>\<open>decompress_into\<close> writes at the front of an \<open>n\<close>-byte buffer, or
  \<open>None\<close> for its error. \<open>frame_read b n\<close>: the first \<open>n\<close> bytes of the decompressed frame
  (\<^verbatim>\<open>FrameDecoder::read_exact\<close>), or \<open>None\<close> for its error.
\<close>

record lz4_dec =
  block_into :: "bytes \<Rightarrow> nat \<Rightarrow> bytes option"
  frame_read :: "bytes \<Rightarrow> nat \<Rightarrow> bytes option"

definition lz4_frame_inverse :: "(bytes \<Rightarrow> bytes) \<Rightarrow> lz4_dec \<Rightarrow> bool" where
  "lz4_frame_inverse lz4c lz4d \<longleftrightarrow> (\<forall>data. frame_read lz4d (lz4c data) (length data) = Some data)"

text \<open>A store-only codec, for concrete instances.\<close>

definition stored :: "bytes \<Rightarrow> bytes" where
  "stored data = data"

definition stored_dec :: lz4_dec where
  "stored_dec =
    \<lparr>block_into = (\<lambda>b n. if length b \<le> n then Some b else None),
     frame_read = (\<lambda>b n. if n \<le> length b then Some (take n b) else None)\<rparr>"

lemma stored_inverse: "lz4_frame_inverse stored stored_dec"
  by (simp add: lz4_frame_inverse_def stored_def stored_dec_def)

text \<open>\<open>decompress_into(src, data)?\<close>: the rest of the buffer keeps its old bytes.\<close>

definition decompress_into :: "lz4_dec \<Rightarrow> bytes \<Rightarrow> bytes \<Rightarrow> (bytes, ltx_error) result" where
  "decompress_into lz4d src data =
    (case block_into lz4d src (length data) of
       None \<Rightarrow> Err Lz4
     | Some out \<Rightarrow> Ok (out @ drop (length out) data))"

section \<open>The page index\<close>

record page_index_elem =
  pi_pgno :: u32
  pi_offset :: u64
  pi_size :: u64

function decode_page_index_loop ::
  "page_index_elem list \<Rightarrow> bytes \<Rightarrow> (page_index_elem list, ltx_error) result" where
  "decode_page_index_loop out b =
    rbind (read_uvarint b) (\<lambda>(pgno, b1).
    if pgno = 0 then Ok out else
    rbind (read_uvarint b1) (\<lambda>(offset, b2).
    rbind (read_uvarint b2) (\<lambda>(sz, b3).
    decode_page_index_loop
      (out @ [\<lparr>pi_pgno = ucast pgno, pi_offset = offset, pi_size = sz\<rparr>]) b3)))"
  by pat_completeness auto
termination
  by (relation "measure (\<lambda>(out, b). length b)") (auto dest!: read_uvarint_shorter)

declare decode_page_index_loop.simps [simp del]

definition decode_page_index :: "bytes \<Rightarrow> (page_index_elem list, ltx_error) result" where
  "decode_page_index b = decode_page_index_loop [] b"

definition INDEX_FOOTER_SIZE :: nat where
  "INDEX_FOOTER_SIZE = 8 + TRAILER_SIZE"

text \<open>
  Locating the index from the file's last 24 bytes, as \<^verbatim>\<open>read_file\<close>, \<^verbatim>\<open>page_index\<close> and
  \<^verbatim>\<open>for_each_indexed_page\<close> all do.
\<close>

definition page_index :: "bytes \<Rightarrow> (page_index_elem list, ltx_error) result" where
  "page_index b =
    (let footer = INDEX_FOOTER_SIZE in
     if length b < HEADER_SIZE + footer then Err (ShortBuffer (HEADER_SIZE + footer) (length b))
     else let index_size_at = length b - footer in
     rbind (subslice index_size_at (index_size_at + 8) b) (\<lambda>len_bytes.
     let index_len = from_be len_bytes :: u64;
         index_start = (of_nat index_size_at :: u64) - index_len in
     rbind (subslice (unat index_start) index_size_at b) decode_page_index))"

section \<open>Page frames and whole files\<close>

definition decode_page_frame ::
  "lz4_dec \<Rightarrow> bytes \<Rightarrow> nat \<Rightarrow> (page_header \<times> bytes, ltx_error) result" where
  "decode_page_frame lz4d frm page_size =
    rbind (page_header_decode frm) (\<lambda>ph.
    if page_header_is_zero ph then Err ZeroPageNumber else
    let off = PAGE_HEADER_SIZE; data = replicate page_size 0 in
    if is_block_compressed ph then
      (if length frm < off + 4 then Err (ShortBuffer (off + 4) (length frm)) else
       rbind (be_u32 frm off) (\<lambda>n.
       rbind (subslice (off + 4) (off + 4 + unat n) frm) (\<lambda>compressed.
       rbind (decompress_into lz4d compressed data) (\<lambda>data. Ok (ph, data)))))
    else
      (case frame_read lz4d (drop off frm) page_size of
         None \<Rightarrow> Err FrameFormatUnsupported
       | Some data \<Rightarrow> Ok (ph, data)))"

text \<open>The slice \<open>bytes[start..end]\<close> an index entry names, after its bounds check.\<close>

definition indexed_frame :: "bytes \<Rightarrow> page_index_elem \<Rightarrow> (bytes, ltx_error) result" where
  "indexed_frame b elem =
    (let start = pi_offset elem; stop = start + pi_size elem in
     if unat stop > length b then Err (ShortBuffer (unat stop) (length b))
     else subslice (unat start) (unat stop) b)"

record decoded_file =
  df_header :: header
  df_pages :: "(u32 \<times> bytes) list"
  df_trailer :: trailer

definition read_file :: "lz4_dec \<Rightarrow> bytes \<Rightarrow> (decoded_file, ltx_error) result" where
  "read_file lz4d b =
    rbind (header_decode b) (\<lambda>h.
    let page_size = unat (h_page_size h) in
    rbind (page_index b) (\<lambda>index.
    rbind (subslice (length b - TRAILER_SIZE) (length b) b) (\<lambda>tail_bytes.
    rbind (trailer_decode tail_bytes) (\<lambda>trailer.
    rbind (rmapM (\<lambda>elem.
        rbind (indexed_frame b elem) (\<lambda>frm.
        rbind (decode_page_frame lz4d frm page_size) (\<lambda>(ph, data).
        Ok (ph_pgno ph, data)))) index) (\<lambda>pages.
    Ok \<lparr>df_header = h, df_pages = sort_key fst pages, df_trailer = trailer\<rparr>)))))"

section \<open>The streaming decoder\<close>

datatype dec_state = DHeader | DPage | DClose | DClosed

record decoder =
  d_r :: bytes
  d_state :: dec_state
  d_hash :: hasher
  d_header :: "header option"
  d_rolling :: checksum
  d_page_index :: "page_index_elem list"
  d_trailer :: "trailer option"

definition decoder_new :: "bytes \<Rightarrow> decoder" where
  "decoder_new r = \<lparr>d_r = r, d_state = DHeader, d_hash = hasher_new, d_header = None,
     d_rolling = checksum_zero, d_page_index = [], d_trailer = None\<rparr>"

text \<open>\<open>read_exact\<close> on the unread bytes: the bytes read and the reader after them.\<close>

definition read_exact :: "nat \<Rightarrow> bytes \<Rightarrow> (bytes \<times> bytes, ltx_error) result" where
  "read_exact n r =
    (if length r < n then Err (LtxIo UnexpectedEof) else Ok (take n r, drop n r))"

definition decode_header :: "decoder \<Rightarrow> (decoder \<times> header, ltx_error) result" where
  "decode_header d =
    rbind (read_exact HEADER_SIZE (d_r d)) (\<lambda>(b, r).
    let d = d\<lparr>d_r := r, d_hash := hasher_update (d_hash d) b\<rparr> in
    rbind (header_decode b) (\<lambda>h.
    let d = (if header_no_checksum h then d else d\<lparr>d_rolling := Checksum CHECKSUM_FLAG\<rparr>)
    in Ok (d\<lparr>d_header := Some h, d_state := DPage\<rparr>, h)))"

text \<open>The page buffer \<open>data\<close> is passed in and returned, as the code fills it in place.\<close>

definition decode_page ::
  "lz4_dec \<Rightarrow> decoder \<Rightarrow> bytes \<Rightarrow> (decoder \<times> bytes \<times> page_header option, ltx_error) result" where
  "decode_page lz4d d data =
    (case d_header d of None \<Rightarrow> Panic | Some h \<Rightarrow>
     if d_state d \<noteq> DPage then Ok (d, data, None) else
     rbind (read_exact PAGE_HEADER_SIZE (d_r d)) (\<lambda>(hb, r).
     let d = d\<lparr>d_r := r, d_hash := hasher_update (d_hash d) hb\<rparr> in
     rbind (page_header_decode hb) (\<lambda>ph.
     if page_header_is_zero ph then Ok (d\<lparr>d_state := DClose\<rparr>, data, None)
     else if ph_pgno ph = 0 then Err ZeroPageNumber
     else if \<not> is_block_compressed ph then Err FrameFormatUnsupported
     else
     rbind (read_exact 4 (d_r d)) (\<lambda>(sb, r).
     let d = d\<lparr>d_r := r, d_hash := hasher_update (d_hash d) sb\<rparr>;
         n = unat (from_be sb :: u32) in
     rbind (read_exact n (d_r d)) (\<lambda>(compressed, r).
     let d = d\<lparr>d_r := r\<rparr> in
     rbind (decompress_into lz4d compressed data) (\<lambda>data.
     let d = d\<lparr>d_hash := hasher_update (d_hash d) data\<rparr>;
         d = (if header_is_snapshot h \<and> \<not> header_no_checksum h \<and>
                 ph_pgno ph \<noteq> lock_pgno (h_page_size h)
              then d\<lparr>d_rolling := rolling_add (d_rolling d) (ph_pgno ph, data)\<rparr> else d)
     in Ok (d, data, Some ph)))))))"

definition decoder_finish :: "decoder \<Rightarrow> (decoder \<times> trailer, ltx_error) result" where
  "decoder_finish d =
    (case d_header d of None \<Rightarrow> Panic | Some h \<Rightarrow>
     if d_state d = DClosed then
       (case d_trailer d of None \<Rightarrow> Panic | Some t \<Rightarrow> Ok (d, t))
     else
     let rest = d_r d; d = d\<lparr>d_r := []\<rparr> in
     if length rest < TRAILER_SIZE then Err (ShortBuffer TRAILER_SIZE (length rest)) else
     let trailer_at = length rest - TRAILER_SIZE;
         d = d\<lparr>d_hash := hasher_update (d_hash d) (take (length rest - 8) rest)\<rparr> in
     rbind (decode_page_index (take trailer_at rest)) (\<lambda>index.
     let d = d\<lparr>d_page_index := index\<rparr> in
     rbind (trailer_decode (drop trailer_at rest)) (\<lambda>trailer.
     let computed = hasher_checksum (d_hash d) in
     if computed \<noteq> t_file_checksum trailer
     then Err (FileChecksumMismatch (t_file_checksum trailer) computed)
     else if header_is_snapshot h \<and> \<not> header_no_checksum h \<and>
       t_post_apply_checksum trailer \<noteq> d_rolling d
     then Err (PostApplyChecksumMismatch (t_post_apply_checksum trailer) (d_rolling d))
     else Ok (d\<lparr>d_trailer := Some trailer, d_state := DClosed\<rparr>, trailer))))"

record snapshot =
  s_header :: header
  s_db :: bytes
  s_trailer :: trailer

text \<open>One iteration of the loop over the page numbers.\<close>

definition read_snapshot_page ::
  "lz4_dec \<Rightarrow> header \<Rightarrow> decoder \<times> bytes \<times> bytes \<Rightarrow> nat
    \<Rightarrow> (decoder \<times> bytes \<times> bytes, ltx_error) result" where
  "read_snapshot_page lz4d h st pgno =
    (case st of (dec, db, buf) \<Rightarrow>
     if of_nat pgno = lock_pgno (h_page_size h) then Ok (dec, db, buf) else
     let start = (pgno - 1) * unat (h_page_size h) in
     rbind (decode_page lz4d dec buf) (\<lambda>(dec, buf, ph).
     case ph of
       Some ph \<Rightarrow>
         if ph_pgno ph = of_nat pgno then Ok (dec, copy_at start buf db, buf)
         else Err (UnexpectedPage (of_nat pgno) (ph_pgno ph))
     | None \<Rightarrow> Err (UnexpectedPage (of_nat pgno) 0)))"

definition read_snapshot :: "lz4_dec \<Rightarrow> bytes \<Rightarrow> (snapshot, ltx_error) result" where
  "read_snapshot lz4d r =
    rbind (decode_header (decoder_new r)) (\<lambda>(dec, h).
    if \<not> header_is_snapshot h then Err NotASnapshot else
    let page_size = unat (h_page_size h);
        db = replicate (page_size * unat (h_commit h)) 0;
        buf = replicate page_size 0 in
    rbind (rfoldM (read_snapshot_page lz4d h) (dec, db, buf) [1..<Suc (unat (h_commit h))])
      (\<lambda>(dec, db, buf).
    rbind (decode_page lz4d dec buf) (\<lambda>(dec, buf, ph).
    if ph \<noteq> None then Err NotASnapshot else
    rbind (decoder_finish dec) (\<lambda>(dec, trailer).
    Ok \<lparr>s_header = h, s_db = db, s_trailer = trailer\<rparr>))))"

section \<open>Reading back what the encoder wrote\<close>

definition elem_of :: "u32 \<times> u64 \<times> u64 \<Rightarrow> page_index_elem" where
  "elem_of ent = (case ent of (pgno, offset, sz) \<Rightarrow>
     \<lparr>pi_pgno = pgno, pi_offset = offset, pi_size = sz\<rparr>)"

lemma ucast_u32_u64:
  "(ucast (ucast (p :: u32) :: u64) :: u32) = p"
  "(ucast (p :: u32) :: u64) = 0 \<longleftrightarrow> p = 0"
proof -
  show "(ucast (ucast p :: u64) :: u32) = p"
    by (rule bit_word_eqI) (auto simp: bit_simps)
  then show "(ucast p :: u64) = 0 \<longleftrightarrow> p = 0"
    by auto
qed

lemma decode_page_index_loop_bytes:
  "\<forall>ent \<in> set ix. fst ent \<noteq> 0 \<Longrightarrow>
    decode_page_index_loop out (index_bytes ix @ rest) = Ok (out @ map elem_of ix)"
proof (induction ix arbitrary: out)
  case Nil
  then show ?case
    by (subst decode_page_index_loop.simps) (simp add: index_bytes_def read_append_uvarint)
next
  case (Cons ent ix)
  obtain p off sz where ent: "ent = (p, off, sz)" by (cases ent)
  have "index_bytes (ent # ix) @ rest = append_uvarint (ucast p) @ append_uvarint off @
      append_uvarint sz @ (index_bytes ix @ rest)"
    by (simp add: index_bytes_def index_entry_bytes_def ent)
  then show ?case
    using Cons
    by (subst decode_page_index_loop.simps)
      (simp add: read_append_uvarint ent elem_of_def ucast_u32_u64)
qed

lemma decode_page_index_bytes:
  "\<forall>ent \<in> set ix. fst ent \<noteq> 0 \<Longrightarrow> decode_page_index (index_bytes ix @ rest) = Ok (map elem_of ix)"
  by (simp add: decode_page_index_def decode_page_index_loop_bytes)

text \<open>
  The footer locates the index in any file that ends in an index of known length, that length as
  eight bytes, and a trailer.
\<close>

lemma page_index_located:
  fixes pre ib :: bytes
  assumes b: "b = pre @ ib @ be64 (of_nat (length ib)) @ trailer_encode t"
    and pre: "100 \<le> length pre" and small: "length b < 2 ^ 64"
  shows "page_index b = decode_page_index ib"
proof -
  let ?isa = "length pre + length ib"
  have len: "length b = ?isa + 24"
    by (simp add: b)
  have isa: "length b - INDEX_FOOTER_SIZE = ?isa"
    by (simp add: len INDEX_FOOTER_SIZE_def)
  have field: "subslice ?isa (?isa + 8) b = Ok (be64 (of_nat (length ib)))"
    by (simp add: b subslice_def)
  have "unat ((of_nat ?isa :: u64) - of_nat (length ib)) = length pre"
  proof -
    have "(of_nat ?isa :: u64) - of_nat (length ib) = of_nat (length pre)"
      by simp
    then show ?thesis
      using small len by (simp add: unsigned_of_nat take_bit_nat_eq_self)
  qed
  moreover have "subslice (length pre) ?isa b = (Ok ib :: (bytes, ltx_error) result)"
    by (simp add: b subslice_def)
  ultimately show ?thesis
    using pre by (simp add: page_index_def Let_def isa field) (simp add: len INDEX_FOOTER_SIZE_def)
qed

lemma decode_page_frame_frame:
  assumes "lz4_frame_inverse lz4c lz4d" and "fst pd \<noteq> 0" and "length (snd pd) = page_size"
  shows "decode_page_frame lz4d (frame lz4c pd) page_size =
    Ok (\<lparr>ph_pgno = fst pd, ph_flags = 0\<rparr>, snd pd)"
  using assms
  by (auto simp: decode_page_frame_def frame_def page_header_decode_encode page_header_is_zero_def
      is_block_compressed_def lz4_frame_inverse_def)

lemma indexed_frame_at:
  assumes "b = pre @ frm @ post" and "length b < 2 ^ 64"
  shows "indexed_frame b (elem_of (p, of_nat (length pre), of_nat (length frm))) = Ok frm"
proof -
  have "unat ((of_nat (length pre) :: u64) + of_nat (length frm)) = length pre + length frm"
    and "unat (of_nat (length pre) :: u64) = length pre"
    using assms by (simp_all add: unsigned_of_nat take_bit_nat_eq_self flip: of_nat_add)
  then show ?thesis
    using assms(1) by (simp add: indexed_frame_def elem_of_def subslice_def)
qed

text \<open>What a reader does with one index entry.\<close>

definition read_entry ::
  "lz4_dec \<Rightarrow> nat \<Rightarrow> bytes \<Rightarrow> page_index_elem \<Rightarrow> (u32 \<times> bytes, ltx_error) result" where
  "read_entry lz4d page_size b elem =
    rbind (indexed_frame b elem) (\<lambda>frm.
    rbind (decode_page_frame lz4d frm page_size) (\<lambda>(ph, data). Ok (ph_pgno ph, data)))"

lemma read_entries:
  assumes "lz4_frame_inverse lz4c lz4d"
    and "\<forall>pd \<in> set pds. fst pd \<noteq> 0 \<and> length (snd pd) = page_size"
    and "b = pre @ concat (map (frame lz4c) pds) @ post" and "length b < 2 ^ 64"
  shows "rmapM (read_entry lz4d page_size b)
    (map elem_of (index_from lz4c (of_nat (length pre)) pds)) = Ok pds"
  using assms(2,3)
proof (induction pds arbitrary: pre)
  case Nil
  then show ?case by simp
next
  case (Cons pd pds)
  let ?frm = "frame lz4c pd"
  have "indexed_frame b (elem_of (fst pd, of_nat (length pre), of_nat (length ?frm))) = Ok ?frm"
    by (rule indexed_frame_at [OF _ assms(4)]) (use Cons.prems in simp)
  then have first: "read_entry lz4d page_size b
      (elem_of (fst pd, of_nat (length pre), of_nat (length ?frm))) = Ok pd"
    using decode_page_frame_frame [OF assms(1), of pd page_size] Cons.prems
    by (simp add: read_entry_def)
  have "rmapM (read_entry lz4d page_size b)
      (map elem_of (index_from lz4c (of_nat (length (pre @ ?frm))) pds)) = Ok pds"
    by (rule Cons.IH) (use Cons.prems in simp_all)
  with first show ?case by simp
qed

lemma index_from_set_pgnos: "ent \<in> set (index_from lz4c off pds) \<Longrightarrow> fst ent \<in> fst ` set pds"
  by (metis index_from_pgnos image_eqI image_set)

lemma page_index_file:
  assumes "\<forall>pd \<in> set pds. fst pd \<noteq> 0" and "length (file_bytes lz4c h pds post) < 2 ^ 64"
  shows "page_index (file_bytes lz4c h pds post) = Ok (map elem_of (index_from lz4c 100 pds))"
proof -
  let ?ix = "index_from lz4c 100 pds"
  have "file_bytes lz4c h pds post =
      (header_encode h @ concat (map (frame lz4c) pds) @ replicate 6 0) @ index_bytes ?ix @
      be64 (of_nat (length (index_bytes ?ix))) @ trailer_encode (file_trailer lz4c h pds post)"
    by (simp add: file_bytes_def file_tail_def Let_def)
  then have "page_index (file_bytes lz4c h pds post) = decode_page_index (index_bytes ?ix)"
    by (rule page_index_located) (use assms in simp_all)
  also have "\<dots> = Ok (map elem_of ?ix)"
  proof -
    have "\<forall>ent \<in> set ?ix. fst ent \<noteq> 0"
      using assms(1) index_from_set_pgnos by fastforce
    then show ?thesis
      using decode_page_index_bytes [of ?ix "[]"] by simp
  qed
  finally show ?thesis .
qed

lemma read_file_alt:
  "read_file lz4d b =
    rbind (header_decode b) (\<lambda>h.
    rbind (page_index b) (\<lambda>index.
    rbind (subslice (length b - TRAILER_SIZE) (length b) b) (\<lambda>tail_bytes.
    rbind (trailer_decode tail_bytes) (\<lambda>trailer.
    rbind (rmapM (read_entry lz4d (unat (h_page_size h)) b) index) (\<lambda>pages.
    Ok \<lparr>df_header = h, df_pages = sort_key fst pages, df_trailer = trailer\<rparr>)))))"
proof -
  have "read_entry lz4d n b = (\<lambda>elem. rbind (indexed_frame b elem) (\<lambda>frm.
      rbind (decode_page_frame lz4d frm n) (\<lambda>(ph, data). Ok (ph_pgno ph, data))))" for n
    by (intro ext) (simp add: read_entry_def)
  then show ?thesis
    by (simp add: read_file_def Let_def)
qed

lemma read_file_encode_run:
  assumes "lz4_frame_inverse lz4c lz4d" and "encode_file lz4c h pds post = Ok (b, t)"
    and "length b < 2 ^ 64"
  shows "read_file lz4d b = Ok \<lparr>df_header = h, df_pages = pds, df_trailer = t\<rparr>"
proof -
  from assms(2) have val: "header_validate h = Ok ()" and acc: "accepts_all h 0 pds"
    and b: "b = file_bytes lz4c h pds post" and t: "t = file_trailer lz4c h pds post"
    by (auto simp: encode_file_iff)
  have pages: "\<forall>pd \<in> set pds. fst pd \<noteq> 0 \<and> length (snd pd) = unat (h_page_size h)"
    using accepts_all_sizes [OF acc] by blast
  have hd: "header_decode b = Ok h"
    unfolding b file_bytes_def
    by (rule header_codec.dec_enc) (rule header_validate_page_size [OF val])
  have ix: "page_index b = Ok (map elem_of (index_from lz4c 100 pds))"
    unfolding b by (rule page_index_file) (use pages assms(3) b in auto)
  have tr: "subslice (length b - 16) (length b) b =
      (Ok (trailer_encode t) :: (bytes, ltx_error) result)"
    by (simp add: b t file_bytes_def subslice_def)
  have "rmapM (read_entry lz4d (unat (h_page_size h)) b)
      (map elem_of (index_from lz4c (of_nat (length (header_encode h))) pds)) = Ok pds"
    by (rule read_entries [OF assms(1) pages _ assms(3)])
      (simp add: b file_bytes_def)
  moreover have "sort_key fst pds = pds"
    using accepts_all_sorted [OF val acc] by (simp add: sort_key_id)
  ultimately show ?thesis
    by (simp add: read_file_alt hd ix tr trailer_codec.dec_enc_exact)
qed

text \<open>
  C31: a file written by the encoder is read back by the index-based reader as exactly the header,
  the pages and the trailer that went in, whatever the pages hold and for any LZ4 codec whose
  frame decoder inverts its frame encoder.
\<close>

theorem read_file_encode_file:
  assumes "lz4_frame_inverse lz4c lz4d" and "encode_file lz4c h pds post = Ok (b, t)"
    and "length b < 2 ^ 64"
  shows "read_file lz4d b = Ok \<lparr>df_header = h, df_pages = pds, df_trailer = t\<rparr>"
  using assms by (rule read_file_encode_run)

theorem read_file_encode_file_witness:
  "\<exists>b t. encode_file stored (sample_header 2 2 3) [sample_page 1 7, sample_page 3 9] checksum_zero = Ok (b, t) \<and>
    read_file stored_dec b = Ok \<lparr>df_header = sample_header 2 2 3,
      df_pages = [sample_page 1 7, sample_page 3 9], df_trailer = t\<rparr>"
proof -
  let ?h = "sample_header 2 2 3" and ?pds = "[sample_page 1 7, sample_page 3 9]"
  let ?b = "file_bytes stored ?h ?pds checksum_zero"
  let ?t = "file_trailer stored ?h ?pds checksum_zero"
  have ok: "encode_file stored ?h ?pds checksum_zero = Ok (?b, ?t)"
    by (simp add: encode_file_iff sample_header_valid accepts_def)
  have "length ?b < 2 ^ 64"
    using length_file_bytes [of stored ?h ?pds checksum_zero]
    by (simp add: frame_def stored_def)
  with ok show ?thesis
    using read_file_encode_file [OF stored_inverse ok] by blast
qed

end
