(* ===== verification/LtxSnapshot.thy ===== *)
theory LtxSnapshot
  imports LtxDecoder
begin

text \<open>
  What the streaming decoder accepts. The block page format (\<^verbatim>\<open>src/ltx/mod.rs\<close>, lines 6-16) is
  specified here as bytes; the lemmas show that \<^verbatim>\<open>read_snapshot\<close> rebuilds the database from a
  block-format snapshot with correct checksums, that it verifies the file checksum before it
  returns anything, and that it rejects the frame-format pages the encoder of this crate writes.
\<close>

section \<open>Block-format files\<close>

definition block_page_header :: "u32 \<Rightarrow> page_header" where
  "block_page_header p = \<lparr>ph_pgno = p, ph_flags = PAGE_HEADER_FLAG_SIZE\<rparr>"

definition block_frame :: "(bytes \<Rightarrow> bytes) \<Rightarrow> u32 \<times> bytes \<Rightarrow> bytes" where
  "block_frame blk pd = page_header_encode (block_page_header (fst pd)) @
     be32 (of_nat (length (blk (snd pd)))) @ blk (snd pd)"

definition block_hashed :: "(bytes \<Rightarrow> bytes) \<Rightarrow> u32 \<times> bytes \<Rightarrow> bytes" where
  "block_hashed blk pd = page_header_encode (block_page_header (fst pd)) @
     be32 (of_nat (length (blk (snd pd)))) @ snd pd"

text \<open>The compressor and decompressor agree on pages of \<open>ps\<close> bytes and their size fits the field.\<close>

definition block_codec_ok :: "(bytes \<Rightarrow> bytes) \<Rightarrow> lz4_dec \<Rightarrow> nat \<Rightarrow> bool" where
  "block_codec_ok blk lz4d ps \<longleftrightarrow>
    (\<forall>d. length d = ps \<longrightarrow> block_into lz4d (blk d) ps = Some d \<and> length (blk d) < 2 ^ 32)"

definition block_file :: "(bytes \<Rightarrow> bytes) \<Rightarrow> header \<Rightarrow> (u32 \<times> bytes) list \<Rightarrow> bytes \<Rightarrow> checksum \<Rightarrow> bytes"
where
  "block_file blk h pds index post =
    header_encode h @ concat (map (block_frame blk) pds) @ replicate 6 0 @ index @
    trailer_encode \<lparr>t_post_apply_checksum = post, t_file_checksum =
      hasher_checksum (hasher_update hasher_new (header_encode h @
        concat (map (block_hashed blk) pds) @ replicate 6 0 @ index @ be64 (cksum post)))\<rparr>"

section \<open>One step of the decoder\<close>

definition tracked :: "header \<Rightarrow> bool" where
  "tracked h \<longleftrightarrow> header_is_snapshot h \<and> \<not> header_no_checksum h"

lemma block_page_header_facts [simp]:
  "is_block_compressed (block_page_header p)"
  "ph_pgno (block_page_header p) = p"
  "page_header_is_zero (block_page_header p) \<longleftrightarrow> False"
  by (simp_all add: is_block_compressed_def block_page_header_def page_header_is_zero_def
      PAGE_HEADER_FLAG_SIZE_def)

lemma decode_page_block:
  assumes "d_header d = Some h" and "d_state d = DPage" and "d_r d = block_frame blk pd @ r"
    and "block_codec_ok blk lz4d (length buf)" and "length (snd pd) = length buf" and "fst pd \<noteq> 0"
    and "fst pd \<noteq> lock_pgno (h_page_size h)"
  shows "decode_page lz4d d buf = Ok
    (d\<lparr>d_r := r, d_hash := hasher_update (d_hash d) (block_hashed blk pd),
       d_rolling := (if tracked h then rolling_add (d_rolling d) pd else d_rolling d)\<rparr>,
     snd pd, Some (block_page_header (fst pd)))"
proof -
  have blk: "block_into lz4d (blk (snd pd)) (length buf) = Some (snd pd)"
    and sz: "length (blk (snd pd)) < 2 ^ 32"
    using assms(4,5) by (auto simp: block_codec_ok_def)
  have n: "unat (of_nat (length (blk (snd pd))) :: u32) = length (blk (snd pd))"
    using sz by (simp add: unsigned_of_nat take_bit_nat_eq_self)
  have ph: "page_header_decode (page_header_encode (block_page_header (fst pd))) =
      Ok (block_page_header (fst pd))"
    by (rule page_header_codec.dec_enc_exact) simp
  show ?thesis
    using assms(1-3,5-7)
    by (simp add: decode_page_def read_exact_def block_frame_def ph n decompress_into_def blk
        block_hashed_def hasher_update_append tracked_def Let_def)
qed

lemma decode_page_terminator:
  assumes "d_header d = Some h" and "d_state d = DPage" and "d_r d = replicate 6 0 @ r"
  shows "decode_page lz4d d buf = Ok (d\<lparr>d_r := r, d_hash := hasher_update (d_hash d) (replicate 6 0),
    d_state := DClose\<rparr>, buf, None)"
proof -
  have z: "replicate 6 (0 :: u8) = page_header_encode \<lparr>ph_pgno = 0, ph_flags = 0\<rparr>"
    by (simp add: page_header_encode_layout be32_def be16_def numeral_eq_Suc)
  have "page_header_decode (replicate 6 0) = Ok \<lparr>ph_pgno = 0, ph_flags = 0\<rparr>"
    unfolding z by (rule page_header_codec.dec_enc_exact) simp
  then show ?thesis
    using assms by (simp add: decode_page_def read_exact_def page_header_is_zero_def)
qed

text \<open>A page in the frame format: header flags zero, page number not.\<close>

lemma decode_page_frame_format:
  assumes "d_header d = Some h" and "d_state d = DPage" and "d_r d = frame lz4c pd @ r" and "fst pd \<noteq> 0"
  shows "decode_page lz4d d buf = Err FrameFormatUnsupported"
  using assms
  by (simp add: decode_page_def read_exact_def frame_def page_header_codec.dec_enc_exact
      page_header_is_zero_def is_block_compressed_def)

lemma decode_header_new:
  assumes "is_valid_page_size (h_page_size h)"
  shows "decode_header (decoder_new (header_encode h @ r)) = Ok
    (\<lparr>d_r = r, d_state = DPage, d_hash = hasher_update hasher_new (header_encode h),
      d_header = Some h, d_rolling = (if header_no_checksum h then checksum_zero else Checksum CHECKSUM_FLAG),
      d_page_index = [], d_trailer = None\<rparr>, h)"
  using assms
  by (simp add: decode_header_def decoder_new_def read_exact_def header_codec.dec_enc_exact)

section \<open>Files of this crate's encoder\<close>

text \<open>
  C34: the streaming decoder of this crate cannot read the files this crate's encoder writes: the
  first page is refused, for any snapshot with at least one page before the lock page. (\<open>read_file\<close>, the
  index-based reader, reads them.)
\<close>

theorem read_snapshot_rejects_frame_format:
  assumes "encode_file lz4c h (pd # pds) post = Ok (b, t)"
  shows "read_snapshot lz4d b = Err (if header_is_snapshot h then FrameFormatUnsupported else NotASnapshot)"
proof -
  from assms have val: "header_validate h = Ok ()" and acc: "accepts_all h 0 (pd # pds)"
    and b: "b = file_bytes lz4c h (pd # pds) post"
    by (simp_all add: encode_file_iff)
  note ps = header_validate_page_size [OF val]
  from acc have p: "fst pd \<noteq> 0" and le: "fst pd \<le> h_commit h"
    by (simp_all add: accepts_def)
  have lock1: "lock_pgno (h_page_size h) \<noteq> 1"
    using lock_pgno_gt [OF ps] by auto
  obtain r where b': "b = header_encode h @ frame lz4c pd @ r"
    by (simp add: b file_bytes_def)
  have commit: "[Suc 0..<Suc (unat (h_commit h))] = Suc 0 # [2..<Suc (unat (h_commit h))]"
  proof -
    have "h_commit h \<noteq> 0"
      using p le by auto
    then have "1 \<le> unat (h_commit h)"
      by (simp add: Suc_leI unat_gt_0)
    then show ?thesis
      by (simp add: upt_rec numeral_2_eq_2)
  qed
  show ?thesis
  proof (cases "header_is_snapshot h")
    case False
    then show ?thesis
      by (simp add: read_snapshot_def b' decode_header_new [OF ps])
  next
    case True
    then show ?thesis
      using lock1 p
      by (simp add: read_snapshot_def b' decode_header_new [OF ps] Let_def commit
          read_snapshot_page_def decode_page_frame_format [where pd = pd and lz4c = lz4c]
        del: upt_Suc upt_rec_numeral)
  qed
qed

theorem read_snapshot_rejects_frame_format_witness:
  "\<exists>b t. encode_file stored (sample_header 1 4 1) [sample_page 1 7] checksum_zero = Ok (b, t) \<and>
    read_snapshot stored_dec b = Err FrameFormatUnsupported"
proof -
  have ok: "encode_file stored (sample_header 1 4 1) [sample_page 1 7] checksum_zero =
      Ok (file_bytes stored (sample_header 1 4 1) [sample_page 1 7] checksum_zero,
        file_trailer stored (sample_header 1 4 1) [sample_page 1 7] checksum_zero)"
    by (simp add: encode_file_iff sample_header_valid accepts_def next_snapshot_pgno_def)
  show ?thesis
    using ok read_snapshot_rejects_frame_format [OF ok, of stored_dec] by auto
qed

section \<open>Rebuilding a database from a block-format snapshot\<close>

text \<open>
  The database image the pages of a complete snapshot stand for: the lock page is not stored and
  reads as zeros.
\<close>

definition full_image :: "u32 \<Rightarrow> (nat \<Rightarrow> bytes) \<Rightarrow> nat list \<Rightarrow> bytes" where
  "full_image ps D pgnos =
    concat (map (\<lambda>i. if (of_nat i :: u32) = lock_pgno ps then replicate (unat ps) 0 else D i) pgnos)"

definition after_blocks ::
  "(bytes \<Rightarrow> bytes) \<Rightarrow> header \<Rightarrow> decoder \<Rightarrow> (u32 \<times> bytes) list \<Rightarrow> bytes \<Rightarrow> decoder" where
  "after_blocks blk h d pds r =
    d\<lparr>d_r := r, d_hash := hasher_update (d_hash d) (concat (map (block_hashed blk) pds)),
      d_rolling := (if tracked h then rolling (d_rolling d) pds else d_rolling d)\<rparr>"

lemma copy_at_block:
  "length pre = a \<Longrightarrow> length src = n \<Longrightarrow>
    copy_at a src (pre @ replicate (n + m) 0) = (pre @ src) @ replicate m 0"
  by (simp add: copy_at_def replicate_add)

lemma read_snapshot_loop:
  assumes blk: "block_codec_ok blk lz4d (unat ps)" and ps: "h_page_size h = ps"
    and D: "\<And>i. k \<le> i \<Longrightarrow> i < k + m \<Longrightarrow> length (D i) = unat ps"
    and k: "0 < k" and small: "k + m \<le> 2 ^ 32"
    and d: "d_header d = Some h" "d_state d = DPage"
      "d_r d = concat (map (block_frame blk) (full_pages ps D [k..<k + m])) @ r"
    and buf: "length buf = unat ps" and pre: "length pre = (k - 1) * unat ps"
  shows "\<exists>buf'. length buf' = unat ps \<and>
    rfoldM (read_snapshot_page lz4d h) (d, pre @ replicate (m * unat ps) 0, buf) [k..<k + m] =
      Ok (after_blocks blk h d (full_pages ps D [k..<k + m]) r,
          pre @ full_image ps D [k..<k + m], buf')"
  using D k small d buf pre
proof (induction m arbitrary: k d buf pre)
  case 0
  then show ?case
    by (intro exI [of _ buf]) (simp add: full_pages_def full_image_def after_blocks_def)
next
  case (Suc m)
  have list: "[k..<k + Suc m] = k # [Suc k..<Suc k + m]"
    by (simp add: upt_rec)
  show ?case
  proof (cases "(of_nat k :: u32) = lock_pgno ps")
    case True
    have pages: "full_pages ps D [k..<k + Suc m] = full_pages ps D [Suc k..<Suc k + m]"
      unfolding list using True by (simp add: full_pages_def)
    have "\<exists>buf'. length buf' = unat ps \<and>
      rfoldM (read_snapshot_page lz4d h)
        (d, (pre @ replicate (unat ps) 0) @ replicate (m * unat ps) 0, buf) [Suc k..<Suc k + m] =
        Ok (after_blocks blk h d (full_pages ps D [Suc k..<Suc k + m]) r,
          (pre @ replicate (unat ps) 0) @ full_image ps D [Suc k..<Suc k + m], buf')"
      by (rule Suc.IH)
        (use Suc.prems pages in \<open>auto simp: algebra_simps diff_mult_distrib simp del: upt_Suc\<close>)
    moreover have "read_snapshot_page lz4d h (d, db, buf) k = Ok (d, db, buf)" for db
      using True by (simp add: read_snapshot_page_def ps)
    ultimately show ?thesis
      using True list unfolding pages
      by (simp add: full_image_def replicate_add add.commute del: upt_Suc)
  next
    case False
    let ?pd = "(of_nat k :: u32, D k)" and ?rest = "full_pages ps D [Suc k..<Suc k + m]"
    let ?r = "concat (map (block_frame blk) ?rest) @ r"
    let ?d = "d\<lparr>d_r := ?r, d_hash := hasher_update (d_hash d) (block_hashed blk ?pd),
       d_rolling := (if tracked h then rolling_add (d_rolling d) ?pd else d_rolling d)\<rparr>"
    have pages: "full_pages ps D [k..<k + Suc m] = ?pd # ?rest"
      unfolding list using False by (simp add: full_pages_def)
    have "(of_nat k :: u32) \<noteq> 0"
      using Suc.prems(2,3) by (simp add: word_unat_eq_iff unsigned_of_nat take_bit_nat_eq_self)
    then have step: "decode_page lz4d d buf = Ok (?d, D k, Some (block_page_header (of_nat k)))"
      using decode_page_block [of d h blk ?pd ?r lz4d buf] Suc.prems blk False ps pages by simp
    have "\<exists>buf'. length buf' = unat ps \<and>
      rfoldM (read_snapshot_page lz4d h)
        (?d, (pre @ D k) @ replicate (m * unat ps) 0, D k) [Suc k..<Suc k + m] =
        Ok (after_blocks blk h ?d ?rest r,
          (pre @ D k) @ full_image ps D [Suc k..<Suc k + m], buf')"
      by (rule Suc.IH) (use Suc.prems in \<open>auto simp: algebra_simps diff_mult_distrib\<close>)
    moreover have "copy_at ((k - 1) * unat ps) (D k) (pre @ replicate (Suc m * unat ps) 0) =
        (pre @ D k) @ replicate (m * unat ps) 0"
      using Suc.prems by (simp add: copy_at_block)
    moreover have "after_blocks blk h ?d ?rest r = after_blocks blk h d (?pd # ?rest) r"
      by (simp add: after_blocks_def hasher_update_append)
    moreover have "full_image ps D [k..<k + Suc m] = D k @ full_image ps D [Suc k..<Suc k + m]"
      unfolding list using False by (simp add: full_image_def)
    moreover have "read_snapshot_page lz4d h (d, db, buf) k =
        Ok (?d, copy_at ((k - 1) * unat ps) (D k) db, D k)" for db
      using False ps step by (simp add: read_snapshot_page_def)
    ultimately show ?thesis
      using list unfolding pages by (simp del: upt_Suc)
  qed
qed

lemma decoder_finish_ok:
  assumes "d_header d = Some h" and "d_state d = DClose" and "d_r d = index @ trailer_encode t"
    and "decode_page_index index = Ok ix"
    and "t_file_checksum t =
      hasher_checksum (hasher_update (d_hash d) (index @ be64 (cksum (t_post_apply_checksum t))))"
    and "tracked h \<Longrightarrow> t_post_apply_checksum t = d_rolling d"
  shows "\<exists>d'. decoder_finish d = Ok (d', t)"
proof -
  have "take (length (d_r d) - 8) (d_r d) = index @ be64 (cksum (t_post_apply_checksum t))"
    by (simp add: assms(3) trailer_encode_layout)
  then show ?thesis
    using assms
    by (auto simp: decoder_finish_def Let_def trailer_codec.dec_enc_exact tracked_def)
qed

lemma read_snapshot_block_run:
  assumes blk: "block_codec_ok blk lz4d (unat (h_page_size h))"
    and ps: "is_valid_page_size (h_page_size h)" and snap: "header_is_snapshot h"
    and D: "\<forall>i. length (D i) = unat (h_page_size h)"
    and ix: "decode_page_index index = Ok elems"
    and post: "tracked h \<longrightarrow> post = rolling (Checksum CHECKSUM_FLAG)
      (full_pages (h_page_size h) D (snapshot_pgnos h))"
  shows "\<exists>t. read_snapshot lz4d
      (block_file blk h (full_pages (h_page_size h) D (snapshot_pgnos h)) index post) =
    Ok \<lparr>s_header = h, s_db = full_image (h_page_size h) D (snapshot_pgnos h), s_trailer = t\<rparr>"
proof -
  let ?ps = "h_page_size h" and ?n = "unat (h_commit h)"
  let ?pds = "full_pages ?ps D (snapshot_pgnos h)"
  define t where "t = \<lparr>t_post_apply_checksum = post, t_file_checksum =
      hasher_checksum (hasher_update hasher_new (header_encode h @
        concat (map (block_hashed blk) ?pds) @ replicate 6 0 @ index @ be64 (cksum post)))\<rparr>"
  define r where "r = replicate 6 0 @ index @ trailer_encode t"
  let ?frames = "concat (map (block_frame blk) ?pds)"
  define d where "d = \<lparr>d_r = ?frames @ r, d_state = DPage,
      d_hash = hasher_update hasher_new (header_encode h), d_header = Some h,
      d_rolling = (if header_no_checksum h then checksum_zero else Checksum CHECKSUM_FLAG),
      d_page_index = [], d_trailer = None\<rparr>"
  let ?d1 = "after_blocks blk h d ?pds r"
  let ?d2 = "?d1\<lparr>d_r := index @ trailer_encode t, d_hash := hasher_update (d_hash ?d1) (replicate 6 0),
      d_state := DClose\<rparr>"
  have layout: "block_file blk h ?pds index post = header_encode h @ ?frames @ r"
    by (simp add: block_file_def r_def t_def)
  have hdr: "decode_header (decoder_new (block_file blk h ?pds index post)) = Ok (d, h)"
    unfolding layout d_def by (rule decode_header_new [OF ps])
  have pg: "snapshot_pgnos h = [1..<1 + ?n]"
    by (simp add: snapshot_pgnos_def)
  obtain buf where loop: "rfoldM (read_snapshot_page lz4d h)
      (d, [] @ replicate (?n * unat ?ps) 0, replicate (unat ?ps) 0) [1..<1 + ?n] =
      Ok (?d1, [] @ full_image ?ps D [1..<1 + ?n], buf)"
    using read_snapshot_loop [where k = 1 and m = ?n and pre = "[]" and h = h and D = D and d = d
        and r = r and buf = "replicate (unat ?ps) 0", OF blk refl]
      D unsigned_less [of "h_commit h", where 'a = nat]
    by (auto simp: d_def pg simp del: upt_Suc)
  have stop: "decode_page lz4d ?d1 buf = Ok (?d2, buf, None)"
    using decode_page_terminator [of ?d1 h "index @ trailer_encode t" lz4d buf]
    by (simp add: after_blocks_def d_def r_def)
  have "\<exists>d'. decoder_finish ?d2 = Ok (d', t)"
    by (rule decoder_finish_ok [OF _ _ _ ix])
      (use post in \<open>auto simp: after_blocks_def d_def t_def hasher_update_append tracked_def\<close>)
  then obtain d' where "decoder_finish ?d2 = Ok (d', t)" ..
  then show ?thesis
    using loop stop snap unfolding read_snapshot_def hdr
    by (simp add: snapshot_pgnos_def mult.commute del: upt_Suc)
qed

text \<open>
  C32: the streaming decoder rebuilds the database exactly from a complete block-format snapshot
  with correct checksums: every page at its offset, zeros for the lock page.
\<close>

theorem read_snapshot_block_file:
  assumes blk: "block_codec_ok blk lz4d (unat (h_page_size h))"
    and ps: "is_valid_page_size (h_page_size h)" and snap: "header_is_snapshot h"
    and D: "\<forall>i. length (D i) = unat (h_page_size h)"
    and ix: "decode_page_index index = Ok elems"
    and post: "tracked h \<longrightarrow> post = rolling (Checksum CHECKSUM_FLAG)
      (full_pages (h_page_size h) D (snapshot_pgnos h))"
  shows "\<exists>t. read_snapshot lz4d
      (block_file blk h (full_pages (h_page_size h) D (snapshot_pgnos h)) index post) =
    Ok \<lparr>s_header = h, s_db = full_image (h_page_size h) D (snapshot_pgnos h), s_trailer = t\<rparr>"
  by (rule read_snapshot_block_run [OF assms])

text \<open>A two-page sample snapshot with checksums, the pages stored uncompressed.\<close>

definition sample_tracked :: header where
  "sample_tracked = (sample_header 1 4 2)\<lparr>h_flags := 0\<rparr>"

definition sample_contents :: "nat \<Rightarrow> bytes" where
  "sample_contents i = replicate 512 (of_nat i)"

definition sample_post :: checksum where
  "sample_post = rolling (Checksum CHECKSUM_FLAG)
    (full_pages 512 sample_contents (snapshot_pgnos sample_tracked))"

definition sample_block_file :: bytes where
  "sample_block_file = block_file stored sample_tracked
    (full_pages 512 sample_contents (snapshot_pgnos sample_tracked)) [0] sample_post"

lemma sample_tracked_facts:
  "block_codec_ok stored stored_dec 512" "h_page_size sample_tracked = 512"
  "header_is_snapshot sample_tracked" "\<forall>i. length (sample_contents i) = 512"
  "decode_page_index [0] = Ok []" "tracked sample_tracked"
proof -
  show "block_codec_ok stored stored_dec 512"
    by (simp add: block_codec_ok_def stored_def stored_dec_def)
  show "decode_page_index [0] = Ok []"
    using decode_page_index_bytes [of "[]" "[]"] by (simp add: index_bytes_def append_uvarint_0)
qed (simp_all add: sample_tracked_def sample_header_def header_is_snapshot_def sample_contents_def
    tracked_def header_no_checksum_def HEADER_FLAG_NO_CHECKSUM_def)

theorem read_snapshot_block_file_witness:
  "\<exists>t. read_snapshot stored_dec sample_block_file =
    Ok \<lparr>s_header = sample_tracked, s_db = replicate 512 1 @ replicate 512 2, s_trailer = t\<rparr>"
proof -
  have "\<exists>t. read_snapshot stored_dec (block_file stored sample_tracked
      (full_pages (h_page_size sample_tracked) sample_contents (snapshot_pgnos sample_tracked)) [0] sample_post) =
    Ok \<lparr>s_header = sample_tracked, s_db = full_image (h_page_size sample_tracked) sample_contents
      (snapshot_pgnos sample_tracked), s_trailer = t\<rparr>"
    by (rule read_snapshot_block_file)
      (simp_all add: sample_tracked_facts sample_post_def)
  moreover have "full_image 512 sample_contents (snapshot_pgnos sample_tracked) =
      replicate 512 1 @ replicate 512 2"
  proof -
    have "snapshot_pgnos sample_tracked = [1, 2]"
      by (simp add: snapshot_pgnos_def sample_tracked_def upt_rec)
    then show ?thesis
      by (simp add: full_image_def sample_contents_def)
  qed
  ultimately show ?thesis
    by (simp add: sample_block_file_def sample_tracked_facts)
qed

section \<open>What the streaming decoder checks\<close>

text \<open>\<^verbatim>\<open>decompress_into\<close> never writes past the buffer it is given.\<close>

definition block_bounded :: "lz4_dec \<Rightarrow> bool" where
  "block_bounded lz4d \<longleftrightarrow> (\<forall>b n out. block_into lz4d b n = Some out \<longrightarrow> length out \<le> n)"

lemma decompress_into_length:
  "block_bounded lz4d \<Longrightarrow> decompress_into lz4d src buf = Ok out \<Longrightarrow> length out = length buf"
  by (auto simp: decompress_into_def block_bounded_def split: option.splits)

lemma decode_page_Some:
  assumes "block_bounded lz4d" and "d_header d = Some h"
    and "decode_page lz4d d buf = Ok (d', buf', Some ph)"
  shows "d_header d' = Some h \<and> d_state d' = DPage \<and> length buf' = length buf \<and>
    (tracked h \<and> ph_pgno ph \<noteq> lock_pgno (h_page_size h) \<longrightarrow>
      d_rolling d' = rolling_add (d_rolling d) (ph_pgno ph, buf'))"
  using assms(2,3)
  by (auto simp: decode_page_def res_simps Let_def tracked_def split: if_split_asm
        dest: decompress_into_length [OF assms(1)])
    (drule arg_cong [where f = d_rolling], simp)

lemma decode_page_None:
  assumes "d_header d = Some h" and "decode_page lz4d d buf = Ok (d', buf', None)"
    and "d_state d = DPage"
  shows "d_header d' = Some h \<and> d_state d' = DClose \<and> d_rolling d' = d_rolling d"
  using assms by (auto simp: decode_page_def res_simps Let_def split: if_splits)

definition loop_inv :: "header \<Rightarrow> nat \<Rightarrow> decoder \<times> bytes \<times> bytes \<Rightarrow> bool" where
  "loop_inv h k st \<longleftrightarrow> (case st of (d, db, buf) \<Rightarrow>
    d_header d = Some h \<and> d_state d = DPage \<and> length buf = unat (h_page_size h) \<and>
    length db = unat (h_page_size h) * unat (h_commit h) \<and>
    (tracked h \<longrightarrow> d_rolling d = rolling (Checksum CHECKSUM_FLAG)
      (full_pages (h_page_size h) (page_of (unat (h_page_size h)) db) [1..<k])))"

lemma full_pages_cong:
  "(\<And>i. i \<in> set pgnos \<Longrightarrow> D i = D' i) \<Longrightarrow> full_pages ps D pgnos = full_pages ps D' pgnos"
  by (auto simp: full_pages_def)

lemma loop_inv_step:
  assumes "block_bounded lz4d" and "loop_inv h k st" and "0 < k" and "k \<le> unat (h_commit h)"
    and "read_snapshot_page lz4d h st k = Ok st'"
  shows "loop_inv h (Suc k) st'"
proof -
  let ?ps = "h_page_size h"
  obtain d db buf where st: "st = (d, db, buf)" by (cases st)
  have upt: "[Suc 0..<Suc k] = [Suc 0..<k] @ [k]"
    using assms(3) by simp
  show ?thesis
  proof (cases "(of_nat k :: u32) = lock_pgno ?ps")
    case True
    then have "st' = st"
      using assms(5) by (simp add: read_snapshot_page_def st)
    with True assms(2) show ?thesis
      unfolding loop_inv_def st by (simp add: upt full_pages_def del: upt_Suc)
  next
    case False
    with assms(5) obtain d' buf' ph where step: "decode_page lz4d d buf = Ok (d', buf', Some ph)"
      and ph: "ph_pgno ph = of_nat k" and st': "st' = (d', copy_at ((k - 1) * unat ?ps) buf' db, buf')"
      by (auto simp: read_snapshot_page_def st res_simps Let_def split: if_splits option.splits)
    have inv: "d_header d = Some h" "length buf = unat ?ps" "length db = unat ?ps * unat (h_commit h)"
      using assms(2) by (simp_all add: loop_inv_def st)
    note facts = decode_page_Some [OF assms(1) inv(1) step]
    have "k * unat ?ps \<le> length db"
      using assms(4) by (simp add: inv mult.commute mult_le_mono1)
    note pg = page_of_copy_at [OF _ this _ assms(3), of buf']
    have len: "length (copy_at ((k - 1) * unat ?ps) buf' db) = length db"
      using \<open>k * unat ?ps \<le> length db\<close> facts inv assms(3) by (cases k) simp_all
    have "full_pages ?ps (page_of (unat ?ps) (copy_at ((k - 1) * unat ?ps) buf' db)) [1..<Suc k] =
        full_pages ?ps (page_of (unat ?ps) db) [1..<k] @ [(of_nat k, buf')]"
    proof -
      have "full_pages ?ps (page_of (unat ?ps) (copy_at ((k - 1) * unat ?ps) buf' db)) [1..<k] =
          full_pages ?ps (page_of (unat ?ps) db) [1..<k]"
        by (rule full_pages_cong) (use facts inv pg in auto)
      moreover have "page_of (unat ?ps) (copy_at ((k - 1) * unat ?ps) buf' db) k = buf'"
        using facts inv pg assms(3) by simp
      ultimately show ?thesis
        using False by (simp add: full_pages_def upt del: upt_Suc)
    qed
    then show ?thesis
      using assms(2) facts inv len ph False
      unfolding loop_inv_def st st' by (simp del: upt_Suc)
  qed
qed

lemma loop_inv_run:
  assumes "block_bounded lz4d" and "loop_inv h k st" and "0 < k" and "k + m \<le> Suc (unat (h_commit h))"
    and "rfoldM (read_snapshot_page lz4d h) st [k..<k + m] = Ok st'"
  shows "loop_inv h (k + m) st'"
  using assms(2-5)
proof (induction m arbitrary: k st)
  case 0
  then show ?case by simp
next
  case (Suc m)
  have "[k..<k + Suc m] = k # [Suc k..<Suc k + m]"
    by (simp add: upt_rec)
  with Suc.prems(4) obtain st1 where "read_snapshot_page lz4d h st k = Ok st1"
    and "rfoldM (read_snapshot_page lz4d h) st1 [Suc k..<Suc k + m] = Ok st'"
    by (auto simp: res_simps simp del: upt_Suc)
  then show ?case
    using Suc.IH [of "Suc k" st1] loop_inv_step [OF assms(1) Suc.prems(1)] Suc.prems(2,3) by simp
qed

text \<open>
  C33: whatever bytes it is given, the streaming decoder returns a snapshot only if they start
  with its header, a snapshot header; the image has exactly the committed number of pages; and for
  a tracked file the trailer's post-apply checksum is the rolling checksum of the image's pages.
\<close>

theorem read_snapshot_checks:
  assumes "block_bounded lz4d" and "read_snapshot lz4d b = Ok s"
  shows "header_decode (take 100 b) = Ok (s_header s) \<and> header_is_snapshot (s_header s) \<and>
    length (s_db s) = unat (h_page_size (s_header s)) * unat (h_commit (s_header s)) \<and>
    (tracked (s_header s) \<longrightarrow> t_post_apply_checksum (s_trailer s) = rolling (Checksum CHECKSUM_FLAG)
      (full_pages (h_page_size (s_header s)) (page_of (unat (h_page_size (s_header s))) (s_db s))
        (snapshot_pgnos (s_header s))))"
proof -
  let ?h = "s_header s"
  from assms(2) obtain d db buf d1 buf1 d2 d3 where
    hdr: "decode_header (decoder_new b) = Ok (d, ?h)" and snap: "header_is_snapshot ?h"
    and loop: "rfoldM (read_snapshot_page lz4d ?h) (d, replicate (unat (h_page_size ?h) *
        unat (h_commit ?h)) 0, replicate (unat (h_page_size ?h)) 0)
        [1..<1 + unat (h_commit ?h)] = Ok (d1, s_db s, buf)"
    and last: "decode_page lz4d d1 buf = Ok (d2, buf1, None)"
    and fin: "decoder_finish d2 = Ok (d3, s_trailer s)"
    by (auto simp: read_snapshot_def res_simps Let_def split: if_splits simp del: upt_Suc)
  from hdr have head: "header_decode (take 100 b) = Ok ?h"
    and d: "d_header d = Some ?h" "d_state d = DPage"
      "tracked ?h \<Longrightarrow> d_rolling d = Checksum CHECKSUM_FLAG"
    by (auto simp: decode_header_def decoder_new_def read_exact_def res_simps Let_def tracked_def
        split: if_splits)
  have "loop_inv ?h 1 (d, replicate (unat (h_page_size ?h) * unat (h_commit ?h)) 0,
      replicate (unat (h_page_size ?h)) 0)"
    using d by (simp add: loop_inv_def full_pages_def)
  from loop_inv_run [OF assms(1) this _ _ loop]
  have inv: "loop_inv ?h (1 + unat (h_commit ?h)) (d1, s_db s, buf)" by simp
  then have d1: "d_header d1 = Some ?h" "d_state d1 = DPage"
    by (simp_all add: loop_inv_def)
  note d2 = decode_page_None [OF d1(1) last d1(2)]
  have "tracked ?h \<longrightarrow> t_post_apply_checksum (s_trailer s) = d_rolling d2"
    using fin d2 by (auto simp: decoder_finish_def Let_def res_simps tracked_def split: if_splits)
  with d2 inv head snap show ?thesis
    by (simp add: loop_inv_def snapshot_pgnos_def del: upt_Suc)
qed

theorem read_snapshot_checks_witness:
  "\<exists>s. read_snapshot stored_dec sample_block_file = Ok s \<and> header_is_snapshot (s_header s) \<and>
    length (s_db s) = 1024 \<and> t_post_apply_checksum (s_trailer s) = rolling (Checksum CHECKSUM_FLAG)
      (full_pages 512 (page_of 512 (s_db s)) (snapshot_pgnos sample_tracked))"
proof -
  have "\<exists>t. read_snapshot stored_dec (block_file stored sample_tracked
      (full_pages (h_page_size sample_tracked) sample_contents (snapshot_pgnos sample_tracked)) [0] sample_post) =
    Ok \<lparr>s_header = sample_tracked, s_db = full_image (h_page_size sample_tracked) sample_contents
      (snapshot_pgnos sample_tracked), s_trailer = t\<rparr>"
    by (rule read_snapshot_block_run)
      (simp_all add: sample_tracked_facts sample_post_def)
  then obtain s where s: "read_snapshot stored_dec sample_block_file = Ok s" "s_header s = sample_tracked"
    by (auto simp: sample_block_file_def sample_tracked_facts)
  have "block_bounded stored_dec"
    by (simp add: block_bounded_def stored_dec_def)
  from read_snapshot_checks [OF this s(1)] s show ?thesis
    by (simp add: sample_tracked_facts) (simp add: sample_tracked_def)
qed

end
