(* ===== verification/Storage.thy ===== *)
theory Storage
  imports Prelude "HOL-Library.Sublist" "HOL-Library.Char_ord" "HOL-Library.List_Lexorder" "HOL-Library.Product_Lexorder"
begin

text \<open>
  The replica client (\<^verbatim>\<open>src/storage/mod.rs\<close>, \<^verbatim>\<open>src/storage/error.rs\<close>): the key layout, the filename
  parser, and put, compare-and-swap put, multipart put, get, ranged get, delete and list. The object
  store itself is a third-party service: the record \<open>object_store\<close> of its operations on an abstract
  state \<open>'s\<close>, with the documented behaviour the client relies on in \<open>store_ok\<close>.
\<close>

section \<open>The object store\<close>

datatype os_error = OsNotFound | OsAlreadyExists | OsPrecondition | OsOther

datatype storage_error = ObjectStore os_error | StorageIo

definition is_not_found :: "storage_error \<Rightarrow> bool" where
  "is_not_found e \<longleftrightarrow> e = ObjectStore OsNotFound"

text \<open>\<open>om_last_modified\<close> is the creation time in nanoseconds since the Unix epoch.\<close>

record obj_meta =
  om_location :: string
  om_size :: nat
  om_last_modified :: int

record 's object_store =
  os_put :: "string \<Rightarrow> bytes \<Rightarrow> 's \<Rightarrow> (unit, os_error) result \<times> 's"
  os_put_create :: "string \<Rightarrow> bytes \<Rightarrow> 's \<Rightarrow> (unit, os_error) result \<times> 's"
  os_put_parts :: "string \<Rightarrow> bytes list \<Rightarrow> 's \<Rightarrow> (unit, os_error) result \<times> 's"
  os_get :: "string \<Rightarrow> 's \<Rightarrow> (bytes, os_error) result"
  os_get_range :: "string \<Rightarrow> nat \<Rightarrow> nat \<Rightarrow> 's \<Rightarrow> (bytes, os_error) result"
  os_head :: "string \<Rightarrow> 's \<Rightarrow> (obj_meta, os_error) result"
  os_delete :: "string \<Rightarrow> 's \<Rightarrow> (unit, os_error) result \<times> 's"
  os_list :: "string \<Rightarrow> 's \<Rightarrow> (obj_meta list, os_error) result"

record 's replica_client =
  cl_store :: "'s object_store"
  cl_prefix :: string

section \<open>Keys\<close>

definition trim_slashes :: "string \<Rightarrow> string" where
  "trim_slashes s = rev (dropWhile (\<lambda>c. c = CHR ''/'') (rev (dropWhile (\<lambda>c. c = CHR ''/'') s)))"

definition replica_client_new :: "'s object_store \<Rightarrow> string \<Rightarrow> 's replica_client" where
  "replica_client_new store pre = \<lparr>cl_store = store, cl_prefix = trim_slashes pre\<rparr>"

definition hex_char :: "nat \<Rightarrow> char" where
  "hex_char d = ''0123456789abcdef'' ! d"

fun hex_digits :: "nat \<Rightarrow> string" where
  "hex_digits n = (if n < 16 then [hex_char n] else hex_digits (n div 16) @ [hex_char (n mod 16)])"

declare hex_digits.simps [simp del]

text \<open>\<^verbatim>\<open>{n:0wx}\<close>: lower-case hex, zero-padded to at least \<open>w\<close> digits.\<close>

definition pad_hex :: "nat \<Rightarrow> nat \<Rightarrow> string" where
  "pad_hex w n = (let s = hex_digits n in replicate (w - length s) CHR ''0'' @ s)"

text \<open>
  Keys are the texts the code builds. What \<^verbatim>\<open>ObjectPath::from\<close> makes of a text (empty segments dropped, some
  characters escaped) belongs to the store's crate, and the operations of the record \<open>object_store\<close> take the text.
\<close>

definition level_dir :: "'s replica_client \<Rightarrow> u32 \<Rightarrow> string" where
  "level_dir cl level =
    (if cl_prefix cl = '''' then pad_hex 4 (unat level)
     else cl_prefix cl @ ''/'' @ pad_hex 4 (unat level))"

definition ltx_filename :: "u64 \<Rightarrow> u64 \<Rightarrow> string" where
  "ltx_filename min_txid max_txid =
    pad_hex 16 (unat min_txid) @ ''-'' @ pad_hex 16 (unat max_txid) @ ''.ltx''"

definition ltx_key :: "'s replica_client \<Rightarrow> u32 \<Rightarrow> u64 \<Rightarrow> u64 \<Rightarrow> string" where
  "ltx_key cl level min_txid max_txid = level_dir cl level @ ''/'' @ ltx_filename min_txid max_txid"

subsection \<open>Parsing a filename\<close>

text \<open>\<^verbatim>\<open>u64::from_str_radix(s, 16)\<close>: an optional plus sign, at least one digit of either case, no overflow.\<close>

definition hex_value :: "char \<Rightarrow> nat option" where
  "hex_value c =
    (let n = of_char c :: nat in
     if 48 \<le> n \<and> n \<le> 57 then Some (n - 48)
     else if 97 \<le> n \<and> n \<le> 102 then Some (n - 87)
     else if 65 \<le> n \<and> n \<le> 70 then Some (n - 55) else None)"

fun hex_value_from :: "nat \<Rightarrow> string \<Rightarrow> nat option" where
  "hex_value_from acc [] = Some acc"
| "hex_value_from acc (c # cs) =
     (case hex_value c of None \<Rightarrow> None
      | Some d \<Rightarrow> if acc * 16 + d < 2 ^ 64 then hex_value_from (acc * 16 + d) cs else None)"

definition from_str_radix_16 :: "string \<Rightarrow> u64 option" where
  "from_str_radix_16 s =
    (let digits = (case s of [] \<Rightarrow> [] | c # cs \<Rightarrow> if c = CHR ''+'' then cs else s) in
     if digits = [] then None else map_option of_nat (hex_value_from 0 digits))"

definition strip_suffix :: "string \<Rightarrow> string \<Rightarrow> string option" where
  "strip_suffix s suf =
    (if length suf \<le> length s \<and> drop (length s - length suf) s = suf
     then Some (take (length s - length suf) s) else None)"

definition split_once :: "string \<Rightarrow> char \<Rightarrow> (string \<times> string) option" where
  "split_once s c = (if c \<in> set s then Some (takeWhile (\<lambda>x. x \<noteq> c) s, tl (dropWhile (\<lambda>x. x \<noteq> c) s))
    else None)"

definition parse_ltx_filename :: "string \<Rightarrow> (u64 \<times> u64) option" where
  "parse_ltx_filename name =
    (case strip_suffix name ''.ltx'' of None \<Rightarrow> None
     | Some stem \<Rightarrow>
    (case split_once stem CHR ''-'' of None \<Rightarrow> None
     | Some (mn, mx) \<Rightarrow>
    (case from_str_radix_16 mn of None \<Rightarrow> None
     | Some a \<Rightarrow>
    (case from_str_radix_16 mx of None \<Rightarrow> None
     | Some b \<Rightarrow> Some (a, b)))))"

section \<open>Client operations\<close>

text \<open>\<open>?\<close> on an object-store result: the error converts into a storage error.\<close>

definition os_res :: "('a, os_error) result \<Rightarrow> ('a, storage_error) result" where
  "os_res = rmap_err ObjectStore"

definition put_ltx ::
  "'s replica_client \<Rightarrow> u32 \<Rightarrow> u64 \<Rightarrow> u64 \<Rightarrow> bytes \<Rightarrow> 's \<Rightarrow> (unit, storage_error) result \<times> 's" where
  "put_ltx cl level mn mx b s =
    (case os_put (cl_store cl) (ltx_key cl level mn mx) b s of (r, s) \<Rightarrow> (os_res r, s))"

datatype put_outcome = Created | AlreadyIdentical | Conflict

definition put_ltx_cas ::
  "'s replica_client \<Rightarrow> u32 \<Rightarrow> u64 \<Rightarrow> u64 \<Rightarrow> bytes \<Rightarrow> 's
    \<Rightarrow> (put_outcome, storage_error) result \<times> 's" where
  "put_ltx_cas cl level mn mx b s =
    (let key = ltx_key cl level mn mx in
     case os_put_create (cl_store cl) key b s of
       (Ok _, s) \<Rightarrow> (Ok Created, s)
     | (Panic, s) \<Rightarrow> (Panic, s)
     | (Err e, s) \<Rightarrow>
         if e = OsAlreadyExists \<or> e = OsPrecondition then
           (rbind (os_res (os_get (cl_store cl) key s)) (\<lambda>existing.
              Ok (if existing = b then AlreadyIdentical else Conflict)), s)
         else (Err (ObjectStore e), s))"

definition MULTIPART_CHUNK :: nat where
  "MULTIPART_CHUNK = 8 * 1024 * 1024"

text \<open>
  The parts the upload loop puts: each \<^verbatim>\<open>fill\<close> takes a full buffer or what is left; the loop stops
  at an empty or short one.
\<close>

function multipart_parts :: "nat \<Rightarrow> bytes \<Rightarrow> bytes list" where
  "multipart_parts chunk data =
    (if chunk = 0 \<or> data = [] then []
     else if length data < chunk then [data]
     else take chunk data # multipart_parts chunk (drop chunk data))"
  by pat_completeness auto
termination
  by (relation "measure (\<lambda>(chunk, data). length data)") (auto simp: diff_less)

declare multipart_parts.simps [simp del]

text \<open>
  Opening the upload, its parts and its completion are one call to the store, as an upload that is not completed
  or was aborted is no object. The caller reads the file (\<open>fs_read\<close> of Staging, with its errors) and passes what it
  holds.
\<close>

definition put_ltx_multipart ::
  "'s replica_client \<Rightarrow> u32 \<Rightarrow> u64 \<Rightarrow> u64 \<Rightarrow> bytes \<Rightarrow> 's \<Rightarrow> (unit, storage_error) result \<times> 's" where
  "put_ltx_multipart cl level mn mx content s =
    (case os_put_parts (cl_store cl) (ltx_key cl level mn mx) (multipart_parts MULTIPART_CHUNK content) s of
       (r, s) \<Rightarrow> (os_res r, s))"

definition get_ltx ::
  "'s replica_client \<Rightarrow> u32 \<Rightarrow> u64 \<Rightarrow> u64 \<Rightarrow> 's \<Rightarrow> (bytes, storage_error) result" where
  "get_ltx cl level mn mx s = os_res (os_get (cl_store cl) (ltx_key cl level mn mx) s)"

text \<open>The offset and the length are \<^verbatim>\<open>u64\<close>s, and the end of the range is their sum in that type.\<close>

definition get_ltx_range ::
  "'s replica_client \<Rightarrow> u32 \<Rightarrow> u64 \<Rightarrow> u64 \<Rightarrow> nat \<Rightarrow> nat \<Rightarrow> 's \<Rightarrow> (bytes, storage_error) result" where
  "get_ltx_range cl level mn mx offset len s =
    os_res (os_get_range (cl_store cl) (ltx_key cl level mn mx) offset ((offset + len) mod 2 ^ 64) s)"

definition ltx_size :: "'s replica_client \<Rightarrow> u32 \<Rightarrow> u64 \<Rightarrow> u64 \<Rightarrow> 's \<Rightarrow> (nat, storage_error) result" where
  "ltx_size cl level mn mx s = rmap om_size (os_res (os_head (cl_store cl) (ltx_key cl level mn mx) s))"

definition delete_ltx ::
  "'s replica_client \<Rightarrow> u32 \<Rightarrow> u64 \<Rightarrow> u64 \<Rightarrow> 's \<Rightarrow> (unit, storage_error) result \<times> 's" where
  "delete_ltx cl level mn mx s =
    (case os_delete (cl_store cl) (ltx_key cl level mn mx) s of (r, s) \<Rightarrow> (os_res r, s))"

record ltx_file_info =
  li_level :: u32
  li_min :: u64
  li_max :: u64
  li_size :: nat
  li_created :: "int option"

definition path_filename :: "string \<Rightarrow> string" where
  "path_filename s = rev (takeWhile (\<lambda>c. c \<noteq> CHR ''/'') (rev s))"

definition file_info :: "u32 \<Rightarrow> obj_meta \<Rightarrow> ltx_file_info option" where
  "file_info level meta =
    (case parse_ltx_filename (path_filename (om_location meta)) of
       None \<Rightarrow> None
     | Some (mn, mx) \<Rightarrow> Some \<lparr>li_level = level, li_min = mn, li_max = mx, li_size = om_size meta,
         li_created = Some (om_last_modified meta)\<rparr>)"

definition list_ltx :: "'s replica_client \<Rightarrow> u32 \<Rightarrow> 's \<Rightarrow> (ltx_file_info list, storage_error) result" where
  "list_ltx cl level s =
    rbind (os_res (os_list (cl_store cl) (level_dir cl level) s)) (\<lambda>metas.
    Ok (sort_key (\<lambda>f. (li_min f, li_max f)) (List.map_filter (file_info level) metas)))"

definition list_all_ltx :: "'s replica_client \<Rightarrow> u32 \<Rightarrow> 's \<Rightarrow> (ltx_file_info list, storage_error) result" where
  "list_all_ltx cl max_level s =
    rbind (rmapM (\<lambda>level. list_ltx cl level s) (map of_nat [0..<Suc (unat max_level)])) (\<lambda>levels.
    Ok (concat levels))"

section \<open>Filenames\<close>

text \<open>Fixed-width hex.\<close>

fun hexw :: "nat \<Rightarrow> nat \<Rightarrow> string" where
  "hexw 0 n = []"
| "hexw (Suc w) n = hexw w (n div 16) @ [hex_char (n mod 16)]"

lemma length_hexw [simp]: "length (hexw w n) = w"
  by (induction w arbitrary: n) auto

lemma hexw_zero: "hexw w 0 = replicate w CHR ''0''"
  by (induction w) (auto simp: hex_char_def replicate_append_same)

lemma pad_hex_hexw: "0 < w \<Longrightarrow> n < 16 ^ w \<Longrightarrow> length (hex_digits n) \<le> w \<and> pad_hex w n = hexw w n"
proof (induction w arbitrary: n)
  case 0
  then show ?case by simp
next
  case (Suc w)
  show ?case
  proof (cases "n < 16")
    case True
    then show ?thesis
      by (simp add: pad_hex_def hex_digits.simps [of n] hexw_zero)
  next
    case False
    then have "n div 16 < 16 ^ w" "0 < w"
      using Suc.prems by (cases w; auto simp: less_mult_imp_div_less mult.commute)+
    from Suc.IH [OF this(2,1)] False show ?thesis
      by (simp add: pad_hex_def hex_digits.simps [of n] Let_def)
  qed
qed

lemma hex_char_facts:
  assumes "d < 16"
  shows "hex_value (hex_char d) = Some d" and "hex_char d \<noteq> CHR ''-''" and "hex_char d \<noteq> CHR ''+''"
    and "hex_char d \<noteq> CHR ''/''"
proof -
  have "\<forall>d \<in> set [0..<16]. hex_value (hex_char d) = Some d \<and> hex_char d \<noteq> CHR ''-'' \<and>
      hex_char d \<noteq> CHR ''+'' \<and> hex_char d \<noteq> CHR ''/''"
    by code_simp
  then show "hex_value (hex_char d) = Some d" "hex_char d \<noteq> CHR ''-''" "hex_char d \<noteq> CHR ''+''"
    "hex_char d \<noteq> CHR ''/''"
    using assms by auto
qed

lemma hex_char_less: "a < 16 \<Longrightarrow> b < 16 \<Longrightarrow> hex_char a < hex_char b \<longleftrightarrow> a < b"
proof -
  have "\<forall>a \<in> set [0..<16]. \<forall>b \<in> set [0..<16]. hex_char a < hex_char b \<longleftrightarrow> a < b"
    by code_simp
  then show "a < 16 \<Longrightarrow> b < 16 \<Longrightarrow> hex_char a < hex_char b \<longleftrightarrow> a < b"
    by auto
qed

lemma set_hexw: "c \<in> set (hexw w n) \<Longrightarrow> \<exists>d < 16. c = hex_char d"
  by (induction w arbitrary: n) (auto intro: exI [of _ "n mod 16" for n])

lemma hexw_chars [simp]:
  "CHR ''-'' \<notin> set (hexw w n)" "CHR ''+'' \<notin> set (hexw w n)" "CHR ''/'' \<notin> set (hexw w n)"
  by (metis set_hexw hex_char_facts)+

lemma hex_value_from_hexw:
  "n < 16 ^ w \<Longrightarrow> acc * 16 ^ w + n < 2 ^ 64 \<Longrightarrow>
    hex_value_from acc (hexw w n @ rest) = hex_value_from (acc * 16 ^ w + n) rest"
proof (induction w arbitrary: n rest)
  case 0
  then show ?case by simp
next
  case (Suc w)
  have split: "(acc * 16 ^ w + n div 16) * 16 + n mod 16 = acc * 16 ^ Suc w + n"
    by (simp add: algebra_simps)
  have "n div 16 < 16 ^ w"
    using Suc.prems(1) by (simp add: less_mult_imp_div_less mult.commute)
  moreover have "acc * 16 ^ w + n div 16 \<le> (acc * 16 ^ w + n div 16) * 16 + n mod 16"
    by simp
  then have "acc * 16 ^ w + n div 16 < 2 ^ 64"
    unfolding split using Suc.prems(2) by (rule le_less_trans)
  ultimately show ?case
    using Suc.IH [of "n div 16" "hex_char (n mod 16) # rest"] Suc.prems(2) split
    by (simp add: hex_char_facts algebra_simps)
qed

lemma u64_hex:
  fixes w :: u64
  shows "pad_hex 16 (unat w) = hexw 16 (unat w)"
proof -
  have "unat w < 16 ^ 16"
    using unsigned_less [of w, where 'a = nat] by simp
  then show ?thesis
    using pad_hex_hexw [of 16 "unat w"] by simp
qed

lemma from_str_radix_hex: "from_str_radix_16 (hexw 16 (unat (w :: u64))) = Some w"
proof -
  have v: "hex_value_from 0 (hexw 16 (unat w)) = Some (unat w)"
    using hex_value_from_hexw [of "unat w" 16 0 "[]"] unsigned_less [of w, where 'a = nat] by simp
  obtain c cs where h: "hexw 16 (unat w) = c # cs"
    by (metis length_hexw length_Suc_conv numeral_eq_Suc)
  then have "c \<noteq> CHR ''+''"
    using hexw_chars(2) [of 16 "unat w"] by auto
  then show ?thesis
    using v h by (simp add: from_str_radix_16_def)
qed

lemma split_once_at: "c \<notin> set xs \<Longrightarrow> split_once (xs @ c # ys) c = Some (xs, ys)"
  by (simp add: split_once_def takeWhile_append dropWhile_append)

lemma parse_filename: "parse_ltx_filename (ltx_filename a b) = Some (a, b)"
proof -
  have "strip_suffix (ltx_filename a b) ''.ltx'' = Some (hexw 16 (unat a) @ CHR ''-'' # hexw 16 (unat b))"
    by (simp add: strip_suffix_def ltx_filename_def u64_hex)
  then show ?thesis
    by (simp add: parse_ltx_filename_def split_once_at from_str_radix_hex)
qed

text \<open>
  Every filename the client writes parses back to its TXID range, so distinct ranges have
  distinct keys.
\<close>

theorem ltx_filename_roundtrip:
  "parse_ltx_filename (path_filename (ltx_key cl level a b)) = Some (a, b)"
proof -
  have "CHR ''/'' \<notin> set (ltx_filename a b)"
    by (simp add: ltx_filename_def u64_hex)
  then have "path_filename (ltx_key cl level a b) = ltx_filename a b"
    by (simp add: path_filename_def ltx_key_def takeWhile_append)
  then show ?thesis
    by (simp add: parse_filename)
qed

lemma append_less:
  fixes xs ys u v :: string
  assumes "length xs = length ys"
  shows "xs @ u < ys @ v \<longleftrightarrow> xs < ys \<or> (xs = ys \<and> u < v)"
  using assms by (induction xs ys rule: list_induct2) auto

lemma hexw_less: "a < 16 ^ w \<Longrightarrow> b < 16 ^ w \<Longrightarrow> hexw w a < hexw w b \<longleftrightarrow> a < b"
proof (induction w arbitrary: a b)
  case 0
  then show ?case by simp
next
  case (Suc w)
  have ab: "a div 16 < 16 ^ w" "b div 16 < 16 ^ w"
    using Suc.prems by (simp_all add: less_mult_imp_div_less mult.commute)
  have eq: "hexw w (a div 16) = hexw w (b div 16) \<longleftrightarrow> a div 16 = b div 16"
    using Suc.IH [OF ab] Suc.IH [OF ab(2,1)] by (metis less_irrefl linorder_neqE_nat)
  have "[hex_char (a mod 16)] < [hex_char (b mod 16)] \<longleftrightarrow> a mod 16 < b mod 16"
    by (simp add: hex_char_less)
  then have "hexw (Suc w) a < hexw (Suc w) b \<longleftrightarrow> a div 16 < b div 16 \<or> (a div 16 = b div 16 \<and> a mod 16 < b mod 16)"
    by (simp add: append_less Suc.IH [OF ab] eq)
  also have "\<dots> \<longleftrightarrow> a < b"
  proof -
    have "qa < qb \<or> (qa = qb \<and> ra < rb) \<longleftrightarrow> qa * 16 + ra < qb * 16 + rb" if "ra < 16" "rb < 16" for qa qb ra rb :: nat
      using that by presburger
    from this [of "a mod 16" "b mod 16" "a div 16" "b div 16"] show ?thesis
      by (simp add: div_mult_mod_eq del: mod_mult_self4)
  qed
  finally show ?case .
qed

text \<open>
  Within a level, the lexicographic order of keys is the order of TXID ranges, so a store that
  lists keys in order lists files in TXID order.
\<close>

theorem ltx_key_order:
  "ltx_key cl level a b < ltx_key cl level c d \<longleftrightarrow> (a, b) < (c, d)"
proof -
  have bound: "unat (w :: u64) < 16 ^ 16" for w
    using unsigned_less [of w, where 'a = nat] by simp
  have less: "hexw 16 (unat x) < hexw 16 (unat y) \<longleftrightarrow> x < y" for x y :: u64
    using hexw_less [OF bound bound] by (simp add: word_less_nat_alt)
  have eq: "hexw 16 (unat x) = hexw 16 (unat y) \<longleftrightarrow> x = y" for x y :: u64
    using less [of x y] less [of y x] by (metis less_irrefl linorder_neqE)
  have "ltx_key cl level a b < ltx_key cl level c d \<longleftrightarrow>
      hexw 16 (unat a) @ ''-'' @ hexw 16 (unat b) @ ''.ltx'' < hexw 16 (unat c) @ ''-'' @ hexw 16 (unat d) @ ''.ltx''"
    unfolding ltx_key_def ltx_filename_def u64_hex by (simp add: append_less [OF refl])
  also have "\<dots> \<longleftrightarrow> a < c \<or> (a = c \<and> b < d)"
    by (simp add: append_less less eq)
  also have "\<dots> \<longleftrightarrow> (a, b) < (c, d)"
    by (auto simp: less_prod_def')
  finally show ?thesis .
qed

section \<open>What the client relies on\<close>

text \<open>
  \<open>objs s\<close>: the objects of the store in state \<open>s\<close>. The documented behaviour of the store: an
  acknowledged put is there and touches nothing else; a conditional put never overwrites, and
  reports an existing object as such (a retry of an acknowledged put may see its own object); reads
  and listings that succeed return what is stored. Any operation may fail.
\<close>

definition put_law :: "'s object_store \<Rightarrow> ('s \<Rightarrow> string \<Rightarrow> bytes option) \<Rightarrow> bool" where
  "put_law st objs \<longleftrightarrow>
    (\<forall>k b s s'. os_put st k b s = (Ok (), s') \<longrightarrow> objs s' = (objs s)(k \<mapsto> b)) \<and>
    (\<forall>k bs s s'. os_put_parts st k bs s = (Ok (), s') \<longrightarrow> objs s' = (objs s)(k \<mapsto> concat bs))"

definition create_law :: "'s object_store \<Rightarrow> ('s \<Rightarrow> string \<Rightarrow> bytes option) \<Rightarrow> bool" where
  "create_law st objs \<longleftrightarrow> (\<forall>k b s r s'. os_put_create st k b s = (r, s') \<longrightarrow>
    (\<forall>k'. k' \<noteq> k \<longrightarrow> objs s' k' = objs s k') \<and>
    (\<forall>c. objs s k = Some c \<longrightarrow> objs s' k = Some c) \<and>
    (objs s k = None \<longrightarrow> objs s' k \<in> {None, Some b}) \<and>
    (r = Ok () \<longrightarrow> objs s k = None \<and> objs s' k = Some b) \<and>
    (r = Err OsAlreadyExists \<or> r = Err OsPrecondition \<longrightarrow> objs s' k \<noteq> None))"

definition get_law :: "'s object_store \<Rightarrow> ('s \<Rightarrow> string \<Rightarrow> bytes option) \<Rightarrow> bool" where
  "get_law st objs \<longleftrightarrow>
    (\<forall>k s b. os_get st k s = Ok b \<longrightarrow> objs s k = Some b) \<and>
    (\<forall>k s. os_get st k s = Err OsNotFound \<longrightarrow> objs s k = None) \<and>
    (\<forall>k s i j b. os_get_range st k i j s = Ok b \<longrightarrow>
      (\<exists>c. objs s k = Some c \<and> b = take (j - i) (drop i c))) \<and>
    (\<forall>k s m. os_head st k s = Ok m \<longrightarrow> (\<exists>c. objs s k = Some c \<and> om_size m = length c))"

definition delete_law :: "'s object_store \<Rightarrow> ('s \<Rightarrow> string \<Rightarrow> bytes option) \<Rightarrow> bool" where
  "delete_law st objs \<longleftrightarrow>
    (\<forall>k s s'. os_delete st k s = (Ok (), s') \<longrightarrow> objs s' = (objs s)(k := None))"

definition list_law :: "'s object_store \<Rightarrow> ('s \<Rightarrow> string \<Rightarrow> bytes option) \<Rightarrow> bool" where
  "list_law st objs \<longleftrightarrow> (\<forall>d s ms. os_list st d s = Ok ms \<longrightarrow> distinct (map om_location ms) \<and>
    (\<forall>k n. (k, n) \<in> (\<lambda>m. (om_location m, om_size m)) ` set ms \<longleftrightarrow>
      (\<exists>b. objs s k = Some b \<and> n = length b \<and> prefix (d @ ''/'') k)))"

definition store_ok :: "'s object_store \<Rightarrow> ('s \<Rightarrow> string \<Rightarrow> bytes option) \<Rightarrow> bool" where
  "store_ok st objs \<longleftrightarrow> put_law st objs \<and> create_law st objs \<and> get_law st objs \<and>
    delete_law st objs \<and> list_law st objs"

text \<open>An in-memory store, for concrete instances.\<close>

definition mem_store :: "(string \<times> bytes) list object_store" where
  "mem_store =
    \<lparr>os_put = (\<lambda>k b s. (Ok (), (k, b) # filter (\<lambda>(k', _). k' \<noteq> k) s)),
     os_put_create = (\<lambda>k b s. if map_of s k = None then (Ok (), (k, b) # s) else (Err OsAlreadyExists, s)),
     os_put_parts = (\<lambda>k bs s. (Ok (), (k, concat bs) # filter (\<lambda>(k', _). k' \<noteq> k) s)),
     os_get = (\<lambda>k s. case map_of s k of None \<Rightarrow> Err OsNotFound | Some b \<Rightarrow> Ok b),
     os_get_range = (\<lambda>k i j s. case map_of s k of None \<Rightarrow> Err OsNotFound
       | Some b \<Rightarrow> Ok (take (j - i) (drop i b))),
     os_head = (\<lambda>k s. case map_of s k of None \<Rightarrow> Err OsNotFound
       | Some b \<Rightarrow> Ok \<lparr>om_location = k, om_size = length b, om_last_modified = 0\<rparr>),
     os_delete = (\<lambda>k s. (Ok (), filter (\<lambda>(k', _). k' \<noteq> k) s)),
     os_list = (\<lambda>d s. Ok (map (\<lambda>k. \<lparr>om_location = k, om_size = length (the (map_of s k)), om_last_modified = 0\<rparr>)
       (filter (\<lambda>k. prefix (d @ ''/'') k) (remdups (map fst s)))))\<rparr>"

lemma map_of_filter_key: "map_of (filter (\<lambda>(k', _). k' \<noteq> k) s) = (map_of s)(k := None)"
  by (induction s) (auto simp: fun_eq_iff)

lemma mem_store_ok: "store_ok mem_store map_of"
proof -
  have list: "list_law mem_store map_of"
    unfolding list_law_def
  proof (intro allI impI conjI)
    fix d s ms
    assume "os_list mem_store d s = Ok ms"
    then have ms: "ms = map (\<lambda>k. \<lparr>om_location = k, om_size = length (the (map_of s k)), om_last_modified = 0\<rparr>)
       (filter (\<lambda>k. prefix (d @ ''/'') k) (remdups (map fst s)))"
      by (simp add: mem_store_def)
    then have "map om_location ms = filter (\<lambda>k. prefix (d @ ''/'') k) (remdups (map fst s))"
      by (simp add: comp_def)
    then show "distinct (map om_location ms)"
      by simp
    fix k n
    have "k \<in> fst ` set s \<longleftrightarrow> (\<exists>b. map_of s k = Some b)"
      by (metis map_of_eq_None_iff not_Some_eq)
    then show "((k, n) \<in> (\<lambda>m. (om_location m, om_size m)) ` set ms) =
        (\<exists>b. map_of s k = Some b \<and> n = length b \<and> prefix (d @ ''/'') k)"
      unfolding ms by (force simp: image_image)
  qed
  have "put_law mem_store map_of" "create_law mem_store map_of" "get_law mem_store map_of"
    "delete_law mem_store map_of"
    unfolding put_law_def create_law_def get_law_def delete_law_def
    by (auto simp: mem_store_def map_of_filter_key split: option.splits if_splits)
  with list show ?thesis
    by (simp add: store_ok_def)
qed

section \<open>Compare-and-swap\<close>

lemma put_ltx_cas_run:
  assumes "store_ok (cl_store cl) objs" and "put_ltx_cas cl level mn mx b s = (r, s')"
  defines "k \<equiv> ltx_key cl level mn mx"
  shows "(\<forall>k'. k' \<noteq> k \<longrightarrow> objs s' k' = objs s k') \<and>
    (\<forall>c. objs s k = Some c \<longrightarrow> objs s' k = Some c) \<and>
    (r = Ok Created \<longrightarrow> objs s k = None \<and> objs s' k = Some b) \<and>
    (r = Ok AlreadyIdentical \<longrightarrow> objs s' k = Some b) \<and>
    (r = Ok Conflict \<longrightarrow> (\<exists>c. c \<noteq> b \<and> objs s' k = Some c))"
proof -
  obtain r0 s0 where put: "os_put_create (cl_store cl) k b s = (r0, s0)"
    by (cases "os_put_create (cl_store cl) k b s")
  have s': "s' = s0"
    using assms(2) put by (auto simp: put_ltx_cas_def k_def Let_def split: result.splits if_splits)
  have get: "os_get (cl_store cl) k s0 = Ok c \<Longrightarrow> objs s0 k = Some c" for c
    using assms(1) unfolding store_ok_def get_law_def by blast
  have law: "(\<forall>k'. k' \<noteq> k \<longrightarrow> objs s0 k' = objs s k') \<and>
      (\<forall>c. objs s k = Some c \<longrightarrow> objs s0 k = Some c) \<and>
      (r0 = Ok () \<longrightarrow> objs s k = None \<and> objs s0 k = Some b)"
    using assms(1) put unfolding store_ok_def create_law_def by blast
  have r: "r = Ok Created \<longrightarrow> r0 = Ok ()"
    "r = Ok AlreadyIdentical \<longrightarrow> os_get (cl_store cl) k s0 = Ok b"
    "r = Ok Conflict \<longrightarrow> (\<exists>c. c \<noteq> b \<and> os_get (cl_store cl) k s0 = Ok c)"
    using assms(2) put
    by (auto simp: put_ltx_cas_def k_def [symmetric] Let_def res_simps os_res_def
        split: result.splits if_splits)
  then show ?thesis
    using law get unfolding s' by blast
qed

text \<open>
  C28: the compare-and-swap put never changes an existing object; it reports \<open>Created\<close> only when it
  stored its bytes where nothing was, \<open>AlreadyIdentical\<close> only when the object holds exactly its
  bytes, and \<open>Conflict\<close> only when it holds others. After one writer's \<open>Created\<close>, a second writer with
  different bytes never gets a success for the same range.
\<close>

theorem put_ltx_cas_is_safe:
  assumes "store_ok (cl_store cl) objs"
    and "put_ltx_cas cl level mn mx b1 s0 = (r1, s1)" and "put_ltx_cas cl level mn mx b2 s1 = (r2, s2)"
  defines "k \<equiv> ltx_key cl level mn mx"
  shows "(\<forall>c. objs s0 k = Some c \<longrightarrow> objs s1 k = Some c \<and> r1 \<noteq> Ok Created) \<and>
    (r1 = Ok Created \<longrightarrow> objs s0 k = None \<and> objs s1 k = Some b1) \<and>
    (r1 = Ok AlreadyIdentical \<longrightarrow> objs s1 k = Some b1) \<and>
    (r1 = Ok Conflict \<longrightarrow> (\<exists>c. c \<noteq> b1 \<and> objs s1 k = Some c)) \<and>
    (r1 = Ok Created \<and> b2 \<noteq> b1 \<longrightarrow> r2 \<notin> {Ok Created, Ok AlreadyIdentical} \<and> objs s2 k = Some b1)"
  using put_ltx_cas_run [OF assms(1,2)] put_ltx_cas_run [OF assms(1,3)]
  unfolding k_def by auto

theorem put_ltx_cas_is_safe_witness:
  "put_ltx_cas (replica_client_new mem_store ''db'') 0 1 1 [1] [] =
      (Ok Created, [(''db/0000/0000000000000001-0000000000000001.ltx'', [1])]) \<and>
    fst (put_ltx_cas (replica_client_new mem_store ''db'') 0 1 1 [2]
      [(''db/0000/0000000000000001-0000000000000001.ltx'', [1])]) \<notin> {Ok Created, Ok AlreadyIdentical}"
proof -
  let ?cl = "replica_client_new mem_store ''db''"
  have key: "ltx_key ?cl 0 1 1 = ''db/0000/0000000000000001-0000000000000001.ltx''"
    by code_simp
  have put: "put_ltx_cas ?cl 0 1 1 [1] [] = (Ok Created, [(''db/0000/0000000000000001-0000000000000001.ltx'', [1])])"
    by (simp add: put_ltx_cas_def key) (simp add: replica_client_new_def mem_store_def)
  have ok: "store_ok (cl_store ?cl) map_of"
    using mem_store_ok by (simp add: replica_client_new_def)
  show ?thesis
    using put_ltx_cas_is_safe [OF ok put, of "[2]"] put by (cases "put_ltx_cas ?cl 0 1 1 [2] [(''db/0000/0000000000000001-0000000000000001.ltx'', [1])]") auto
qed

section \<open>Uploads and listings\<close>

lemma concat_multipart_parts: "0 < chunk \<Longrightarrow> concat (multipart_parts chunk data) = data"
proof (induction chunk data rule: multipart_parts.induct)
  case (1 chunk data)
  then show ?case
    by (subst multipart_parts.simps) auto
qed

lemma multipart_parts_sizes:
  "0 < chunk \<Longrightarrow> part \<in> set (multipart_parts chunk data) \<Longrightarrow> part \<noteq> [] \<and> length part \<le> chunk"
proof (induction chunk data rule: multipart_parts.induct)
  case (1 chunk data)
  then show ?case
    by (subst (asm) (2) multipart_parts.simps) (auto split: if_splits)
qed

lemma os_res_Ok [simp]: "os_res r = Ok x \<longleftrightarrow> r = Ok x"
  by (simp add: os_res_def)

lemma put_ltx_Ok:
  "store_ok (cl_store cl) objs \<Longrightarrow> put_ltx cl level mn mx b s = (Ok (), s') \<Longrightarrow>
    objs s' = (objs s)(ltx_key cl level mn mx \<mapsto> b)"
  by (auto simp: put_ltx_def store_ok_def put_law_def split: prod.splits)

lemma put_ltx_multipart_Ok:
  assumes "store_ok (cl_store cl) objs" and "put_ltx_multipart cl level mn mx b s = (Ok (), s')"
  shows "objs s' = (objs s)(ltx_key cl level mn mx \<mapsto> b)"
proof -
  have "0 < MULTIPART_CHUNK"
    by (simp add: MULTIPART_CHUNK_def)
  then show ?thesis
    using assms concat_multipart_parts [of MULTIPART_CHUNK b]
    by (auto simp: put_ltx_multipart_def store_ok_def put_law_def split: prod.splits)
qed

lemma delete_ltx_Ok:
  "store_ok (cl_store cl) objs \<Longrightarrow> delete_ltx cl level mn mx s = (Ok (), s') \<Longrightarrow>
    objs s' = (objs s)(ltx_key cl level mn mx := None)"
  by (auto simp: delete_ltx_def store_ok_def delete_law_def split: prod.splits)

lemma get_ltx_Ok:
  "store_ok (cl_store cl) objs \<Longrightarrow> get_ltx cl level mn mx s = Ok b \<Longrightarrow>
    objs s (ltx_key cl level mn mx) = Some b"
  by (auto simp: get_ltx_def store_ok_def get_law_def)

text \<open>
  C29: whatever path uploads a file, in one put or in 8 MiB parts, downloading its range returns
  the same bytes, and uploads and deletions of other ranges do not change that.
\<close>

theorem upload_download_roundtrip:
  assumes "store_ok (cl_store cl) objs"
    and "put_ltx cl l a b content s0 = (Ok (), s1) \<or> put_ltx_multipart cl l a b content s0 = (Ok (), s1)"
    and "ltx_key cl l' a' b' \<noteq> ltx_key cl l a b"
    and "s2 = s1 \<or> put_ltx cl l' a' b' other s1 = (Ok (), s2) \<or> delete_ltx cl l' a' b' s1 = (Ok (), s2)"
    and "get_ltx cl l a b s2 = Ok got"
  shows "got = content"
proof -
  have "objs s1 (ltx_key cl l a b) = Some content"
    using assms(2) put_ltx_Ok [OF assms(1)] put_ltx_multipart_Ok [OF assms(1)] by fastforce
  then have "objs s2 (ltx_key cl l a b) = Some content"
    using assms(3,4) put_ltx_Ok [OF assms(1)] delete_ltx_Ok [OF assms(1)] by fastforce
  then show ?thesis
    using get_ltx_Ok [OF assms(1,5)] by simp
qed

theorem upload_download_roundtrip_witness:
  "\<exists>s1 s2. put_ltx_multipart (replica_client_new mem_store ''db'') 2 5 9 [1, 2, 3] [] = (Ok (), s1) \<and>
    put_ltx (replica_client_new mem_store ''db'') 0 9 9 [4] s1 = (Ok (), s2) \<and>
    get_ltx (replica_client_new mem_store ''db'') 2 5 9 s2 = Ok [1, 2, 3]"
proof -
  let ?cl = "replica_client_new mem_store ''db''"
  let ?k = "''db/0002/0000000000000005-0000000000000009.ltx''"
  let ?s1 = "[(?k, [1, 2, 3])]"
  let ?s2 = "[(''db/0000/0000000000000009-0000000000000009.ltx'', [4]), (?k, [1, 2, 3])]"
  have key: "ltx_key ?cl 2 5 9 = ?k" "ltx_key ?cl 0 9 9 = ''db/0000/0000000000000009-0000000000000009.ltx''"
    by code_simp+
  have st: "cl_store ?cl = mem_store"
    by (simp add: replica_client_new_def)
  have ok: "store_ok (cl_store ?cl) map_of"
    unfolding st by (rule mem_store_ok)
  have put: "put_ltx_multipart ?cl 2 5 9 [1, 2, 3] [] = (Ok (), ?s1)"
    unfolding put_ltx_multipart_def key st multipart_parts.simps [of _ "[1, 2, 3]"] MULTIPART_CHUNK_def
    by (simp add: mem_store_def os_res_def)
  have put2: "put_ltx ?cl 0 9 9 [4] ?s1 = (Ok (), ?s2)"
    unfolding put_ltx_def key st by (simp add: mem_store_def os_res_def)
  have get: "get_ltx ?cl 2 5 9 ?s2 = Ok [1, 2, 3]"
    unfolding get_ltx_def key st by (simp add: mem_store_def os_res_def)
  have "[1, 2, 3] = ([1, 2, 3] :: bytes)"
    by (rule upload_download_roundtrip [OF ok, of 2 5 9 "[1, 2, 3]" "[]" ?s1 0 9 9 ?s2 "[4]"])
      (use put put2 get in \<open>simp_all add: key\<close>)
  then show ?thesis
    using put put2 get by blast
qed

text \<open>The objects under a level's directory are the client's own.\<close>

definition managed :: "'s replica_client \<Rightarrow> ('s \<Rightarrow> string \<Rightarrow> bytes option) \<Rightarrow> u32 \<Rightarrow> 's \<Rightarrow> bool" where
  "managed cl objs level s \<longleftrightarrow> (\<forall>k. objs s k \<noteq> None \<and> prefix (level_dir cl level @ ''/'') k \<longrightarrow>
    (\<exists>a b. k = ltx_key cl level a b))"

definition stored_ranges :: "'s replica_client \<Rightarrow> ('s \<Rightarrow> string \<Rightarrow> bytes option) \<Rightarrow> u32 \<Rightarrow> 's \<Rightarrow> (u64 \<times> u64) set" where
  "stored_ranges cl objs level s = {(a, b). objs s (ltx_key cl level a b) \<noteq> None}"

lemma parse_key: "parse_ltx_filename (path_filename (ltx_key cl level a b)) = Some (a, b)"
proof -
  have "CHR ''/'' \<notin> set (ltx_filename a b)"
    by (simp add: ltx_filename_def u64_hex)
  then have "path_filename (ltx_key cl level a b) = ltx_filename a b"
    by (simp add: path_filename_def ltx_key_def takeWhile_append)
  then show ?thesis
    by (simp add: parse_filename)
qed

lemma list_ltx_run:
  assumes "store_ok (cl_store cl) objs" and "managed cl objs level s" and "list_ltx cl level s = Ok fs"
  shows "set (map (\<lambda>f. (li_min f, li_max f)) fs) = stored_ranges cl objs level s \<and>
    sorted (map (\<lambda>f. (li_min f, li_max f)) fs) \<and> distinct (map (\<lambda>f. (li_min f, li_max f)) fs) \<and>
    (\<forall>f \<in> set fs. li_level f = level)"
proof -
  from assms(3) obtain ms where ms: "os_list (cl_store cl) (level_dir cl level) s = Ok ms"
    and fs: "fs = sort_key (\<lambda>f. (li_min f, li_max f)) (List.map_filter (file_info level) ms)"
    by (auto simp: list_ltx_def res_simps)
  have law: "distinct (map om_location ms)" "\<And>k n. (k, n) \<in> (\<lambda>m. (om_location m, om_size m)) ` set ms \<longleftrightarrow>
      (\<exists>b. objs s k = Some b \<and> n = length b \<and> prefix (level_dir cl level @ ''/'') k)"
    using assms(1) ms unfolding store_ok_def list_law_def by blast+
  have key: "\<exists>a b. om_location m = ltx_key cl level a b \<and> (a, b) \<in> stored_ranges cl objs level s" if "m \<in> set ms" for m
  proof -
    have "(om_location m, om_size m) \<in> (\<lambda>m. (om_location m, om_size m)) ` set ms"
      using that by blast
    then obtain b where "objs s (om_location m) = Some b" "prefix (level_dir cl level @ ''/'') (om_location m)"
      unfolding law(2) by blast
    then show ?thesis
      using assms(2) by (auto simp: managed_def stored_ranges_def) metis
  qed
  let ?rng = "\<lambda>f. (li_min f, li_max f)"
  have info: "\<exists>f. file_info level m = Some f \<and> li_level f = level \<and> om_location m = ltx_key cl level (li_min f) (li_max f)"
    if "m \<in> set ms" for m
    using key [OF that] by (auto simp: file_info_def parse_key)
  have mf: "List.map_filter (file_info level) ms = map (the \<circ> file_info level) ms"
    using info by (induction ms) (auto simp: map_filter_simps, force)
  have loc: "map om_location ms = map (\<lambda>f. ltx_key cl level (li_min f) (li_max f)) (map (the \<circ> file_info level) ms)"
    using info by (auto simp: comp_def intro!: map_cong) force
  have "distinct (map ?rng (map (the \<circ> file_info level) ms))"
    using law(1) unfolding loc by (auto simp: distinct_map inj_on_def)
  then have dist: "distinct (map ?rng fs)"
    unfolding fs mf by (simp only: distinct_map set_sort distinct_sort)
  have set_eq: "set (map ?rng fs) = stored_ranges cl objs level s"
  proof (intro set_eqI iffI)
    fix r
    assume "r \<in> set (map ?rng fs)"
    then obtain m where m: "m \<in> set ms" "r = ?rng (the (file_info level m))"
      by (auto simp: fs mf)
    obtain a b where "om_location m = ltx_key cl level a b" "(a, b) \<in> stored_ranges cl objs level s"
      using key [OF m(1)] by blast
    then show "r \<in> stored_ranges cl objs level s"
      using m(2) by (simp add: file_info_def parse_key)
  next
    fix r
    assume "r \<in> stored_ranges cl objs level s"
    then obtain a b c where r: "r = (a, b)" "objs s (ltx_key cl level a b) = Some c"
      by (auto simp: stored_ranges_def)
    then have "(ltx_key cl level a b, length c) \<in> (\<lambda>m. (om_location m, om_size m)) ` set ms"
      unfolding law(2) by (auto simp: ltx_key_def)
    then obtain m where "m \<in> set ms" "om_location m = ltx_key cl level a b"
      by auto
    then have "m \<in> set ms" "?rng (the (file_info level m)) = r"
      by (simp_all add: file_info_def parse_key r)
    then show "r \<in> set (map ?rng fs)"
      by (force simp: fs mf)
  qed
  have "\<forall>f \<in> set fs. li_level f = level"
    using info by (force simp: fs mf)
  then show ?thesis
    using set_eq dist by (simp add: fs)
qed

text \<open>
  Listing a level returns exactly the TXID ranges stored there, each once, in ascending order.
\<close>

theorem list_ltx_lists_the_level:
  assumes "store_ok (cl_store cl) objs" and "managed cl objs level s" and "list_ltx cl level s = Ok fs"
  shows "map (\<lambda>f. (li_level f, li_min f, li_max f)) fs =
      map (\<lambda>(a, b). (level, a, b)) (map (\<lambda>f. (li_min f, li_max f)) fs) \<and>
    set (map (\<lambda>f. (li_min f, li_max f)) fs) = stored_ranges cl objs level s \<and>
    sorted (map (\<lambda>f. (li_min f, li_max f)) fs) \<and> distinct (map (\<lambda>f. (li_min f, li_max f)) fs)"
  using list_ltx_run [OF assms] by simp

definition sample_client :: "(string \<times> bytes) list replica_client" where
  "sample_client = replica_client_new mem_store ''db''"

definition sample_store :: "(string \<times> bytes) list" where
  "sample_store = [(ltx_key sample_client 0 9 10, [4]), (ltx_key sample_client 0 5 8, [1, 2, 3])]"

lemma sample_client_ok: "store_ok (cl_store sample_client) map_of"
  by (simp add: sample_client_def replica_client_new_def mem_store_ok)

lemma ltx_key_inj: "ltx_key cl level a b = ltx_key cl level c d \<longleftrightarrow> a = c \<and> b = d"
  by (metis option.inject prod.inject parse_key)

theorem list_ltx_lists_the_level_witness:
  "\<exists>fs. list_ltx sample_client 0 sample_store = Ok fs \<and>
    set (map (\<lambda>f. (li_min f, li_max f)) fs) = {(9, 10), (5, 8)}"
proof -
  have obj: "map_of sample_store k \<noteq> None \<longleftrightarrow> k \<in> {ltx_key sample_client 0 9 10, ltx_key sample_client 0 5 8}" for k
    unfolding sample_store_def by (simp only: map_of_eq_None_iff) auto
  have man: "managed sample_client map_of 0 sample_store"
    unfolding managed_def obj by blast
  have rng: "stored_ranges sample_client map_of 0 sample_store = {(9, 10), (5, 8)}"
    unfolding stored_ranges_def obj by (auto simp: ltx_key_inj)
  have st: "cl_store sample_client = mem_store"
    by (simp add: sample_client_def replica_client_new_def)
  have "\<exists>ms. os_list mem_store d s = Ok ms" for d s
    by (simp add: mem_store_def)
  then have "\<exists>fs. list_ltx sample_client 0 sample_store = Ok fs"
    unfolding list_ltx_def st by (auto simp: res_simps)
  then obtain fs where fs: "list_ltx sample_client 0 sample_store = Ok fs" ..
  have "set (map (\<lambda>f. (li_min f, li_max f)) fs) = {(9, 10), (5, 8)}"
    using list_ltx_lists_the_level [OF sample_client_ok man fs] by (simp only: rng)
  with fs show ?thesis
    by (intro exI conjI)
qed

section \<open>All levels\<close>

definition file_triple :: "ltx_file_info \<Rightarrow> u32 \<times> u64 \<times> u64" where
  "file_triple f = (li_level f, li_min f, li_max f)"

lemma rmapM_elem: "rmapM f xs = Ok ys \<Longrightarrow> y \<in> set ys \<Longrightarrow> \<exists>x \<in> set xs. f x = Ok y"
  by (auto simp: rmapM_eq_Ok in_set_conv_nth [of y])

lemma rmapM_elem_rev: "rmapM f xs = Ok ys \<Longrightarrow> x \<in> set xs \<Longrightarrow> \<exists>y \<in> set ys. f x = Ok y"
  by (auto simp: rmapM_eq_Ok in_set_conv_nth [of x])

lemma list_all_ltx_run:
  assumes "store_ok (cl_store cl) objs" and "\<forall>level \<le> max_level. managed cl objs level s"
    and "list_all_ltx cl max_level s = Ok fs"
  shows "set (map file_triple fs) =
    {(level, a, b). level \<le> max_level \<and> (a, b) \<in> stored_ranges cl objs level s}"
proof -
  from assms(3) obtain lss where lss: "rmapM (\<lambda>level. list_ltx cl level s) (map of_nat [0..<Suc (unat max_level)]) = Ok lss"
    and fs: "fs = concat lss"
    by (auto simp: list_all_ltx_def res_simps simp del: upt_Suc)
  have levels: "level \<in> set (map of_nat [0..<Suc (unat max_level)]) \<longleftrightarrow> level \<le> max_level" for level :: u32
  proof
    assume "level \<in> set (map of_nat [0..<Suc (unat max_level)])"
    then obtain n where n: "level = of_nat n" "n \<le> unat max_level"
      by (auto simp: less_Suc_eq_le simp del: upt_Suc)
    then have "unat level \<le> n"
      by (simp add: unsigned_of_nat)
    with n show "level \<le> max_level"
      by (simp add: word_le_nat_alt)
  next
    assume "level \<le> max_level"
    then have "unat level \<in> set [0..<Suc (unat max_level)]"
      by (simp add: word_le_nat_alt less_Suc_eq_le del: upt_Suc)
    then have "of_nat (unat level) \<in> (of_nat :: nat \<Rightarrow> u32) ` set [0..<Suc (unat max_level)]"
      by (rule imageI)
    then show "level \<in> set (map of_nat [0..<Suc (unat max_level)])"
      by (simp del: upt_Suc)
  qed
  show ?thesis
  proof (intro set_eqI iffI)
    fix x
    assume "x \<in> set (map file_triple fs)"
    then obtain ls f where ls: "ls \<in> set lss" "f \<in> set ls" "x = file_triple f"
      by (auto simp: fs)
    from rmapM_elem [OF lss ls(1)] obtain level where
      "level \<in> set (map of_nat [0..<Suc (unat max_level)])" "list_ltx cl level s = Ok ls"
      by (elim bexE)
    with levels [of level] have level: "level \<le> max_level" "list_ltx cl level s = Ok ls"
      by simp_all
    with list_ltx_run [OF assms(1), of level s ls] assms(2) ls
    show "x \<in> {(level, a, b). level \<le> max_level \<and> (a, b) \<in> stored_ranges cl objs level s}"
      by (auto simp: file_triple_def)
  next
    fix x
    assume "x \<in> {(level, a, b). level \<le> max_level \<and> (a, b) \<in> stored_ranges cl objs level s}"
    then obtain level a b where x: "x = (level, a, b)" "level \<le> max_level" "(a, b) \<in> stored_ranges cl objs level s"
      by auto
    with levels have "level \<in> set (map of_nat [0..<Suc (unat max_level)])"
      by blast
    from rmapM_elem_rev [OF lss this] obtain ls where ls: "ls \<in> set lss" "list_ltx cl level s = Ok ls"
      by blast
    have man: "managed cl objs level s"
      using assms(2) x(2) by blast
    note run = list_ltx_run [OF assms(1) man ls(2)]
    have "(a, b) \<in> (\<lambda>f. (li_min f, li_max f)) ` set ls"
      using run x(3) by simp
    then obtain f where f: "f \<in> set ls" "(a, b) = (li_min f, li_max f)"
      by (elim imageE)
    with run have "f \<in> set ls" "(li_min f, li_max f) = (a, b)" "li_level f = level"
      by simp_all
    with ls(1) x show "x \<in> set (map file_triple fs)"
      by (force simp: fs file_triple_def)
  qed
qed

end
