(* ===== verification/WalReader.thy ===== *)
theory WalReader
  imports LtxFormat "HOL-Library.AList"
begin

text \<open>
  The SQLite WAL (\<^verbatim>\<open>src/wal/format.rs\<close>, \<^verbatim>\<open>src/wal/reader.rs\<close>, \<^verbatim>\<open>src/wal/error.rs\<close>): its running
  checksum, the parsers of the WAL header and the frame headers, and the fail-safe reader with its
  three constructors, \<^verbatim>\<open>read_frame\<close> and \<^verbatim>\<open>page_map\<close>. Offsets are natural numbers: they are offsets into
  a buffer, so they stay below \<open>2 ^ 64\<close>. A \<^verbatim>\<open>HashMap\<close> is an association list with distinct keys; no
  result depends on its order.
\<close>

section \<open>The format\<close>

definition WAL_HEADER_SIZE :: nat where
  "WAL_HEADER_SIZE = 32"
definition WAL_FRAME_HEADER_SIZE :: nat where
  "WAL_FRAME_HEADER_SIZE = 24"
definition WAL_MAGIC_LE :: u32 where
  "WAL_MAGIC_LE = 0x377f0682"
definition WAL_MAGIC_BE :: u32 where
  "WAL_MAGIC_BE = 0x377f0683"
definition WAL_VERSION :: u32 where
  "WAL_VERSION = 3007000"

lemmas wal_size_defs [simp] = WAL_HEADER_SIZE_def WAL_FRAME_HEADER_SIZE_def

datatype wal_error =
    WalIncomplete nat nat
  | WalInvalidMagic u32
  | UnsupportedVersion u32
  | WalInvalidPageSize u32
  | HeaderChecksumMismatch
  | UnalignedOffset nat
  | PrevFrameMismatch

datatype byte_order = Little | Big

text \<open>The first four bytes as a word in the given order.\<close>

fun read_u32 :: "byte_order \<Rightarrow> bytes \<Rightarrow> u32" where
  "read_u32 Little b = from_be (rev (take 4 b))"
| "read_u32 Big b = from_be (take 4 b)"

function wal_checksum :: "byte_order \<Rightarrow> u32 \<Rightarrow> u32 \<Rightarrow> bytes \<Rightarrow> u32 \<times> u32" where
  "wal_checksum bo s0 s1 b =
    (if 8 \<le> length b then
       let s0' = s0 + (read_u32 bo b + s1);
           s1' = s1 + (read_u32 bo (drop 4 b) + s0')
       in wal_checksum bo s0' s1' (drop 8 b)
     else (s0, s1))"
  by pat_completeness auto
termination
  by (relation "measure (\<lambda>(bo, s0, s1, b). length b)") auto

declare wal_checksum.simps [simp del]

text \<open>
  \<^verbatim>\<open>be_u32(b, off)\<close>. The index is in range wherever it is used: every caller checks the length of the
  buffer, or slices a frame header of 24 bytes, first.
\<close>

definition u32_at :: "bytes \<Rightarrow> nat \<Rightarrow> u32" where
  "u32_at b off = from_be (take 4 (drop off b))"

record wal_header =
  wh_byte_order :: byte_order
  wh_page_size :: u32
  wh_seq :: u32
  wh_salt1 :: u32
  wh_salt2 :: u32
  wh_checksum1 :: u32
  wh_checksum2 :: u32

definition wal_header_parse :: "bytes \<Rightarrow> (wal_header, wal_error) result" where
  "wal_header_parse b =
    (if length b < WAL_HEADER_SIZE then Err (WalIncomplete WAL_HEADER_SIZE (length b)) else
     let magic = u32_at b 0 in
     if magic \<noteq> WAL_MAGIC_LE \<and> magic \<noteq> WAL_MAGIC_BE then Err (WalInvalidMagic magic) else
     let bo = (if magic = WAL_MAGIC_LE then Little else Big);
         version = u32_at b 4 in
     if version \<noteq> WAL_VERSION then Err (UnsupportedVersion version) else
     let page_size = u32_at b 8 in
     if \<not> is_valid_page_size page_size then Err (WalInvalidPageSize page_size) else
     let checksum1 = u32_at b 24; checksum2 = u32_at b 28 in
     if wal_checksum bo 0 0 (take 24 b) \<noteq> (checksum1, checksum2) then Err HeaderChecksumMismatch else
     Ok \<lparr>wh_byte_order = bo, wh_page_size = page_size, wh_seq = u32_at b 12, wh_salt1 = u32_at b 16,
       wh_salt2 = u32_at b 20, wh_checksum1 = checksum1, wh_checksum2 = checksum2\<rparr>)"

record wal_frame_header =
  fh_pgno :: u32
  fh_commit :: u32
  fh_salt1 :: u32
  fh_salt2 :: u32
  fh_checksum1 :: u32
  fh_checksum2 :: u32

definition wal_frame_header_parse :: "bytes \<Rightarrow> wal_frame_header" where
  "wal_frame_header_parse b =
    \<lparr>fh_pgno = u32_at b 0, fh_commit = u32_at b 4, fh_salt1 = u32_at b 8, fh_salt2 = u32_at b 12,
     fh_checksum1 = u32_at b 16, fh_checksum2 = u32_at b 20\<rparr>"

definition fh_is_commit :: "wal_frame_header \<Rightarrow> bool" where
  "fh_is_commit fh \<longleftrightarrow> fh_commit fh \<noteq> 0"

section \<open>The reader\<close>

record wal_frame =
  fr_pgno :: u32
  fr_commit :: u32
  fr_offset :: nat
  fr_data :: bytes

definition fr_is_commit :: "wal_frame \<Rightarrow> bool" where
  "fr_is_commit f \<longleftrightarrow> fr_commit f \<noteq> 0"

record page_map =
  pm_pages :: "(u32 \<times> nat) list"
  pm_commit :: u32
  pm_end_offset :: nat

record wal_reader =
  w_data :: bytes
  w_base :: nat
  w_header :: wal_header
  w_frame_n :: nat
  w_chksum :: "u32 \<times> u32"

definition frame_size :: "wal_header \<Rightarrow> nat" where
  "frame_size h = WAL_FRAME_HEADER_SIZE + unat (wh_page_size h)"

definition wal_reader_new :: "bytes \<Rightarrow> (wal_reader, wal_error) result" where
  "wal_reader_new data =
    rbind (wal_header_parse data) (\<lambda>h.
    Ok \<lparr>w_data = data, w_base = 0, w_header = h, w_frame_n = 0,
      w_chksum = (wh_checksum1 h, wh_checksum2 h)\<rparr>)"

definition wal_reader_from_tail ::
  "wal_header \<Rightarrow> bytes \<Rightarrow> nat \<Rightarrow> u32 \<times> u32 \<Rightarrow> (wal_reader, wal_error) result" where
  "wal_reader_from_tail h data base seed =
    (if base < WAL_HEADER_SIZE \<or> (base - WAL_HEADER_SIZE) mod frame_size h \<noteq> 0
     then Err (UnalignedOffset base)
     else Ok \<lparr>w_data = data, w_base = base, w_header = h,
       w_frame_n = (base - WAL_HEADER_SIZE) div frame_size h, w_chksum = seed\<rparr>)"

definition wal_reader_new_at_offset :: "bytes \<Rightarrow> nat \<Rightarrow> (wal_reader, wal_error) result" where
  "wal_reader_new_at_offset data offset =
    rbind (wal_header_parse data) (\<lambda>h.
    let fs = frame_size h; ho = WAL_HEADER_SIZE in
    if offset < ho \<or> (offset - ho) mod fs \<noteq> 0 then Err (UnalignedOffset offset) else
    let frame_n = (offset - ho) div fs in
    rbind
      (if frame_n = 0 then Ok (wh_checksum1 h, wh_checksum2 h)
       else
         let prev = ho + (frame_n - 1) * fs; stop = prev + WAL_FRAME_HEADER_SIZE in
         if stop > length data then Err (WalIncomplete stop (length data)) else
         let ph = wal_frame_header_parse (take WAL_FRAME_HEADER_SIZE (drop prev data)) in
         if fh_salt1 ph \<noteq> wh_salt1 h \<or> fh_salt2 ph \<noteq> wh_salt2 h then Err PrevFrameMismatch
         else Ok (fh_checksum1 ph, fh_checksum2 ph))
      (\<lambda>chksum. Ok \<lparr>w_data = data, w_base = 0, w_header = h, w_frame_n = frame_n,
         w_chksum = chksum\<rparr>))"

definition page_data_at :: "wal_reader \<Rightarrow> nat \<Rightarrow> (bytes, wal_error) result" where
  "page_data_at r offset =
    (if offset < w_base r then Panic else
     let start = offset - w_base r + WAL_FRAME_HEADER_SIZE
     in subslice start (start + unat (wh_page_size (w_header r))) (w_data r))"

text \<open>\<open>abs - base\<close> does not underflow: every constructor puts the first frame at or after \<open>base\<close>.\<close>

definition read_frame :: "wal_reader \<Rightarrow> (wal_reader \<times> wal_frame) option" where
  "read_frame r =
    (let h = w_header r; fs = frame_size h;
         abs = WAL_HEADER_SIZE + w_frame_n r * fs;
         offset = abs - w_base r;
         data = w_data r in
     if offset + fs > length data then None else
     let hdr = wal_frame_header_parse (take WAL_FRAME_HEADER_SIZE (drop offset data));
         page = take (unat (wh_page_size h)) (drop (offset + WAL_FRAME_HEADER_SIZE) data) in
     if fh_salt1 hdr \<noteq> wh_salt1 h \<or> fh_salt2 hdr \<noteq> wh_salt2 h then None else
     let bo = wh_byte_order h;
         (c0, c1) = w_chksum r;
         (c0, c1) = wal_checksum bo c0 c1 (take 8 (drop offset data));
         (c0, c1) = wal_checksum bo c0 c1 page in
     if c0 \<noteq> fh_checksum1 hdr \<or> c1 \<noteq> fh_checksum2 hdr then None
     else Some (r\<lparr>w_chksum := (c0, c1), w_frame_n := w_frame_n r + 1\<rparr>,
       \<lparr>fr_pgno = fh_pgno hdr, fr_commit = fh_commit hdr, fr_offset = abs, fr_data = page\<rparr>))"

text \<open>The bytes still ahead of a reader; every frame read consumes some.\<close>

definition bytes_ahead :: "wal_reader \<Rightarrow> nat" where
  "bytes_ahead r = length (w_data r) + w_base r - (WAL_HEADER_SIZE + w_frame_n r * frame_size (w_header r))"

lemma read_frame_Some:
  assumes "read_frame r = Some (r', f)"
  shows "w_data r' = w_data r \<and> w_base r' = w_base r \<and> w_header r' = w_header r \<and>
    w_frame_n r' = w_frame_n r + 1 \<and> bytes_ahead r' < bytes_ahead r"
  using assms
  by (auto simp: read_frame_def Let_def bytes_ahead_def frame_size_def split: if_splits prod.splits)

text \<open>\<^verbatim>\<open>page_map\<close>: the loop over the frames, then the pages past the final size are dropped.\<close>

function page_map_loop ::
  "wal_reader \<Rightarrow> (u32 \<times> nat) list \<Rightarrow> (u32 \<times> nat) list \<Rightarrow> u32
    \<Rightarrow> wal_reader \<times> (u32 \<times> nat) list \<times> u32" where
  "page_map_loop r pages tx commit =
    (case read_frame r of
       None \<Rightarrow> (r, pages, commit)
     | Some (r, f) \<Rightarrow>
         let tx = AList.update (fr_pgno f) (fr_offset f) tx in
         if fr_is_commit f
         then page_map_loop r (foldl (\<lambda>m (p, off). AList.update p off m) pages tx) tx (fr_commit f)
         else page_map_loop r pages tx commit)"
  by pat_completeness auto
termination
  by (relation "measure (\<lambda>(r, pages, tx, commit). bytes_ahead r)") (auto dest: read_frame_Some)

declare page_map_loop.simps [simp del]

definition wal_page_map :: "wal_reader \<Rightarrow> wal_reader \<times> page_map" where
  "wal_page_map r =
    (case page_map_loop r [] [] 0 of (r, pages, commit) \<Rightarrow>
     let pages = filter (\<lambda>(p, off). p \<le> commit) pages;
         end_offset = (if pages = [] then 0
           else Max (snd ` set pages) + WAL_FRAME_HEADER_SIZE + unat (wh_page_size (w_header r)))
     in (r, \<lparr>pm_pages = pages, pm_commit = commit, pm_end_offset = end_offset\<rparr>))"

section \<open>The frames a reader yields\<close>

function read_frames :: "wal_reader \<Rightarrow> wal_frame list" where
  "read_frames r = (case read_frame r of None \<Rightarrow> [] | Some (r', f) \<Rightarrow> f # read_frames r')"
  by pat_completeness auto
termination
  by (relation "measure bytes_ahead") (auto dest: read_frame_Some)

declare read_frames.simps [simp del]

lemma read_frames_None: "read_frame r = None \<Longrightarrow> read_frames r = []"
  by (simp add: read_frames.simps)

lemma read_frames_Some: "read_frame r = Some (r', f) \<Longrightarrow> read_frames r = f # read_frames r'"
  by (simp add: read_frames.simps)

subsection \<open>The committed page map\<close>

text \<open>The frames up to the last commit frame, and the newest offset of each page among frames.\<close>

definition committed :: "wal_frame list \<Rightarrow> wal_frame list" where
  "committed fs = rev (dropWhile (\<lambda>f. \<not> fr_is_commit f) (rev fs))"

definition latest :: "wal_frame list \<Rightarrow> u32 \<Rightarrow> nat option" where
  "latest fs = map_of (rev (map (\<lambda>f. (fr_pgno f, fr_offset f)) fs))"

definition last_commit :: "wal_frame list \<Rightarrow> u32" where
  "last_commit fs = (if committed fs = [] then 0 else fr_commit (last (committed fs)))"

lemma committed_snoc: "committed (fs @ [f]) = (if fr_is_commit f then fs @ [f] else committed fs)"
  by (simp add: committed_def)

lemma last_commit_snoc: "last_commit (fs @ [f]) = (if fr_is_commit f then fr_commit f else last_commit fs)"
  by (simp add: last_commit_def committed_snoc)

lemma latest_snoc: "latest (fs @ [f]) = (latest fs)(fr_pgno f \<mapsto> fr_offset f)"
  by (simp add: latest_def)

lemma dom_latest: "dom (latest fs) = fr_pgno ` set fs"
  by (simp add: latest_def dom_map_of_conv_image_fst image_image)

lemma committed_subset: "set (committed fs) \<subseteq> set fs"
  unfolding committed_def by (metis set_dropWhileD set_rev subsetI)

lemma foldl_update:
  "distinct (map fst tx) \<Longrightarrow> map_of (foldl (\<lambda>m (p, off). AList.update p off m) m tx) = map_of m ++ map_of tx"
proof (induction tx arbitrary: m)
  case Nil
  then show ?case by simp
next
  case (Cons x tx)
  obtain p off where x: "x = (p, off)" by (cases x)
  then have "map_of tx p = None"
    using Cons.prems by (simp add: map_of_eq_None_iff)
  then show ?case
    using Cons x by (auto simp: update_conv' map_add_def fun_eq_iff split: option.split)
qed

lemma foldl_update_distinct:
  "distinct (map fst m) \<Longrightarrow> distinct (map fst (foldl (\<lambda>m (p, off). AList.update p off m) m tx))"
  by (induction tx arbitrary: m) (auto simp: distinct_update split: prod.split)

text \<open>
  The loop never clears \<open>tx\<close>; each commit promotes every entry again, which changes nothing for the
  pages of earlier transactions.
\<close>

definition page_map_inv ::
  "wal_frame list \<Rightarrow> (u32 \<times> nat) list \<Rightarrow> (u32 \<times> nat) list \<Rightarrow> u32 \<Rightarrow> bool" where
  "page_map_inv fs pages tx commit \<longleftrightarrow>
    distinct (map fst tx) \<and> distinct (map fst pages) \<and> map_of tx = latest fs \<and>
    map_of pages = latest (committed fs) \<and> commit = last_commit fs"

lemma page_map_inv_step:
  fixes f :: wal_frame
  assumes "page_map_inv fs pages tx commit"
  defines "tx' \<equiv> AList.update (fr_pgno f) (fr_offset f) tx"
  shows "fr_is_commit f \<Longrightarrow> page_map_inv (fs @ [f])
      (foldl (\<lambda>m (p, off). AList.update p off m) pages tx') tx' (fr_commit f)"
    and "\<not> fr_is_commit f \<Longrightarrow> page_map_inv (fs @ [f]) pages tx' commit"
proof -
  have tx': "distinct (map fst tx')" "map_of tx' = latest (fs @ [f])"
    using assms by (simp_all add: page_map_inv_def distinct_update update_conv' latest_snoc)
  {
    assume c: "fr_is_commit f"
    have "dom (latest (committed fs)) \<subseteq> dom (latest (fs @ [f]))"
      using committed_subset [of fs] by (auto simp: dom_latest)
    then have "latest (committed fs) ++ latest (fs @ [f]) = latest (fs @ [f])"
      by (auto simp: map_add_def fun_eq_iff domIff split: option.split)
    then show "page_map_inv (fs @ [f]) (foldl (\<lambda>m (p, off). AList.update p off m) pages tx') tx' (fr_commit f)"
      using assms(1) tx' c
      by (simp add: page_map_inv_def foldl_update foldl_update_distinct committed_snoc last_commit_snoc)
  }
  {
    assume "\<not> fr_is_commit f"
    then show "page_map_inv (fs @ [f]) pages tx' commit"
      using assms(1) tx' by (simp add: page_map_inv_def committed_snoc last_commit_snoc)
  }
qed

lemma page_map_loop_inv:
  "page_map_inv fs pages tx commit \<Longrightarrow> page_map_loop r pages tx commit = (r', pages', commit') \<Longrightarrow>
    w_header r' = w_header r \<and> (\<exists>tx'. page_map_inv (fs @ read_frames r) pages' tx' commit')"
proof (induction r pages tx commit arbitrary: fs rule: page_map_loop.induct)
  case (1 r pages tx commit)
  show ?case
  proof (cases "read_frame r")
    case None
    then show ?thesis
      using "1.prems" by (auto simp: page_map_loop.simps [of r] read_frames_None)
  next
    case (Some rf)
    obtain r1 f where rf: "rf = (r1, f)" by (cases rf)
    note step = page_map_inv_step [OF "1.prems"(1), of f]
    have r1: "w_header r1 = w_header r" and fs: "read_frames r = f # read_frames r1"
      using read_frame_Some [of r r1 f] Some rf read_frames_Some by auto
    show ?thesis
    proof (cases "fr_is_commit f")
      case True
      then show ?thesis
        using "1.IH"(1) [OF Some rf [symmetric] refl True step(1) [OF True]] "1.prems"(2) r1 fs
        by (simp add: page_map_loop.simps [of r] Some rf Let_def)
    next
      case False
      then show ?thesis
        using "1.IH"(2) [OF Some rf [symmetric] refl False step(2) [OF False]] "1.prems"(2) r1 fs
        by (simp add: page_map_loop.simps [of r] Some rf Let_def)
    qed
  qed
qed

lemma map_of_filter_fst:
  "distinct (map fst m) \<Longrightarrow> map_of (filter (\<lambda>(p, off). P p) m) p = (if P p then map_of m p else None)"
proof (induction m)
  case Nil
  then show ?case by simp
next
  case (Cons x m)
  then have "map_of m (fst x) = None"
    by (simp add: map_of_eq_None_iff)
  with Cons show ?case
    by (cases x) auto
qed

lemma wal_page_map_run:
  fixes r :: wal_reader
  defines "fs \<equiv> read_frames r" and "pm \<equiv> snd (wal_page_map r)"
  shows "pm_commit pm = last_commit fs \<and> distinct (map fst (pm_pages pm)) \<and>
    (\<forall>p. map_of (pm_pages pm) p = (if p \<le> pm_commit pm then latest (committed fs) p else None)) \<and>
    pm_end_offset pm = (if pm_pages pm = [] then 0
      else Max (snd ` set (pm_pages pm)) + frame_size (w_header r))"
proof -
  obtain r' pages commit where loop: "page_map_loop r [] [] 0 = (r', pages, commit)"
    by (cases "page_map_loop r [] [] 0")
  have "page_map_inv [] [] [] 0"
    by (simp add: page_map_inv_def latest_def committed_def last_commit_def)
  from page_map_loop_inv [OF this loop] obtain tx where
    inv: "page_map_inv fs pages tx commit" and h: "w_header r' = w_header r"
    by (auto simp: fs_def)
  have pm: "pm_pages pm = filter (\<lambda>(p, off). p \<le> commit) pages" "pm_commit pm = commit"
    "pm_end_offset pm = (if pm_pages pm = [] then 0
      else Max (snd ` set (pm_pages pm)) + frame_size (w_header r))"
    by (simp_all add: pm_def wal_page_map_def loop Let_def h frame_size_def)
  have "distinct (map fst (filter (\<lambda>(p, off). p \<le> commit) pages))"
    using inv by (simp add: page_map_inv_def distinct_map_filter)
  then show ?thesis
    using inv pm by (simp add: page_map_inv_def map_of_filter_fst)
qed

subsection \<open>A WAL as SQLite writes it\<close>

text \<open>
  The reference writer: a frame of page \<open>p\<close>, commit field \<open>c\<close> and page data \<open>d\<close> carries the salts of
  the header and the running checksum over its first eight bytes and its data.
\<close>

type_synonym wal_record = "u32 \<times> u32 \<times> bytes"

definition next_chksum :: "wal_header \<Rightarrow> u32 \<times> u32 \<Rightarrow> wal_record \<Rightarrow> u32 \<times> u32" where
  "next_chksum h chk x =
    (case x of (p, c, d) \<Rightarrow> case chk of (c0, c1) \<Rightarrow>
     case wal_checksum (wh_byte_order h) c0 c1 (be32 p @ be32 c) of (c0, c1) \<Rightarrow>
     wal_checksum (wh_byte_order h) c0 c1 d)"

definition wal_frame_bytes :: "wal_header \<Rightarrow> u32 \<times> u32 \<Rightarrow> wal_record \<Rightarrow> bytes" where
  "wal_frame_bytes h chk x =
    (case x of (p, c, d) \<Rightarrow> case next_chksum h chk x of (c0, c1) \<Rightarrow>
     be32 p @ be32 c @ be32 (wh_salt1 h) @ be32 (wh_salt2 h) @ be32 c0 @ be32 c1 @ d)"

fun wal_frames_bytes :: "wal_header \<Rightarrow> u32 \<times> u32 \<Rightarrow> wal_record list \<Rightarrow> bytes" where
  "wal_frames_bytes h chk [] = []"
| "wal_frames_bytes h chk (x # xs) = wal_frame_bytes h chk x @ wal_frames_bytes h (next_chksum h chk x) xs"

definition unread :: "wal_reader \<Rightarrow> bytes" where
  "unread r = drop (WAL_HEADER_SIZE + w_frame_n r * frame_size (w_header r) - w_base r) (w_data r)"

definition right_size :: "wal_header \<Rightarrow> wal_record \<Rightarrow> bool" where
  "right_size h x \<longleftrightarrow> length (snd (snd x)) = unat (wh_page_size h)"

lemma u32_at_be [simp]:
  "u32_at (be32 w @ b) 0 = w"
  "4 \<le> k \<Longrightarrow> u32_at (be32 w @ b) k = u32_at b (k - 4)"
  by (simp_all add: u32_at_def)

lemma be32_u32_at: "k + 4 \<le> length b \<Longrightarrow> be32 (u32_at b k) = take 4 (drop k b)"
  by (simp add: u32_at_def be_from_be)

lemma u32_at_take: "k + 4 \<le> n \<Longrightarrow> u32_at (take n b) k = u32_at b k"
  by (simp add: u32_at_def drop_take min_def)

lemma take_drop_join: "take n (drop k b) @ drop (k + n) b = drop k b"
  by (metis append_take_drop_id drop_drop add.commute)

lemma six_words:
  assumes "24 \<le> length b"
  shows "b = be32 (u32_at b 0) @ be32 (u32_at b 4) @ be32 (u32_at b 8) @ be32 (u32_at b 12) @
    be32 (u32_at b 16) @ be32 (u32_at b 20) @ drop 24 b"
  using assms take_drop_join [of 4 20 b] take_drop_join [of 4 16 b] take_drop_join [of 4 12 b]
    take_drop_join [of 4 8 b] take_drop_join [of 4 4 b] append_take_drop_id [of 4 b]
  by (simp add: be32_u32_at)

lemma read_frame_unread:
  "read_frame r =
    (let h = w_header r; T = unread r; x = (u32_at T 0, u32_at T 4, take (unat (wh_page_size h)) (drop 24 T)) in
     if length T < frame_size h \<or> u32_at T 8 \<noteq> wh_salt1 h \<or> u32_at T 12 \<noteq> wh_salt2 h \<or>
       (u32_at T 16, u32_at T 20) \<noteq> next_chksum h (w_chksum r) x then None
     else Some (r\<lparr>w_chksum := next_chksum h (w_chksum r) x, w_frame_n := w_frame_n r + 1\<rparr>,
       \<lparr>fr_pgno = u32_at T 0, fr_commit = u32_at T 4,
        fr_offset = WAL_HEADER_SIZE + w_frame_n r * frame_size h, fr_data = snd (snd x)\<rparr>))"
proof (cases "length (unread r) < frame_size (w_header r)")
  case True
  then show ?thesis
    by (simp add: read_frame_def unread_def Let_def) (auto simp: frame_size_def)
next
  case False
  let ?T = "unread r"
  have "24 \<le> length ?T"
    using False by (simp add: frame_size_def)
  then have "take 8 ?T = be32 (u32_at ?T 0) @ be32 (u32_at ?T 4)"
    by (subst (1) six_words) simp_all
  moreover have "drop (WAL_HEADER_SIZE + w_frame_n r * frame_size (w_header r) - w_base r + 24) (w_data r) =
      drop 24 ?T"
    by (simp add: unread_def add.commute)
  moreover have "\<not> WAL_HEADER_SIZE + w_frame_n r * frame_size (w_header r) - w_base r +
      frame_size (w_header r) > length (w_data r)"
    using False by (auto simp: unread_def not_less frame_size_def)
  ultimately show ?thesis
    using False unfolding read_frame_def Let_def unread_def [symmetric]
    by (simp add: wal_frame_header_parse_def u32_at_take next_chksum_def split: prod.split)
qed

text \<open>A frame is read exactly when the bytes ahead start with a frame the writer could have written.\<close>

lemma read_frame_written:
  assumes "unread r = wal_frame_bytes (w_header r) (w_chksum r) x @ rest" and "right_size (w_header r) x"
  shows "read_frame r = Some
    (r\<lparr>w_chksum := next_chksum (w_header r) (w_chksum r) x, w_frame_n := w_frame_n r + 1\<rparr>,
     \<lparr>fr_pgno = fst x, fr_commit = fst (snd x),
      fr_offset = WAL_HEADER_SIZE + w_frame_n r * frame_size (w_header r), fr_data = snd (snd x)\<rparr>)"
  using assms
  by (auto simp: read_frame_unread Let_def wal_frame_bytes_def right_size_def frame_size_def
      split: prod.splits)

lemma read_frame_only_written:
  assumes "read_frame r = Some (r', f)"
  obtains x rest where "unread r = wal_frame_bytes (w_header r) (w_chksum r) x @ rest"
    and "right_size (w_header r) x"
proof -
  let ?T = "unread r" and ?h = "w_header r"
  let ?x = "(u32_at ?T 0, u32_at ?T 4, take (unat (wh_page_size ?h)) (drop 24 ?T))"
  from assms have len: "frame_size ?h \<le> length ?T" and salts: "u32_at ?T 8 = wh_salt1 ?h" "u32_at ?T 12 = wh_salt2 ?h"
    and chk: "next_chksum ?h (w_chksum r) ?x = (u32_at ?T 16, u32_at ?T 20)"
    by (auto simp: read_frame_unread Let_def split: if_splits)
  have "?T = wal_frame_bytes ?h (w_chksum r) ?x @ drop (frame_size ?h) ?T"
  proof -
    have "24 \<le> length ?T"
      using len by (simp add: frame_size_def)
    from six_words [OF this] have "?T = be32 (u32_at ?T 0) @ be32 (u32_at ?T 4) @ be32 (u32_at ?T 8) @
        be32 (u32_at ?T 12) @ be32 (u32_at ?T 16) @ be32 (u32_at ?T 20) @
        take (unat (wh_page_size ?h)) (drop 24 ?T) @ drop (frame_size ?h) ?T"
      using take_drop_join [of "unat (wh_page_size ?h)" 24 ?T] by (simp add: frame_size_def)
    then show ?thesis
      by (simp add: wal_frame_bytes_def chk salts)
  qed
  moreover have "right_size ?h ?x"
    using len by (simp add: right_size_def frame_size_def)
  ultimately show thesis by (rule that)
qed

text \<open>The frames the reader reports for the records \<open>xs\<close> from frame number \<open>n\<close> on.\<close>

fun frames_of :: "nat \<Rightarrow> nat \<Rightarrow> wal_record list \<Rightarrow> wal_frame list" where
  "frames_of fs n [] = []"
| "frames_of fs n (x # xs) =
     \<lparr>fr_pgno = fst x, fr_commit = fst (snd x), fr_offset = WAL_HEADER_SIZE + n * fs,
      fr_data = snd (snd x)\<rparr> # frames_of fs (n + 1) xs"

fun final_chksum :: "wal_header \<Rightarrow> u32 \<times> u32 \<Rightarrow> wal_record list \<Rightarrow> u32 \<times> u32" where
  "final_chksum h chk [] = chk"
| "final_chksum h chk (x # xs) = final_chksum h (next_chksum h chk x) xs"

definition no_frame :: "wal_header \<Rightarrow> u32 \<times> u32 \<Rightarrow> bytes \<Rightarrow> bool" where
  "no_frame h chk b \<longleftrightarrow> (\<nexists>x rest. right_size h x \<and> b = wal_frame_bytes h chk x @ rest)"

lemma length_wal_frame_bytes: "right_size h x \<Longrightarrow> length (wal_frame_bytes h chk x) = frame_size h"
  by (cases x) (simp add: wal_frame_bytes_def right_size_def frame_size_def split: prod.splits)

lemma unread_advance:
  assumes "unread r = wal_frame_bytes (w_header r) (w_chksum r) x @ rest" and "right_size (w_header r) x"
    and "w_base r \<le> WAL_HEADER_SIZE + w_frame_n r * frame_size (w_header r)"
  shows "unread (r\<lparr>w_chksum := c, w_frame_n := w_frame_n r + 1\<rparr>) = rest"
proof -
  let ?off = "WAL_HEADER_SIZE + w_frame_n r * frame_size (w_header r) - w_base r"
  have "WAL_HEADER_SIZE + (w_frame_n r + 1) * frame_size (w_header r) - w_base r =
      frame_size (w_header r) + ?off"
    using assms(3) by (simp add: algebra_simps)
  then have "unread (r\<lparr>w_chksum := c, w_frame_n := w_frame_n r + 1\<rparr>) =
      drop (frame_size (w_header r)) (unread r)"
    by (simp add: unread_def)
  then show ?thesis
    using assms(1) length_wal_frame_bytes [OF assms(2)] by simp
qed

lemma read_frames_written:
  assumes "unread r = wal_frames_bytes (w_header r) (w_chksum r) xs @ rest"
    and "\<forall>x \<in> set xs. right_size (w_header r) x"
    and "w_base r \<le> WAL_HEADER_SIZE + w_frame_n r * frame_size (w_header r)"
    and "no_frame (w_header r) (final_chksum (w_header r) (w_chksum r) xs) rest"
  shows "read_frames r = frames_of (frame_size (w_header r)) (w_frame_n r) xs"
  using assms
proof (induction xs arbitrary: r)
  case Nil
  then have "read_frame r = None"
    by (cases "read_frame r") (auto simp: no_frame_def elim!: read_frame_only_written)
  then show ?case by (simp add: read_frames_None)
next
  case (Cons x xs)
  let ?r = "r\<lparr>w_chksum := next_chksum (w_header r) (w_chksum r) x, w_frame_n := w_frame_n r + 1\<rparr>"
  have T: "unread r = wal_frame_bytes (w_header r) (w_chksum r) x @
      wal_frames_bytes (w_header r) (next_chksum (w_header r) (w_chksum r) x) xs @ rest"
    using Cons.prems(1) by simp
  have x: "right_size (w_header r) x"
    using Cons.prems(2) by simp
  have "read_frames ?r = frames_of (frame_size (w_header r)) (w_frame_n r + 1) xs"
    using Cons.IH [of ?r] Cons.prems unread_advance [OF T x Cons.prems(3)] by simp
  then show ?case
    using read_frames_Some [OF read_frame_written [OF T x]] by simp
qed

lemma wal_header_parse_append: "length hb = 32 \<Longrightarrow> wal_header_parse (hb @ b) = wal_header_parse hb"
proof -
  assume hb: "length hb = 32"
  then have "k + 4 \<le> 32 \<Longrightarrow> u32_at (hb @ b) k = u32_at hb k" for k
    by (simp add: u32_at_def)
  with hb show ?thesis
    by (simp add: wal_header_parse_def Let_def)
qed

text \<open>A sample WAL of two frames, the second a commit frame.\<close>

definition sample_wal_start :: bytes where
  "sample_wal_start = be32 WAL_MAGIC_BE @ be32 WAL_VERSION @ be32 512 @ be32 0 @ be32 11 @ be32 12"

definition sample_wal_header :: wal_header where
  "sample_wal_header = (case wal_checksum Big 0 0 sample_wal_start of (c0, c1) \<Rightarrow>
    \<lparr>wh_byte_order = Big, wh_page_size = 512, wh_seq = 0, wh_salt1 = 11, wh_salt2 = 12,
     wh_checksum1 = c0, wh_checksum2 = c1\<rparr>)"

definition sample_wal_head :: bytes where
  "sample_wal_head = sample_wal_start @ be32 (wh_checksum1 sample_wal_header) @
    be32 (wh_checksum2 sample_wal_header)"

definition sample_wal_records :: "wal_record list" where
  "sample_wal_records = [(1, 0, replicate 512 1), (2, 2, replicate 512 2)]"

lemma sample_wal_facts:
  "length sample_wal_head = 32" "wal_header_parse sample_wal_head = Ok sample_wal_header"
  "\<forall>x \<in> set sample_wal_records. right_size sample_wal_header x" "no_frame h chk []"
  "frame_size sample_wal_header = 536"
proof -
  obtain c0 c1 where c: "wal_checksum Big 0 0 sample_wal_start = (c0, c1)"
    by (cases "wal_checksum Big 0 0 sample_wal_start")
  have at: "take 24 sample_wal_head = sample_wal_start"
    by (simp add: sample_wal_head_def sample_wal_start_def)
  show len: "length sample_wal_head = 32"
    by (simp add: sample_wal_head_def sample_wal_start_def)
  have h: "sample_wal_header = \<lparr>wh_byte_order = Big, wh_page_size = 512, wh_seq = 0, wh_salt1 = 11,
      wh_salt2 = 12, wh_checksum1 = c0, wh_checksum2 = c1\<rparr>"
    by (simp add: sample_wal_header_def c)
  have "map (u32_at sample_wal_head) [0, 4, 8, 12, 16, 20, 24, 28] =
      [WAL_MAGIC_BE, WAL_VERSION, 512, 0, 11, 12, c0, c1]"
    by (simp add: sample_wal_head_def sample_wal_start_def h u32_at_def)
  then show "wal_header_parse sample_wal_head = Ok sample_wal_header"
    unfolding wal_header_parse_def Let_def at
    by (simp add: len c h WAL_MAGIC_LE_def WAL_MAGIC_BE_def valid_page_sizes)
  show "no_frame h chk []"
    by (auto simp: no_frame_def frame_size_def dest!: length_wal_frame_bytes [of h _ chk])
qed (simp_all add: sample_wal_records_def right_size_def sample_wal_header_def frame_size_def
    split: prod.split)

text \<open>
  C25: on a WAL with a good header, the reader returns exactly the longest chain of frames with the
  header's salts and the right running checksums, wherever it ends: at a torn or corrupt frame, at
  a frame of another generation, or at the end of the bytes.
\<close>

theorem wal_reads_exactly_the_valid_chain:
  assumes "length hb = 32" and "wal_header_parse hb = Ok h"
    and "\<forall>x \<in> set xs. right_size h x"
    and "no_frame h (final_chksum h (wh_checksum1 h, wh_checksum2 h) xs) rest"
  shows "\<exists>r. wal_reader_new (hb @ wal_frames_bytes h (wh_checksum1 h, wh_checksum2 h) xs @ rest) = Ok r \<and>
    read_frames r = frames_of (frame_size h) 0 xs"
proof -
  let ?data = "hb @ wal_frames_bytes h (wh_checksum1 h, wh_checksum2 h) xs @ rest"
  let ?r = "\<lparr>w_data = ?data, w_base = 0, w_header = h, w_frame_n = 0,
    w_chksum = (wh_checksum1 h, wh_checksum2 h)\<rparr>"
  have "wal_reader_new ?data = Ok ?r"
    by (simp add: wal_reader_new_def wal_header_parse_append assms(1,2))
  moreover have "read_frames ?r = frames_of (frame_size h) 0 xs"
    using read_frames_written [of ?r xs rest] assms by (simp add: unread_def)
  ultimately show ?thesis by blast
qed

theorem wal_reads_exactly_the_valid_chain_witness:
  "\<exists>r. wal_reader_new (sample_wal_head @ wal_frames_bytes sample_wal_header
      (wh_checksum1 sample_wal_header, wh_checksum2 sample_wal_header) sample_wal_records @ []) = Ok r \<and>
    map fr_offset (read_frames r) = [32, 568]"
proof -
  show ?thesis
    using wal_reads_exactly_the_valid_chain [OF sample_wal_facts(1-3), of "[]"] sample_wal_facts(4)
    by (auto simp: sample_wal_records_def sample_wal_facts(5))
qed

text \<open>
  C26: the page map holds, for every page up to the size in the last commit frame, the offset of
  its newest frame at or before that commit, and nothing else: frames after the last commit and
  pages beyond the committed size do not show.
\<close>

theorem wal_page_map_is_committed_state:
  fixes r :: wal_reader
  defines "fs \<equiv> read_frames r" and "pm \<equiv> snd (wal_page_map r)"
  shows "pm_commit pm = last_commit fs \<and> distinct (map fst (pm_pages pm)) \<and>
    (\<forall>p. map_of (pm_pages pm) p = (if p \<le> pm_commit pm then latest (committed fs) p else None)) \<and>
    pm_end_offset pm = (if pm_pages pm = [] then 0
      else Max (snd ` set (pm_pages pm)) + frame_size (w_header r))"
  unfolding fs_def pm_def by (rule wal_page_map_run)

subsection \<open>Resuming in the middle\<close>

definition header_at :: "wal_reader \<Rightarrow> nat \<Rightarrow> wal_frame_header" where
  "header_at r k = wal_frame_header_parse (take WAL_FRAME_HEADER_SIZE
    (drop (WAL_HEADER_SIZE + k * frame_size (w_header r) - w_base r) (w_data r)))"

lemma read_frame_header_at:
  assumes "read_frame r = Some (r', f)" and "w_base r = 0"
  shows "fh_salt1 (header_at r (w_frame_n r)) = wh_salt1 (w_header r) \<and>
    fh_salt2 (header_at r (w_frame_n r)) = wh_salt2 (w_header r) \<and>
    w_chksum r' = (fh_checksum1 (header_at r (w_frame_n r)), fh_checksum2 (header_at r (w_frame_n r))) \<and>
    WAL_HEADER_SIZE + w_frame_n r * frame_size (w_header r) + WAL_FRAME_HEADER_SIZE \<le> length (w_data r) \<and>
    r' = r\<lparr>w_chksum := w_chksum r', w_frame_n := w_frame_n r + 1\<rparr>"
  using assms
  by (auto simp: read_frame_def header_at_def Let_def frame_size_def split: if_splits prod.splits)

lemma read_frames_drop:
  assumes "w_base r = 0" and "n \<le> length (read_frames r)"
  shows "\<exists>chk. read_frames (r\<lparr>w_chksum := chk, w_frame_n := w_frame_n r + n\<rparr>) = drop n (read_frames r) \<and>
    (if n = 0 then chk = w_chksum r
     else let hdr = header_at r (w_frame_n r + (n - 1)) in
       fh_salt1 hdr = wh_salt1 (w_header r) \<and> fh_salt2 hdr = wh_salt2 (w_header r) \<and>
       chk = (fh_checksum1 hdr, fh_checksum2 hdr) \<and>
       WAL_HEADER_SIZE + (w_frame_n r + (n - 1)) * frame_size (w_header r) + WAL_FRAME_HEADER_SIZE
         \<le> length (w_data r))"
  using assms
proof (induction n arbitrary: r)
  case 0
  then show ?case by (intro exI [of _ "w_chksum r"]) simp
next
  case (Suc n)
  then obtain r1 f where step: "read_frame r = Some (r1, f)"
    by (cases "read_frame r") (auto simp: read_frames_None)
  note hdr = read_frame_header_at [OF step Suc.prems(1)]
  have r1: "w_base r1 = 0" "w_header r1 = w_header r" "w_frame_n r1 = w_frame_n r + 1" "w_data r1 = w_data r"
    using read_frame_Some [OF step] Suc.prems(1) by auto
  have fs: "read_frames r = f # read_frames r1"
    by (rule read_frames_Some [OF step])
  obtain chk where IH: "read_frames (r1\<lparr>w_chksum := chk, w_frame_n := w_frame_n r1 + n\<rparr>) = drop n (read_frames r1)"
    "if n = 0 then chk = w_chksum r1
     else let hdr = header_at r1 (w_frame_n r1 + (n - 1)) in
       fh_salt1 hdr = wh_salt1 (w_header r1) \<and> fh_salt2 hdr = wh_salt2 (w_header r1) \<and>
       chk = (fh_checksum1 hdr, fh_checksum2 hdr) \<and>
       WAL_HEADER_SIZE + (w_frame_n r1 + (n - 1)) * frame_size (w_header r1) + WAL_FRAME_HEADER_SIZE
         \<le> length (w_data r1)"
    using Suc.IH [OF r1(1)] Suc.prems(2) fs by auto
  have same: "r1\<lparr>w_chksum := chk, w_frame_n := w_frame_n r1 + n\<rparr> =
      r\<lparr>w_chksum := chk, w_frame_n := w_frame_n r + Suc n\<rparr>"
  proof -
    obtain c where r1eq: "r1 = r\<lparr>w_chksum := c, w_frame_n := w_frame_n r + 1\<rparr>"
      using hdr by blast
    show ?thesis by (simp add: r1eq)
  qed
  have at: "header_at r1 k = header_at r k" for k
    by (simp add: header_at_def r1 Suc.prems(1))
  show ?case
  proof (cases n)
    case 0
    then show ?thesis
      using IH hdr same fs by (intro exI [of _ chk]) (auto simp: Let_def)
  next
    case (Suc m)
    then show ?thesis
      using IH same fs by (intro exI [of _ chk]) (auto simp: Let_def at r1)
  qed
qed

text \<open>A reader over the tail of the buffer sees the same frames.\<close>

definition on_tail :: "nat \<Rightarrow> wal_reader \<Rightarrow> wal_reader" where
  "on_tail b r = r\<lparr>w_data := drop b (w_data r), w_base := b\<rparr>"

lemma read_frames_on_tail:
  "w_base r = 0 \<Longrightarrow> b \<le> WAL_HEADER_SIZE + w_frame_n r * frame_size (w_header r) \<Longrightarrow>
    read_frames (on_tail b r) = read_frames r"
proof (induction r rule: read_frames.induct)
  case (1 r)
  have un: "unread (on_tail b r) = unread r"
    using "1.prems" by (simp add: unread_def on_tail_def)
  show ?case
  proof (cases "read_frame r")
    case None
    moreover from this have "read_frame (on_tail b r) = None"
      unfolding read_frame_unread un Let_def by (simp add: on_tail_def split: if_splits)
    ultimately show ?thesis
      by (simp add: read_frames_None)
  next
    case (Some rf)
    obtain r1 f where rf: "rf = (r1, f)" by (cases rf)
    with Some have step: "read_frame r = Some (r1, f)" by simp
    then have tail: "read_frame (on_tail b r) = Some (on_tail b r1, f)"
      unfolding read_frame_unread un Let_def by (auto simp: on_tail_def split: if_splits)
    have "read_frames (on_tail b r1) = read_frames r1"
      using "1.IH" [OF Some rf [symmetric]] read_frame_Some [OF step] "1.prems"
      by (simp add: algebra_simps)
    then show ?thesis
      using read_frames_Some [OF step] read_frames_Some [OF tail] by simp
  qed
qed

lemma wal_resume_run:
  assumes "wal_reader_new data = Ok r" and "n \<le> length (read_frames r)"
  defines "off \<equiv> WAL_HEADER_SIZE + n * frame_size (w_header r)"
  shows "\<exists>r1. wal_reader_new_at_offset data off = Ok r1 \<and> read_frames r1 = drop n (read_frames r) \<and>
    w_header r1 = w_header r \<and> w_base r1 = 0 \<and> w_data r1 = data \<and> w_frame_n r1 = n"
proof -
  from assms(1) obtain h where h: "wal_header_parse data = Ok h" and r: "r = \<lparr>w_data = data, w_base = 0,
      w_header = h, w_frame_n = 0, w_chksum = (wh_checksum1 h, wh_checksum2 h)\<rparr>"
    by (auto simp: wal_reader_new_def res_simps)
  have r0: "w_base r = 0" "w_frame_n r = 0"
    by (simp_all add: r)
  obtain chk where chk: "read_frames (r\<lparr>w_chksum := chk, w_frame_n := n\<rparr>) = drop n (read_frames r)"
    "if n = 0 then chk = w_chksum r
     else let hdr = header_at r (n - 1) in
       fh_salt1 hdr = wh_salt1 (w_header r) \<and> fh_salt2 hdr = wh_salt2 (w_header r) \<and>
       chk = (fh_checksum1 hdr, fh_checksum2 hdr) \<and>
       WAL_HEADER_SIZE + (n - 1) * frame_size (w_header r) + WAL_FRAME_HEADER_SIZE \<le> length (w_data r)"
    using read_frames_drop [OF r0(1) assms(2)] unfolding r0 add_0 by blast
  have fs: "0 < frame_size h"
    by (simp add: frame_size_def)
  have off: "off - WAL_HEADER_SIZE = n * frame_size h" "\<not> off < WAL_HEADER_SIZE"
    by (simp_all add: off_def r)
  have "wal_reader_new_at_offset data off = Ok (r\<lparr>w_chksum := chk, w_frame_n := n\<rparr>)"
    using chk(2) fs unfolding wal_reader_new_at_offset_def h Let_def off(1)
    by (simp add: off(2) r header_at_def Let_def not_less del: wal_size_defs split: if_splits)
  then show ?thesis
    using chk(1) r by auto
qed

text \<open>
  C27: reading may stop after any number of verified frames and be resumed at that offset, from the
  whole buffer or from its tail alone with the checksum of the last frame read: the frames that
  follow are those an uninterrupted reader yields.
\<close>

theorem wal_resume:
  assumes "wal_reader_new data = Ok r" and "n \<le> length (read_frames r)"
  defines "off \<equiv> WAL_HEADER_SIZE + n * frame_size (w_header r)"
  shows "\<exists>r1 r2. wal_reader_new_at_offset data off = Ok r1 \<and>
    wal_reader_from_tail (w_header r) (drop off data) off (w_chksum r1) = Ok r2 \<and>
    read_frames r1 = drop n (read_frames r) \<and> read_frames r2 = drop n (read_frames r)"
proof -
  obtain r1 where r1: "wal_reader_new_at_offset data off = Ok r1" "read_frames r1 = drop n (read_frames r)"
    "w_header r1 = w_header r" "w_base r1 = 0" "w_data r1 = data" "w_frame_n r1 = n"
    using wal_resume_run [OF assms(1,2)] off_def by blast
  have fs: "0 < frame_size (w_header r)"
    by (simp add: frame_size_def)
  have "wal_reader_from_tail (w_header r) (drop off data) off (w_chksum r1) = Ok (on_tail off r1)"
    using fs r1 by (cases r1) (simp add: wal_reader_from_tail_def on_tail_def off_def)
  moreover have "read_frames (on_tail off r1) = read_frames r1"
    by (rule read_frames_on_tail) (use r1 in \<open>auto simp: off_def\<close>)
  ultimately show ?thesis
    using r1 by auto
qed

theorem wal_resume_witness:
  "\<exists>data r r1. wal_reader_new data = Ok r \<and> length (read_frames r) = 2 \<and>
    wal_reader_new_at_offset data 568 = Ok r1 \<and> read_frames r1 = drop 1 (read_frames r)"
proof -
  let ?data = "sample_wal_head @ wal_frames_bytes sample_wal_header
      (wh_checksum1 sample_wal_header, wh_checksum2 sample_wal_header) sample_wal_records"
  let ?r = "\<lparr>w_data = ?data, w_base = 0, w_header = sample_wal_header, w_frame_n = 0,
    w_chksum = (wh_checksum1 sample_wal_header, wh_checksum2 sample_wal_header)\<rparr>"
  have r: "wal_reader_new ?data = Ok ?r"
    by (simp add: wal_reader_new_def wal_header_parse_append sample_wal_facts(1,2))
  have "read_frames ?r = frames_of 536 0 sample_wal_records"
    using read_frames_written [of ?r sample_wal_records "[]"] sample_wal_facts
    by (simp add: unread_def)
  then have len: "length (read_frames ?r) = 2"
    by (simp add: sample_wal_records_def)
  have "1 \<le> length (read_frames ?r)"
    using len by simp
  from wal_resume [OF r this] r len show ?thesis
    by (auto simp: sample_wal_facts(5))
qed

end
