(* ===== verification/RestorePlan.thy ===== *)
theory RestorePlan
  imports Storage LtxDecoder WalReader
begin

text \<open>
  Restore planning (\<^verbatim>\<open>src/sync/restore.rs\<close>, first part, \<^verbatim>\<open>src/sync/error.rs\<close>, \<^verbatim>\<open>src/db/error.rs\<close>): which files of
  a replica rebuild a database from nothing, up to a target, or from a local position. Files are
  triples of level, minimum and maximum TXID. The lemmas show that the greedy cover is a contiguous
  run that reaches as far as any run can, with the fewest files.
\<close>

section \<open>Errors of the sync layer\<close>

datatype lock_error = LockIo io_error | Held string

text \<open>An error of \<^verbatim>\<open>rusqlite\<close> is opaque.\<close>

datatype db_error = Sqlite | NotWalMode string | FileControl string int

datatype sync_error =
    SyncIo io_error
  | SyncDb db_error
  | SyncLtx ltx_error
  | SyncWal wal_error
  | SyncStorage storage_error
  | SyncLock lock_error
  | BadLtxFilename string
  | NoSnapshot
  | Equivocation u64
  | TxidTooOld u64
  | ChainGap u64
  | InvalidCompactionLevels string

definition of_ltx :: "('a, ltx_error) result \<Rightarrow> ('a, sync_error) result" where
  "of_ltx = rmap_err SyncLtx"

definition of_storage :: "('a, storage_error) result \<Rightarrow> ('a, sync_error) result" where
  "of_storage = rmap_err SyncStorage"

definition of_wal :: "('a, wal_error) result \<Rightarrow> ('a, sync_error) result" where
  "of_wal = rmap_err SyncWal"

definition of_db :: "('a, db_error) result \<Rightarrow> ('a, sync_error) result" where
  "of_db = rmap_err SyncDb"

lemma of_db_Ok [simp]: "of_db d = Ok w \<longleftrightarrow> d = Ok w" "of_db (Ok w) = Ok w"
  by (simp_all add: of_db_def)

lemma of_Ok [simp]: "of_ltx a = Ok x \<longleftrightarrow> a = Ok x" "of_storage b = Ok y \<longleftrightarrow> b = Ok y" "of_wal c = Ok z \<longleftrightarrow> c = Ok z"
  by (simp_all add: of_ltx_def of_storage_def of_wal_def)

lemma of_Ok_simps [simp]: "of_ltx (Ok x) = Ok x" "of_storage (Ok y) = Ok y" "of_wal (Ok z) = Ok z"
  by (simp_all add: of_ltx_def of_storage_def of_wal_def)

section \<open>The planners\<close>

type_synonym file_range = "u32 \<times> u64 \<times> u64"

abbreviation fr_level :: "file_range \<Rightarrow> u32" where "fr_level f \<equiv> fst f"
abbreviation fr_min :: "file_range \<Rightarrow> u64" where "fr_min f \<equiv> fst (snd f)"
abbreviation fr_max :: "file_range \<Rightarrow> u64" where "fr_max f \<equiv> snd (snd f)"

definition MAX_LEVEL :: u32 where
  "MAX_LEVEL = 9"

definition list_all_levels :: "'s replica_client \<Rightarrow> 's \<Rightarrow> (file_range list, sync_error) result" where
  "list_all_levels cl s = rmap (map file_triple) (of_storage (list_all_ltx cl MAX_LEVEL s))"

text \<open>\<^verbatim>\<open>Iterator::max_by\<close> on a key: the last of the greatest elements.\<close>

fun max_last :: "('a \<Rightarrow> 'k::linorder) \<Rightarrow> 'a list \<Rightarrow> 'a option" where
  "max_last key [] = None"
| "max_last key (x # xs) =
     (case max_last key xs of None \<Rightarrow> Some x | Some y \<Rightarrow> if key x \<le> key y then Some y else Some x)"

lemma max_last_None [simp]: "max_last key xs = None \<longleftrightarrow> xs = []"
  by (cases xs) (auto split: option.splits)

lemma max_last_Some:
  "max_last key xs = Some y \<Longrightarrow> y \<in> set xs \<and> (\<forall>x \<in> set xs. key x \<le> key y)"
  by (induction xs arbitrary: y) (fastforce split: option.splits if_splits)+

definition next_file :: "file_range list \<Rightarrow> u64 \<Rightarrow> file_range option" where
  "next_file files pos =
    max_last (\<lambda>f. (fr_max f, fr_level f)) (filter (\<lambda>f. fr_min f \<le> pos + 1 \<and> fr_max f > pos) files)"

lemma next_file_Some:
  "next_file files pos = Some f \<Longrightarrow> f \<in> set files \<and> fr_min f \<le> pos + 1 \<and> pos < fr_max f \<and>
    (\<forall>g \<in> set files. fr_min g \<le> pos + 1 \<and> pos < fr_max g \<longrightarrow> fr_max g \<le> fr_max f)"
  unfolding next_file_def by (drule max_last_Some) (force simp: less_eq_prod_def intro: less_imp_le)

function greedy_cover :: "file_range list \<Rightarrow> u64 \<Rightarrow> file_range list \<times> u64" where
  "greedy_cover files pos =
    (case next_file files pos of
       None \<Rightarrow> ([], pos)
     | Some f \<Rightarrow> (case greedy_cover files (fr_max f) of (plan, reached) \<Rightarrow> (f # plan, reached)))"
  by pat_completeness auto
termination
proof (relation "measure (\<lambda>(files, pos). 2 ^ 64 - unat pos)")
  fix files :: "file_range list" and pos :: u64 and f
  assume "next_file files pos = Some f"
  then have "unat pos < unat (fr_max f)" "unat (fr_max f) < 2 ^ 64"
    using next_file_Some unsigned_less [of "fr_max f", where 'a = nat] by (auto simp: word_less_nat_alt)
  then show "((files, fr_max f), files, pos) \<in> measure (\<lambda>(files, pos). 2 ^ 64 - unat pos)"
    by simp
qed simp

declare greedy_cover.simps [simp del]

definition plan_restore :: "file_range list \<Rightarrow> (file_range list, sync_error) result" where
  "plan_restore files =
    (case greedy_cover files 0 of (plan, _) \<Rightarrow>
     if (case plan of [] \<Rightarrow> None | f # _ \<Rightarrow> Some (fr_min f)) \<noteq> Some 1 then Err NoSnapshot else Ok plan)"

definition head_txid :: "file_range list \<Rightarrow> u64" where
  "head_txid files = foldl max 0 (map fr_max files)"

definition plan_restore_from :: "file_range list \<Rightarrow> u64 \<Rightarrow> (file_range list, sync_error) result" where
  "plan_restore_from files from_txid =
    (let head = head_txid files in
     if from_txid \<ge> head then Ok [] else
     case greedy_cover files from_txid of (plan, reached) \<Rightarrow>
     if reached < head then Err (ChainGap from_txid) else Ok plan)"

definition plan_restore_to :: "file_range list \<Rightarrow> u64 \<Rightarrow> (file_range list, sync_error) result" where
  "plan_restore_to files target = plan_restore (filter (\<lambda>f. fr_max f \<le> target) files)"

section \<open>Contiguous runs\<close>

fun is_run :: "u64 \<Rightarrow> file_range list \<Rightarrow> bool" where
  "is_run pos [] = True"
| "is_run pos (f # fs) = (fr_min f \<le> pos + 1 \<and> pos < fr_max f \<and> is_run (fr_max f) fs)"

fun run_end :: "u64 \<Rightarrow> file_range list \<Rightarrow> u64" where
  "run_end pos [] = pos"
| "run_end pos (f # fs) = run_end (fr_max f) fs"

lemma run_end_le: "is_run pos fs \<Longrightarrow> pos \<le> run_end pos fs"
  by (induction fs arbitrary: pos) (auto intro: less_imp_le order_trans)

lemma run_end_less: "is_run pos fs \<Longrightarrow> fs \<noteq> [] \<Longrightarrow> pos < run_end pos fs"
  by (cases fs) (auto intro: less_le_trans dest: run_end_le)

lemma run_end_last: "fs \<noteq> [] \<Longrightarrow> run_end pos fs = fr_max (last fs)"
  by (induction fs arbitrary: pos) auto

lemma is_run_sound:
  "greedy_cover files pos = (plan, reached) \<Longrightarrow>
    is_run pos plan \<and> set plan \<subseteq> set files \<and> reached = run_end pos plan"
proof (induction files pos arbitrary: plan reached rule: greedy_cover.induct)
  case (1 files pos)
  show ?case
  proof (cases "next_file files pos")
    case None
    then show ?thesis
      using "1.prems" by (simp add: greedy_cover.simps [of files])
  next
    case (Some f)
    then show ?thesis
      using "1.IH" [OF Some] "1.prems" next_file_Some [OF Some]
      by (auto simp: greedy_cover.simps [of files pos] split: prod.splits)
  qed
qed

lemma unat_plus_one: "pos < (w :: u64) \<Longrightarrow> unat (pos + 1) = unat pos + 1"
proof -
  assume "pos < w"
  then have "unat pos + 1 < 2 ^ 64"
    using unsigned_less [of w, where 'a = nat] by (simp add: word_less_nat_alt)
  then show ?thesis
    by (simp add: unat_word_ariths)
qed

lemma plus_one_mono: "a \<le> b \<Longrightarrow> b < (w :: u64) \<Longrightarrow> a + 1 \<le> b + 1"
  using unat_plus_one [of b w] unat_plus_one [of a w] by (auto simp: word_le_nat_alt word_less_nat_alt)

text \<open>The greedy cover stays ahead of every run that starts no further.\<close>

lemma greedy_stays_ahead:
  "greedy_cover files pos = (plan, reached) \<Longrightarrow> is_run pos' fs \<Longrightarrow> set fs \<subseteq> set files \<Longrightarrow> pos' \<le> pos \<Longrightarrow>
    run_end pos' fs \<le> reached \<and> (run_end pos' fs = reached \<longrightarrow> length plan \<le> length fs)"
proof (induction fs arbitrary: pos pos' plan)
  case Nil
  note sound = is_run_sound [OF Nil(1)]
  then have "plan \<noteq> [] \<Longrightarrow> pos' < reached"
    using run_end_less [of pos plan] Nil(4) by auto
  then show ?case
    using sound run_end_le [of pos plan] Nil(4) by auto
next
  case (Cons f fs)
  have f: "fr_min f \<le> pos' + 1" "pos' < fr_max f" "is_run (fr_max f) fs" "f \<in> set files"
    using Cons.prems by auto
  show ?case
  proof (cases "fr_max f \<le> pos")
    case True
    then show ?thesis
      using Cons.IH [OF Cons.prems(1) f(3)] Cons.prems(3) by auto
  next
    case False
    have "pos' + 1 \<le> pos + 1"
      using Cons.prems(4) False by (intro plus_one_mono [where w = "fr_max f"]) auto
    then have cand: "fr_min f \<le> pos + 1" "pos < fr_max f"
      using f False by auto
    then obtain g where g: "next_file files pos = Some g"
      using f(4) unfolding next_file_def by (metis (no_types, lifting) filter_empty_conv max_last_None not_None_eq)
    then have le: "fr_max f \<le> fr_max g"
      using next_file_Some f(4) cand by blast
    obtain plan' where plan: "greedy_cover files (fr_max g) = (plan', reached)" "plan = g # plan'"
      using Cons.prems(1) g by (auto simp: greedy_cover.simps [of files pos] split: prod.splits)
    show ?thesis
      using Cons.IH [OF plan(1) f(3) _ le] Cons.prems(3) plan(2) by auto
  qed
qed

text \<open>
  C19: the greedy cover is a contiguous run of listed files from the start position; no run of
  listed files from there gets further; and no run that gets as far has fewer files.
\<close>

theorem greedy_cover_optimal:
  assumes "greedy_cover files from_txid = (plan, reached)"
  shows "is_run from_txid plan \<and> set plan \<subseteq> set files \<and> reached = run_end from_txid plan \<and>
    (\<forall>fs. is_run from_txid fs \<and> set fs \<subseteq> set files \<longrightarrow> run_end from_txid fs \<le> reached \<and>
      (run_end from_txid fs = reached \<longrightarrow> length plan \<le> length fs))"
  using is_run_sound [OF assms] greedy_stays_ahead [OF assms] by blast

definition sample_chain :: "file_range list" where
  "sample_chain = [(9, 1, 100), (0, 101, 101), (0, 102, 102), (0, 103, 103), (1, 101, 103)]"

lemma sample_cover: "greedy_cover sample_chain 0 = ([(9, 1, 100), (1, 101, 103)], 103)"
  "greedy_cover sample_chain 101 = ([(1, 101, 103)], 103)"
proof -
  have n: "next_file sample_chain 0 = Some (9, 1, 100)" "next_file sample_chain 100 = Some (1, 101, 103)"
    "next_file sample_chain 101 = Some (1, 101, 103)" "next_file sample_chain 103 = None"
    by (simp_all add: next_file_def sample_chain_def word_le_nat_alt)
  show "greedy_cover sample_chain 101 = ([(1, 101, 103)], 103)"
    by (simp add: greedy_cover.simps [of _ 101] greedy_cover.simps [of _ 103] n)
  show "greedy_cover sample_chain 0 = ([(9, 1, 100), (1, 101, 103)], 103)"
    by (simp add: greedy_cover.simps [of _ 0] greedy_cover.simps [of _ 100] greedy_cover.simps [of _ 103] n)
qed

theorem greedy_cover_optimal_witness:
  "greedy_cover sample_chain 0 = ([(9, 1, 100), (1, 101, 103)], 103) \<and>
    run_end 0 [(9, 1, 100), (0, 101, 101), (0, 102, 102), (0, 103, 103)] = 103 \<and>
    length [(9 :: u32, 1 :: u64, 100 :: u64), (1, 101, 103)] \<le>
      length [(9 :: u32, 1 :: u64, 100 :: u64), (0, 101, 101), (0, 102, 102), (0, 103, 103)]"
proof -
  let ?fs = "[(9, 1, 100), (0, 101, 101), (0, 102, 102), (0, 103, 103)] :: file_range list"
  have "is_run 0 ?fs \<and> set ?fs \<subseteq> set sample_chain"
    by (simp add: sample_chain_def word_le_nat_alt word_less_nat_alt)
  moreover have "run_end 0 ?fs = 103" by simp
  ultimately have "length [(9 :: u32, 1 :: u64, 100 :: u64), (1, 101, 103)] \<le> length ?fs"
    using greedy_cover_optimal [OF sample_cover(1)] by blast
  then show ?thesis
    using sample_cover(1) by simp
qed

section \<open>Restore plans\<close>

lemma fold_max_ge: "x \<le> a \<or> x \<in> set xs \<Longrightarrow> x \<le> foldl max (a :: u64) xs"
proof (induction xs arbitrary: a)
  case Nil
  then show ?case by simp
next
  case (Cons y xs)
  have "x \<le> max a y \<or> x \<in> set xs"
    using Cons.prems by (auto simp: le_max_iff_disj)
  from Cons.IH [OF this] show ?case by simp
qed

lemma fold_max_in: "foldl max (a :: u64) xs \<in> set xs \<union> {a}"
  by (induction xs arbitrary: a) (auto simp: max_def split: if_splits)

lemma head_txid_ge: "f \<in> set files \<Longrightarrow> fr_max f \<le> head_txid files"
  unfolding head_txid_def by (rule fold_max_ge) simp

lemma run_end_head:
  assumes "set fs \<subseteq> set files" and "pos \<le> head_txid files"
  shows "run_end pos fs \<le> head_txid files"
proof (cases "fs = []")
  case True
  then show ?thesis using assms(2) by simp
next
  case False
  then have "last fs \<in> set files"
    using assms(1) by auto
  then show ?thesis
    unfolding run_end_last [OF False] by (rule head_txid_ge)
qed

lemma plan_restore_Ok:
  assumes "plan_restore files = Ok plan"
  shows "is_run 0 plan \<and> set plan \<subseteq> set files \<and> plan \<noteq> [] \<and> fr_min (hd plan) = 1 \<and>
    (\<forall>fs. is_run 0 fs \<and> set fs \<subseteq> set files \<longrightarrow> run_end 0 fs \<le> run_end 0 plan)"
proof -
  obtain p r where g: "greedy_cover files 0 = (p, r)" by (cases "greedy_cover files 0")
  then have "p = plan" "plan \<noteq> []" "fr_min (hd plan) = 1"
    using assms by (auto simp: plan_restore_def split: list.splits if_splits)
  then show ?thesis
    using is_run_sound [OF g] greedy_stays_ahead [OF g] by blast
qed

text \<open>Listed files start at TXID 1 or later and are not empty, as the encoder enforces.\<close>

definition proper_files :: "file_range list \<Rightarrow> bool" where
  "proper_files files \<longleftrightarrow> (\<forall>f \<in> set files. 1 \<le> fr_min f \<and> fr_min f \<le> fr_max f)"

lemma plan_restore_NoSnapshot:
  assumes "proper_files files"
  shows "(\<exists>plan. plan_restore files = Ok plan) \<longleftrightarrow> (\<exists>f \<in> set files. fr_min f = 1)"
proof -
  have one: "fr_min f \<le> 0 + 1 \<and> 0 < fr_max f \<longleftrightarrow> fr_min f = 1" if "f \<in> set files" for f
  proof -
    have "1 \<le> fr_min f" "fr_min f \<le> fr_max f"
      using assms that unfolding proper_files_def by blast+
    then show ?thesis
      by (auto simp: word_le_nat_alt word_less_nat_alt word_unat_eq_iff)
  qed
  have "next_file files 0 = None \<longleftrightarrow> (\<forall>f \<in> set files. fr_min f \<noteq> 1)"
    unfolding next_file_def max_last_None filter_empty_conv using one by blast
  moreover have "fr_min f = 1" "f \<in> set files" if "next_file files 0 = Some f" for f
    using next_file_Some [OF that] one by blast+
  ultimately have nf: "next_file files 0 = None \<longleftrightarrow> (\<forall>f \<in> set files. fr_min f \<noteq> 1)"
    "\<And>f. next_file files 0 = Some f \<Longrightarrow> fr_min f = 1 \<and> f \<in> set files"
    by blast+
  then show ?thesis
    by (cases "next_file files 0")
      (auto simp: plan_restore_def greedy_cover.simps [of files 0] split: prod.splits)
qed

text \<open>
  C20: a full restore plan exists exactly when some file starts at TXID 1, and then it is a
  contiguous run from TXID 1 that reaches as far as any run of listed files. A plan to a target
  does the same among the files ending at or before the target, so it never overshoots.
\<close>

theorem plan_restore_correct:
  assumes "proper_files files"
  shows "((\<exists>plan. plan_restore_to files target = Ok plan) \<longleftrightarrow>
      (\<exists>f \<in> set files. fr_min f = 1 \<and> fr_max f \<le> target)) \<and>
    (\<forall>plan. plan_restore_to files target = Ok plan \<longrightarrow>
      is_run 0 plan \<and> set plan \<subseteq> set files \<and> plan \<noteq> [] \<and> fr_min (hd plan) = 1 \<and> run_end 0 plan \<le> target \<and>
      (\<forall>fs. is_run 0 fs \<and> set fs \<subseteq> set files \<and> (\<forall>f \<in> set fs. fr_max f \<le> target) \<longrightarrow>
        run_end 0 fs \<le> run_end 0 plan))"
proof (intro conjI allI impI)
  let ?files = "filter (\<lambda>f. fr_max f \<le> target) files"
  have "proper_files ?files"
    using assms by (simp add: proper_files_def)
  from plan_restore_NoSnapshot [OF this]
  show "(\<exists>plan. plan_restore_to files target = Ok plan) \<longleftrightarrow>
      (\<exists>f \<in> set files. fr_min f = 1 \<and> fr_max f \<le> target)"
    unfolding plan_restore_to_def set_filter by blast
  fix plan
  assume "plan_restore_to files target = Ok plan"
  then have run: "plan_restore ?files = Ok plan"
    by (simp add: plan_restore_to_def)
  note ok = plan_restore_Ok [OF run]
  then show "is_run 0 plan" "plan \<noteq> []" "fr_min (hd plan) = 1" "set plan \<subseteq> set files"
    by auto
  have "last plan \<in> set ?files"
    using ok last_in_set by blast
  then show "run_end 0 plan \<le> target"
    using ok by (simp add: run_end_last)
  fix fs
  assume "is_run 0 fs \<and> set fs \<subseteq> set files \<and> (\<forall>f \<in> set fs. fr_max f \<le> target)"
  then have "is_run 0 fs" "set fs \<subseteq> set ?files"
    by auto
  with ok show "run_end 0 fs \<le> run_end 0 plan"
    by blast
qed

theorem plan_restore_correct_witness:
  "\<exists>plan. plan_restore_to sample_chain 102 = Ok plan \<and> run_end 0 plan \<le> 102"
proof -
  have "proper_files sample_chain"
    by (simp add: proper_files_def sample_chain_def)
  then show ?thesis
    using plan_restore_correct [of sample_chain 102] by (fastforce simp: sample_chain_def)
qed

text \<open>
  C21: the delta plan from a local position succeeds exactly when a contiguous run of listed files
  leads from there to the newest TXID (trivially when the position is at or past it); it is then
  such a run, with the fewest files. Otherwise it reports the gap.
\<close>

theorem plan_restore_from_correct:
  shows "((\<exists>plan. plan_restore_from files from_txid = Ok plan) \<longleftrightarrow>
      head_txid files \<le> from_txid \<or>
      (\<exists>fs. is_run from_txid fs \<and> set fs \<subseteq> set files \<and> run_end from_txid fs = head_txid files)) \<and>
    (\<forall>plan. plan_restore_from files from_txid = Ok plan \<and> from_txid < head_txid files \<longrightarrow>
      is_run from_txid plan \<and> set plan \<subseteq> set files \<and> run_end from_txid plan = head_txid files \<and>
      (\<forall>fs. is_run from_txid fs \<and> set fs \<subseteq> set files \<and> run_end from_txid fs = head_txid files \<longrightarrow>
        length plan \<le> length fs)) \<and>
    (plan_restore_from files from_txid = Err (ChainGap from_txid) \<or>
      (\<exists>plan. plan_restore_from files from_txid = Ok plan))"
proof -
  obtain p r where g: "greedy_cover files from_txid = (p, r)" by (cases "greedy_cover files from_txid")
  note sound = is_run_sound [OF g] and ahead = greedy_stays_ahead [OF g _ _ order_refl]
  have eq: "plan_restore_from files from_txid =
      (if head_txid files \<le> from_txid then Ok []
       else if r < head_txid files then Err (ChainGap from_txid) else Ok p)"
    by (simp add: plan_restore_from_def g Let_def)
  consider "head_txid files \<le> from_txid" | "from_txid < head_txid files" "r < head_txid files"
    | "from_txid < head_txid files" "r = head_txid files"
    using run_end_head [of p files from_txid] sound by fastforce
  then show ?thesis
  proof cases
    case 1
    then show ?thesis unfolding eq by auto
  next
    case 2
    then have "\<nexists>fs. is_run from_txid fs \<and> set fs \<subseteq> set files \<and> run_end from_txid fs = head_txid files"
      using ahead by (metis leD)
    with 2 show ?thesis unfolding eq by (auto simp: not_le [symmetric])
  next
    case 3
    then show ?thesis
      unfolding eq using sound ahead by (auto simp: not_le)
  qed
qed

theorem plan_restore_from_correct_witness:
  "plan_restore_from sample_chain 101 = Ok [(1, 101, 103)] \<and> run_end 101 [(1, 101, 103)] = head_txid sample_chain"
proof -
  have h: "head_txid sample_chain = 103"
    by (simp add: head_txid_def sample_chain_def)
  have "plan_restore_from sample_chain 101 = Ok [(1, 101, 103)]"
    by (simp add: plan_restore_from_def sample_cover h)
  then show ?thesis
    using plan_restore_from_correct [of sample_chain 101] h by simp
qed

end
