(* ===== verification/BinHeap.thy ===== *)
theory BinHeap
  imports Prelude "HOL-Library.Multiset" "HOL-Library.Product_Lexorder"
begin

text \<open>
  The part of \<^verbatim>\<open>std::collections::BinaryHeap\<close> and \<^verbatim>\<open>std::cmp::Reverse\<close> that the k-way merge
  uses. The locale \<open>max_heap\<close> is the interface the merge relies on; the model's heap is a list kept
  in descending order, and elements are compared through \<^verbatim>\<open>Reverse\<close>, so the greatest element is
  the least pair.
\<close>

section \<open>Reverse\<close>

datatype 'a reverse = Reverse (unreverse: 'a)

instantiation reverse :: (linorder) linorder
begin

definition less_eq_reverse :: "'a reverse \<Rightarrow> 'a reverse \<Rightarrow> bool" where
  "less_eq_reverse x y \<longleftrightarrow> unreverse y \<le> unreverse x"

definition less_reverse :: "'a reverse \<Rightarrow> 'a reverse \<Rightarrow> bool" where
  "less_reverse x y \<longleftrightarrow> unreverse y < unreverse x"

instance
  by standard (auto simp: less_eq_reverse_def less_reverse_def reverse.expand)

end

lemma Reverse_le [simp]: "Reverse x \<le> Reverse y \<longleftrightarrow> y \<le> x" "Reverse x < Reverse y \<longleftrightarrow> y < x"
  by (simp_all add: less_eq_reverse_def less_reverse_def)

section \<open>The interface\<close>

locale max_heap =
  fixes push :: "'a::linorder \<Rightarrow> 'h \<Rightarrow> 'h"
    and peek :: "'h \<Rightarrow> 'a option"
    and pop :: "'h \<Rightarrow> 'h"
    and contents :: "'h \<Rightarrow> 'a multiset"
    and valid :: "'h \<Rightarrow> bool"
  assumes contents_push: "valid h \<Longrightarrow> contents (push x h) = add_mset x (contents h)"
    and valid_push: "valid h \<Longrightarrow> valid (push x h)"
    and peek_Some: "valid h \<Longrightarrow> peek h = Some x \<Longrightarrow> x \<in># contents h \<and> (\<forall>y \<in># contents h. y \<le> x)"
    and peek_None: "valid h \<Longrightarrow> peek h = None \<longleftrightarrow> contents h = {#}"
    and contents_pop: "valid h \<Longrightarrow> peek h = Some x \<Longrightarrow> contents (pop h) = contents h - {#x#}"
    and valid_pop: "valid h \<Longrightarrow> valid (pop h)"
begin

text \<open>The peeked element is the maximum, and it is the only candidate.\<close>

lemma peek_eq_Max: "valid h \<Longrightarrow> peek h = Some x \<Longrightarrow> x = Max (set_mset (contents h))"
  by (rule Max_eqI [symmetric]) (use peek_Some in auto)

lemma peek_ex: "valid h \<Longrightarrow> x \<in># contents h \<Longrightarrow> \<exists>y. peek h = Some y \<and> x \<le> y"
proof -
  assume h: "valid h" and x: "x \<in># contents h"
  then have "peek h \<noteq> None"
    using peek_None by auto
  with peek_Some [OF h] x show ?thesis by auto
qed

text \<open>Replacing the top: the heap step of a merge that advances one of its inputs.\<close>

lemma contents_replace_top:
  "valid h \<Longrightarrow> peek h = Some x \<Longrightarrow> contents (push y (pop h)) = add_mset y (contents h - {#x#})"
  by (simp add: contents_push contents_pop valid_pop)

end

section \<open>The heap of the model\<close>

fun heap_push :: "'a::linorder \<Rightarrow> 'a list \<Rightarrow> 'a list" where
  "heap_push x [] = [x]"
| "heap_push x (y # h) = (if y \<le> x then x # y # h else y # heap_push x h)"

fun heap_peek :: "'a list \<Rightarrow> 'a option" where
  "heap_peek [] = None"
| "heap_peek (x # h) = Some x"

definition heap_pop :: "'a list \<Rightarrow> 'a list" where
  "heap_pop h = tl h"

definition heap_valid :: "'a::linorder list \<Rightarrow> bool" where
  "heap_valid h \<longleftrightarrow> sorted_wrt (\<ge>) h"

lemma mset_heap_push: "mset (heap_push x h) = add_mset x (mset h)"
  by (induction h) auto

lemma heap_push_valid: "heap_valid h \<Longrightarrow> heap_valid (heap_push x h)"
proof (induction h)
  case Nil
  then show ?case by (simp add: heap_valid_def)
next
  case (Cons y h)
  have "set (heap_push x h) = insert x (set h)"
    using mset_heap_push [of x h] by (metis set_mset_add_mset_insert set_mset_mset)
  with Cons show ?case
    by (auto simp: heap_valid_def)
qed

interpretation bh: max_heap heap_push heap_peek heap_pop mset heap_valid
proof unfold_locales
  fix h :: "'a list" and x
  show "heap_valid h \<Longrightarrow> heap_peek h = Some x \<Longrightarrow> x \<in># mset h \<and> (\<forall>y \<in># mset h. y \<le> x)"
    by (cases h) (auto simp: heap_valid_def)
  show "heap_valid h \<Longrightarrow> (heap_peek h = None) = (mset h = {#})"
    by (cases h) auto
  show "heap_valid h \<Longrightarrow> heap_peek h = Some x \<Longrightarrow> mset (heap_pop h) = mset h - {#x#}"
    by (cases h) (auto simp: heap_pop_def)
  show "heap_valid h \<Longrightarrow> heap_valid (heap_pop h)"
    by (cases h) (auto simp: heap_valid_def heap_pop_def)
qed (simp_all add: mset_heap_push heap_push_valid)

lemma length_heap_push [simp]: "length (heap_push x h) = Suc (length h)"
  by (induction h) auto

lemma length_heap_pop: "heap_peek h = Some x \<Longrightarrow> Suc (length (heap_pop h)) = length h"
  by (cases h) (auto simp: heap_pop_def)

lemma heap_valid_Nil [simp]: "heap_valid []"
  by (simp add: heap_valid_def)

end
