(* ===== verification/Compactor.thy ===== *)
theory Compactor
  imports LtxDecoder BinHeap
begin

text \<open>
  Compaction (\<^verbatim>\<open>src/ltx/compactor.rs\<close>): the k-way merge of LTX files over a heap of their page-index
  cursors, the header of the result and the contiguity checks. The specification is
  \<open>merged_pages\<close>: the newest version of every page, up to the commit size.
\<close>

section \<open>The merge\<close>

type_synonym merge_heap = "(u32 \<times> nat) reverse list"

definition merge_measure :: "page_index_elem list list \<Rightarrow> nat list \<Rightarrow> merge_heap \<Rightarrow> nat" where
  "merge_measure indexes cursor heap =
    length heap + sum_list (map (\<lambda>(idx, c). length idx - c) (zip indexes cursor))"

text \<open>The heap entry for input \<open>i\<close> once its cursor moved, if the cursor is still inside the index.\<close>

definition refill :: "page_index_elem list list \<Rightarrow> nat list \<Rightarrow> nat \<Rightarrow> merge_heap \<Rightarrow> merge_heap" where
  "refill indexes cursor i heap =
    (if cursor ! i < length (indexes ! i)
     then heap_push (Reverse (pi_pgno (indexes ! i ! (cursor ! i)), i)) heap else heap)"

lemma sum_zip_step:
  "i < length cursor \<Longrightarrow> i < length indexes \<Longrightarrow> cursor ! i < length (indexes ! i) \<Longrightarrow>
    Suc (sum_list (map (\<lambda>(idx, c). length idx - c) (zip indexes (cursor[i := Suc (cursor ! i)])))) =
    sum_list (map (\<lambda>(idx, c). length idx - c) (zip indexes cursor))"
proof (induction indexes arbitrary: i cursor)
  case Nil
  then show ?case by simp
next
  case (Cons idx indexes)
  then show ?case by (cases cursor; cases i) auto
qed

lemma sum_zip_step_le:
  "sum_list (map (\<lambda>(idx, c). length idx - c) (zip indexes (cursor[i := Suc (cursor ! i)]))) \<le>
    sum_list (map (\<lambda>(idx, c). length idx - c) (zip indexes cursor))"
proof (induction indexes arbitrary: i cursor)
  case Nil
  then show ?case by simp
next
  case (Cons idx indexes)
  then show ?case by (cases cursor; cases i) (auto intro: add_mono)
qed

lemma merge_measure_step:
  assumes "heap_peek heap = Some x" and "i < length cursor" and "i < length indexes"
  shows "merge_measure indexes (cursor[i := Suc (cursor ! i)])
      (refill indexes (cursor[i := Suc (cursor ! i)]) i (heap_pop heap))
    < merge_measure indexes cursor heap"
proof (cases "Suc (cursor ! i) < length (indexes ! i)")
  case True
  then show ?thesis
    using sum_zip_step [of i cursor indexes] length_heap_pop [OF assms(1)] assms(2,3)
    by (simp add: merge_measure_def refill_def)
next
  case False
  then show ?thesis
    using sum_zip_step_le [of indexes cursor i] length_heap_pop [OF assms(1)] assms(2,3)
    by (simp add: merge_measure_def refill_def)
qed

text \<open>The inner loop: consume every input sitting at \<open>pgno\<close>; the highest index wins.\<close>

function consume ::
  "page_index_elem list list \<Rightarrow> u32 \<Rightarrow> nat list \<Rightarrow> merge_heap \<Rightarrow> nat \<Rightarrow> bool
    \<Rightarrow> (nat list \<times> merge_heap \<times> nat, ltx_error) result" where
  "consume indexes pgno cursor heap winner have_one =
    (case heap_peek heap of
       None \<Rightarrow> Ok (cursor, heap, winner)
     | Some (Reverse (p, i)) \<Rightarrow>
         if p \<noteq> pgno then Ok (cursor, heap, winner)
         else if i < length cursor \<and> i < length indexes then
           (let cursor' = cursor[i := Suc (cursor ! i)] in
            consume indexes pgno cursor' (refill indexes cursor' i (heap_pop heap))
              (if \<not> have_one \<or> winner < i then i else winner) True)
         else Panic)"
  by pat_completeness auto
termination
  by (relation "measure (\<lambda>(indexes, pgno, cursor, heap, winner, have_one).
      merge_measure indexes cursor heap)") (auto intro: merge_measure_step)

declare consume.simps [simp del]

lemma consume_measure:
  "consume indexes pgno cursor heap winner have_one = Ok (cursor', heap', winner') \<Longrightarrow>
    merge_measure indexes cursor' heap' \<le> merge_measure indexes cursor heap"
proof (induction indexes pgno cursor heap winner have_one rule: consume.induct)
  case (1 indexes pgno cursor heap winner have_one)
  show ?case
  proof (cases "heap_peek heap")
    case None
    then show ?thesis
      using "1.prems" by (simp add: consume.simps [of _ _ _ heap])
  next
    case (Some x)
    obtain p i where x: "x = Reverse (p, i)"
      by (cases x) auto
    show ?thesis
      using "1.prems" "1.IH" [OF Some x refl] merge_measure_step [OF Some, of i cursor indexes]
      by (auto simp: consume.simps [of _ _ _ heap] Some x Let_def split: if_splits)
  qed
qed

lemma consume_decreases:
  assumes "consume indexes pgno cursor heap winner have_one = Ok (cursor', heap', winner')"
    and "heap_peek heap = Some (Reverse (pgno, i))"
  shows "merge_measure indexes cursor' heap' < merge_measure indexes cursor heap"
  using assms merge_measure_step [OF assms(2), of i cursor indexes]
  by (auto simp: consume.simps [of _ _ _ heap] Let_def dest!: consume_measure split: if_splits)

text \<open>The page of the winning input, decoded from its frame and encoded into the output.\<close>

definition merge_emit ::
  "(bytes \<Rightarrow> bytes) \<Rightarrow> lz4_dec \<Rightarrow> bytes list \<Rightarrow> page_index_elem list list \<Rightarrow> nat
    \<Rightarrow> u32 \<Rightarrow> nat list \<Rightarrow> nat \<Rightarrow> encoder \<Rightarrow> (encoder, ltx_error) result" where
  "merge_emit lz4c lz4d inputs indexes page_size pgno cursor winner enc =
    (if winner < length indexes \<and> winner < length cursor \<and> winner < length inputs \<and>
       0 < cursor ! winner \<and> cursor ! winner \<le> length (indexes ! winner) then
       rbind (indexed_frame (inputs ! winner) (indexes ! winner ! (cursor ! winner - 1))) (\<lambda>frm.
       rbind (decode_page_frame lz4d frm page_size) (\<lambda>(_, data).
       encode_page lz4c enc pgno data))
     else Panic)"

function merge_loop ::
  "(bytes \<Rightarrow> bytes) \<Rightarrow> lz4_dec \<Rightarrow> bytes list \<Rightarrow> page_index_elem list list \<Rightarrow> nat \<Rightarrow> u32
    \<Rightarrow> nat list \<Rightarrow> merge_heap \<Rightarrow> encoder \<Rightarrow> (encoder, ltx_error) result" where
  "merge_loop lz4c lz4d inputs indexes page_size commit cursor heap enc =
    (case heap_peek heap of
       None \<Rightarrow> Ok enc
     | Some (Reverse (pgno, _)) \<Rightarrow>
         rbind (consume indexes pgno cursor heap 0 False) (\<lambda>(cursor, heap, winner).
         rbind (if pgno \<le> commit
                then merge_emit lz4c lz4d inputs indexes page_size pgno cursor winner enc
                else Ok enc)
           (\<lambda>enc. merge_loop lz4c lz4d inputs indexes page_size commit cursor heap enc)))"
  by pat_completeness auto
termination
  by (relation "measure (\<lambda>(lz4c, lz4d, inputs, indexes, page_size, commit, cursor, heap, enc).
      merge_measure indexes cursor heap)") (auto intro: consume_decreases)

declare merge_loop.simps [simp del]

definition initial_heap :: "page_index_elem list list \<Rightarrow> merge_heap" where
  "initial_heap indexes =
    foldl (\<lambda>heap (i, idx). case idx of [] \<Rightarrow> heap
       | e # _ \<Rightarrow> heap_push (Reverse (pi_pgno e, i)) heap) [] (enumerate 0 indexes)"

definition merge_to_writer ::
  "(bytes \<Rightarrow> bytes) \<Rightarrow> lz4_dec \<Rightarrow> bytes list \<Rightarrow> header \<Rightarrow> (bytes \<times> trailer, ltx_error) result" where
  "merge_to_writer lz4c lz4d inputs h =
    (let page_size = unat (h_page_size h); commit = h_commit h in
     rbind (rmapM page_index inputs) (\<lambda>indexes.
     let cursor = replicate (length inputs) 0;
         heap = initial_heap indexes in
     rbind (encode_header encoder_new h) (\<lambda>enc.
     rbind (merge_loop lz4c lz4d inputs indexes page_size commit cursor heap enc) (\<lambda>enc.
     case encoder_finish enc of (e, t) \<Rightarrow> Ok (e_w e, t)))))"

section \<open>Compaction\<close>

text \<open>The check of one pair of consecutive headers: same page size, contiguous TXID ranges.\<close>

definition check_pair :: "u32 \<Rightarrow> header \<Rightarrow> header \<Rightarrow> (unit, ltx_error) result" where
  "check_pair page_size prev cur =
    (if h_page_size cur \<noteq> page_size then Err (InvalidPageSize (h_page_size cur))
     else if h_min_txid cur > h_max_txid prev + 1 \<or> h_max_txid cur \<le> h_max_txid prev
     then Err (UnexpectedPage (ucast (h_max_txid prev)) (ucast (h_min_txid cur)))
     else Ok ())"

fun check_windows :: "u32 \<Rightarrow> header list \<Rightarrow> (unit, ltx_error) result" where
  "check_windows page_size (prev # cur # hs) =
     rbind (check_pair page_size prev cur) (\<lambda>_. check_windows page_size (cur # hs))"
| "check_windows page_size hs = Ok ()"

definition compacted_header :: "header \<Rightarrow> header \<Rightarrow> header" where
  "compacted_header first_h last_h =
    \<lparr>h_flags = HEADER_FLAG_NO_CHECKSUM, h_page_size = h_page_size first_h,
     h_commit = h_commit last_h, h_min_txid = h_min_txid first_h, h_max_txid = h_max_txid last_h,
     h_timestamp = h_timestamp last_h, h_pre_apply_checksum = checksum_zero, h_wal_offset = 0,
     h_wal_size = 0, h_wal_salt1 = 0, h_wal_salt2 = 0, h_node_id = 0\<rparr>"

definition compact_to_writer ::
  "(bytes \<Rightarrow> bytes) \<Rightarrow> lz4_dec \<Rightarrow> bytes list \<Rightarrow> (bytes \<times> trailer, ltx_error) result" where
  "compact_to_writer lz4c lz4d inputs =
    (if inputs = [] then Err (ShortBuffer 1 0) else
     rbind (rmapM header_decode inputs) (\<lambda>headers.
     rbind (check_windows (h_page_size (hd headers)) headers) (\<lambda>_.
     merge_to_writer lz4c lz4d inputs (compacted_header (hd headers) (last headers)))))"

definition compact :: "(bytes \<Rightarrow> bytes) \<Rightarrow> lz4_dec \<Rightarrow> bytes list \<Rightarrow> (bytes, ltx_error) result" where
  "compact lz4c lz4d inputs = rmap fst (compact_to_writer lz4c lz4d inputs)"

section \<open>What the loops compute\<close>

definition ascending :: "page_index_elem list list \<Rightarrow> bool" where
  "ascending idx \<longleftrightarrow> (\<forall>x \<in> set idx. sorted_wrt (<) (map pi_pgno x))"

definition live :: "page_index_elem list list \<Rightarrow> nat list \<Rightarrow> nat set" where
  "live idx cur = {i. i < length idx \<and> cur ! i < length (idx ! i)}"

definition head_pgno :: "page_index_elem list list \<Rightarrow> nat list \<Rightarrow> nat \<Rightarrow> u32" where
  "head_pgno idx cur i = pi_pgno (idx ! i ! (cur ! i))"

definition pend :: "page_index_elem list list \<Rightarrow> nat list \<Rightarrow> (u32 \<times> nat) set" where
  "pend idx cur = (\<lambda>i. (head_pgno idx cur i, i)) ` live idx cur"

definition merge_inv :: "page_index_elem list list \<Rightarrow> nat list \<Rightarrow> merge_heap \<Rightarrow> bool" where
  "merge_inv idx cur heap \<longleftrightarrow> length cur = length idx \<and> heap_valid heap \<and>
    mset heap = mset_set (Reverse ` pend idx cur)"

definition hits :: "page_index_elem list list \<Rightarrow> nat list \<Rightarrow> u32 \<Rightarrow> nat set" where
  "hits idx cur p = {i \<in> live idx cur. head_pgno idx cur i = p}"

definition advance :: "page_index_elem list list \<Rightarrow> nat list \<Rightarrow> u32 \<Rightarrow> nat list" where
  "advance idx cur p = map (\<lambda>i. if i \<in> hits idx cur p then Suc (cur ! i) else cur ! i) [0..<length idx]"

definition winner_of :: "bool \<Rightarrow> nat \<Rightarrow> nat set \<Rightarrow> nat" where
  "winner_of have_one w H = (if have_one then Max (insert w H) else if H = {} then w else Max H)"

lemma finite_live [simp]: "finite (live idx cur)" "finite (hits idx cur p)" "finite (pend idx cur)"
  by (simp_all add: live_def hits_def pend_def)

lemma ascending_nth:
  "ascending idx \<Longrightarrow> i < length idx \<Longrightarrow> a < b \<Longrightarrow> b < length (idx ! i) \<Longrightarrow>
    pi_pgno (idx ! i ! a) < pi_pgno (idx ! i ! b)"
  unfolding ascending_def sorted_wrt_map by (metis nth_mem sorted_wrt_nth_less)

lemma pend_step:
  assumes "i \<in> live idx cur" and "length cur = length idx"
  defines "cur1 \<equiv> cur[i := Suc (cur ! i)]"
  shows "pend idx cur1 = (pend idx cur - {(head_pgno idx cur i, i)}) \<union>
    (if i \<in> live idx cur1 then {(head_pgno idx cur1 i, i)} else {})"
proof -
  have same: "j \<in> live idx cur1 \<longleftrightarrow> j \<in> live idx cur" "head_pgno idx cur1 j = head_pgno idx cur j"
    if "j \<noteq> i" for j
    using that by (simp_all add: cur1_def live_def head_pgno_def)
  let ?f = "\<lambda>j. (head_pgno idx cur1 j, j)"
  have rest: "pend idx cur - {(head_pgno idx cur i, i)} = ?f ` (live idx cur - {i})"
  proof -
    have "pend idx cur - {(head_pgno idx cur i, i)} =
        (\<lambda>j. (head_pgno idx cur j, j)) ` (live idx cur - {i})"
      by (auto simp: pend_def)
    also have "\<dots> = ?f ` (live idx cur - {i})"
      using same(2) by (intro image_cong) auto
    finally show ?thesis .
  qed
  have iff: "j \<in> live idx cur1 - {i} \<longleftrightarrow> j \<in> live idx cur - {i}" for j
    using same(1) [of j] by auto
  have "live idx cur1 - {i} = live idx cur - {i}"
    by (rule set_eqI) (rule iff)
  then have L: "?f ` (live idx cur - {i}) = ?f ` (live idx cur1 - {i})"
    by simp
  show ?thesis
    unfolding pend_def [of idx cur1] rest L by auto
qed

lemma merge_inv_step:
  assumes "merge_inv idx cur heap" and "heap_peek heap = Some (Reverse (head_pgno idx cur i, i))"
    and "i \<in> live idx cur"
  defines "cur1 \<equiv> cur[i := Suc (cur ! i)]"
  shows "merge_inv idx cur1 (refill idx cur1 i (heap_pop heap))"
proof -
  from assms(1) have len: "length cur = length idx" and v: "heap_valid heap"
    and ms: "mset heap = mset_set (Reverse ` pend idx cur)"
    by (simp_all add: merge_inv_def)
  let ?x = "(head_pgno idx cur i, i)"
  have pop: "mset (heap_pop heap) = mset_set (Reverse ` (pend idx cur - {?x}))"
  proof -
    have "?x \<in> pend idx cur"
      using assms(3) by (auto simp: pend_def)
    then have "Reverse ` pend idx cur = insert (Reverse ?x) (Reverse ` (pend idx cur - {?x}))"
      by auto
    moreover have "Reverse ?x \<notin> Reverse ` (pend idx cur - {?x})"
      by auto
    ultimately show ?thesis
      using bh.contents_pop [OF v assms(2)] ms by simp
  qed
  have fresh: "(q, i) \<notin> pend idx cur - {?x}" for q
    by (auto simp: pend_def)
  have "i < length idx"
    using assms(3) by (simp add: live_def)
  then have cond: "cur1 ! i < length (idx ! i) \<longleftrightarrow> i \<in> live idx cur1"
    by (simp add: live_def)
  have "mset (refill idx cur1 i (heap_pop heap)) = mset_set (Reverse ` pend idx cur1)"
  proof (cases "i \<in> live idx cur1")
    case True
    have "Reverse (head_pgno idx cur1 i, i) \<notin> Reverse ` (pend idx cur - {?x})"
      using fresh by auto
    moreover have "Reverse ` pend idx cur1 =
        insert (Reverse (head_pgno idx cur1 i, i)) (Reverse ` (pend idx cur - {?x}))"
      using pend_step [OF assms(3) len] True unfolding cur1_def by simp
    ultimately show ?thesis
      using True cond bh.valid_pop [OF v]
      by (simp add: refill_def mset_heap_push pop head_pgno_def)
  next
    case False
    then show ?thesis
      using pend_step [OF assms(3) len] cond unfolding cur1_def
      by (simp add: refill_def pop)
  qed
  then show ?thesis
    using len v by (simp add: merge_inv_def cur1_def refill_def bh.valid_pop bh.valid_push)
qed

lemma hits_step:
  assumes "ascending idx" and "i \<in> hits idx cur p" and "length cur = length idx"
  defines "cur1 \<equiv> cur[i := Suc (cur ! i)]"
  shows "hits idx cur1 p = hits idx cur p - {i}" and "advance idx cur1 p = advance idx cur p"
proof -
  have i: "i < length idx" "cur ! i < length (idx ! i)" "pi_pgno (idx ! i ! (cur ! i)) = p"
    using assms(2) by (auto simp: hits_def live_def head_pgno_def)
  show h: "hits idx cur1 p = hits idx cur p - {i}"
  proof (rule set_eqI)
    fix j
    show "j \<in> hits idx cur1 p \<longleftrightarrow> j \<in> hits idx cur p - {i}"
      using ascending_nth [OF assms(1) i(1), of "cur ! i" "Suc (cur ! i)"] i assms(3)
      by (cases "j = i") (auto simp: hits_def live_def head_pgno_def cur1_def)
  qed
  show "advance idx cur1 p = advance idx cur p"
    unfolding advance_def h using assms(2,3) i by (auto simp: cur1_def nth_list_update)
qed

lemma winner_of_step:
  assumes "i \<in> H" and "finite H"
  shows "winner_of True (if \<not> have_one \<or> w < i then i else w) (H - {i}) = winner_of have_one w H"
proof -
  obtain K where H: "H = insert i K" "i \<notin> K" "finite K"
    using assms by (metis finite_insert mk_disjoint_insert)
  then show ?thesis
    by (cases "K = {}") (auto simp: winner_of_def max_def)
qed

lemma merge_inv_set: "merge_inv idx cur heap \<Longrightarrow> set heap = Reverse ` pend idx cur"
  unfolding merge_inv_def by (metis finite_imageI finite_live(3) finite_set_mset_mset_set set_mset_mset)

lemma hits_empty_peek:
  assumes "merge_inv idx cur heap" and "hits idx cur p = {}" and "heap_peek heap = Some (Reverse (q, i))"
  shows "q \<noteq> p"
proof
  assume "q = p"
  have "Reverse (q, i) \<in> set heap"
    using bh.peek_Some [of heap "Reverse (q, i)"] assms(1,3) by (simp add: merge_inv_def)
  then have "(q, i) \<in> pend idx cur"
    using merge_inv_set [OF assms(1)] by auto
  with assms(2) \<open>q = p\<close> show False
    by (auto simp: pend_def hits_def)
qed

text \<open>While some input sits at the least page number, the heap's top is one of them.\<close>

lemma peek_hit:
  assumes "merge_inv idx cur heap" and "hits idx cur p \<noteq> {}" and "\<forall>q \<in> pend idx cur. p \<le> fst q"
  obtains i where "heap_peek heap = Some (Reverse (p, i))" "i \<in> hits idx cur p"
proof -
  from assms(2) obtain j where j: "(p, j) \<in> pend idx cur"
    by (auto simp: hits_def pend_def)
  have v: "heap_valid heap" and ms: "set_mset (mset heap) = Reverse ` pend idx cur"
    using assms(1) by (simp_all add: merge_inv_def)
  obtain y where y: "heap_peek heap = Some y" "Reverse (p, j) \<le> y"
    using bh.peek_ex [OF v, of "Reverse (p, j)"] ms j by auto
  then have "y \<in> Reverse ` pend idx cur"
    using bh.peek_Some [OF v y(1)] ms by auto
  then obtain q i where q: "y = Reverse (q, i)" "(q, i) \<in> pend idx cur"
    by auto
  with y assms(3) have "q = p"
    by (auto simp: less_eq_prod_def)
  with q y that show thesis
    by (auto simp: pend_def hits_def)
qed

lemma consume_run:
  assumes "ascending idx" and "merge_inv idx cur heap" and "\<forall>q \<in> pend idx cur. p \<le> fst q"
  shows "\<exists>heap'. consume idx p cur heap w have_one =
      Ok (advance idx cur p, heap', winner_of have_one w (hits idx cur p)) \<and>
    merge_inv idx (advance idx cur p) heap'"
  using assms(2,3)
proof (induction "card (hits idx cur p)" arbitrary: cur heap w have_one)
  case 0
  then have none: "hits idx cur p = {}"
    by simp
  have "advance idx cur p = cur"
    using 0(2) none by (intro nth_equalityI) (auto simp: advance_def merge_inv_def)
  moreover have "consume idx p cur heap w have_one = Ok (cur, heap, w)"
    using hits_empty_peek [OF 0(2) none]
    by (auto simp: consume.simps [of _ _ _ heap] split: option.splits reverse.splits)
  ultimately show ?case
    using 0(2) none by (simp add: winner_of_def)
next
  case (Suc n)
  then have ne: "hits idx cur p \<noteq> {}"
    by auto
  obtain i where peek: "heap_peek heap = Some (Reverse (p, i))" and i: "i \<in> hits idx cur p"
    by (rule peek_hit [OF Suc.prems(1) ne Suc.prems(2)])
  let ?cur = "cur[i := Suc (cur ! i)]"
  let ?heap = "refill idx ?cur i (heap_pop heap)"
  let ?w = "if \<not> have_one \<or> w < i then i else w"
  have len: "length cur = length idx" and live: "i \<in> live idx cur" and hd: "head_pgno idx cur i = p"
    using Suc.prems(1) i by (auto simp: merge_inv_def hits_def)
  then have "i < length idx" by (simp add: live_def)
  note step = hits_step [OF assms(1) i len]
  have inv: "merge_inv idx ?cur ?heap"
    by (rule merge_inv_step [OF Suc.prems(1) _ live]) (simp add: peek hd)
  have "\<forall>q \<in> pend idx ?cur. p \<le> fst q"
  proof -
    have "i \<in> live idx ?cur \<Longrightarrow> p \<le> head_pgno idx ?cur i"
      using ascending_nth [OF assms(1) \<open>i < length idx\<close>, of "cur ! i" "Suc (cur ! i)"] hd len
      by (auto simp: live_def head_pgno_def)
    then show ?thesis
      using pend_step [OF live len] Suc.prems(2) by auto
  qed
  moreover have "n = card (hits idx ?cur p)"
    using Suc.hyps(2) i by (simp add: step(1))
  moreover have "consume idx p cur heap w have_one = consume idx p ?cur ?heap ?w True"
    using \<open>i < length idx\<close> len by (simp add: consume.simps [of _ _ _ heap] peek Let_def)
  ultimately show ?case
    using Suc.hyps(1) [of ?cur ?heap ?w True] inv winner_of_step [OF i, of have_one w]
    by (simp add: step)
qed

section \<open>The merge as a fold over the newest pages\<close>

definition pgnos_from :: "page_index_elem list list \<Rightarrow> nat list \<Rightarrow> u32 set" where
  "pgnos_from idx cur =
    {pi_pgno (idx ! i ! j) | i j. i < length idx \<and> cur ! i \<le> j \<and> j < length (idx ! i)}"

definition newest :: "page_index_elem list list \<Rightarrow> u32 \<Rightarrow> nat" where
  "newest idx p = Max {i. i < length idx \<and> p \<in> pi_pgno ` set (idx ! i)}"

text \<open>Everything before a cursor has a smaller page number than everything still to come.\<close>

definition passed :: "page_index_elem list list \<Rightarrow> nat list \<Rightarrow> bool" where
  "passed idx cur \<longleftrightarrow> (\<forall>i < length idx. \<forall>j < cur ! i. j < length (idx ! i) \<longrightarrow>
    (\<forall>q \<in> pgnos_from idx cur. pi_pgno (idx ! i ! j) < q))"

lemma finite_pgnos [simp]: "finite (A :: u32 set)"
  by simp

lemma pgnos_from_split:
  assumes "ascending idx" and "length cur = length idx" and "passed idx cur"
    and "pgnos_from idx cur \<noteq> {}" and p: "p = Min (pgnos_from idx cur)"
  shows "pgnos_from idx (advance idx cur p) = pgnos_from idx cur - {p}"
    and "passed idx (advance idx cur p)"
    and "hits idx cur p = {i. i < length idx \<and> p \<in> pi_pgno ` set (idx ! i)}"
    and "hits idx cur p \<noteq> {}" and "\<forall>q \<in> pend idx cur. p \<le> fst q"
proof -
  have p_in: "p \<in> pgnos_from idx cur" and p_le: "\<And>q. q \<in> pgnos_from idx cur \<Longrightarrow> p \<le> q"
    using assms(4) p by auto
  show "\<forall>q \<in> pend idx cur. p \<le> fst q"
    by (auto simp: pend_def live_def head_pgno_def pgnos_from_def intro!: p_le) (metis order_refl)
  have at_head: "i \<in> hits idx cur p \<and> j = cur ! i"
    if "i < length idx" "cur ! i \<le> j" "j < length (idx ! i)" "pi_pgno (idx ! i ! j) = p" for i j
  proof -
    have "\<not> cur ! i < j"
    proof
      assume "cur ! i < j"
      then have "pi_pgno (idx ! i ! (cur ! i)) < p"
        using ascending_nth [OF assms(1) that(1)] that by auto
      moreover have "p \<le> pi_pgno (idx ! i ! (cur ! i))"
        using that \<open>cur ! i < j\<close> unfolding pgnos_from_def
        by (intro p_le) (auto simp: pgnos_from_def, metis order_refl order.strict_trans)
      ultimately show False by simp
    qed
    with that show ?thesis
      by (auto simp: hits_def live_def head_pgno_def)
  qed
  from p_in at_head show "hits idx cur p \<noteq> {}"
    by (auto simp: pgnos_from_def)
  have before: "pi_pgno (idx ! i ! j) \<noteq> p" if "i < length idx" "j < cur ! i" "j < length (idx ! i)" for i j
    using assms(3) that p_in by (force simp: passed_def)
  show "hits idx cur p = {i. i < length idx \<and> p \<in> pi_pgno ` set (idx ! i)}"
  proof (intro set_eqI iffI)
    fix i
    assume "i \<in> hits idx cur p"
    then show "i \<in> {i. i < length idx \<and> p \<in> pi_pgno ` set (idx ! i)}"
      by (auto simp: hits_def live_def head_pgno_def)
  next
    fix i
    assume "i \<in> {i. i < length idx \<and> p \<in> pi_pgno ` set (idx ! i)}"
    then obtain j where "i < length idx" "j < length (idx ! i)" "pi_pgno (idx ! i ! j) = p"
      by (auto simp: in_set_conv_nth)
    with before [of i j] at_head [of i j] show "i \<in> hits idx cur p"
      by (cases "j < cur ! i") auto
  qed
  have adv: "i < length idx \<Longrightarrow> advance idx cur p ! i = (if i \<in> hits idx cur p then Suc (cur ! i) else cur ! i)" for i
    by (simp add: advance_def)
  have le: "q \<in> pgnos_from idx (advance idx cur p) \<Longrightarrow> q \<in> pgnos_from idx cur" for q
    by (fastforce simp: pgnos_from_def adv split: if_splits)
  show eq: "pgnos_from idx (advance idx cur p) = pgnos_from idx cur - {p}"
  proof (intro set_eqI iffI)
    fix q
    assume q: "q \<in> pgnos_from idx (advance idx cur p)"
    then obtain i j where ij: "i < length idx" "advance idx cur p ! i \<le> j" "j < length (idx ! i)"
      "q = pi_pgno (idx ! i ! j)"
      by (auto simp: pgnos_from_def)
    then have "q \<noteq> p"
      using at_head [of i j] adv [of i] by (auto split: if_splits)
    with le [OF q] show "q \<in> pgnos_from idx cur - {p}" by simp
  next
    fix q
    assume "q \<in> pgnos_from idx cur - {p}"
    then obtain i j where ij: "i < length idx" "cur ! i \<le> j" "j < length (idx ! i)"
      "q = pi_pgno (idx ! i ! j)" "q \<noteq> p"
      by (auto simp: pgnos_from_def)
    then have "advance idx cur p ! i \<le> j"
      using adv [of i] by (auto simp: hits_def head_pgno_def le_less Suc_le_eq)
    with ij show "q \<in> pgnos_from idx (advance idx cur p)"
      by (auto simp: pgnos_from_def)
  qed
  show "passed idx (advance idx cur p)"
    unfolding passed_def
  proof (intro allI impI ballI)
    fix i j q
    assume ij: "i < length idx" "j < advance idx cur p ! i" "j < length (idx ! i)"
      and q: "q \<in> pgnos_from idx (advance idx cur p)"
    show "pi_pgno (idx ! i ! j) < q"
    proof (cases "j < cur ! i")
      case True
      then show ?thesis
        using assms(3) ij le [OF q] by (auto simp: passed_def)
    next
      case False
      then have "pi_pgno (idx ! i ! j) = p"
        using ij adv [of i] by (auto simp: hits_def head_pgno_def less_Suc_eq split: if_splits)
      moreover have "p \<le> q" "q \<noteq> p"
        using q p_le eq by auto
      ultimately show ?thesis by simp
    qed
  qed
qed

text \<open>
  The outer loop: with indexes that decode to the pages \<open>D i\<close>, it encodes, in ascending order, the
  version of each page that the highest input has.
\<close>

lemma merge_loop_run:
  assumes asc: "ascending idx" and len: "length inputs = length idx"
    and reads: "\<forall>i < length idx. \<forall>e \<in> set (idx ! i).
      read_entry lz4d ps (inputs ! i) e = Ok (pi_pgno e, D i (pi_pgno e))"
    and inv: "merge_inv idx cur heap" and pass: "passed idx cur"
  shows "merge_loop lz4c lz4d inputs idx ps commit cur heap enc =
    rfoldM (\<lambda>enc p. if p \<le> commit then encode_page lz4c enc p (D (newest idx p) p) else Ok enc)
      enc (sorted_list_of_set (pgnos_from idx cur))"
  using inv pass
proof (induction "card (pgnos_from idx cur)" arbitrary: cur heap enc)
  case 0
  then have "pgnos_from idx cur = {}" by simp
  then have "live idx cur = {}"
    by (force simp: live_def pgnos_from_def)
  then have "heap_peek heap = None"
    using 0(2) bh.peek_None [of heap] by (simp add: merge_inv_def pend_def)
  then show ?case
    using \<open>pgnos_from idx cur = {}\<close> by (simp add: merge_loop.simps)
next
  case (Suc n)
  let ?R = "pgnos_from idx cur"
  define p where "p = Min ?R"
  have ne: "?R \<noteq> {}"
    using Suc(2) by auto
  have lc: "length cur = length idx"
    using Suc.prems(1) by (simp add: merge_inv_def)
  note split = pgnos_from_split [OF asc lc Suc.prems(2) ne p_def]
  let ?cur = "advance idx cur p"
  obtain i where peek: "heap_peek heap = Some (Reverse (p, i))" "i \<in> hits idx cur p"
    by (rule peek_hit [OF Suc.prems(1) split(4) split(5)])
  obtain heap' where run: "consume idx p cur heap 0 False = Ok (?cur, heap', newest idx p)"
    and inv': "merge_inv idx ?cur heap'"
    using consume_run [OF asc Suc.prems(1) split(5), of 0 False] split(4)
    unfolding winner_of_def newest_def split(3) [symmetric] by auto
  have win: "newest idx p \<in> hits idx cur p"
    unfolding newest_def split(3) [symmetric] by (rule Max_in) (use split(4) in auto)
  then have w: "newest idx p < length idx" "cur ! newest idx p < length (idx ! newest idx p)"
    "head_pgno idx cur (newest idx p) = p" "?cur ! newest idx p = Suc (cur ! newest idx p)"
    by (auto simp: hits_def live_def advance_def)
  have "read_entry lz4d ps (inputs ! newest idx p) (idx ! newest idx p ! (cur ! newest idx p)) =
      Ok (p, D (newest idx p) p)"
    using reads w by (metis head_pgno_def nth_mem)
  then have emit: "merge_emit lz4c lz4d inputs idx ps p ?cur (newest idx p) enc =
      encode_page lz4c enc p (D (newest idx p) p)"
    using w len by (auto simp: merge_emit_def read_entry_def res_simps advance_def)
  have "p \<in> ?R"
    unfolding p_def by (rule Min_in) (use ne in auto)
  then have "n = card (pgnos_from idx ?cur)"
    using Suc(2) by (simp add: split(1))
  from Suc(1) [OF this inv' split(2)]
  have rest: "merge_loop lz4c lz4d inputs idx ps commit ?cur heap' enc' =
      rfoldM (\<lambda>enc p. if p \<le> commit then encode_page lz4c enc p (D (newest idx p) p) else Ok enc)
        enc' (sorted_list_of_set (?R - {p}))" for enc'
    by (simp add: split(1))
  have "sorted_list_of_set ?R = p # sorted_list_of_set (?R - {p})"
    unfolding p_def by (rule sorted_list_of_set_nonempty) (use ne in auto)
  moreover have "merge_loop lz4c lz4d inputs idx ps commit ?cur heap' = (\<lambda>enc'.
      rfoldM (\<lambda>enc p. if p \<le> commit then encode_page lz4c enc p (D (newest idx p) p) else Ok enc)
        enc' (sorted_list_of_set (?R - {p})))"
    by (rule ext) (rule rest)
  ultimately show ?case
    by (subst merge_loop.simps) (simp add: peek(1) run emit)
qed

lemma initial_heap_contents:
  "heap_valid h \<Longrightarrow> (let h' = foldl (\<lambda>heap (i, idx). case idx of [] \<Rightarrow> heap
       | e # _ \<Rightarrow> heap_push (Reverse (pi_pgno e, i)) heap) h (enumerate k xs)
     in heap_valid h' \<and> mset h' = mset h +
       mset (map (\<lambda>(i, x). Reverse (pi_pgno (hd x), i)) (filter (\<lambda>(i, x). x \<noteq> []) (enumerate k xs))))"
proof (induction xs arbitrary: k h)
  case Nil
  then show ?case by simp
next
  case (Cons x xs)
  show ?case
  proof (cases x)
    case Nil
    then show ?thesis
      using Cons.IH [OF Cons.prems, of "Suc k"] by simp
  next
    case (Cons e es)
    then show ?thesis
      using Cons.IH [OF heap_push_valid [OF Cons.prems, of "Reverse (pi_pgno e, k)"], of "Suc k"]
      by (simp add: mset_heap_push Let_def)
  qed
qed

lemma initial_heap_inv: "merge_inv idx (replicate (length idx) 0) (initial_heap idx)"
proof -
  let ?xs = "map (\<lambda>(i, x). Reverse (pi_pgno (hd x), i)) (filter (\<lambda>(i, x). x \<noteq> []) (enumerate 0 idx))"
  have heap: "heap_valid (initial_heap idx)" "mset (initial_heap idx) = mset ?xs"
    using initial_heap_contents [of "[]" 0 idx] by (simp_all add: initial_heap_def Let_def)
  have "inj_on (\<lambda>(i, x). Reverse (pi_pgno (hd x), i)) (set (enumerate 0 idx))"
    by (auto simp: inj_on_def in_set_enumerate_eq)
  then have "distinct ?xs"
    by (auto simp: distinct_map intro: inj_on_subset)
  then have "mset ?xs = mset_set (set ?xs)"
    by (rule mset_set_set [symmetric])
  moreover have "set ?xs = Reverse ` pend idx (replicate (length idx) 0)"
  proof -
    have "set ?xs = (\<lambda>i. Reverse (pi_pgno (hd (idx ! i)), i)) ` {i. i < length idx \<and> idx ! i \<noteq> []}"
      by (force simp: in_set_enumerate_eq image_iff)
    also have "\<dots> = Reverse ` pend idx (replicate (length idx) 0)"
      by (auto simp: pend_def live_def head_pgno_def image_image hd_conv_nth intro!: image_cong)
    finally show ?thesis .
  qed
  ultimately show ?thesis
    using heap by (simp add: merge_inv_def)
qed

section \<open>The specification: newest version of every page\<close>

definition newest_map :: "(u32 \<times> bytes) list list \<Rightarrow> u32 \<Rightarrow> bytes option" where
  "newest_map pdss = foldl (\<lambda>m pds. m ++ map_of pds) Map.empty pdss"

definition merged_pages :: "u32 \<Rightarrow> (u32 \<times> bytes) list list \<Rightarrow> (u32 \<times> bytes) list" where
  "merged_pages commit pdss =
    map (\<lambda>p. (p, the (newest_map pdss p)))
      (filter (\<lambda>p. p \<le> commit) (sorted_list_of_set (set (map fst (concat pdss)))))"

definition is_encoding :: "(bytes \<Rightarrow> bytes) \<Rightarrow> bytes \<Rightarrow> header \<Rightarrow> (u32 \<times> bytes) list \<Rightarrow> bool" where
  "is_encoding lz4c b h pds \<longleftrightarrow> (\<exists>post t. encode_file lz4c h pds post = Ok (b, t)) \<and> length b < 2 ^ 64"

lemma newest_map_snoc: "newest_map (pdss @ [pds]) = newest_map pdss ++ map_of pds"
  by (simp add: newest_map_def)

lemma dom_newest_map: "dom (newest_map pdss) = fst ` set (concat pdss)"
  by (induction pdss rule: rev_induct)
    (auto simp: newest_map_def [of "[]"] newest_map_snoc dom_map_of_conv_image_fst)

lemma newest_map_last:
  assumes "p \<in> fst ` set (concat pdss)"
  defines "I \<equiv> {i. i < length pdss \<and> p \<in> fst ` set (pdss ! i)}"
  shows "newest_map pdss p = map_of (pdss ! Max I) p"
  using assms(1) unfolding I_def
proof (induction pdss rule: rev_induct)
  case Nil
  then show ?case by simp
next
  case (snoc pds pdss)
  show ?case
  proof (cases "p \<in> fst ` set pds")
    case True
    have "Max {i. i < length (pdss @ [pds]) \<and> p \<in> fst ` set ((pdss @ [pds]) ! i)} = length pdss"
      by (rule Max_eqI) (use True in auto)
    moreover obtain d where "map_of pds p = Some d"
      using True by (metis map_of_eq_None_iff not_None_eq)
    ultimately show ?thesis
      by (simp add: newest_map_snoc map_add_def)
  next
    case False
    then have "{i. i < length (pdss @ [pds]) \<and> p \<in> fst ` set ((pdss @ [pds]) ! i)} =
        {i. i < length pdss \<and> p \<in> fst ` set (pdss ! i)}"
      by (auto simp: nth_append less_Suc_eq)
    moreover have "Max {i. i < length pdss \<and> p \<in> fst ` set (pdss ! i)} < length pdss"
    proof -
      obtain x where "x \<in> set pdss" "p \<in> fst ` set x"
        using snoc.prems False by auto
      then obtain i where "i < length pdss" "p \<in> fst ` set (pdss ! i)"
        by (metis in_set_conv_nth)
      then have "{i. i < length pdss \<and> p \<in> fst ` set (pdss ! i)} \<noteq> {}"
        by blast
      then show ?thesis
        by (subst Max_less_iff) auto
    qed
    moreover have "map_of pds p = None"
      using False by (simp add: map_of_eq_None_iff)
    ultimately show ?thesis
      using snoc.IH snoc.prems False by (auto simp: newest_map_snoc map_add_def nth_append)
  qed
qed

lemma is_encoding_facts:
  assumes "is_encoding lz4c b h pds"
  shows "header_decode b = Ok h" and "header_validate h = Ok ()" and "accepts_all h 0 pds"
    and "page_index b = Ok (map elem_of (index_from lz4c 100 pds))"
proof -
  from assms obtain post t where "encode_file lz4c h pds post = Ok (b, t)" and len: "length b < 2 ^ 64"
    by (auto simp: is_encoding_def)
  then show val: "header_validate h = Ok ()" and acc: "accepts_all h 0 pds"
    by (auto simp: encode_file_iff)
  have b: "b = file_bytes lz4c h pds post"
    using \<open>encode_file lz4c h pds post = Ok (b, t)\<close> by (rule encode_file_bytes)
  show "header_decode b = Ok h"
    unfolding b file_bytes_def
    by (rule header_codec.dec_enc) (rule header_validate_page_size [OF val])
  show "page_index b = Ok (map elem_of (index_from lz4c 100 pds))"
    unfolding b by (rule page_index_file) (use accepts_all_sizes [OF acc] len b in auto)
qed

text \<open>Every entry of an encoded file's index decodes to its page.\<close>

lemma is_encoding_entries:
  assumes "lz4_frame_inverse lz4c lz4d" and "is_encoding lz4c b h pds"
  shows "rmapM (read_entry lz4d (unat (h_page_size h)) b) (map elem_of (index_from lz4c 100 pds)) = Ok pds"
proof -
  from assms(2) obtain post t where enc: "encode_file lz4c h pds post = Ok (b, t)"
    and len: "length b < 2 ^ 64"
    by (auto simp: is_encoding_def)
  have pages: "\<forall>pd \<in> set pds. fst pd \<noteq> 0 \<and> length (snd pd) = unat (h_page_size h)"
    using accepts_all_sizes [OF is_encoding_facts(3) [OF assms(2)]] by blast
  have "rmapM (read_entry lz4d (unat (h_page_size h)) b)
      (map elem_of (index_from lz4c (of_nat (length (header_encode h))) pds)) = Ok pds"
    by (rule read_entries [OF assms(1) pages _ len])
      (simp add: encode_file_bytes [OF enc] file_bytes_def)
  then show ?thesis by simp
qed

lemma is_encoding_reads:
  assumes "lz4_frame_inverse lz4c lz4d" and "is_encoding lz4c b h pds"
    and "e \<in> set (map elem_of (index_from lz4c 100 pds))"
  shows "read_entry lz4d (unat (h_page_size h)) b e = Ok (pi_pgno e, the (map_of pds (pi_pgno e)))"
proof -
  note facts = is_encoding_facts [OF assms(2)]
  let ?ix = "map elem_of (index_from lz4c 100 pds)"
  have all: "length pds = length ?ix"
    "\<And>i. i < length ?ix \<Longrightarrow> read_entry lz4d (unat (h_page_size h)) b (?ix ! i) = Ok (pds ! i)"
    using is_encoding_entries [OF assms(1,2)] by (simp_all add: rmapM_eq_Ok)
  have pg: "map pi_pgno ?ix = map fst pds"
    using index_from_pgnos [of lz4c 100 pds] by (simp add: comp_def elem_of_def case_prod_beta)
  from assms(3) obtain i where i: "i < length ?ix" "e = ?ix ! i"
    by (metis in_set_conv_nth)
  have "pi_pgno e = fst (pds ! i)"
    using arg_cong [OF pg, of "\<lambda>xs. xs ! i"] i all(1) by (simp add: nth_map)
  moreover have "map_of pds (fst (pds ! i)) = Some (snd (pds ! i))"
    using accepts_all_sorted [OF facts(2,3)] all(1) i(1)
    by (metis map_of_eq_Some_iff nth_mem prod.collapse)
  ultimately show ?thesis
    using all(2) [OF i(1)] i(2) by simp
qed

lemma rfoldM_filter:
  "rfoldM (\<lambda>s x. if P x then f s x else Ok s) s xs = rfoldM f s (filter P xs)"
  by (induction xs arbitrary: s) (auto intro: rbind_cong)

lemma encode_pages_map:
  "encode_pages lz4c e (map (\<lambda>p. (p, D p)) ps) = rfoldM (\<lambda>e p. encode_page lz4c e p (D p)) e ps"
  by (induction ps arbitrary: e) (auto simp: encode_pages_def intro!: rbind_cong)

lemma encode_file_no_post:
  "encode_file lz4c h pds checksum_zero =
    rbind (encode_header encoder_new h) (\<lambda>e.
    rbind (encode_pages lz4c e pds) (\<lambda>e. case encoder_finish e of (e, t) \<Rightarrow> Ok (e_w e, t)))"
proof -
  have "set_post_apply_checksum e' checksum_zero = e'"
    if "encode_header encoder_new h = Ok e" "encode_pages lz4c e pds = Ok e'" for e e'
  proof -
    have "e_header e = Some h" "e_post_apply e = checksum_zero"
      using that(1) unfolding encode_header_run by (auto simp: write_hashed_def encoder_new_def)
    then have "e_post_apply e' = checksum_zero"
      using that(2) by (simp add: encode_pages_run after_pages_def)
    then show ?thesis by (simp add: set_post_apply_checksum_def)
  qed
  then show ?thesis
    unfolding encode_file_def by (auto intro!: rbind_cong)
qed

lemma pgnos_from_start:
  "pgnos_from idx (replicate (length idx) 0) = (\<Union>i < length idx. pi_pgno ` set (idx ! i))"
proof (intro set_eqI iffI)
  fix q
  assume "q \<in> pgnos_from idx (replicate (length idx) 0)"
  then obtain i j where "i < length idx" "j < length (idx ! i)" "q = pi_pgno (idx ! i ! j)"
    unfolding pgnos_from_def by blast
  then have "i < length idx" "q \<in> pi_pgno ` set (idx ! i)"
    by simp_all
  then show "q \<in> (\<Union>i < length idx. pi_pgno ` set (idx ! i))"
    by blast
next
  fix q
  assume "q \<in> (\<Union>i < length idx. pi_pgno ` set (idx ! i))"
  then obtain i j where "i < length idx" "j < length (idx ! i)" "q = pi_pgno (idx ! i ! j)"
    by (auto simp: in_set_conv_nth)
  then have "\<exists>i j. q = pi_pgno (idx ! i ! j) \<and> i < length idx \<and>
      replicate (length idx) 0 ! i \<le> j \<and> j < length (idx ! i)"
    by (intro exI [of _ i] exI [of _ j]) simp
  then show "q \<in> pgnos_from idx (replicate (length idx) 0)"
    unfolding pgnos_from_def by blast
qed

lemma union_nth_concat: "(\<Union>i < length xss. set (map f (xss ! i))) = set (map f (concat xss))"
proof -
  have "(\<Union>i < length xss. set (map f (xss ! i))) = (\<Union>xs \<in> set xss. set (map f xs))"
    by (simp only: set_conv_nth [of xss]) blast
  then show ?thesis by auto
qed

section \<open>Merging and compacting encoded files\<close>

text \<open>The inputs of a merge: encodings of \<open>srcs\<close>, all with page size \<open>ps\<close>.\<close>

definition merge_inputs ::
  "(bytes \<Rightarrow> bytes) \<Rightarrow> u32 \<Rightarrow> bytes list \<Rightarrow> (header \<times> (u32 \<times> bytes) list) list \<Rightarrow> bool" where
  "merge_inputs lz4c ps inputs srcs \<longleftrightarrow>
    list_all2 (\<lambda>b (h, pds). is_encoding lz4c b h pds \<and> h_page_size h = ps) inputs srcs"

lemma merge_inputs_nth:
  "merge_inputs lz4c ps inputs srcs \<Longrightarrow> i < length srcs \<Longrightarrow>
    is_encoding lz4c (inputs ! i) (fst (srcs ! i)) (snd (srcs ! i)) \<and> h_page_size (fst (srcs ! i)) = ps"
  by (auto simp: merge_inputs_def list_all2_conv_all_nth case_prod_beta)

lemma merge_to_writer_run:
  assumes lz4: "lz4_frame_inverse lz4c lz4d" and srcs: "merge_inputs lz4c (h_page_size h) inputs srcs"
  shows "merge_to_writer lz4c lz4d inputs h =
    encode_file lz4c h (merged_pages (h_commit h) (map snd srcs)) checksum_zero"
proof -
  let ?idx = "map (\<lambda>src. map elem_of (index_from lz4c 100 (snd src))) srcs"
  let ?pdss = "map snd srcs"
  have len: "length inputs = length srcs"
    using srcs by (auto simp: merge_inputs_def list_all2_lengthD)
  note src = merge_inputs_nth [OF srcs]
  have idx: "rmapM page_index inputs = Ok ?idx"
    using is_encoding_facts(4) src len by (fastforce simp: rmapM_eq_Ok)
  have pg: "map pi_pgno (map elem_of (index_from lz4c off pds)) = map fst pds" for off pds
    using index_from_pgnos [of lz4c off pds] by (simp add: comp_def elem_of_def case_prod_beta)
  have asc: "ascending ?idx"
    unfolding ascending_def
  proof
    fix x
    assume "x \<in> set ?idx"
    then obtain sr where sr: "sr \<in> set srcs" "x = map elem_of (index_from lz4c 100 (snd sr))"
      by auto
    from sr(1) obtain i where "i < length srcs" "sr = srcs ! i"
      by (auto simp: in_set_conv_nth)
    with sr(2) have i: "i < length srcs" "x = ?idx ! i"
      by simp_all
    note facts = is_encoding_facts [OF conjunct1 [OF src [OF i(1)]]]
    have "sorted_wrt (<) (map fst (snd (srcs ! i)))"
      using accepts_all_sorted [OF facts(2,3)] by (simp add: strict_sorted_iff)
    then show "sorted_wrt (<) (map pi_pgno x)"
      using i by (simp add: pg del: map_map)
  qed
  define D where "D = (\<lambda>i p. the (map_of (snd (srcs ! i)) p))"
  have reads: "\<forall>i < length ?idx. \<forall>e \<in> set (?idx ! i).
      read_entry lz4d (unat (h_page_size h)) (inputs ! i) e = Ok (pi_pgno e, D i (pi_pgno e))"
    using is_encoding_reads [OF lz4] src by (fastforce simp: D_def)
  let ?R = "pgnos_from ?idx (replicate (length ?idx) 0)"
  have R: "?R = set (map fst (concat ?pdss))"
  proof -
    have "?R = (\<Union>i < length ?idx. pi_pgno ` set (?idx ! i))"
      by (rule pgnos_from_start)
    also have "\<dots> = (\<Union>i < length srcs. set (map pi_pgno (?idx ! i)))"
      by (simp only: length_map set_map)
    also have "\<dots> = (\<Union>i < length srcs. set (map fst (?pdss ! i)))"
      by (simp add: pg del: set_map map_map)
    also have "\<dots> = set (map fst (concat ?pdss))"
      by (rule union_nth_concat [where xss = ?pdss, unfolded length_map])
    finally show ?thesis .
  qed
  have new: "D (newest ?idx p) p = the (newest_map ?pdss p)" if "p \<in> ?R" for p
  proof -
    have "{i. i < length ?idx \<and> p \<in> pi_pgno ` set (?idx ! i)} =
        {i. i < length ?pdss \<and> p \<in> fst ` set (?pdss ! i)}"
      using pg by (auto simp flip: set_map simp del: map_map)
    moreover have "newest ?idx p < length srcs"
    proof -
      have "{i. i < length ?idx \<and> p \<in> pi_pgno ` set (?idx ! i)} \<noteq> {}"
        using that by (auto simp: pgnos_from_def)
      then have "newest ?idx p \<in> {i. i < length ?idx \<and> p \<in> pi_pgno ` set (?idx ! i)}"
        unfolding newest_def by (intro Max_in) auto
      then show ?thesis by simp
    qed
    ultimately show ?thesis
      using newest_map_last [of p ?pdss] that unfolding R
      by (simp add: newest_def D_def)
  qed
  have "merge_loop lz4c lz4d inputs ?idx (unat (h_page_size h)) (h_commit h)
      (replicate (length ?idx) 0) (initial_heap ?idx) enc =
    encode_pages lz4c enc (merged_pages (h_commit h) ?pdss)" for enc
  proof -
    have "merge_loop lz4c lz4d inputs ?idx (unat (h_page_size h)) (h_commit h)
        (replicate (length ?idx) 0) (initial_heap ?idx) enc =
      rfoldM (\<lambda>enc p. encode_page lz4c enc p (D (newest ?idx p) p)) enc
        (filter (\<lambda>p. p \<le> h_commit h) (sorted_list_of_set ?R))"
      by (subst merge_loop_run [OF asc _ reads initial_heap_inv])
        (simp_all add: len passed_def rfoldM_filter)
    also have "\<dots> = encode_pages lz4c enc (map (\<lambda>p. (p, D (newest ?idx p) p))
        (filter (\<lambda>p. p \<le> h_commit h) (sorted_list_of_set ?R)))"
      by (simp add: encode_pages_map)
    also have "map (\<lambda>p. (p, D (newest ?idx p) p)) (filter (\<lambda>p. p \<le> h_commit h) (sorted_list_of_set ?R)) =
        merged_pages (h_commit h) ?pdss"
      unfolding merged_pages_def R [symmetric]
      by (rule map_cong) (use new in auto)
    finally show ?thesis .
  qed
  then show ?thesis
    unfolding merge_to_writer_def encode_file_no_post
    using len by (simp add: Let_def idx)
qed

text \<open>Consecutive headers with the same page size and contiguous, growing TXID ranges.\<close>

definition contiguous_run :: "header list \<Rightarrow> bool" where
  "contiguous_run hs \<longleftrightarrow> (\<forall>i. Suc i < length hs \<longrightarrow>
    h_page_size (hs ! Suc i) = h_page_size (hd hs) \<and>
    h_min_txid (hs ! Suc i) \<le> h_max_txid (hs ! i) + 1 \<and> h_max_txid (hs ! i) < h_max_txid (hs ! Suc i))"

lemma check_pair_Ok:
  "check_pair ps prev cur = Ok () \<longleftrightarrow> h_page_size cur = ps \<and>
    h_min_txid cur \<le> h_max_txid prev + 1 \<and> h_max_txid prev < h_max_txid cur"
  by (auto simp: check_pair_def not_le not_less)

lemma check_pair_no_panic [simp]: "check_pair ps prev cur \<noteq> Panic"
  by (simp add: check_pair_def)

lemma check_windows_Ok:
  "check_windows ps hs = Ok () \<longleftrightarrow> (\<forall>i. Suc i < length hs \<longrightarrow> h_page_size (hs ! Suc i) = ps \<and>
    h_min_txid (hs ! Suc i) \<le> h_max_txid (hs ! i) + 1 \<and> h_max_txid (hs ! i) < h_max_txid (hs ! Suc i))"
proof (induction ps hs rule: check_windows.induct)
  case (1 ps prev cur hs)
  have "(\<forall>i. Suc i < length (prev # cur # hs) \<longrightarrow> P i) \<longleftrightarrow>
      P 0 \<and> (\<forall>i. Suc i < length (cur # hs) \<longrightarrow> P (Suc i))" for P
    by (auto simp: less_Suc_eq_0_disj)
  from this [of "\<lambda>i. h_page_size ((prev # cur # hs) ! Suc i) = ps \<and>
      h_min_txid ((prev # cur # hs) ! Suc i) \<le> h_max_txid ((prev # cur # hs) ! i) + 1 \<and>
      h_max_txid ((prev # cur # hs) ! i) < h_max_txid ((prev # cur # hs) ! Suc i)"]
  show ?case
    using 1 by (simp add: res_simps check_pair_Ok) blast
qed simp_all

lemma check_windows_no_panic: "check_windows ps hs \<noteq> Panic"
proof (induction ps hs rule: check_windows.induct)
  case (1 ps prev cur hs)
  then show ?case
    by (cases "check_pair ps prev cur") auto
qed simp_all

definition encodings :: "(bytes \<Rightarrow> bytes) \<Rightarrow> bytes list \<Rightarrow> (header \<times> (u32 \<times> bytes) list) list \<Rightarrow> bool" where
  "encodings lz4c inputs srcs \<longleftrightarrow> list_all2 (\<lambda>b (h, pds). is_encoding lz4c b h pds) inputs srcs"

lemma encodings_headers:
  assumes "encodings lz4c inputs srcs"
  shows "rmapM header_decode inputs = Ok (map fst srcs)"
  using assms is_encoding_facts(1)
  by (fastforce simp: rmapM_eq_Ok encodings_def list_all2_conv_all_nth case_prod_beta)

lemma contiguous_same_size:
  assumes "contiguous_run hs" and "i < length hs"
  shows "h_page_size (hs ! i) = h_page_size (hd hs)"
  using assms by (cases i) (auto simp: contiguous_run_def hd_conv_nth)

lemma encodings_merge_inputs:
  assumes "encodings lz4c inputs srcs" and "contiguous_run (map fst srcs)"
  shows "merge_inputs lz4c (h_page_size (fst (hd srcs))) inputs srcs"
proof -
  have "h_page_size (fst (srcs ! i)) = h_page_size (fst (hd srcs))" if "i < length srcs" for i
  proof -
    have "srcs \<noteq> []"
      using that by auto
    then show ?thesis
      using contiguous_same_size [OF assms(2), of i] that by (simp add: hd_map)
  qed
  then show ?thesis
    using assms(1) by (simp add: encodings_def merge_inputs_def list_all2_conv_all_nth case_prod_beta)
qed

text \<open>The header and the pages of the compaction of \<open>srcs\<close>.\<close>

definition compaction :: "(header \<times> (u32 \<times> bytes) list) list \<Rightarrow> header \<times> (u32 \<times> bytes) list" where
  "compaction srcs =
    (let h = compacted_header (fst (hd srcs)) (fst (last srcs))
     in (h, merged_pages (h_commit h) (map snd srcs)))"

lemma compact_run:
  assumes "lz4_frame_inverse lz4c lz4d" and "encodings lz4c inputs srcs" and "srcs \<noteq> []"
  shows "contiguous_run (map fst srcs) \<Longrightarrow> compact_to_writer lz4c lz4d inputs =
      encode_file lz4c (fst (compaction srcs)) (snd (compaction srcs)) checksum_zero"
    and "\<not> contiguous_run (map fst srcs) \<Longrightarrow> \<exists>e. compact_to_writer lz4c lz4d inputs = Err e"
proof -
  have ne: "inputs \<noteq> []" "map fst srcs \<noteq> []"
    using assms(2,3) by (auto simp: encodings_def)
  have hd_last: "hd (map fst srcs) = fst (hd srcs)" "last (map fst srcs) = fst (last srcs)"
    using assms(3) by (simp_all add: hd_map last_map)
  have chk: "check_windows (h_page_size (fst (hd srcs))) (map fst srcs) = Ok () \<longleftrightarrow>
      contiguous_run (map fst srcs)"
    unfolding check_windows_Ok contiguous_run_def hd_last by blast
  {
    assume c: "contiguous_run (map fst srcs)"
    have "merge_inputs lz4c (h_page_size (fst (compaction srcs))) inputs srcs"
      using encodings_merge_inputs [OF assms(2) c]
      by (simp add: compaction_def Let_def compacted_header_def)
    from merge_to_writer_run [OF assms(1) this]
    show "compact_to_writer lz4c lz4d inputs =
      encode_file lz4c (fst (compaction srcs)) (snd (compaction srcs)) checksum_zero"
      using ne chk c
      by (simp add: compact_to_writer_def encodings_headers [OF assms(2)] hd_last)
        (simp add: compaction_def Let_def)
  }
  {
    assume "\<not> contiguous_run (map fst srcs)"
    with chk check_windows_no_panic obtain e where
      "check_windows (h_page_size (fst (hd srcs))) (map fst srcs) = Err e"
      by (metis (full_types) old.unit.exhaust result.exhaust)
    then show "\<exists>e. compact_to_writer lz4c lz4d inputs = Err e"
      using ne by (simp add: compact_to_writer_def encodings_headers [OF assms(2)] hd_last)
  }
qed

section \<open>Compaction succeeds and reads back\<close>

text \<open>Every page up to the commit size, the lock page aside, is in some input.\<close>

definition covers :: "header \<Rightarrow> (u32 \<times> bytes) list list \<Rightarrow> bool" where
  "covers h pdss \<longleftrightarrow> (\<forall>i \<in> set (snapshot_pgnos h). (of_nat i :: u32) \<noteq> lock_pgno (h_page_size h) \<longrightarrow>
    (of_nat i :: u32) \<in> fst ` set (concat pdss))"

lemma newest_map_sizes:
  assumes "\<forall>pds \<in> set pdss. \<forall>pd \<in> set pds. P pd" and "newest_map pdss p = Some d"
  shows "P (p, d)"
  using assms
proof (induction pdss rule: rev_induct)
  case Nil
  then show ?case by (simp add: newest_map_def)
next
  case (snoc pds pdss)
  then show ?case
    by (auto simp: newest_map_snoc map_add_Some_iff dest: map_of_SomeD)
qed

lemma map_of_merged:
  "map_of (merged_pages commit pdss) p = (if p \<le> commit then newest_map pdss p else None)"
proof -
  have "map_of (map (\<lambda>p. (p, f p)) xs) p = (if p \<in> set xs then Some (f p) else None)"
    for f :: "u32 \<Rightarrow> bytes" and xs
    by (induction xs) auto
  moreover have "newest_map pdss p = None" if "p \<notin> set (map fst (concat pdss))"
    using that dom_newest_map [of pdss] by (auto simp: domIff)
  moreover have "\<exists>d. newest_map pdss p = Some d" if "p \<in> set (map fst (concat pdss))"
    using that dom_newest_map [of pdss] by (metis domD set_map)
  ultimately show ?thesis
    unfolding merged_pages_def by auto
qed

lemma merged_pgnos_sorted: "sorted_wrt (<) (map fst (merged_pages commit pdss))"
  by (simp add: merged_pages_def comp_def sorted_wrt_filter)

lemma merged_pages_accepted:
  assumes "encodings lz4c inputs srcs" and "srcs \<noteq> []" and "contiguous_run (map fst srcs)"
    and "h_min_txid (fst (hd srcs)) = 1 \<longrightarrow> covers (fst (compaction srcs)) (map snd srcs)"
  shows "accepts_all (fst (compaction srcs)) 0 (snd (compaction srcs))"
proof -
  let ?h = "fst (compaction srcs)" and ?pds = "snd (compaction srcs)" and ?pdss = "map snd srcs"
  have pds: "?pds = merged_pages (h_commit ?h) ?pdss" and ps: "h_page_size ?h = h_page_size (fst (hd srcs))"
    and snap: "header_is_snapshot ?h \<longleftrightarrow> h_min_txid (fst (hd srcs)) = 1"
    by (simp_all add: compaction_def Let_def compacted_header_def header_is_snapshot_def)
  have valid: "is_valid_page_size (h_page_size ?h)"
  proof -
    have "is_encoding lz4c (inputs ! 0) (fst (srcs ! 0)) (snd (srcs ! 0))"
      using assms(1,2) by (cases srcs) (auto simp: encodings_def list_all2_conv_all_nth)
    then show ?thesis
      using is_encoding_facts(2) header_validate_page_size assms(2) ps by (metis hd_conv_nth)
  qed
  define ok where "ok = (\<lambda>pd :: u32 \<times> bytes. length (snd pd) = unat (h_page_size ?h) \<and> fst pd \<noteq> 0 \<and>
      fst pd \<noteq> lock_pgno (h_page_size ?h))"
  have src_ok: "\<forall>pds \<in> set ?pdss. \<forall>pd \<in> set pds. ok pd"
  proof (intro ballI)
    fix pds pd
    assume "pds \<in> set ?pdss" and pd: "pd \<in> set pds"
    then obtain i where i: "i < length srcs" "pds = snd (srcs ! i)"
      by (auto simp: in_set_conv_nth)
    have m: "merge_inputs lz4c (h_page_size ?h) inputs srcs"
      unfolding ps by (rule encodings_merge_inputs [OF assms(1,3)])
    note src = merge_inputs_nth [OF m i(1)]
    show "ok pd"
      using accepts_all_sizes [OF is_encoding_facts(3) [OF conjunct1 [OF src]]] pd src i(2)
      by (simp add: ok_def)
  qed
  have all_ok: "ok pd \<and> fst pd \<le> h_commit ?h" if "pd \<in> set ?pds" for pd
  proof -
    have "distinct (map fst ?pds)"
      using merged_pgnos_sorted strict_sorted_iff unfolding pds by blast
    then have "map_of ?pds (fst pd) = Some (snd pd)"
      using that by (metis map_of_eq_Some_iff prod.collapse)
    then have "newest_map ?pdss (fst pd) = Some (snd pd)" "fst pd \<le> h_commit ?h"
      by (auto simp: pds map_of_merged split: if_splits)
    then show ?thesis
      using newest_map_sizes [OF src_ok] by (metis prod.collapse)
  qed
  show ?thesis
  proof (cases "header_is_snapshot ?h")
    case False
    have "sorted_wrt (<) (0 # map fst ?pds)"
      using merged_pgnos_sorted [of "h_commit ?h" ?pdss] all_ok
      by (auto simp: pds ok_def word_gt_0)
    then show ?thesis
      using all_ok unfolding accepts_all_incremental [OF False] by (simp add: ok_def)
  next
    case True
    define D where "D = (\<lambda>i. case newest_map ?pdss (of_nat i) of
        Some d \<Rightarrow> if length d = unat (h_page_size ?h) then d else replicate (unat (h_page_size ?h)) 0
      | None \<Rightarrow> replicate (unat (h_page_size ?h)) 0)"
    have D: "\<forall>i. length (D i) = unat (h_page_size ?h)"
      by (simp add: D_def split: option.split)
    have "?pds = full_pages (h_page_size ?h) D (snapshot_pgnos ?h)"
    proof -
      have names: "map fst ?pds =
          map of_nat (filter (\<lambda>i. (of_nat i :: u32) \<noteq> lock_pgno (h_page_size ?h)) (snapshot_pgnos ?h))"
      proof (rule snapshot_pgnos_complete)
        show "sorted_wrt (<) (map fst ?pds)"
          unfolding pds by (rule merged_pgnos_sorted)
        show "\<forall>p \<in> set (map fst ?pds). p \<noteq> 0 \<and> p \<le> h_commit ?h \<and> p \<noteq> lock_pgno (h_page_size ?h)"
          using all_ok by (auto simp: ok_def)
        have "(of_nat i :: u32) \<le> h_commit ?h" if "i \<in> set (snapshot_pgnos ?h)" for i
          using unat_snapshot_pgno [OF that] that
          by (simp add: word_le_nat_alt snapshot_pgnos_def del: upt_Suc)
        then show "\<forall>i \<in> set (snapshot_pgnos ?h). of_nat i \<noteq> lock_pgno (h_page_size ?h) \<longrightarrow>
            of_nat i \<in> set (map fst ?pds)"
          using assms(4) True snap by (auto simp: covers_def pds merged_pages_def image_image comp_def)
      qed
      have Dn: "D i = the (newest_map ?pdss (of_nat i))" if i: "of_nat i \<in> set (map fst ?pds)" for i
      proof -
        have "of_nat i \<in> dom (newest_map ?pdss)"
          unfolding dom_newest_map using i by (simp add: pds merged_pages_def image_image)
        then obtain d where "newest_map ?pdss (of_nat i) = Some d"
          by blast
        then show ?thesis
          using newest_map_sizes [OF src_ok] by (auto simp: D_def ok_def)
      qed
      have Deq: "map (\<lambda>i. (of_nat i, the (newest_map ?pdss (of_nat i)))) F = map (\<lambda>i. (of_nat i, D i)) F"
        if "set (map of_nat F) \<subseteq> set (map fst ?pds)" for F
      proof (rule map_cong [OF refl])
        fix i
        assume "i \<in> set F"
        then have "of_nat i \<in> set (map fst ?pds)"
          using that by auto
        from Dn [OF this] show "(of_nat i, the (newest_map ?pdss (of_nat i))) = (of_nat i, D i)"
          by simp
      qed
      have "?pds = map (\<lambda>p. (p, the (newest_map ?pdss p))) (map fst ?pds)"
        by (simp add: pds merged_pages_def comp_def)
      also have "\<dots> = map (\<lambda>i. (of_nat i, the (newest_map ?pdss (of_nat i))))
          (filter (\<lambda>i. (of_nat i :: u32) \<noteq> lock_pgno (h_page_size ?h)) (snapshot_pgnos ?h))"
        unfolding names by simp
      also have "\<dots> = full_pages (h_page_size ?h) D (snapshot_pgnos ?h)"
        unfolding full_pages_def by (rule Deq) (simp only: names order_refl)
      finally show ?thesis .
    qed
    then show ?thesis
      using accepts_all_full [OF valid True D] by simp
  qed
qed

lemma compacted_header_valid:
  assumes "encodings lz4c inputs srcs" and "srcs \<noteq> []" and "contiguous_run (map fst srcs)"
  shows "header_validate (fst (compaction srcs)) = Ok ()"
proof -
  have val: "header_validate (fst (srcs ! i)) = Ok ()" if "i < length srcs" for i
    using assms(1) that is_encoding_facts(2) [of lz4c "inputs ! i" "fst (srcs ! i)" "snd (srcs ! i)"]
    by (simp add: encodings_def list_all2_conv_all_nth case_prod_beta)
  then have pos: "h_min_txid (fst (srcs ! i)) \<noteq> 0 \<and> h_min_txid (fst (srcs ! i)) \<le> h_max_txid (fst (srcs ! i))"
    if "i < length srcs" for i
    using val [OF that] by (auto simp: header_validate_def split: if_splits)
  have mono: "h_max_txid (fst (srcs ! 0)) \<le> h_max_txid (fst (srcs ! i))" if "i < length srcs" for i
    using that
  proof (induction i)
    case (Suc i)
    then have "h_max_txid (fst (srcs ! i)) < h_max_txid (fst (srcs ! Suc i))"
      using assms(3) by (simp add: contiguous_run_def)
    with Suc show ?case by simp
  qed simp
  have ends: "hd srcs = srcs ! 0" "last srcs = srcs ! (length srcs - 1)" "0 < length srcs"
    using assms(2) by (simp_all add: hd_conv_nth last_conv_nth)
  then have "h_min_txid (fst (srcs ! 0)) \<le> h_max_txid (fst (srcs ! (length srcs - 1)))"
    using pos [of 0] mono [of "length srcs - 1"] by auto
  moreover have "h_max_txid (fst (srcs ! (length srcs - 1))) \<noteq> 0"
    using pos [of "length srcs - 1"] ends(3) by auto
  ultimately show ?thesis
    using pos [OF ends(3)] header_validate_page_size [OF val [OF ends(3)]]
    unfolding header_validate_def compaction_def ends(1,2)
    by (simp add: Let_def compacted_header_def checksum_is_zero_def checksum_zero_def not_less)
qed

text \<open>Two contiguous files: a two-page base and an increment that rewrites page 1.\<close>

definition sample_srcs :: "(header \<times> (u32 \<times> bytes) list) list" where
  "sample_srcs = [(sample_header 1 1 2, [sample_page 1 7, sample_page 2 8]),
    (sample_header 2 3 2, [sample_page 1 9])]"

definition sample_inputs :: "bytes list" where
  "sample_inputs = map (\<lambda>(h, pds). file_bytes stored h pds checksum_zero) sample_srcs"

lemma sample_encoding:
  assumes "header_validate h = Ok ()" and "accepts_all h 0 pds" and "length pds \<le> 2"
    and "\<forall>pd \<in> set pds. length (snd pd) = 512"
  shows "is_encoding stored (file_bytes stored h pds checksum_zero) h pds"
proof -
  have "length (concat (map (frame stored) pds)) \<le> 518 * length pds"
    using assms(4) by (induction pds) (auto simp: frame_def stored_def)
  then have "length (file_bytes stored h pds checksum_zero) < 2 ^ 64"
    using length_file_bytes [of stored h pds checksum_zero] assms(3) by simp
  then show ?thesis
    using assms(1,2) by (auto simp: is_encoding_def encode_file_iff)
qed

lemma sample_srcs_encodings: "encodings stored sample_inputs sample_srcs"
proof -
  have "is_encoding stored (file_bytes stored (sample_header 1 1 2) [sample_page 1 7, sample_page 2 8]
      checksum_zero) (sample_header 1 1 2) [sample_page 1 7, sample_page 2 8]"
    by (rule sample_encoding) (simp_all add: sample_header_valid accepts_def next_snapshot_pgno_def)
  moreover have "is_encoding stored (file_bytes stored (sample_header 2 3 2) [sample_page 1 9]
      checksum_zero) (sample_header 2 3 2) [sample_page 1 9]"
    by (rule sample_encoding) (simp_all add: sample_header_valid accepts_def)
  ultimately show ?thesis
    by (simp add: encodings_def sample_inputs_def sample_srcs_def)
qed

lemma sample_compaction: "compaction sample_srcs =
    (sample_header 1 3 2, [sample_page 1 9, sample_page 2 8])"
proof -
  have "sorted_list_of_set {1, 2 :: u32} = [1, 2]"
    using sorted_list_of_set_sort_remdups [of "[1, 2 :: u32]"] by simp
  then show ?thesis
    by (simp add: compaction_def sample_srcs_def merged_pages_def newest_map_def insert_commute
        compacted_header_def sample_page_def) (simp add: sample_header_def)
qed

lemma sample_run: "contiguous_run (map fst sample_srcs)"
  by (simp add: contiguous_run_def sample_srcs_def)

text \<open>
  Merging files this crate encoded is encoding the newest version of every page, up to the
  commit size, in ascending page order: the output and the errors are those of the encoder on
  exactly that page list.
\<close>

theorem merge_keeps_newest_pages:
  assumes "lz4_frame_inverse lz4c lz4d" and "merge_inputs lz4c (h_page_size h) inputs srcs"
  shows "merge_to_writer lz4c lz4d inputs h =
      encode_file lz4c h (merged_pages (h_commit h) (map snd srcs)) checksum_zero \<and>
    (\<forall>p. map_of (merged_pages (h_commit h) (map snd srcs)) p =
      (if p \<le> h_commit h then newest_map (map snd srcs) p else None))"
  using merge_to_writer_run [OF assms] by (simp add: map_of_merged)

text \<open>
  C18: compaction refuses a run of files whose headers are not contiguous. On a contiguous run that,
  when it starts at TXID 1, has every page up to the final commit size, it succeeds, and the result
  reads back as the newest version of every page, under a header from the first input's minimum
  TXID to the last input's maximum TXID.
\<close>

theorem compaction_correct:
  assumes "lz4_frame_inverse lz4c lz4d" and "encodings lz4c inputs srcs" and "srcs \<noteq> []"
    and "h_min_txid (fst (hd srcs)) = 1 \<longrightarrow> covers (fst (compaction srcs)) (map snd srcs)"
    and "length (file_bytes lz4c (fst (compaction srcs)) (snd (compaction srcs)) checksum_zero) < 2 ^ 64"
  shows "(contiguous_run (map fst srcs) \<longrightarrow> (\<exists>b t. compact_to_writer lz4c lz4d inputs = Ok (b, t) \<and>
      read_file lz4d b = Ok \<lparr>df_header = fst (compaction srcs), df_pages = snd (compaction srcs),
        df_trailer = t\<rparr>)) \<and>
    (\<not> contiguous_run (map fst srcs) \<longrightarrow> (\<exists>e. compact_to_writer lz4c lz4d inputs = Err e))"
proof (cases "contiguous_run (map fst srcs)")
  case True
  let ?h = "fst (compaction srcs)" and ?pds = "snd (compaction srcs)"
  have enc: "encode_file lz4c ?h ?pds checksum_zero =
      Ok (file_bytes lz4c ?h ?pds checksum_zero, file_trailer lz4c ?h ?pds checksum_zero)"
    using compacted_header_valid [OF assms(2,3) True] merged_pages_accepted [OF assms(2,3) True assms(4)]
    by (simp add: encode_file_iff)
  then show ?thesis
    using True compact_run(1) [OF assms(1-3) True] read_file_encode_run [OF assms(1) enc assms(5)]
    by simp
next
  case False
  then show ?thesis
    using compact_run(2) [OF assms(1-3) False] by simp
qed

theorem compaction_correct_witness:
  "\<exists>b t. compact_to_writer stored stored_dec sample_inputs = Ok (b, t) \<and>
    read_file stored_dec b = Ok \<lparr>df_header = sample_header 1 3 2,
      df_pages = [sample_page 1 9, sample_page 2 8], df_trailer = t\<rparr>"
proof -
  have cov: "covers (fst (compaction sample_srcs)) (map snd sample_srcs)"
    by (simp add: sample_compaction covers_def snapshot_pgnos_def upt_rec)
      (auto simp: sample_srcs_def)
  have "length (file_bytes stored (fst (compaction sample_srcs)) (snd (compaction sample_srcs))
      checksum_zero) < 2 ^ 64"
    using length_file_bytes [of stored "sample_header 1 3 2" "[sample_page 1 9, sample_page 2 8]" checksum_zero]
    by (simp add: sample_compaction frame_def stored_def)
  from compaction_correct [OF stored_inverse sample_srcs_encodings _ _ this] cov sample_run
  show ?thesis
    by (simp add: sample_compaction) (simp add: sample_srcs_def)
qed

end
