(* ===== verification/RestoreApply.thy ===== *)
theory RestoreApply
  imports RestorePlan Compactor
begin

text \<open>
  Applying restore plans (\<^verbatim>\<open>src/sync/restore.rs\<close>, from \<^verbatim>\<open>apply_plan\<close> on): in memory oldest-first, to a
  path newest-first with a page set, a delta onto an existing image, the position marker, and
  \<^verbatim>\<open>catch_up\<close>. What an operation does to the local file and its marker is a list of effects, with its
  result where all of them succeed. The theory CrashSafety runs such a list on a disk: what a failing effect, an
  error or a crash at any point leaves, with the writes that no sync followed lost. \<^verbatim>\<open>write_marker\<close> is one effect,
  which the theory MarkerFile shows it to be at every crash between its calls.
\<close>

section \<open>The local file\<close>

datatype marker = Clean (mk_txid: u64) (mk_page_size: u32) (mk_commit: u32) (mk_file_len: nat)
  | Applying u64 u64

record local_db =
  l_db :: "bytes option"
  l_marker :: "marker option"

text \<open>\<^verbatim>\<open>set_len\<close> truncates or zero-fills; \<^verbatim>\<open>write_all_at\<close> overwrites, zero-filling a gap before it.\<close>

definition set_len :: "nat \<Rightarrow> bytes \<Rightarrow> bytes" where
  "set_len n f = take n f @ replicate (n - length f) 0"

definition write_at :: "nat \<Rightarrow> bytes \<Rightarrow> bytes \<Rightarrow> bytes" where
  "write_at off d f = set_len off f @ d @ drop (off + length d) f"

datatype effect = WriteMarker marker | CreateFile | SetLen nat | WriteAt nat bytes | SyncAll

fun apply_effect :: "local_db \<Rightarrow> effect \<Rightarrow> local_db" where
  "apply_effect l (WriteMarker m) = l\<lparr>l_marker := Some m\<rparr>"
| "apply_effect l CreateFile = l\<lparr>l_db := Some []\<rparr>"
| "apply_effect l (SetLen n) = l\<lparr>l_db := map_option (set_len n) (l_db l)\<rparr>"
| "apply_effect l (WriteAt off d) = l\<lparr>l_db := map_option (write_at off d) (l_db l)\<rparr>"
| "apply_effect l SyncAll = l"

definition run_effects :: "local_db \<Rightarrow> effect list \<Rightarrow> local_db" where
  "run_effects l effs = foldl apply_effect l effs"

section \<open>In memory, oldest first\<close>

definition apply_page :: "nat \<Rightarrow> bytes \<Rightarrow> u32 \<times> bytes \<Rightarrow> (bytes, sync_error) result" where
  "apply_page ps img pd =
    (case pd of (pgno, data) \<Rightarrow>
     let start = (unat pgno - 1) * ps in
     if pgno = 0 \<or> length img < start + ps \<or> length data \<noteq> ps then Panic
     else Ok (copy_at start data img))"

definition apply_plan_file ::
  "'s replica_client \<Rightarrow> lz4_dec \<Rightarrow> 's \<Rightarrow> bytes \<Rightarrow> file_range \<Rightarrow> (bytes, sync_error) result" where
  "apply_plan_file cl lz4d s img f =
    (case f of (level, mn, mx) \<Rightarrow>
     rbind (of_storage (get_ltx cl level mn mx s)) (\<lambda>b.
     rbind (of_ltx (read_file lz4d b)) (\<lambda>file.
     let ps = unat (h_page_size (df_header file));
         img = set_len (unat (h_commit (df_header file)) * ps) img
     in rfoldM (apply_page ps) img (df_pages file))))"

definition apply_plan ::
  "'s replica_client \<Rightarrow> lz4_dec \<Rightarrow> file_range list \<Rightarrow> 's \<Rightarrow> (bytes, sync_error) result" where
  "apply_plan cl lz4d plan s = rfoldM (apply_plan_file cl lz4d s) [] plan"

definition restore :: "'s replica_client \<Rightarrow> lz4_dec \<Rightarrow> 's \<Rightarrow> (bytes, sync_error) result" where
  "restore cl lz4d s =
    rbind (list_all_levels cl s) (\<lambda>files.
    rbind (plan_restore files) (\<lambda>plan. apply_plan cl lz4d plan s))"

definition restore_to_txid ::
  "'s replica_client \<Rightarrow> lz4_dec \<Rightarrow> u64 \<Rightarrow> 's \<Rightarrow> (bytes \<times> u64, sync_error) result" where
  "restore_to_txid cl lz4d target_txid s =
    rbind (list_all_levels cl s) (\<lambda>files.
    rbind (case plan_restore_to files target_txid of
        Err NoSnapshot \<Rightarrow> Err (TxidTooOld target_txid) | r \<Rightarrow> r) (\<lambda>plan.
    if plan = [] then Err (TxidTooOld target_txid)
    else rbind (apply_plan cl lz4d plan s) (\<lambda>img. Ok (img, fr_max (last plan)))))"

definition header_of ::
  "'s replica_client \<Rightarrow> file_range \<Rightarrow> 's \<Rightarrow> (header, sync_error) result" where
  "header_of cl f s =
    (case f of (level, mn, mx) \<Rightarrow>
     rbind (of_storage (get_ltx_range cl level mn mx 0 HEADER_SIZE s)) (\<lambda>b. of_ltx (header_decode b)))"

definition restore_to_timestamp ::
  "'s replica_client \<Rightarrow> lz4_dec \<Rightarrow> u64 \<Rightarrow> 's \<Rightarrow> (bytes \<times> u64, sync_error) result" where
  "restore_to_timestamp cl lz4d timestamp_ms s =
    rbind (list_all_levels cl s) (\<lambda>files.
    rbind (rfoldM (\<lambda>target f.
        if fr_max f \<le> target then Ok target else
        rbind (header_of cl f s) (\<lambda>h.
        Ok (if h_timestamp h \<le>s timestamp_ms then fr_max f else target))) 0 files) (\<lambda>target.
    if target = 0 then Err (TxidTooOld 0) else restore_to_txid cl lz4d target s))"

section \<open>Page sets\<close>

text \<open>\<^verbatim>\<open>DenseSet\<close> and \<^verbatim>\<open>SparseSet\<close>: \<open>claim\<close> marks a page and says whether this was the first claim.\<close>

definition dense_claim :: "u32 \<Rightarrow> bool list \<Rightarrow> bool \<times> bool list" where
  "dense_claim pgno w =
    (if unat pgno < length w \<and> \<not> w ! unat pgno then (True, w[unat pgno := True]) else (False, w))"

definition sparse_claim :: "u32 \<Rightarrow> u32 set \<Rightarrow> bool \<times> u32 set" where
  "sparse_claim pgno w = (pgno \<notin> w, insert pgno w)"

locale page_set =
  fixes claim :: "u32 \<Rightarrow> 'w \<Rightarrow> bool \<times> 'w"
    and claimed :: "'w \<Rightarrow> u32 \<Rightarrow> bool"
    and tracks :: "'w \<Rightarrow> u32 \<Rightarrow> bool"
  assumes claim_first: "tracks w p \<Longrightarrow> fst (claim p w) \<longleftrightarrow> \<not> claimed w p"
    and claim_marks: "tracks w p \<Longrightarrow> claimed (snd (claim p w)) q \<longleftrightarrow> q = p \<or> claimed w q"
    and claim_tracks: "tracks (snd (claim p w)) q \<longleftrightarrow> tracks w q"

interpretation dense: page_set dense_claim
  "\<lambda>w p. unat p < length w \<and> w ! unat p" "\<lambda>w p. unat p < length w"
  by unfold_locales (auto simp: dense_claim_def nth_list_update word_unat_eq_iff)

interpretation sparse: page_set sparse_claim "\<lambda>w p. p \<in> w" "\<lambda>w p. True"
  by unfold_locales (auto simp: sparse_claim_def)

section \<open>To a path, newest first\<close>

text \<open>
  \<^verbatim>\<open>for_each_indexed_page\<close> with a callback that updates a state; an error keeps the state reached.
\<close>

fun each_page ::
  "lz4_dec \<Rightarrow> bytes \<Rightarrow> nat \<Rightarrow> ('st \<Rightarrow> u32 \<Rightarrow> bytes \<Rightarrow> 'st) \<Rightarrow> 'st \<Rightarrow> page_index_elem list
    \<Rightarrow> 'st \<times> (unit, ltx_error) result" where
  "each_page lz4d b ps f st [] = (st, Ok ())"
| "each_page lz4d b ps f st (elem # elems) =
     (case rbind (indexed_frame b elem) (\<lambda>frm. decode_page_frame lz4d frm ps) of
        Ok (ph, data) \<Rightarrow> each_page lz4d b ps f (f st (ph_pgno ph) data) elems
      | Err e \<Rightarrow> (st, Err e)
      | Panic \<Rightarrow> (st, Panic))"

definition for_each_indexed_page ::
  "lz4_dec \<Rightarrow> bytes \<Rightarrow> nat \<Rightarrow> ('st \<Rightarrow> u32 \<Rightarrow> bytes \<Rightarrow> 'st) \<Rightarrow> 'st \<Rightarrow> 'st \<times> (unit, ltx_error) result" where
  "for_each_indexed_page lz4d b ps f st =
    (case page_index b of
       Ok index \<Rightarrow> each_page lz4d b ps f st index
     | Err e \<Rightarrow> (st, Err e)
     | Panic \<Rightarrow> (st, Panic))"

text \<open>The callback: the page set and the writes issued so far.\<close>

definition write_page_once ::
  "(u32 \<Rightarrow> 'w \<Rightarrow> bool \<times> 'w) \<Rightarrow> nat \<Rightarrow> nat \<Rightarrow> 'w \<times> effect list \<Rightarrow> u32 \<Rightarrow> bytes \<Rightarrow> 'w \<times> effect list" where
  "write_page_once claim ps commit st pgno data =
    (case st of (written, effs) \<Rightarrow>
     let p = unat pgno in
     if 1 \<le> p \<and> p \<le> commit then
       (case claim pgno written of (first, written) \<Rightarrow>
        if first then (written, effs @ [WriteAt ((p - 1) * ps) data]) else (written, effs))
     else (written, effs))"

fun apply_files ::
  "(u32 \<Rightarrow> 'w \<Rightarrow> bool \<times> 'w) \<Rightarrow> 's replica_client \<Rightarrow> lz4_dec \<Rightarrow> nat \<Rightarrow> nat \<Rightarrow> 's
    \<Rightarrow> 'w \<times> effect list \<Rightarrow> file_range list \<Rightarrow> ('w \<times> effect list) \<times> (unit, sync_error) result" where
  "apply_files claim cl lz4d ps commit s st [] = (st, Ok ())"
| "apply_files claim cl lz4d ps commit s st ((level, mn, mx) # fs) =
     (case get_ltx cl level mn mx s of
        Ok b \<Rightarrow>
          (case for_each_indexed_page lz4d b ps (write_page_once claim ps commit) st of
             (st, Ok _) \<Rightarrow> apply_files claim cl lz4d ps commit s st fs
           | (st, Err e) \<Rightarrow> (st, Err (SyncLtx e))
           | (st, Panic) \<Rightarrow> (st, Panic))
      | Err e \<Rightarrow> (st, Err (SyncStorage e))
      | Panic \<Rightarrow> (st, Panic))"

definition apply_newest_first ::
  "(u32 \<Rightarrow> 'w \<Rightarrow> bool \<times> 'w) \<Rightarrow> 's replica_client \<Rightarrow> lz4_dec \<Rightarrow> file_range list \<Rightarrow> nat \<Rightarrow> nat \<Rightarrow> 'w \<Rightarrow> 's
    \<Rightarrow> effect list \<times> (unit, sync_error) result" where
  "apply_newest_first claim cl lz4d plan ps commit written s =
    (case apply_files claim cl lz4d ps commit s (written, []) (rev plan) of
       ((_, effs), r) \<Rightarrow> (effs, r))"

definition apply_plan_to_path ::
  "'s replica_client \<Rightarrow> lz4_dec \<Rightarrow> file_range list \<Rightarrow> 's \<Rightarrow> effect list \<times> (u64, sync_error) result" where
  "apply_plan_to_path cl lz4d plan s =
    (if plan = [] then ([], Err NoSnapshot) else
     let nmax = fr_max (last plan) in
     case header_of cl (last plan) s of
       Err e \<Rightarrow> ([], Err e) | Panic \<Rightarrow> ([], Panic)
     | Ok nh \<Rightarrow>
       let ps = unat (h_page_size nh); commit = unat (h_commit nh); file_len = commit * ps;
           pre = [WriteMarker (Applying 0 nmax), CreateFile, SetLen file_len];
           written = snd (dense_claim (lock_pgno (h_page_size nh)) (replicate (commit + 1) False)) in
       if ps = 0 then (pre, Panic) else
       case apply_newest_first dense_claim cl lz4d plan ps commit written s of
         (effs, Ok _) \<Rightarrow>
           (pre @ effs @ [SyncAll, WriteMarker (Clean nmax (h_page_size nh) (h_commit nh) file_len)], Ok nmax)
       | (effs, Err e) \<Rightarrow> (pre @ effs, Err e)
       | (effs, Panic) \<Rightarrow> (pre @ effs, Panic))"

definition restore_to_path_with_files ::
  "'s replica_client \<Rightarrow> lz4_dec \<Rightarrow> file_range list \<Rightarrow> 's \<Rightarrow> effect list \<times> (u64, sync_error) result" where
  "restore_to_path_with_files cl lz4d files s =
    (case plan_restore files of
       Ok plan \<Rightarrow> apply_plan_to_path cl lz4d plan s | Err e \<Rightarrow> ([], Err e) | Panic \<Rightarrow> ([], Panic))"

definition restore_to_path ::
  "'s replica_client \<Rightarrow> lz4_dec \<Rightarrow> 's \<Rightarrow> effect list \<times> (u64, sync_error) result" where
  "restore_to_path cl lz4d s =
    (case list_all_levels cl s of
       Ok files \<Rightarrow> restore_to_path_with_files cl lz4d files s | Err e \<Rightarrow> ([], Err e) | Panic \<Rightarrow> ([], Panic))"

section \<open>Incremental restore\<close>

text \<open>The page size in bytes 16 and 17 of a local database file.\<close>

definition local_page_size :: "local_db \<Rightarrow> u32 option" where
  "local_page_size l =
    (case l_db l of None \<Rightarrow> None
     | Some f \<Rightarrow> if length f < 18 then None else
         let n = from_be (take 2 (drop 16 f)) :: u16 in
         if n = 1 then Some 65536 else Some (ucast n))"

definition record_position :: "local_db \<Rightarrow> u64 \<Rightarrow> effect list \<times> (unit, sync_error) result" where
  "record_position l txid =
    (case local_page_size l of None \<Rightarrow> ([], Err (SyncLtx (InvalidPageSize 0)))
     | Some ps \<Rightarrow>
       let file_len = (case l_db l of None \<Rightarrow> 0 | Some f \<Rightarrow> length f) in
       if ps = 0 then ([], Panic)
       else ([WriteMarker (Clean txid ps (of_nat (file_len div unat ps)) file_len)], Ok ()))"

record delta_shape =
  ds_page_size :: u32
  ds_final_commit :: u32
  ds_min_commit :: u32

definition delta_shape_step ::
  "'s replica_client \<Rightarrow> 's \<Rightarrow> delta_shape \<Rightarrow> file_range \<Rightarrow> (delta_shape, sync_error) result" where
  "delta_shape_step cl s sh f =
    rbind (header_of cl f s) (\<lambda>h.
    if ds_page_size sh \<noteq> 0 \<and> h_page_size h \<noteq> ds_page_size sh
    then Err (SyncLtx (InvalidPageSize (h_page_size h)))
    else Ok \<lparr>ds_page_size = h_page_size h, ds_final_commit = h_commit h,
      ds_min_commit = min (ds_min_commit sh) (h_commit h)\<rparr>)"

definition delta_shape_of ::
  "'s replica_client \<Rightarrow> file_range list \<Rightarrow> 's \<Rightarrow> (delta_shape, sync_error) result" where
  "delta_shape_of cl plan s =
    rfoldM (delta_shape_step cl s) \<lparr>ds_page_size = 0, ds_final_commit = 0, ds_min_commit = - 1\<rparr> plan"

definition apply_delta_to_path ::
  "'s replica_client \<Rightarrow> lz4_dec \<Rightarrow> file_range list \<Rightarrow> u64 \<Rightarrow> delta_shape \<Rightarrow> 's
    \<Rightarrow> effect list \<times> (u64, sync_error) result" where
  "apply_delta_to_path cl lz4d plan from_txid shape s =
    (if plan = [] then ([], Panic) else
     let to_txid = fr_max (last plan);
         ps = unat (ds_page_size shape); commit = unat (ds_final_commit shape); file_len = commit * ps;
         pre = [WriteMarker (Applying from_txid to_txid), SetLen (unat (ds_min_commit shape) * ps),
           SetLen file_len];
         written = snd (sparse_claim (lock_pgno (ds_page_size shape)) {}) in
     if ps = 0 then (pre, Panic) else
     case apply_newest_first sparse_claim cl lz4d plan ps commit written s of
       (effs, Ok _) \<Rightarrow>
         (pre @ effs @ [SyncAll, WriteMarker (Clean to_txid (ds_page_size shape) (ds_final_commit shape) file_len)],
          Ok to_txid)
     | (effs, Err e) \<Rightarrow> (pre @ effs, Err e)
     | (effs, Panic) \<Rightarrow> (pre @ effs, Panic))"

definition restore_incremental ::
  "'s replica_client \<Rightarrow> lz4_dec \<Rightarrow> local_db \<Rightarrow> u64 \<Rightarrow> 's \<Rightarrow> effect list \<times> (u64, sync_error) result" where
  "restore_incremental cl lz4d l from_txid s =
    (case rbind (list_all_levels cl s) (\<lambda>files. plan_restore_from files from_txid) of
       Err e \<Rightarrow> ([], Err e) | Panic \<Rightarrow> ([], Panic)
     | Ok plan \<Rightarrow>
       if plan = [] then ([], Ok from_txid) else
       case delta_shape_of cl plan s of
         Err e \<Rightarrow> ([], Err e) | Panic \<Rightarrow> ([], Panic)
       | Ok shape \<Rightarrow>
         case local_page_size l of
           None \<Rightarrow> ([], Err (SyncLtx (InvalidPageSize 0)))
         | Some loc \<Rightarrow>
             if loc \<noteq> ds_page_size shape then ([], Err (SyncLtx (InvalidPageSize (ds_page_size shape))))
             else apply_delta_to_path cl lz4d plan from_txid shape s)"

datatype fallback_reason = NoMarker | DirtyMarker | LengthMismatch | ChainGapped | PageSizeChanged | LocalAhead

datatype catch_up_result =
    UpToDate u64
  | Incremental u64 u64 nat
  | FullRestore u64 fallback_reason

definition full_restore ::
  "'s replica_client \<Rightarrow> lz4_dec \<Rightarrow> file_range list \<Rightarrow> fallback_reason \<Rightarrow> 's
    \<Rightarrow> effect list \<times> (catch_up_result, sync_error) result" where
  "full_restore cl lz4d files reason s =
    (case restore_to_path_with_files cl lz4d files s of (effs, r) \<Rightarrow>
     (effs, rmap (\<lambda>to_txid. FullRestore to_txid reason) r))"

definition catch_up_with ::
  "'s replica_client \<Rightarrow> lz4_dec \<Rightarrow> file_range list \<Rightarrow> local_db \<Rightarrow> 's
    \<Rightarrow> effect list \<times> (catch_up_result, sync_error) result" where
  "catch_up_with cl lz4d files l s =
    (let head = head_txid files in
     case l_marker l of
       None \<Rightarrow> full_restore cl lz4d files NoMarker s
     | Some (Applying _ _) \<Rightarrow> full_restore cl lz4d files DirtyMarker s
     | Some (Clean txid page_size _ file_len) \<Rightarrow>
       if map_option length (l_db l) \<noteq> Some file_len then full_restore cl lz4d files LengthMismatch s
       else if txid > head then full_restore cl lz4d files LocalAhead s
       else if txid = head then ([], Ok (UpToDate txid))
       else case plan_restore_from files txid of
         Err e \<Rightarrow> (case e of ChainGap _ \<Rightarrow> full_restore cl lz4d files ChainGapped s | _ \<Rightarrow> ([], Err e))
       | Panic \<Rightarrow> ([], Panic)
       | Ok plan \<Rightarrow>
         if plan = [] then ([], Ok (UpToDate txid)) else
         case delta_shape_of cl plan s of
           Err e \<Rightarrow> ([], Err e) | Panic \<Rightarrow> ([], Panic)
         | Ok shape \<Rightarrow>
           if ds_page_size shape \<noteq> page_size \<or> local_page_size l \<noteq> Some page_size
           then full_restore cl lz4d files PageSizeChanged s
           else case apply_delta_to_path cl lz4d plan txid shape s of (effs, r) \<Rightarrow>
             (effs, rmap (\<lambda>to_txid. Incremental txid to_txid (length plan)) r))"

definition catch_up ::
  "'s replica_client \<Rightarrow> lz4_dec \<Rightarrow> local_db \<Rightarrow> 's \<Rightarrow> effect list \<times> (catch_up_result, sync_error) result" where
  "catch_up cl lz4d l s =
    (case list_all_levels cl s of
       Ok files \<Rightarrow> catch_up_with cl lz4d files l s | Err e \<Rightarrow> ([], Err e) | Panic \<Rightarrow> ([], Panic))"

end
