(* ===== verification/RestoreCorrect.thy ===== *)
theory RestoreCorrect
  imports RestoreApply
begin

text \<open>
  What the restore paths of RestoreApply achieve. A history gives the database image after every
  TXID; a replica carries it when each of its files holds the pages that changed in its TXID window.
  The lemmas show that a contiguous run of files rebuilds the image at its end, oldest first in
  memory and newest first on disk, and that the local marker never claims an image the file is not.
\<close>

section \<open>Pages of an image\<close>

lemma page_of_eq_nth:
  "page_of ps a i = page_of ps b i \<Longrightarrow> (i - 1) * ps \<le> k \<Longrightarrow> k < (i - 1) * ps + ps \<Longrightarrow>
    k < length a \<Longrightarrow> k < length b \<Longrightarrow> a ! k = b ! k"
proof -
  assume eq: "page_of ps a i = page_of ps b i" and k: "(i - 1) * ps \<le> k" "k < (i - 1) * ps + ps"
    "k < length a" "k < length b"
  let ?j = "k - (i - 1) * ps"
  have "page_of ps a i ! ?j = a ! k" "page_of ps b i ! ?j = b ! k"
    using k by (simp_all add: page_of_def)
  with eq show ?thesis by simp
qed

lemma page_ext:
  assumes "length a = n * ps" and "length b = n * ps"
    and "\<And>i. 1 \<le> i \<Longrightarrow> i \<le> n \<Longrightarrow> page_of ps a i = page_of ps b i"
  shows "a = b"
proof (rule nth_equalityI)
  show "length a = length b" using assms by simp
  fix k
  assume k: "k < length a"
  then have "0 < ps" using assms(1) by (cases ps) auto
  let ?i = "Suc (k div ps)"
  have "k div ps < n"
    using k assms(1) \<open>0 < ps\<close> by (simp add: less_mult_imp_div_less)
  then have "page_of ps a ?i = page_of ps b ?i"
    using assms(3) [of ?i] by simp
  moreover have "k div ps * ps \<le> k" "k < k div ps * ps + ps"
    using \<open>0 < ps\<close> dividend_less_div_times [of ps k] by (simp_all add: add.commute)
  ultimately show "a ! k = b ! k"
    using page_of_eq_nth [of ps a ?i b k] k assms(1,2) by simp
qed

lemma length_set_len [simp]: "length (set_len n f) = n"
  by (simp add: set_len_def)

lemma write_at_in_range: "off \<le> length f \<Longrightarrow> write_at off d f = copy_at off d f"
  by (simp add: write_at_def copy_at_def set_len_def)

lemma page_offset: "1 \<le> i \<Longrightarrow> (i - 1) * ps + ps = i * (ps :: nat)"
  by (cases i) auto

lemma page_of_set_len:
  assumes "length f = m * ps" and "1 \<le> i" and "i \<le> n"
  shows "page_of ps (set_len (n * ps) f) i = (if i \<le> m then page_of ps f i else replicate ps 0)"
proof -
  have i: "(i - 1) * ps + ps \<le> n * ps"
    using assms(3) page_offset [OF assms(2), of ps] by simp
  show ?thesis
  proof (cases "i \<le> m")
    case True
    then have "(i - 1) * ps + ps \<le> length f"
      using assms(1) page_offset [OF assms(2), of ps] by simp
    then have "take ps (drop ((i - 1) * ps) (take (n * ps) f)) = take ps (drop ((i - 1) * ps) f)"
      using i by (simp add: drop_take min_def)
    moreover have "length (drop ((i - 1) * ps) (take (n * ps) f)) \<ge> ps"
      using i \<open>(i - 1) * ps + ps \<le> length f\<close> by simp
    ultimately show ?thesis
      using True by (simp add: page_of_def set_len_def)
  next
    case False
    then have "m * ps \<le> (i - 1) * ps"
      by (intro mult_le_mono1) simp
    moreover have "m * ps \<le> n * ps"
      using False assms(3) by simp
    ultimately show ?thesis
      using False assms(1) i by (simp add: page_of_def set_len_def)
  qed
qed

lemma unat_of_nat_u32: "i \<le> n \<Longrightarrow> n < 2 ^ 32 \<Longrightarrow> unat (of_nat i :: u32) = i"
  by (simp add: unsigned_of_nat take_bit_nat_eq_self)

section \<open>Histories and the files that carry them\<close>

definition pages :: "u32 \<Rightarrow> bytes \<Rightarrow> nat" where
  "pages ps db = length db div unat ps"

text \<open>Whole pages only, and the lock page, where the database reaches it, is zero.\<close>

definition db_image :: "u32 \<Rightarrow> bytes \<Rightarrow> bool" where
  "db_image ps db \<longleftrightarrow> length db = pages ps db * unat ps \<and>
    (unat (lock_pgno ps) \<le> pages ps db \<longrightarrow>
      page_of (unat ps) db (unat (lock_pgno ps)) = replicate (unat ps) 0)"

text \<open>\<open>H t\<close> is the image after TXID \<open>t\<close>; before the first transaction there is none.\<close>

definition history :: "u32 \<Rightarrow> (u64 \<Rightarrow> bytes) \<Rightarrow> bool" where
  "history ps H \<longleftrightarrow> H 0 = [] \<and> (\<forall>t. db_image ps (H t))"

text \<open>
  A file carries its window: its pages are those of the image at the window's end, and a page it
  leaves out was there, with the same content, at every TXID the window can be applied to.
\<close>

definition carries :: "u32 \<Rightarrow> (u64 \<Rightarrow> bytes) \<Rightarrow> file_range \<Rightarrow> header \<Rightarrow> (u32 \<times> bytes) list \<Rightarrow> bool" where
  "carries ps H f h pds \<longleftrightarrow> h_page_size h = ps \<and> unat (h_commit h) = pages ps (H (fr_max f)) \<and>
    (\<forall>pd \<in> set pds. snd pd = page_of (unat ps) (H (fr_max f)) (unat (fst pd))) \<and>
    (\<forall>i t. 1 \<le> i \<and> i \<le> pages ps (H (fr_max f)) \<and> of_nat i \<notin> fst ` set pds \<and> of_nat i \<noteq> lock_pgno ps \<and>
      fr_min f \<le> t + 1 \<and> t < fr_max f \<longrightarrow>
      i \<le> pages ps (H t) \<and> page_of (unat ps) (H t) i = page_of (unat ps) (H (fr_max f)) i)"

definition holds_file ::
  "'s replica_client \<Rightarrow> (bytes \<Rightarrow> bytes) \<Rightarrow> u32 \<Rightarrow> (u64 \<Rightarrow> bytes) \<Rightarrow> 's \<Rightarrow> file_range
    \<Rightarrow> header \<Rightarrow> (u32 \<times> bytes) list \<Rightarrow> bool" where
  "holds_file cl lz4c ps H s f h pds \<longleftrightarrow> (\<exists>b. get_ltx cl (fr_level f) (fr_min f) (fr_max f) s = Ok b \<and>
    get_ltx_range cl (fr_level f) (fr_min f) (fr_max f) 0 HEADER_SIZE s = Ok (take HEADER_SIZE b) \<and>
    is_encoding lz4c b h pds \<and> carries ps H f h pds)"

text \<open>Every listed file is there, readable, written by the encoder, and carries the history.\<close>

definition faithful ::
  "'s replica_client \<Rightarrow> (bytes \<Rightarrow> bytes) \<Rightarrow> u32 \<Rightarrow> (u64 \<Rightarrow> bytes) \<Rightarrow> 's \<Rightarrow> file_range list \<Rightarrow> bool" where
  "faithful cl lz4c ps H s files \<longleftrightarrow> history ps H \<and>
    (\<forall>f \<in> set files. \<exists>h pds. holds_file cl lz4c ps H s f h pds)"

lemma holds_file_facts:
  assumes "holds_file cl lz4c ps H s f h pds"
  shows "carries ps H f h pds" and "header_of cl f s = Ok h" and "0 < unat ps"
    and "accepts_all h 0 pds" and "h_page_size h = ps" and "unat (h_commit h) = pages ps (H (fr_max f))"
    and "\<And>pd. pd \<in> set pds \<Longrightarrow> fst pd \<noteq> 0 \<and> length (snd pd) = unat ps \<and>
      unat (fst pd) \<le> pages ps (H (fr_max f)) \<and> fst pd \<noteq> lock_pgno ps"
proof -
  from assms obtain b where b: "get_ltx_range cl (fr_level f) (fr_min f) (fr_max f) 0 HEADER_SIZE s = Ok (take HEADER_SIZE b)"
    "is_encoding lz4c b h pds" and c: "carries ps H f h pds"
    by (auto simp: holds_file_def)
  note facts = is_encoding_facts [OF b(2)]
  show "carries ps H f h pds" by fact
  show sz: "h_page_size h = ps" "unat (h_commit h) = pages ps (H (fr_max f))"
    using c by (auto simp: carries_def)
  show "accepts_all h 0 pds" by (rule facts(3))
  show "0 < unat ps"
    using header_validate_page_size [OF facts(2)] sz(1)
    by (auto simp: is_valid_page_size_def word_le_nat_alt)
  show "fst pd \<noteq> 0 \<and> length (snd pd) = unat ps \<and> unat (fst pd) \<le> pages ps (H (fr_max f)) \<and>
      fst pd \<noteq> lock_pgno ps" if "pd \<in> set pds" for pd
    using accepts_all_sizes [OF facts(3) that] sz by (simp add: word_le_nat_alt)
  have "header_decode (take HEADER_SIZE b) = Ok h"
  proof -
    obtain post where "b = file_bytes lz4c h pds post"
      using b(2) encode_file_bytes by (fastforce simp: is_encoding_def)
    then have "take HEADER_SIZE b = header_encode h @ []"
      by (simp add: file_bytes_def)
    then show ?thesis
      using header_codec.dec_enc [of h "[]"] header_validate_page_size [OF facts(2)] by simp
  qed
  then show "header_of cl f s = Ok h"
    using b(1) by (simp add: header_of_def split_beta)
qed

lemma newest_map_Cons: "newest_map (pds # pdss) = map_of pds ++ newest_map pdss"
proof (induction pdss rule: rev_induct)
  case Nil
  then show ?case by (simp add: newest_map_def)
next
  case (snoc q pdss)
  then show ?case
    using newest_map_snoc [of "pds # pdss" q] by (simp add: newest_map_snoc)
qed

lemma newest_map_rev: "map_of (concat (rev pdss)) = newest_map pdss"
  by (induction pdss rule: rev_induct) (simp_all add: newest_map_snoc, simp add: newest_map_def)

text \<open>
  What a contiguous run knows of page \<open>i\<close> of the image at its end: the newest file to hold it holds
  it as it ends up, and a page no file holds is that of the image at the start.
\<close>

lemma run_pages:
  assumes "is_run t0 plan" and "\<And>f. f \<in> set plan \<Longrightarrow> holds_file cl lz4c ps H s f (Hd f) (P f)"
    and "1 \<le> i" and "i \<le> pages ps (H (run_end t0 plan))" and "of_nat i \<noteq> lock_pgno ps"
  shows "case newest_map (map P plan) (of_nat i) of
      Some d \<Rightarrow> d = page_of (unat ps) (H (run_end t0 plan)) i
    | None \<Rightarrow> i \<le> pages ps (H t0) \<and> (\<forall>f \<in> set plan. i \<le> unat (h_commit (Hd f))) \<and>
        page_of (unat ps) (H t0) i = page_of (unat ps) (H (run_end t0 plan)) i"
  using assms(1,2,4)
proof (induction plan arbitrary: t0)
  case Nil
  then show ?case by (simp add: newest_map_def)
next
  case (Cons f fs)
  have holds: "holds_file cl lz4c ps H s f (Hd f) (P f)"
    using Cons.prems(2) by simp
  note facts = holds_file_facts [OF holds]
  have IH: "case newest_map (map P fs) (of_nat i) of
      Some d \<Rightarrow> d = page_of (unat ps) (H (run_end (fr_max f) fs)) i
    | None \<Rightarrow> i \<le> pages ps (H (fr_max f)) \<and> (\<forall>f \<in> set fs. i \<le> unat (h_commit (Hd f))) \<and>
        page_of (unat ps) (H (fr_max f)) i = page_of (unat ps) (H (run_end (fr_max f) fs)) i"
    using Cons.IH [of "fr_max f"] Cons.prems by simp
  show ?case
  proof (cases "newest_map (map P fs) (of_nat i)")
    case (Some d)
    then show ?thesis
      using IH by (simp add: newest_map_Cons map_add_def)
  next
    case None
    with IH have later: "i \<le> pages ps (H (fr_max f))" "\<forall>f \<in> set fs. i \<le> unat (h_commit (Hd f))"
      "page_of (unat ps) (H (fr_max f)) i = page_of (unat ps) (H (run_end (fr_max f) fs)) i"
      by auto
    then have "i < 2 ^ 32"
      using facts(6) unsigned_less [of "h_commit (Hd f)", where 'a = nat] by simp
    then have ui: "unat (of_nat i :: u32) = i"
      by (simp add: unsigned_of_nat take_bit_nat_eq_self)
    show ?thesis
    proof (cases "map_of (P f) (of_nat i)")
      case (Some d)
      then have "(of_nat i, d) \<in> set (P f)"
        by (rule map_of_SomeD)
      then have "d = page_of (unat ps) (H (fr_max f)) i"
        using facts(1) ui unfolding carries_def by fastforce
      then show ?thesis
        using None Some later by (simp add: newest_map_Cons map_add_def)
    next
      case absent: None
      then have "of_nat i \<notin> fst ` set (P f)"
        by (simp add: map_of_eq_None_iff)
      moreover have "fr_min f \<le> t0 + 1" "t0 < fr_max f"
        using Cons.prems(1) by auto
      ultimately have "i \<le> pages ps (H t0) \<and> page_of (unat ps) (H t0) i = page_of (unat ps) (H (fr_max f)) i"
        using facts(1) assms(3,5) later(1) unfolding carries_def by blast
      then show ?thesis
        using None absent later facts(6) by (simp add: newest_map_Cons map_add_def)
    qed
  qed
qed

section \<open>Oldest first, in memory\<close>

lemma apply_pages_run:
  assumes "length img = n * ps" and "0 < ps"
    and "\<And>pd. pd \<in> set pds \<Longrightarrow> fst pd \<noteq> 0 \<and> length (snd pd) = ps \<and> unat (fst pd) \<le> n"
    and "\<And>pd. pd \<in> set pds \<Longrightarrow> snd pd = page_of ps target (unat (fst pd))" and "n < 2 ^ 32"
  shows "\<exists>img'. rfoldM (apply_page ps) img pds = Ok img' \<and> length img' = n * ps \<and>
    (\<forall>i. 1 \<le> i \<and> i \<le> n \<longrightarrow> page_of ps img' i =
      (if of_nat i \<in> fst ` set pds then page_of ps target i else page_of ps img i))"
  using assms(1,3,4)
proof (induction pds arbitrary: img)
  case Nil
  then show ?case by simp
next
  case (Cons pd pds)
  obtain p d where pd: "pd = (p, d)" by (cases pd)
  have p: "1 \<le> unat p" "unat p \<le> n" "length d = ps" "d = page_of ps target (unat p)" "p \<noteq> 0"
    using Cons.prems(2,3) [of pd] by (auto simp: pd Suc_le_eq unat_gt_0)
  have fits: "(unat p - 1) * ps + ps \<le> length img" "unat p * ps \<le> length img"
    using page_offset [OF p(1), of ps] p(2) Cons.prems(1) by simp_all
  let ?img = "copy_at ((unat p - 1) * ps) d img"
  have step: "apply_page ps img pd = Ok ?img"
    using p fits by (simp add: apply_page_def pd Let_def not_less)
  have "length ?img = n * ps"
    using fits p(3) Cons.prems(1) by simp
  from Cons.IH [OF this] Cons.prems obtain img' where img': "rfoldM (apply_page ps) ?img pds = Ok img'"
    "length img' = n * ps" "\<forall>i. 1 \<le> i \<and> i \<le> n \<longrightarrow> page_of ps img' i =
      (if of_nat i \<in> fst ` set pds then page_of ps target i else page_of ps ?img i)"
    by auto
  have one: "page_of ps ?img i = (if of_nat i = p then page_of ps target i else page_of ps img i)"
    if i: "1 \<le> i \<and> i \<le> n" for i
  proof -
    have "unat (of_nat i :: u32) = i"
      using i assms(5) by (blast intro: unat_of_nat_u32)
    then have "i = unat p \<longleftrightarrow> of_nat i = p"
      by (metis word_unat_eq_iff)
    then show ?thesis
      using page_of_copy_at [of d ps "unat p" img i] i p fits by auto
  qed
  show ?case
    using img' one unfolding pd rfoldM.simps step [unfolded pd] rbind.simps by (intro exI [of _ img']) simp
qed

lemma apply_plan_file_run:
  assumes "lz4_frame_inverse lz4c lz4d" and "history ps H" and "holds_file cl lz4c ps H s f h pds"
    and "fr_min f \<le> t + 1" and "t < fr_max f"
  shows "apply_plan_file cl lz4d s (H t) f = Ok (H (fr_max f))"
proof -
  note facts = holds_file_facts [OF assms(3)]
  from assms(3) obtain b where b: "get_ltx cl (fr_level f) (fr_min f) (fr_max f) s = Ok b"
    and enc: "is_encoding lz4c b h pds"
    by (auto simp: holds_file_def)
  obtain post t' where e: "encode_file lz4c h pds post = Ok (b, t')" "length b < 2 ^ 64"
    using enc by (auto simp: is_encoding_def)
  let ?n = "pages ps (H (fr_max f))" and ?ps = "unat ps" and ?T = "H (fr_max f)"
  have n: "?n < 2 ^ 32"
    using facts(6) unsigned_less [of "h_commit h", where 'a = nat] by simp
  have img: "db_image ps (H t)" "db_image ps ?T"
    using assms(2) by (auto simp: history_def)
  let ?img = "set_len (?n * ?ps) (H t)"
  obtain img' where img': "rfoldM (apply_page ?ps) ?img pds = Ok img'" "length img' = ?n * ?ps"
    "\<forall>i. 1 \<le> i \<and> i \<le> ?n \<longrightarrow> page_of ?ps img' i =
      (if of_nat i \<in> fst ` set pds then page_of ?ps ?T i else page_of ?ps ?img i)"
    using apply_pages_run [of ?img ?n ?ps pds ?T] facts(1,3,7) n unfolding carries_def by auto
  have "img' = ?T"
  proof (rule page_ext [where n = ?n and ps = ?ps])
    show "length img' = ?n * ?ps" "length ?T = ?n * ?ps"
      using img'(2) img(2) by (auto simp: db_image_def)
    fix i
    assume i: "1 \<le> i" "i \<le> ?n"
    have len: "length (H t) = pages ps (H t) * ?ps"
      using img(1) by (simp add: db_image_def)
    show "page_of ?ps img' i = page_of ?ps ?T i"
    proof (cases "of_nat i = lock_pgno ps")
      case True
      then have lock: "unat (lock_pgno ps) = i"
        using unat_of_nat_u32 [OF i(2) n] by metis
      have "of_nat i \<notin> fst ` set pds"
        using facts(7) True by (metis imageE)
      then have "page_of ?ps img' i = replicate ?ps 0"
        using img'(3) i page_of_set_len [OF len i] img(1) lock by (auto simp: db_image_def)
      then show ?thesis
        using img(2) lock i by (simp add: db_image_def)
    next
      case False
      show ?thesis
      proof (cases "of_nat i \<in> fst ` set pds")
        case True
        then show ?thesis using img'(3) i by simp
      next
        case absent: False
        then have "i \<le> pages ps (H t) \<and> page_of ?ps (H t) i = page_of ?ps ?T i"
          using facts(1) i False assms(4,5) unfolding carries_def by blast
        then show ?thesis
          using img'(3) i absent page_of_set_len [OF len i] by simp
      qed
    qed
  qed
  then show ?thesis
    using b read_file_encode_run [OF assms(1) e] img'(1) facts(5,6)
    by (simp add: apply_plan_file_def split_beta Let_def)
qed

lemma apply_plan_run:
  assumes "lz4_frame_inverse lz4c lz4d" and "faithful cl lz4c ps H s files" and "set plan \<subseteq> set files"
    and "is_run t plan"
  shows "rfoldM (apply_plan_file cl lz4d s) (H t) plan = Ok (H (run_end t plan))"
  using assms(3,4)
proof (induction plan arbitrary: t)
  case Nil
  then show ?case by simp
next
  case (Cons f fs)
  obtain h pds where "history ps H" and "holds_file cl lz4c ps H s f h pds"
    using assms(2) Cons.prems(1) by (auto simp: faithful_def)
  from apply_plan_file_run [OF assms(1) this] Cons.prems(2)
  have "apply_plan_file cl lz4d s (H t) f = Ok (H (fr_max f))"
    by simp
  then show ?case
    using Cons.IH [of "fr_max f"] Cons.prems by simp
qed

section \<open>Newest first, on disk\<close>

definition is_write :: "effect \<Rightarrow> bool" where
  "is_write e = (case e of WriteAt _ _ \<Rightarrow> True | _ \<Rightarrow> False)"

abbreviation write_all_once where
  "write_all_once claim ps commit st qs \<equiv>
    foldl (\<lambda>st (p, d). write_page_once claim ps commit st p d) st qs"

lemma run_effects_append: "run_effects l (xs @ ys) = run_effects (run_effects l xs) ys"
  by (simp add: run_effects_def)

lemma run_effects_simps [simp]:
  "run_effects l [] = l" "run_effects l (e # es) = run_effects (apply_effect l e) es"
  by (simp_all add: run_effects_def)

text \<open>Whatever the page set answers, only page writes are issued.\<close>

lemma write_page_once_writes:
  "write_page_once claim ps commit (w, effs) p d = (w', effs') \<Longrightarrow>
    \<exists>new. effs' = effs @ new \<and> list_all is_write new"
  by (auto simp: write_page_once_def Let_def is_write_def split: if_splits prod.splits)

lemma each_page_writes:
  "each_page lz4d b ps (write_page_once claim ps' commit) (w, effs) elems = ((w', effs'), r) \<Longrightarrow>
    \<exists>new. effs' = effs @ new \<and> list_all is_write new"
proof (induction elems arbitrary: w effs)
  case Nil
  then show ?case by auto
next
  case (Cons e elems)
  show ?case
  proof (cases "rbind (indexed_frame b e) (\<lambda>frm. decode_page_frame lz4d frm ps)")
    case (Ok x)
    obtain w1 effs1 where one: "write_page_once claim ps' commit (w, effs) (ph_pgno (fst x)) (snd x) = (w1, effs1)"
      by (cases "write_page_once claim ps' commit (w, effs) (ph_pgno (fst x)) (snd x)")
    obtain new where "effs1 = effs @ new" "list_all is_write new"
      using write_page_once_writes [OF one] by blast
    moreover obtain new' where "effs' = effs1 @ new'" "list_all is_write new'"
      using Cons.IH [of w1 effs1] Cons.prems Ok one by (cases x) auto
    ultimately show ?thesis by simp
  qed (use Cons.prems in auto)
qed

lemma apply_files_writes:
  "apply_files claim cl lz4d ps commit s (w, effs) fs = ((w', effs'), r) \<Longrightarrow>
    \<exists>new. effs' = effs @ new \<and> list_all is_write new"
proof (induction fs arbitrary: w effs)
  case Nil
  then show ?case by auto
next
  case (Cons f fs)
  obtain lv mn mx where f: "f = (lv, mn, mx)" by (cases f)
  show ?case
  proof (cases "get_ltx cl lv mn mx s")
    case (Ok b)
    obtain w1 effs1 r1 where one: "for_each_indexed_page lz4d b ps (write_page_once claim ps commit) (w, effs) =
        ((w1, effs1), r1)"
      by (metis prod.collapse)
    have "\<exists>new. effs1 = effs @ new \<and> list_all is_write new"
    proof (cases "page_index b")
      case (Ok index)
      then show ?thesis
        using one each_page_writes by (fastforce simp: for_each_indexed_page_def)
    qed (use one in \<open>auto simp: for_each_indexed_page_def\<close>)
    then obtain new where new: "effs1 = effs @ new" "list_all is_write new" by blast
    show ?thesis
    proof (cases r1)
      case u: (Ok u)
      have "apply_files claim cl lz4d ps commit s (w1, effs1) fs = ((w', effs'), r)"
        using Cons.prems Ok one u by (simp add: f)
      from Cons.IH [OF this] obtain new' where "effs' = effs1 @ new'" "list_all is_write new'"
        by blast
      with new show ?thesis by simp
    qed (use Cons.prems Ok one new in \<open>auto simp: f\<close>)
  qed (use Cons.prems in \<open>auto simp: f\<close>)
qed

lemma apply_newest_first_writes:
  "apply_newest_first claim cl lz4d plan ps commit w s = (effs, r) \<Longrightarrow> list_all is_write effs"
  unfolding apply_newest_first_def using apply_files_writes by (fastforce split: prod.splits)

lemma each_page_run:
  "rmapM (read_entry lz4d ps b) elems = Ok pds \<Longrightarrow>
    each_page lz4d b ps f st elems = (foldl (\<lambda>st (p, d). f st p d) st pds, Ok ())"
proof (induction elems arbitrary: st pds)
  case Nil
  then show ?case by simp
next
  case (Cons e elems)
  then obtain q pds' where entry: "read_entry lz4d ps b e = Ok q" and "pds = q # pds'"
    "rmapM (read_entry lz4d ps b) elems = Ok pds'"
    by (auto simp: res_simps)
  moreover obtain ph d where "rbind (indexed_frame b e) (\<lambda>frm. decode_page_frame lz4d frm ps) = Ok (ph, d)"
    "q = (ph_pgno ph, d)"
    using entry by (auto simp: res_simps read_entry_def)
  ultimately have "rbind (indexed_frame b e) (\<lambda>frm. decode_page_frame lz4d frm ps) = Ok (ph, d)"
    "pds = (ph_pgno ph, d) # pds'" "rmapM (read_entry lz4d ps b) elems = Ok pds'"
    by auto
  then show ?case
    using Cons.IH by simp
qed

lemma apply_files_run:
  assumes "lz4_frame_inverse lz4c lz4d" and "\<And>f. f \<in> set fs \<Longrightarrow> holds_file cl lz4c ps H s f (Hd f) (P f)"
  shows "apply_files claim cl lz4d (unat ps) commit s st fs =
    (write_all_once claim (unat ps) commit st (concat (map P fs)), Ok ())"
  using assms(2)
proof (induction fs arbitrary: st)
  case Nil
  then show ?case by simp
next
  case (Cons f fs)
  obtain lv mn mx where f: "f = (lv, mn, mx)" by (cases f)
  have holds: "holds_file cl lz4c ps H s f (Hd f) (P f)"
    using Cons.prems by simp
  then obtain b where b: "get_ltx cl lv mn mx s = Ok b" "is_encoding lz4c b (Hd f) (P f)"
    by (auto simp: holds_file_def f)
  have "for_each_indexed_page lz4d b (unat ps) (write_page_once claim (unat ps) commit) st =
      (write_all_once claim (unat ps) commit st (P f), Ok ())"
    using each_page_run [OF is_encoding_entries [OF assms(1) b(2)]] is_encoding_facts(4) [OF b(2)]
      holds_file_facts(5) [OF holds]
    by (simp add: for_each_indexed_page_def)
  then show ?case
    using Cons.IH Cons.prems b(1) by (simp add: f)
qed

context page_set
begin

text \<open>
  Each page is written once, with its first data in the walk, unless it was claimed before it.
\<close>

lemma writes_newest:
  assumes "write_all_once claim ps commit (w, effs) qs = (w', effs')"
    and "\<And>q. q \<in> set qs \<Longrightarrow> length (snd q) = ps"
    and "\<And>p. 1 \<le> unat p \<Longrightarrow> unat p \<le> commit \<Longrightarrow> tracks w p"
    and "length img = commit * ps" and "l_db l = Some img" and "commit < 2 ^ 32"
  shows "\<exists>new img'. effs' = effs @ new \<and> run_effects l new = l\<lparr>l_db := Some img'\<rparr> \<and>
    length img' = commit * ps \<and>
    (\<forall>i. 1 \<le> i \<and> i \<le> commit \<longrightarrow> page_of ps img' i =
      (if claimed w (of_nat i) then page_of ps img i
       else case map_of qs (of_nat i) of Some d \<Rightarrow> d | None \<Rightarrow> page_of ps img i))"
  using assms(1-5)
proof (induction qs arbitrary: w effs img l)
  case Nil
  then show ?case by (intro exI [of _ "[]"] exI [of _ img]) auto
next
  case (Cons q qs)
  obtain p d where q: "q = (p, d)" by (cases q)
  show ?case
  proof (cases "1 \<le> unat p \<and> unat p \<le> commit")
    case False
    have skip: "map_of (q # qs) (of_nat i) = map_of qs (of_nat i)" if i: "1 \<le> i \<and> i \<le> commit" for i
    proof -
      have "unat (of_nat i :: u32) = i"
        using i assms(6) by (blast intro: unat_of_nat_u32)
      then have "of_nat i \<noteq> p"
        using i False by auto
      then show ?thesis by (simp add: q)
    qed
    have "write_all_once claim ps commit (w, effs) qs = (w', effs')"
      using Cons.prems(1) False by (simp add: q write_page_once_def Let_def split: if_splits)
    then obtain new img' where "effs' = effs @ new" "run_effects l new = l\<lparr>l_db := Some img'\<rparr>"
      "length img' = commit * ps" "\<forall>i. 1 \<le> i \<and> i \<le> commit \<longrightarrow> page_of ps img' i =
        (if claimed w (of_nat i) then page_of ps img i
         else case map_of qs (of_nat i) of Some d \<Rightarrow> d | None \<Rightarrow> page_of ps img i)"
      using Cons.IH [of w effs img l] Cons.prems(2-5) by auto
    then show ?thesis
      using skip by (intro exI [of _ new] exI [of _ img']) (auto simp del: map_of.simps)
  next
    case p: True
    obtain c w1 where c: "claim p w = (c, w1)" by (cases "claim p w")
    have t: "tracks w p"
      using Cons.prems(3) p by blast
    have laws: "c \<longleftrightarrow> \<not> claimed w p" "\<And>x. claimed w1 x \<longleftrightarrow> x = p \<or> claimed w x" "\<And>x. tracks w1 x \<longleftrightarrow> tracks w x"
      using claim_first [OF t] claim_marks [OF t] claim_tracks [of p w] c by auto
    let ?e = "if c then [WriteAt ((unat p - 1) * ps) d] else []"
    let ?img = "if c then copy_at ((unat p - 1) * ps) d img else img"
    let ?l = "l\<lparr>l_db := Some ?img\<rparr>"
    have d: "length d = ps"
      using Cons.prems(2) [of q] by (simp add: q)
    have fits: "(unat p - 1) * ps + ps \<le> length img" "unat p * ps \<le> length img"
      using page_offset [of "unat p" ps] p Cons.prems(4) by simp_all
    have eff: "run_effects l ?e = ?l"
      using Cons.prems(5) fits by (auto simp: write_at_in_range)
    have "write_all_once claim ps commit (w1, effs @ ?e) qs = (w', effs')"
      using Cons.prems(1) p c by (simp add: q write_page_once_def Let_def split: if_splits)
    moreover have "length ?img = commit * ps"
      using fits d Cons.prems(4) by simp
    ultimately obtain new img' where img': "effs' = (effs @ ?e) @ new" "run_effects ?l new = ?l\<lparr>l_db := Some img'\<rparr>"
      "length img' = commit * ps" "\<forall>i. 1 \<le> i \<and> i \<le> commit \<longrightarrow> page_of ps img' i =
        (if claimed w1 (of_nat i) then page_of ps ?img i
         else case map_of qs (of_nat i) of Some d \<Rightarrow> d | None \<Rightarrow> page_of ps ?img i)"
      using Cons.IH [of w1 "effs @ ?e" ?img ?l] Cons.prems(2,3) laws(3) by auto
    have "page_of ps img' i = (if claimed w (of_nat i) then page_of ps img i
        else case map_of (q # qs) (of_nat i) of Some d \<Rightarrow> d | None \<Rightarrow> page_of ps img i)"
      if i: "1 \<le> i \<and> i \<le> commit" for i
    proof -
      have "unat (of_nat i :: u32) = i"
        using i assms(6) by (blast intro: unat_of_nat_u32)
      then have "i = unat p \<longleftrightarrow> of_nat i = p"
        by (metis word_unat_eq_iff)
      then have pg: "page_of ps ?img i = (if c \<and> of_nat i = p then d else page_of ps img i)"
        using page_of_copy_at [of d ps "unat p" img i] i p d fits by auto
      show ?thesis
        using img'(4) [rule_format, OF i] unfolding pg laws(2)
        by (auto simp: laws(1) q split: option.splits)
    qed
    moreover have "run_effects l (?e @ new) = l\<lparr>l_db := Some img'\<rparr>"
      unfolding run_effects_append eff img'(2) by simp
    ultimately show ?thesis
      using img'(1,3) by (intro exI [of _ "?e @ new"] exI [of _ img']) simp
  qed
qed

end

text \<open>The page sets start out holding the lock page alone.\<close>

lemma dense_start:
  assumes "1 \<le> i" and "i \<le> commit" and "commit < 2 ^ 32"
    and "w = snd (dense_claim lock (replicate (commit + 1) False))"
  shows "unat (of_nat i :: u32) < length w \<and> w ! unat (of_nat i :: u32) \<longleftrightarrow> of_nat i = lock"
proof -
  have i: "unat (of_nat i :: u32) = i"
    using assms(2,3) by (rule unat_of_nat_u32)
  then have "of_nat i = lock \<longleftrightarrow> i = unat lock"
    by (metis word_unat_eq_iff)
  then show ?thesis
    using assms(1,2) i by (auto simp: assms(4) dense_claim_def nth_list_update simp del: replicate_Suc)
qed

lemma dense_tracks:
  "unat p \<le> commit \<Longrightarrow> unat p < length (snd (dense_claim lock (replicate (commit + 1) False)))"
  by (simp add: dense_claim_def del: replicate_Suc)

text \<open>
  The walk over a run, on a base image that already has the final length, has the pages no file
  holds right, and a zero lock page, produces the image at the end of the run.
\<close>

context page_set
begin

lemma walk_run:
  assumes "lz4_frame_inverse lz4c lz4d" and "history ps H"
    and "is_run t0 plan" and "\<And>f. f \<in> set plan \<Longrightarrow> holds_file cl lz4c ps H s f (Hd f) (P f)"
    and "commit = pages ps (H (run_end t0 plan))" and "commit < 2 ^ 32" and "0 < unat ps"
    and "\<And>p. 1 \<le> unat p \<Longrightarrow> unat p \<le> commit \<Longrightarrow> tracks w p"
    and "\<And>i. 1 \<le> i \<Longrightarrow> i \<le> commit \<Longrightarrow> claimed w (of_nat i) \<longleftrightarrow> of_nat i = lock_pgno ps"
    and "l_db l = Some img" and "length img = commit * unat ps"
    and "\<And>i. 1 \<le> i \<Longrightarrow> i \<le> commit \<Longrightarrow> of_nat i = lock_pgno ps \<Longrightarrow> page_of (unat ps) img i = replicate (unat ps) 0"
    and "\<And>i. 1 \<le> i \<Longrightarrow> i \<le> commit \<Longrightarrow> i \<le> pages ps (H t0) \<Longrightarrow> \<forall>f \<in> set plan. i \<le> unat (h_commit (Hd f)) \<Longrightarrow>
      of_nat i \<noteq> lock_pgno ps \<Longrightarrow> page_of (unat ps) img i = page_of (unat ps) (H t0) i"
  shows "\<exists>effs. apply_newest_first claim cl lz4d plan (unat ps) commit w s = (effs, Ok ()) \<and>
    run_effects l effs = l\<lparr>l_db := Some (H (run_end t0 plan))\<rparr>"
proof -
  let ?T = "H (run_end t0 plan)" and ?qs = "concat (map P (rev plan))"
  have files: "apply_files claim cl lz4d (unat ps) commit s (w, []) (rev plan) =
      (write_all_once claim (unat ps) commit (w, []) ?qs, Ok ())"
    by (rule apply_files_run [OF assms(1)]) (use assms(4) in simp)
  obtain w' effs where we: "write_all_once claim (unat ps) commit (w, []) ?qs = (w', effs)"
    by (cases "write_all_once claim (unat ps) commit (w, []) ?qs")
  have len: "length (snd q) = unat ps" if "q \<in> set ?qs" for q
  proof -
    have "\<exists>f \<in> set plan. q \<in> set (P f)"
      using that by force
    then obtain f where "f \<in> set plan" "q \<in> set (P f)" ..
    then show ?thesis
      using holds_file_facts(7) [OF assms(4)] by blast
  qed
  obtain img' where img': "run_effects l effs = l\<lparr>l_db := Some img'\<rparr>" "length img' = commit * unat ps"
    "\<forall>i. 1 \<le> i \<and> i \<le> commit \<longrightarrow> page_of (unat ps) img' i =
      (if claimed w (of_nat i) then page_of (unat ps) img i
       else case map_of ?qs (of_nat i) of Some d \<Rightarrow> d | None \<Rightarrow> page_of (unat ps) img i)"
    using writes_newest [OF we len assms(8) assms(11,10,6)] by auto
  have T: "db_image ps ?T"
    using assms(2) by (simp add: history_def)
  have qs: "map_of ?qs = newest_map (map P plan)"
    using newest_map_rev [of "map P plan"] by (simp add: rev_map)
  have "img' = ?T"
  proof (rule page_ext [where n = commit and ps = "unat ps"])
    show "length img' = commit * unat ps" "length ?T = commit * unat ps"
      using img'(2) T assms(5) by (auto simp: db_image_def)
    fix i
    assume i: "1 \<le> i" "i \<le> commit"
    show "page_of (unat ps) img' i = page_of (unat ps) ?T i"
    proof (cases "of_nat i = lock_pgno ps")
      case True
      then have "unat (lock_pgno ps) = i"
        using unat_of_nat_u32 [OF i(2) assms(6)] by metis
      then show ?thesis
        using img'(3) i True assms(9,12) [of i] T assms(5) by (simp add: db_image_def)
    next
      case False
      then show ?thesis
        using img'(3) i assms(5,9) assms(13) [of i] run_pages [OF assms(3,4) i(1) _ False]
        by (auto simp: qs split: option.splits)
    qed
  qed
  then show ?thesis
    using files we img'(1) by (simp add: apply_newest_first_def)
qed

end

lemma faithful_files:
  assumes "faithful cl lz4c ps H s files" and "set plan \<subseteq> set files"
  obtains Hd P where "\<And>f. f \<in> set plan \<Longrightarrow> holds_file cl lz4c ps H s f (Hd f) (P f)"
proof -
  have "\<forall>f \<in> set plan. \<exists>h pds. holds_file cl lz4c ps H s f h pds"
    using assms by (auto simp: faithful_def)
  then have "\<exists>Hd P. \<forall>f \<in> set plan. holds_file cl lz4c ps H s f (Hd f) (P f)"
    by (metis (no_types))
  then show thesis using that by blast
qed

definition settled :: "u32 \<Rightarrow> (u64 \<Rightarrow> bytes) \<Rightarrow> u64 \<Rightarrow> local_db" where
  "settled ps H t = \<lparr>l_db = Some (H t),
    l_marker = Some (Clean t ps (of_nat (pages ps (H t))) (length (H t)))\<rparr>"

lemma apply_plan_to_path_run:
  assumes "lz4_frame_inverse lz4c lz4d" and "faithful cl lz4c ps H s files" and "plan_restore files = Ok plan"
  shows "\<exists>effs. apply_plan_to_path cl lz4d plan s = (effs, Ok (run_end 0 plan)) \<and>
    run_effects l effs = settled ps H (run_end 0 plan)"
proof -
  note plan = plan_restore_Ok [OF assms(3)]
  then have sub: "set plan \<subseteq> set files" and run: "is_run 0 plan" and ne: "plan \<noteq> []"
    by blast+
  obtain Hd P where holds: "\<And>f. f \<in> set plan \<Longrightarrow> holds_file cl lz4c ps H s f (Hd f) (P f)"
    using faithful_files [OF assms(2) sub] by blast
  have hist: "history ps H"
    using assms(2) by (simp add: faithful_def)
  let ?t = "run_end 0 plan" and ?h = "Hd (last plan)"
  have fin: "fr_max (last plan) = ?t"
    using run_end_last [OF ne] by simp
  note last_facts = holds_file_facts [OF holds [OF last_in_set [OF ne]]]
  let ?commit = "pages ps (H ?t)"
  let ?pre = "[WriteMarker (Applying 0 ?t), CreateFile, SetLen (?commit * unat ps)]"
  let ?w = "snd (dense_claim (lock_pgno ps) (replicate (?commit + 1) False))"
  let ?img = "replicate (?commit * unat ps) (0 :: u8)"
  have n: "?commit < 2 ^ 32"
    using last_facts(6) fin unsigned_less [of "h_commit ?h", where 'a = nat] by simp
  have base: "run_effects l ?pre = l\<lparr>l_marker := Some (Applying 0 ?t), l_db := Some ?img\<rparr>"
    by (simp add: set_len_def)
  have zero: "page_of (unat ps) ?img i = replicate (unat ps) 0" if "1 \<le> i" "i \<le> ?commit" for i
    using page_of_set_len [of "[]" 0 "unat ps" i ?commit] that by (simp add: set_len_def)
  have none: "pages ps (H 0) = 0"
    using hist by (simp add: history_def pages_def)
  let ?l = "l\<lparr>l_marker := Some (Applying 0 ?t), l_db := Some ?img\<rparr>"
  have "\<exists>effs. apply_newest_first dense_claim cl lz4d plan (unat ps) ?commit ?w s = (effs, Ok ()) \<and>
      run_effects ?l effs = ?l\<lparr>l_db := Some (H ?t)\<rparr>"
  proof (rule dense.walk_run [OF assms(1) hist run holds refl n last_facts(3)])
    show "l_db ?l = Some ?img" "length ?img = ?commit * unat ps" by simp_all
    show "unat p < length ?w" if "unat p \<le> ?commit" for p
      using dense_tracks [OF that] .
    show "unat (of_nat i :: u32) < length ?w \<and> ?w ! unat (of_nat i :: u32) \<longleftrightarrow> of_nat i = lock_pgno ps"
      if "1 \<le> i" "i \<le> ?commit" for i
      using dense_start [OF that n refl] .
    show "page_of (unat ps) ?img i = replicate (unat ps) 0" if "1 \<le> i" "i \<le> ?commit" for i
      using zero [OF that] .
    show "page_of (unat ps) ?img i = page_of (unat ps) (H 0) i" if "1 \<le> i" "i \<le> pages ps (H 0)" for i
      using that none by simp
  qed
  then obtain effs where effs: "apply_newest_first dense_claim cl lz4d plan (unat ps) ?commit ?w s = (effs, Ok ())"
    "run_effects ?l effs = ?l\<lparr>l_db := Some (H ?t)\<rparr>"
    by blast
  have commit: "unat (h_commit ?h) = ?commit" "h_page_size ?h = ps"
    using last_facts(5,6) fin by simp_all
  then have commit_word: "h_commit ?h = of_nat ?commit"
    by (metis word_of_nat_eq_iff word_unat_eq_iff unat_of_nat_u32 n order_refl)
  have len: "length (H ?t) = ?commit * unat ps"
    using hist by (simp add: history_def db_image_def)
  have "apply_plan_to_path cl lz4d plan s =
      (?pre @ effs @ [SyncAll, WriteMarker (Clean ?t ps (h_commit ?h) (?commit * unat ps))], Ok ?t)"
    using ne last_facts(2,3) effs(1) fin commit(1,2) by (simp add: apply_plan_to_path_def Let_def)
  moreover have "run_effects l (?pre @ effs @ [SyncAll, WriteMarker (Clean ?t ps (h_commit ?h) (?commit * unat ps))]) =
      settled ps H ?t"
    unfolding run_effects_append base effs(2) by (simp add: settled_def commit_word len)
  ultimately show ?thesis by blast
qed

section \<open>A delta on an existing image\<close>

lemma delta_shape_run:
  assumes "\<And>f. f \<in> set plan \<Longrightarrow> holds_file cl lz4c ps H s f (Hd f) (P f)"
    and "ds_page_size sh = 0 \<or> ds_page_size sh = ps"
  shows "\<exists>sh'. rfoldM (delta_shape_step cl s) sh plan = Ok sh' \<and>
    (plan \<noteq> [] \<longrightarrow> ds_page_size sh' = ps \<and> ds_final_commit sh' = h_commit (Hd (last plan))) \<and>
    (\<forall>i. i \<le> unat (ds_min_commit sh') \<longleftrightarrow>
      i \<le> unat (ds_min_commit sh) \<and> (\<forall>f \<in> set plan. i \<le> unat (h_commit (Hd f))))"
  using assms
proof (induction plan arbitrary: sh)
  case Nil
  then show ?case by simp
next
  case (Cons f fs)
  let ?sh = "\<lparr>ds_page_size = ps, ds_final_commit = h_commit (Hd f),
    ds_min_commit = min (ds_min_commit sh) (h_commit (Hd f))\<rparr>"
  have f: "header_of cl f s = Ok (Hd f)" "h_page_size (Hd f) = ps"
    using holds_file_facts(2,5) Cons.prems(1) by (meson list.set_intros(1))+
  have step: "delta_shape_step cl s sh f = Ok ?sh"
    using f Cons.prems(2) by (auto simp: delta_shape_step_def)
  have m: "i \<le> unat (min (ds_min_commit sh) (h_commit (Hd f))) \<longleftrightarrow>
      i \<le> unat (ds_min_commit sh) \<and> i \<le> unat (h_commit (Hd f))" for i
    by (auto simp: min_def word_le_nat_alt)
  obtain sh' where "rfoldM (delta_shape_step cl s) ?sh fs = Ok sh'"
    "fs \<noteq> [] \<longrightarrow> ds_page_size sh' = ps \<and> ds_final_commit sh' = h_commit (Hd (last fs))"
    "\<forall>i. i \<le> unat (ds_min_commit sh') \<longleftrightarrow>
      i \<le> unat (ds_min_commit ?sh) \<and> (\<forall>f \<in> set fs. i \<le> unat (h_commit (Hd f)))"
    using Cons.IH [of ?sh] Cons.prems(1) by auto
  moreover have "sh' = ?sh" if "fs = []"
    using calculation(1) that by simp
  ultimately show ?case
    using step m by (intro exI [of _ sh']) auto
qed

lemma delta_path_run:
  assumes "lz4_frame_inverse lz4c lz4d" and "history ps H" and run: "is_run t0 plan" and ne: "plan \<noteq> []"
    and holds: "\<And>f. f \<in> set plan \<Longrightarrow> holds_file cl lz4c ps H s f (Hd f) (P f)"
    and l: "l_db l = Some (H t0)"
  shows "\<exists>shape effs. delta_shape_of cl plan s = Ok shape \<and> ds_page_size shape = ps \<and>
    apply_delta_to_path cl lz4d plan t0 shape s = (effs, Ok (run_end t0 plan)) \<and>
    run_effects l effs = settled ps H (run_end t0 plan)"
proof -
  let ?t = "run_end t0 plan" and ?h = "Hd (last plan)"
  let ?commit = "pages ps (H ?t)"
  have fin: "fr_max (last plan) = ?t"
    using run_end_last [OF ne] by simp
  note last_facts = holds_file_facts [OF holds [OF last_in_set [OF ne]]]
  obtain shape where shape: "delta_shape_of cl plan s = Ok shape" "ds_page_size shape = ps"
    "ds_final_commit shape = h_commit ?h"
    "\<forall>i. i \<le> unat (ds_min_commit shape) \<longleftrightarrow>
      i \<le> unat (- 1 :: u32) \<and> (\<forall>f \<in> set plan. i \<le> unat (h_commit (Hd f)))"
    using delta_shape_run [OF holds, of plan "\<lparr>ds_page_size = 0, ds_final_commit = 0, ds_min_commit = - 1\<rparr>"] ne
    unfolding delta_shape_of_def by auto
  let ?m = "unat (ds_min_commit shape)"
  have n: "?commit < 2 ^ 32"
    using last_facts(6) fin unsigned_less [of "h_commit ?h", where 'a = nat] by simp
  have commit: "unat (h_commit ?h) = ?commit" "h_commit ?h = of_nat ?commit"
    using last_facts(6) fin by (simp, metis word_of_nat_eq_iff word_unat_eq_iff unat_of_nat_u32 n order_refl)
  have len: "length (H t) = pages ps (H t) * unat ps" for t
    using assms(2) by (simp add: history_def db_image_def)
  let ?img = "set_len (?commit * unat ps) (set_len (?m * unat ps) (H t0))"
  let ?l = "l\<lparr>l_marker := Some (Applying t0 ?t), l_db := Some ?img\<rparr>"
  let ?pre = "[WriteMarker (Applying t0 ?t), SetLen (?m * unat ps), SetLen (?commit * unat ps)]"
  let ?w = "snd (sparse_claim (lock_pgno ps) {})"
  have base: "run_effects l ?pre = ?l"
    using l by simp
  have pg: "page_of (unat ps) ?img i = (if i \<le> ?m \<and> i \<le> pages ps (H t0) then page_of (unat ps) (H t0) i
      else replicate (unat ps) 0)" if i: "1 \<le> i" "i \<le> ?commit" for i
    using page_of_set_len [OF _ i, of "set_len (?m * unat ps) (H t0)" ?m "unat ps"]
      page_of_set_len [OF len i(1), of ?m] by auto
  have "\<exists>effs. apply_newest_first sparse_claim cl lz4d plan (unat ps) ?commit ?w s = (effs, Ok ()) \<and>
      run_effects ?l effs = ?l\<lparr>l_db := Some (H ?t)\<rparr>"
  proof (rule sparse.walk_run [OF assms(1,2) run holds refl n last_facts(3)])
    show "l_db ?l = Some ?img" "length ?img = ?commit * unat ps" by simp_all
    show "of_nat i \<in> ?w \<longleftrightarrow> of_nat i = lock_pgno ps" for i
      by (simp add: sparse_claim_def)
    show "page_of (unat ps) ?img i = replicate (unat ps) 0"
      if i: "1 \<le> i" "i \<le> ?commit" and lock: "of_nat i = lock_pgno ps" for i
    proof -
      have "unat (lock_pgno ps) = i"
        using unat_of_nat_u32 [OF i(2) n] lock by metis
      moreover have "db_image ps (H t0)"
        using assms(2) by (simp add: history_def)
      ultimately show ?thesis
        unfolding pg [OF i] by (simp add: db_image_def)
    qed
    show "page_of (unat ps) ?img i = page_of (unat ps) (H t0) i"
      if i: "1 \<le> i" "i \<le> ?commit" "i \<le> pages ps (H t0)" "\<forall>f \<in> set plan. i \<le> unat (h_commit (Hd f))" for i
    proof -
      have "i \<le> unat (- 1 :: u32)"
        using i(2) n by (simp add: unsigned_minus_1_eq_mask mask_eq_exp_minus_1)
      then show ?thesis
        using pg [OF i(1,2)] i(3,4) shape(4) by simp
    qed
  qed simp_all
  then obtain effs where effs: "apply_newest_first sparse_claim cl lz4d plan (unat ps) ?commit ?w s = (effs, Ok ())"
    "run_effects ?l effs = ?l\<lparr>l_db := Some (H ?t)\<rparr>"
    by blast
  have "apply_delta_to_path cl lz4d plan t0 shape s =
      (?pre @ effs @ [SyncAll, WriteMarker (Clean ?t ps (h_commit ?h) (?commit * unat ps))], Ok ?t)"
    using ne effs(1) last_facts(3) fin commit(1) shape(2,3) by (simp add: apply_delta_to_path_def Let_def)
  moreover have "run_effects l (?pre @ effs @ [SyncAll, WriteMarker (Clean ?t ps (h_commit ?h) (?commit * unat ps))]) =
      settled ps H ?t"
    unfolding run_effects_append base effs(2) by (simp add: settled_def commit(2) len)
  ultimately show ?thesis
    using shape(1,2) by blast
qed

section \<open>What a crash can leave behind\<close>

text \<open>
  The effects of an apply: none, or the in-flight marker first, then only changes of the file, then
  its sync and the clean marker, and those only when the apply succeeds.
\<close>

definition keeps_marker :: "effect \<Rightarrow> bool" where
  "keeps_marker e = (case e of WriteMarker _ \<Rightarrow> False | _ \<Rightarrow> True)"

definition guarded :: "effect list \<Rightarrow> bool \<Rightarrow> bool" where
  "guarded effs ok \<longleftrightarrow> effs = [] \<or>
    (\<exists>a b body. list_all keeps_marker body \<and>
      (effs = WriteMarker (Applying a b) # body \<and> \<not> ok \<or>
       (\<exists>t p c n. effs = WriteMarker (Applying a b) # body @ [SyncAll, WriteMarker (Clean t p c n)] \<and> ok)))"

fun is_ok :: "('a, 'e) result \<Rightarrow> bool" where
  "is_ok (Ok x) = True"
| "is_ok _ = False"

lemma is_ok_rmap [simp]: "is_ok (rmap f r) = is_ok r"
  by (cases r) auto

lemma writes_keep_marker: "list_all is_write effs \<Longrightarrow> list_all keeps_marker effs"
  by (fastforce simp: list_all_iff is_write_def keeps_marker_def split: effect.splits)

lemma guarded_simps [simp]: "guarded [] ok"
  by (simp add: guarded_def)

lemma guarded_ok:
  "list_all keeps_marker body \<Longrightarrow>
    guarded (WriteMarker (Applying a b) # body @ [SyncAll, WriteMarker (Clean t p c n)]) True"
  by (auto simp: guarded_def)

lemma guarded_err: "list_all keeps_marker body \<Longrightarrow> guarded (WriteMarker (Applying a b) # body) False"
  by (auto simp: guarded_def)

lemma apply_plan_to_path_guarded:
  assumes "apply_plan_to_path cl lz4d plan s = (effs, r)"
  shows "guarded effs (is_ok r)"
proof (cases "plan = []")
  case True
  then show ?thesis using assms by (simp add: apply_plan_to_path_def)
next
  case False
  show ?thesis
  proof (cases "header_of cl (last plan) s")
    case (Ok nh)
    let ?ps = "unat (h_page_size nh)" and ?commit = "unat (h_commit nh)"
    obtain effs' r' where walk: "apply_newest_first dense_claim cl lz4d plan ?ps ?commit
        (snd (dense_claim (lock_pgno (h_page_size nh)) (replicate (?commit + 1) False))) s = (effs', r')"
      by fastforce
    then have "list_all keeps_marker (CreateFile # SetLen (?commit * ?ps) # effs')"
      using writes_keep_marker [OF apply_newest_first_writes] by (simp add: keeps_marker_def)
    note guards = guarded_ok [OF this] guarded_err [OF this]
    show ?thesis
    proof (cases "?ps = 0")
      case True
      then show ?thesis
        using assms False Ok guarded_err [of "[CreateFile, SetLen (?commit * ?ps)]"]
        by (auto simp: apply_plan_to_path_def Let_def keeps_marker_def)
    next
      case nz: False
      with guards show ?thesis
        using assms False Ok walk by (cases r') (auto simp: apply_plan_to_path_def Let_def simp del: replicate_Suc)
    qed
  qed (use assms False in \<open>auto simp: apply_plan_to_path_def Let_def\<close>)
qed

lemma apply_delta_to_path_guarded:
  assumes "apply_delta_to_path cl lz4d plan t0 shape s = (effs, r)"
  shows "guarded effs (is_ok r)"
proof (cases "plan = []")
  case True
  then show ?thesis using assms by (simp add: apply_delta_to_path_def)
next
  case False
  let ?ps = "unat (ds_page_size shape)" and ?commit = "unat (ds_final_commit shape)"
  obtain effs' r' where walk: "apply_newest_first sparse_claim cl lz4d plan ?ps ?commit
      (snd (sparse_claim (lock_pgno (ds_page_size shape)) {})) s = (effs', r')"
    by fastforce
  then have "list_all keeps_marker (SetLen (unat (ds_min_commit shape) * ?ps) # SetLen (?commit * ?ps) # effs')"
    using writes_keep_marker [OF apply_newest_first_writes] by (simp add: keeps_marker_def)
  note guards = guarded_ok [OF this] guarded_err [OF this]
  show ?thesis
  proof (cases "?ps = 0")
    case True
    then show ?thesis
      using assms False guarded_err [of "[SetLen (unat (ds_min_commit shape) * ?ps), SetLen (?commit * ?ps)]"]
      by (auto simp: apply_delta_to_path_def Let_def keeps_marker_def)
  next
    case nz: False
    with guards show ?thesis
      using assms False walk by (cases r') (auto simp: apply_delta_to_path_def Let_def)
  qed
qed

lemma restore_with_files_guarded:
  "restore_to_path_with_files cl lz4d files s = (effs, r) \<Longrightarrow> guarded effs (is_ok r)"
  by (auto simp: restore_to_path_with_files_def dest: apply_plan_to_path_guarded split: result.splits)

lemma full_restore_guarded:
  "full_restore cl lz4d files reason s = (effs, r) \<Longrightarrow> guarded effs (is_ok r)"
  by (auto simp: full_restore_def dest: restore_with_files_guarded split: prod.splits)

lemma catch_up_with_guarded:
  "catch_up_with cl lz4d files l s = (effs, r) \<Longrightarrow> guarded effs (is_ok r)"
  unfolding catch_up_with_def Let_def
  by (auto dest: full_restore_guarded apply_delta_to_path_guarded
      split: option.splits marker.splits if_splits result.splits sync_error.splits prod.splits)

lemma catch_up_guarded: "catch_up cl lz4d l s = (effs, r) \<Longrightarrow> guarded effs (is_ok r)"
  by (auto simp: catch_up_def dest: catch_up_with_guarded split: result.splits)

lemma run_keeps_marker: "list_all keeps_marker effs \<Longrightarrow> l_marker (run_effects l effs) = l_marker l"
proof (induction effs arbitrary: l)
  case (Cons e effs)
  then show ?case by (cases e) (simp_all add: keeps_marker_def)
qed simp

lemma guarded_marked:
  assumes "guarded effs ok" and "k < length effs \<or> \<not> ok" and "take k effs \<noteq> []"
  shows "\<exists>a b. l_marker (run_effects l (take k effs)) = Some (Applying a b)"
proof -
  have False: "\<not> (k = 0 \<or> effs = [])"
    using assms(3) by auto
  then obtain k' where k: "k = Suc k'" by (cases k) auto
  obtain a b body where body: "list_all keeps_marker body"
    "effs = WriteMarker (Applying a b) # body \<and> \<not> ok \<or>
     (\<exists>t p c n. effs = WriteMarker (Applying a b) # body @ [SyncAll, WriteMarker (Clean t p c n)] \<and> ok)"
    using assms(1) False by (auto simp: guarded_def)
  then have "take k effs = WriteMarker (Applying a b) # take k' (if ok then body @ [SyncAll] else body)"
  proof (elim disjE exE)
    fix t p c n
    assume "effs = WriteMarker (Applying a b) # body @ [SyncAll, WriteMarker (Clean t p c n)] \<and> ok"
    then have "effs = (WriteMarker (Applying a b) # body @ [SyncAll]) @ [WriteMarker (Clean t p c n)]" "ok"
      by simp_all
    moreover from this have "k \<le> length (WriteMarker (Applying a b) # body @ [SyncAll])"
      using assms(2) by simp
    ultimately show ?thesis
      by (cases "k' - length body") (auto simp: k)
  qed (simp add: k)
  moreover have "list_all keeps_marker (take k' (if ok then body @ [SyncAll] else body))"
    using body(1) by (auto simp: list_all_iff keeps_marker_def dest: in_set_takeD)
  ultimately show ?thesis
    by (simp add: run_keeps_marker)
qed

lemma guarded_prefix:
  assumes "guarded effs ok" and "k < length effs \<or> \<not> ok"
  shows "run_effects l (take k effs) = l \<or> (\<exists>a b. l_marker (run_effects l (take k effs)) = Some (Applying a b))"
  using guarded_marked [OF assms] by (cases "take k effs = []") auto

end
