(* ===== verification/SampleReplica.thy ===== *)
theory SampleReplica
  imports RestoreCorrect
begin

text \<open>
  A concrete replica for the witnesses of the restore properties: an in-memory store holding a
  two-page base file at TXID 1 and a level-1 file for TXIDs 2 to 3 that rewrites page 1. Also the
  general fact that it rests on, that keys of different levels differ.
\<close>

section \<open>Keys of different levels\<close>

lemma hexw_inj: "n < 16 ^ w \<Longrightarrow> m < 16 ^ w \<Longrightarrow> hexw w n = hexw w m \<Longrightarrow> n = m"
proof (induction w arbitrary: n m)
  case (Suc w)
  have "hex_value (hex_char (n mod 16)) = hex_value (hex_char (m mod 16))"
    using Suc.prems(3) by simp
  then have "n mod 16 = m mod 16"
    by (simp add: hex_char_facts(1))
  moreover have "n div 16 = m div 16"
    using Suc by (simp add: less_mult_imp_div_less mult.commute)
  ultimately show ?case
    by (metis div_mult_mod_eq)
qed simp

lemma level_prefix_inj:
  assumes "prefix (level_dir cl l @ ''/'') (ltx_key cl l' a b)" and "l \<le> 9" and "l' \<le> 9"
  shows "l = l'"
proof -
  have small: "unat l < 16 ^ 4" "unat l' < 16 ^ 4"
    using assms(2,3) by (simp_all add: word_le_nat_alt)
  then have "prefix (hexw 4 (unat l) @ ''/'') (hexw 4 (unat l') @ ''/'' @ ltx_filename a b)"
    using assms(1) pad_hex_hexw [of 4 "unat l"] pad_hex_hexw [of 4 "unat l'"]
    by (auto simp: level_dir_def ltx_key_def split: if_splits)
  then have "hexw 4 (unat l) = hexw 4 (unat l')"
    by (auto simp: prefix_def append_eq_append_conv)
  with small have "unat l = unat l'"
    by (rule hexw_inj)
  then show ?thesis
    by (simp add: word_unat_eq_iff)
qed

section \<open>The replica\<close>

definition sample_replica :: "(string \<times> bytes) list" where
  "sample_replica =
    [(ltx_key sample_client 0 1 1, sample_inputs ! 0), (ltx_key sample_client 1 2 3, sample_inputs ! 1)]"

definition sample_history :: "u64 \<Rightarrow> bytes" where
  "sample_history t =
    (if t = 0 then [] else replicate 512 (if t = 1 then 7 else 9) @ replicate 512 8)"

lemma sample_objects:
  "map_of sample_replica k = (if k = ltx_key sample_client 0 1 1 then Some (sample_inputs ! 0)
    else if k = ltx_key sample_client 1 2 3 then Some (sample_inputs ! 1) else None)"
  by (simp add: sample_replica_def)

lemma sample_object_small:
  assumes "map_of sample_replica k = Some b"
  shows "length b < 2 ^ 64"
proof -
  have "is_encoding stored (sample_inputs ! i) (fst (sample_srcs ! i)) (snd (sample_srcs ! i))" if "i < 2" for i
    using list_all2_nthD2 [OF sample_srcs_encodings [unfolded encodings_def], of i] that
    by (auto simp: sample_srcs_def less_2_cases_iff)
  from this [of 0] this [of 1] show ?thesis
    using assms by (auto simp: sample_objects is_encoding_def split: if_splits)
qed

lemma ltx_key_prefix: "prefix (level_dir cl l @ ''/'') (ltx_key cl l a b)"
  by (simp add: ltx_key_def)

lemma ltx_key_level_inj:
  assumes "ltx_key cl l a b = ltx_key cl l' a' b'" and "l \<le> 9" and "l' \<le> 9"
  shows "l = l' \<and> a = a' \<and> b = b'"
  using assms level_prefix_inj [of cl l l' a' b'] ltx_key_prefix [of cl l a b] ltx_key_inj by metis

lemma sample_keys_differ: "ltx_key sample_client 0 1 1 \<noteq> ltx_key sample_client 1 2 3"
proof
  assume "ltx_key sample_client 0 1 1 = ltx_key sample_client 1 2 3"
  moreover have "(0 :: u32) \<le> 9" "(1 :: u32) \<le> 9"
    by (simp_all add: word_le_nat_alt)
  ultimately have "(0 :: u32) = 1"
    using ltx_key_level_inj by blast
  then show False by simp
qed

lemma sample_object_cases:
  assumes "map_of sample_replica k \<noteq> None"
  shows "k = ltx_key sample_client 0 1 1 \<or> k = ltx_key sample_client 1 2 3"
proof (rule ccontr)
  assume "\<not> ?thesis"
  then have "map_of sample_replica k = None"
    unfolding sample_objects by (simp only: if_False de_Morgan_disj)
  with assms show False by simp
qed

lemma sample_managed:
  assumes "l \<le> 9"
  shows "managed sample_client map_of l sample_replica"
  unfolding managed_def
proof (intro allI impI, elim conjE)
  fix k
  assume obj: "map_of sample_replica k \<noteq> None" and pre: "prefix (level_dir sample_client l @ ''/'') k"
  have "(0 :: u32) \<le> 9" "(1 :: u32) \<le> 9"
    by (simp_all add: word_le_nat_alt)
  then show "\<exists>a b. k = ltx_key sample_client l a b"
    using sample_object_cases [OF obj] pre assms level_prefix_inj by metis
qed

lemma sample_stored:
  assumes "l \<le> 9"
  shows "(a, b) \<in> stored_ranges sample_client map_of l sample_replica \<longleftrightarrow>
    (l, a, b) \<in> {(0, 1, 1), (1, 2, 3)}"
proof -
  have "(0 :: u32) \<le> 9" "(1 :: u32) \<le> 9"
    by (simp_all add: word_le_nat_alt)
  note inj = ltx_key_level_inj [OF _ assms this(1)] ltx_key_level_inj [OF _ assms this(2)]
  have "(a, b) \<in> stored_ranges sample_client map_of l sample_replica \<longleftrightarrow>
      ltx_key sample_client l a b = ltx_key sample_client 0 1 1 \<or>
      ltx_key sample_client l a b = ltx_key sample_client 1 2 3"
    by (simp add: stored_ranges_def sample_objects)
  then show ?thesis
    using inj by fastforce
qed

lemma sample_listing:
  obtains files where "list_all_levels sample_client sample_replica = Ok files"
    and "set files = {(0, 1, 1), (1, 2, 3)}"
proof -
  have st: "cl_store sample_client = mem_store"
    by (simp add: sample_client_def replica_client_new_def)
  have "\<exists>ms. os_list mem_store d s = Ok ms" for d s
    by (simp add: mem_store_def)
  then have "\<exists>fs. list_ltx sample_client l sample_replica = Ok fs" for l
    unfolding list_ltx_def st by (auto simp: res_simps)
  then obtain fs where "\<And>l. list_ltx sample_client l sample_replica = Ok (fs l)"
    by metis
  then have "\<exists>fs. list_all_ltx sample_client MAX_LEVEL sample_replica = Ok fs"
    unfolding list_all_ltx_def by (simp add: rmapM_Ok_map [where g = fs] del: upt_Suc)
  then obtain all where all: "list_all_ltx sample_client MAX_LEVEL sample_replica = Ok all" ..
  have "set (map file_triple all) = {(l, a, b). l \<le> MAX_LEVEL \<and> (a, b) \<in> stored_ranges sample_client map_of l sample_replica}"
    by (rule list_all_ltx_run [OF sample_client_ok _ all]) (use sample_managed in \<open>auto simp: MAX_LEVEL_def\<close>)
  also have "\<dots> = {(0, 1, 1), (1, 2, 3)}"
    using sample_stored by (fastforce simp: MAX_LEVEL_def)
  finally have "set (map file_triple all) = {(0, 1, 1), (1, 2, 3)}" .
  moreover have "list_all_levels sample_client sample_replica = Ok (map file_triple all)"
    by (simp add: list_all_levels_def all)
  ultimately show thesis
    by (rule that [rotated])
qed

lemma sample_pages: "t \<noteq> 0 \<Longrightarrow> pages 512 (sample_history t) = 2"
  by (simp add: pages_def sample_history_def)

lemma sample_page_1: "t \<noteq> 0 \<Longrightarrow> page_of 512 (sample_history t) 1 = replicate 512 (if t = 1 then 7 else 9)"
  by (simp add: page_of_def sample_history_def)

lemma sample_page_2: "t \<noteq> 0 \<Longrightarrow> page_of 512 (sample_history t) 2 = replicate 512 8"
  by (simp add: page_of_def sample_history_def)

lemma sample_history_ok: "history 512 sample_history"
proof -
  have "unat (lock_pgno 512) > 2"
    by simp
  then have "db_image 512 (sample_history t)" for t
    by (cases "t = 0") (auto simp: db_image_def sample_pages, auto simp: sample_history_def pages_def)
  then show ?thesis
    by (simp add: history_def sample_history_def)
qed

lemma sample_get:
  assumes "map_of sample_replica (ltx_key sample_client l a b) = Some c"
  shows "get_ltx sample_client l a b sample_replica = Ok c"
    and "100 \<le> length c \<Longrightarrow> get_ltx_range sample_client l a b 0 100 sample_replica = Ok (take 100 c)"
proof -
  have st: "cl_store sample_client = mem_store"
    by (simp add: sample_client_def replica_client_new_def)
  show "get_ltx sample_client l a b sample_replica = Ok c"
    unfolding get_ltx_def st using assms by (simp add: mem_store_def os_res_def)
  show "get_ltx_range sample_client l a b 0 100 sample_replica = Ok (take 100 c)" if "100 \<le> length c"
    unfolding get_ltx_range_def st using assms that by (simp add: mem_store_def os_res_def)
qed

lemma two_cases: "1 \<le> (i :: nat) \<Longrightarrow> i \<le> 2 \<Longrightarrow> i = 1 \<or> i = 2"
  by auto

lemma carries_512:
  assumes "h_page_size h = 512" and "h_commit h = 2" and "fr_max f \<noteq> 0" and "set pds \<subseteq> {(1, d1), (2, d2)}"
    and "d1 = replicate 512 (if fr_max f = 1 then 7 else 9)" and "d2 = replicate 512 8"
    and "1 \<in> fst ` set pds" and "2 \<in> fst ` set pds \<or> 2 \<le> fr_min f"
  shows "carries 512 sample_history f h pds"
proof -
  have t: "t \<noteq> 0" if "2 \<le> fr_min f" "fr_min f \<le> t + 1" for t
    using that by (auto simp: word_le_nat_alt)
  have pd: "snd pd = page_of 512 (sample_history (fr_max f)) (unat (fst pd))" if "pd \<in> set pds" for pd
    using assms(3-6) that sample_page_1 [of "fr_max f"] sample_page_2 [of "fr_max f"] by auto
  have i: "i \<le> pages 512 (sample_history t) \<and> page_of 512 (sample_history t) i = page_of 512 (sample_history (fr_max f)) i"
    if "1 \<le> i" "i \<le> pages 512 (sample_history (fr_max f))" "of_nat i \<notin> fst ` set pds" "fr_min f \<le> t + 1" for i t
  proof -
    have "i = 1 \<or> i = 2"
      using that(1,2) sample_pages [OF assms(3)] by auto
    moreover have "i \<noteq> 1"
      using that(3) assms(7) by (metis of_nat_1)
    ultimately have "i = 2" by simp
    then have "t \<noteq> 0"
      using assms(8) that(3,4) t by auto
    then show ?thesis
      using \<open>i = 2\<close> sample_pages sample_page_2 assms(3) by simp
  qed
  have "unat (h_commit h) = pages 512 (sample_history (fr_max f))"
    using assms(2,3) by (simp add: sample_pages)
  then show ?thesis
    using assms(1) pd i by (simp add: carries_def)
qed

lemma sample_carries_1:
  "carries 512 sample_history (0, 1, 1) (sample_header 1 1 2) [sample_page 1 7, sample_page 2 8]"
  by (rule carries_512) (simp_all add: sample_page_def)

lemma sample_carries_2:
  "carries 512 sample_history (1, 2, 3) (sample_header 2 3 2) [sample_page 1 9]"
  by (rule carries_512) (simp_all add: sample_page_def)

lemma sample_holds:
  "holds_file sample_client stored 512 sample_history sample_replica (0, 1, 1)
    (sample_header 1 1 2) [sample_page 1 7, sample_page 2 8]"
  "holds_file sample_client stored 512 sample_history sample_replica (1, 2, 3)
    (sample_header 2 3 2) [sample_page 1 9]"
proof -
  have enc: "is_encoding stored (sample_inputs ! 0) (sample_header 1 1 2) [sample_page 1 7, sample_page 2 8]"
    "is_encoding stored (sample_inputs ! 1) (sample_header 2 3 2) [sample_page 1 9]"
    using sample_srcs_encodings by (simp_all add: encodings_def sample_srcs_def sample_inputs_def)
  have len: "100 \<le> length (sample_inputs ! 0)" "100 \<le> length (sample_inputs ! 1)"
    by (simp_all add: sample_inputs_def sample_srcs_def file_bytes_def)
  show "holds_file sample_client stored 512 sample_history sample_replica (0, 1, 1)
      (sample_header 1 1 2) [sample_page 1 7, sample_page 2 8]"
    using enc(1) sample_get [of 0 1 1 "sample_inputs ! 0"] len(1) sample_carries_1
    by (simp add: holds_file_def sample_objects)
  show "holds_file sample_client stored 512 sample_history sample_replica (1, 2, 3)
      (sample_header 2 3 2) [sample_page 1 9]"
    using enc(2) sample_get [of 1 2 3 "sample_inputs ! 1"] len(2) sample_carries_2 sample_keys_differ
    by (simp add: holds_file_def sample_objects)
qed

lemma sample_faithful:
  assumes "set files = {(0, 1, 1), (1, 2, 3)}"
  shows "faithful sample_client stored 512 sample_history sample_replica files"
  using sample_holds sample_history_ok unfolding faithful_def assms by auto

lemma sample_proper: "set files = {(0, 1, 1), (1, 2, 3)} \<Longrightarrow> proper_files files"
  by (simp add: proper_files_def)

lemma sample_head: "set files = {(0, 1, 1), (1, 2, 3)} \<Longrightarrow> head_txid files = 3"
proof -
  assume set: "set files = {(0, 1, 1), (1, 2, 3)}"
  then have "3 \<le> head_txid files"
    using head_txid_ge [of "(1, 2, 3)" files] by simp
  moreover have "head_txid files \<in> {1, 3, 0}"
    using fold_max_in [of 0 "map fr_max files"] set by (auto simp: head_txid_def)
  ultimately show ?thesis by (auto simp: word_le_nat_alt)
qed

lemma sample_plan:
  assumes "set files = {(0, 1, 1), (1, 2, 3)}"
  obtains plan where "plan_restore files = Ok plan" and "run_end 0 plan = 3"
proof -
  obtain plan where plan: "plan_restore files = Ok plan"
    using plan_restore_NoSnapshot [OF sample_proper [OF assms]] assms by auto
  note ok = plan_restore_Ok [OF plan]
  have "is_run 0 [(0, 1, 1), (1, 2, 3)]" "set [(0, 1, 1), (1, 2, 3)] \<subseteq> set files"
    using assms by simp_all
  then have "run_end 0 [(0, 1, 1), (1, 2, 3)] \<le> run_end 0 plan"
    using ok by blast
  then have "3 \<le> run_end 0 plan"
    by simp
  moreover have "run_end 0 plan \<le> 3"
    using run_end_head [of plan files 0] ok sample_head [OF assms] by simp
  ultimately show thesis
    using plan that by simp
qed

end
