(* ===== verification/Reader.thy ===== *)
theory Reader
  imports SampleReplica
begin

text \<open>
  Single-page reads from the replica by ranged downloads (\<^verbatim>\<open>src/sync/reader.rs\<close>). The cache of page
  indexes is a map from file to the location of each of its pages. The lemmas show that a page read is
  the page of the restored image, whatever was read before.
\<close>

section \<open>The reader\<close>

type_synonym page_locations = "u32 \<rightharpoonup> u64 \<times> u64"

record 's reader =
  rd_client :: "'s replica_client"
  rd_plan :: "file_range list"
  rd_page_size :: u32
  rd_indexes :: "file_range \<rightharpoonup> page_locations"

definition open_plan :: "file_range list \<Rightarrow> u64 option \<Rightarrow> (file_range list, sync_error) result" where
  "open_plan files at_txid =
    (case at_txid of
       None \<Rightarrow> plan_restore files
     | Some target \<Rightarrow>
        (case plan_restore_to files target of
           Ok plan \<Rightarrow> if plan \<noteq> [] then Ok plan else Err (TxidTooOld target)
         | Err NoSnapshot \<Rightarrow> Err (TxidTooOld target)
         | r \<Rightarrow> r))"

definition reader_open ::
  "'s replica_client \<Rightarrow> u64 option \<Rightarrow> 's \<Rightarrow> ('s reader, sync_error) result" where
  "reader_open cl at_txid s =
    rbind (list_all_levels cl s) (\<lambda>files.
    rbind (open_plan files at_txid) (\<lambda>plan.
    case plan of
      [] \<Rightarrow> Panic
    | (level, mn, mx) # _ \<Rightarrow>
        rbind (of_storage (get_ltx_range cl level mn mx 0 HEADER_SIZE s)) (\<lambda>hd_bytes.
        rbind (of_ltx (header_decode hd_bytes)) (\<lambda>h.
        Ok \<lparr>rd_client = cl, rd_plan = plan, rd_page_size = h_page_size h, rd_indexes = Map.empty\<rparr>))))"

text \<open>\<^verbatim>\<open>load_index\<close> without its cache; \<^verbatim>\<open>collect\<close> into a hash map keeps the last of equal keys.\<close>

definition fetch_index ::
  "'s replica_client \<Rightarrow> 's \<Rightarrow> file_range \<Rightarrow> (page_locations, sync_error) result" where
  "fetch_index cl s key =
    (case key of (level, mn, mx) \<Rightarrow>
     rbind (of_storage (ltx_size cl level mn mx s)) (\<lambda>n.
     let sz = (of_nat n :: u64); footer_at = sz - of_nat INDEX_FOOTER_SIZE in
     rbind (of_storage (get_ltx_range cl level mn mx (unat footer_at) INDEX_FOOTER_SIZE s)) (\<lambda>footer.
     rbind (subslice 0 8 footer) (\<lambda>len_bytes.
     let index_len = (from_be len_bytes :: u64); index_start = footer_at - index_len in
     rbind (of_storage (get_ltx_range cl level mn mx (unat index_start) (unat index_len) s)) (\<lambda>ib.
     rbind (of_ltx (decode_page_index ib)) (\<lambda>elems.
     Ok (map_of (rev (map (\<lambda>e. (pi_pgno e, pi_offset e, pi_size e)) elems)))))))))"

definition load_index ::
  "file_range \<Rightarrow> 's \<Rightarrow> 's reader \<Rightarrow> (page_locations, sync_error) result \<times> 's reader" where
  "load_index key s rd =
    (case rd_indexes rd key of
       Some m \<Rightarrow> (Ok m, rd)
     | None \<Rightarrow>
        (case fetch_index (rd_client rd) s key of
           Ok m \<Rightarrow> (Ok m, rd\<lparr>rd_indexes := (rd_indexes rd)(key \<mapsto> m)\<rparr>)
         | Err e \<Rightarrow> (Err e, rd)
         | Panic \<Rightarrow> (Panic, rd)))"

text \<open>The loop of \<^verbatim>\<open>read_page\<close> over the files still to try, the newest first.\<close>

fun read_from ::
  "lz4_dec \<Rightarrow> u32 \<Rightarrow> 's \<Rightarrow> file_range list \<Rightarrow> 's reader \<Rightarrow> (bytes option, sync_error) result \<times> 's reader" where
  "read_from lz4d pgno s [] rd = (Ok None, rd)"
| "read_from lz4d pgno s (key # keys) rd =
     (case load_index key s rd of
        (Err e, rd) \<Rightarrow> (Err e, rd)
      | (Panic, rd) \<Rightarrow> (Panic, rd)
      | (Ok m, rd) \<Rightarrow>
         (case m pgno of
            None \<Rightarrow> read_from lz4d pgno s keys rd
          | Some (off, sz) \<Rightarrow>
             (case key of (level, mn, mx) \<Rightarrow>
              (rbind (of_storage (get_ltx_range (rd_client rd) level mn mx (unat off) (unat sz) s)) (\<lambda>frm.
               rbind (of_ltx (decode_page_frame lz4d frm (unat (rd_page_size rd)))) (\<lambda>(_, data).
               Ok (Some data))), rd))))"

definition read_page ::
  "lz4_dec \<Rightarrow> u32 \<Rightarrow> 's \<Rightarrow> 's reader \<Rightarrow> (bytes option, sync_error) result \<times> 's reader" where
  "read_page lz4d pgno s rd = read_from lz4d pgno s (rev (rd_plan rd)) rd"

section \<open>What a read returns\<close>

text \<open>The store answers ranged reads and size requests about a file it returns.\<close>

definition serves :: "'s replica_client \<Rightarrow> 's \<Rightarrow> file_range \<Rightarrow> bool" where
  "serves cl s f \<longleftrightarrow> (\<forall>b. get_ltx cl (fr_level f) (fr_min f) (fr_max f) s = Ok b \<longrightarrow>
    ltx_size cl (fr_level f) (fr_min f) (fr_max f) s = Ok (length b) \<and>
    (\<forall>off len. 0 < len \<and> off + len \<le> length b \<longrightarrow>
      get_ltx_range cl (fr_level f) (fr_min f) (fr_max f) off len s = Ok (take len (drop off b))))"

definition locations :: "(bytes \<Rightarrow> bytes) \<Rightarrow> (u32 \<times> bytes) list \<Rightarrow> page_locations" where
  "locations lz4c pds = map_of (index_from lz4c 100 pds)"

lemma subslice_word:
  assumes "subslice (unat a) (unat ((a :: u64) + n)) b = Ok frm"
  shows "unat a + unat n \<le> length b \<and> frm = take (unat n) (drop (unat a) b)"
proof -
  have le: "unat a \<le> unat (a + n)" "unat (a + n) \<le> length b"
    and frm: "frm = take (unat (a + n) - unat a) (drop (unat a) b)"
    using assms by (auto simp: subslice_eq_Ok)
  have "unat (a + n) = unat a + unat n"
  proof (rule ccontr)
    assume "unat (a + n) \<noteq> unat a + unat n"
    then have big: "2 ^ 64 \<le> unat a + unat n"
      by (auto simp: unat_word_ariths not_less [symmetric])
    moreover have "unat n < 2 ^ 64"
      using unsigned_less [of n, where 'a = nat] by simp
    moreover have "unat a < 2 ^ 64"
      using unsigned_less [of a, where 'a = nat] by simp
    ultimately have "unat (a + n) = unat a + unat n - 2 ^ 64"
      by (simp add: unat_word_ariths mod_if)
    then show False
      using le(1) big \<open>unat n < 2 ^ 64\<close> by simp
  qed
  then show ?thesis
    using le(2) frm by simp
qed


lemma frame_nonempty: "0 < length (frame lz4c pd)"
  by (simp add: frame_def page_header_encode_def Let_def)

text \<open>The index of an encoded file, as the reader fetches it.\<close>

lemma fetch_index_run:
  assumes "holds_file cl lz4c ps H s f h pds" and "serves cl s f"
  shows "fetch_index cl s f = Ok (locations lz4c pds)"
proof -
  obtain level mn mx where f: "f = (level, mn, mx)" by (cases f)
  from assms(1) obtain b where get: "get_ltx cl level mn mx s = Ok b" and enc: "is_encoding lz4c b h pds"
    by (auto simp: holds_file_def f)
  from enc obtain post t where e: "encode_file lz4c h pds post = Ok (b, t)" and small: "length b < 2 ^ 64"
    by (auto simp: is_encoding_def)
  note facts = is_encoding_facts [OF enc]
  let ?ix = "index_from lz4c 100 pds"
  let ?ib = "index_bytes ?ix" and ?pre = "header_encode h @ concat (map (frame lz4c) pds) @ replicate 6 0"
  let ?foot = "be64 (of_nat (length (index_bytes ?ix))) @ trailer_encode (file_trailer lz4c h pds post)"
  have b: "b = ?pre @ ?ib @ ?foot"
    using encode_file_bytes [OF e] by (simp add: file_bytes_def file_tail_def Let_def)
  have len: "length b = length ?pre + length ?ib + 24"
    by (simp only: b length_append) simp
  have ib: "0 < length ?ib"
    by (simp add: index_bytes_def append_uvarint_0)
  have nat: "unat (of_nat n :: u64) = n" if "n \<le> length b" for n
    using that small by (simp add: unsigned_of_nat take_bit_nat_eq_self)
  have at: "(of_nat (length b) :: u64) - of_nat INDEX_FOOTER_SIZE = of_nat (length ?pre + length ?ib)"
    by (simp add: len INDEX_FOOTER_SIZE_def)
  have start: "(of_nat (length ?pre + length ?ib) :: u64) - of_nat (length ?ib) = of_nat (length ?pre)"
    by simp
  have size: "ltx_size cl level mn mx s = Ok (length b)"
    and range: "\<And>off n. 0 < n \<Longrightarrow> off + n \<le> length b \<Longrightarrow>
      get_ltx_range cl level mn mx off n s = Ok (take n (drop off b))"
    using assms(2) get by (simp_all add: serves_def f)
  have foot: "get_ltx_range cl level mn mx (length ?pre + length ?ib) INDEX_FOOTER_SIZE s = Ok ?foot"
    using range [of INDEX_FOOTER_SIZE "length ?pre + length ?ib"] len
    by (simp add: INDEX_FOOTER_SIZE_def) (simp add: b)
  have index: "get_ltx_range cl level mn mx (length ?pre) (length ?ib) s = Ok ?ib"
    using range [OF ib, of "length ?pre"] len by (simp add: b)
  have "\<forall>ent \<in> set ?ix. fst ent \<noteq> 0"
    using index_from_set_pgnos [of _ lz4c 100 pds] accepts_all_sizes [OF facts(3)] by fastforce
  then have elems: "decode_page_index ?ib = Ok (map elem_of ?ix)"
    using decode_page_index_bytes [of ?ix "[]"] by simp
  have "distinct (map fst ?ix)"
    using accepts_all_sorted [OF facts(2,3)] by simp
  then have "map_of (rev ?ix) = locations lz4c pds"
    unfolding locations_def by (subst map_of_inject_set) (simp_all add: rev_map [symmetric])
  moreover have "map (\<lambda>e. (pi_pgno e, pi_offset e, pi_size e)) (map elem_of ?ix) = ?ix"
    by (simp add: elem_of_def comp_def case_prod_beta)
  moreover have "subslice 0 8 ?foot = (Ok (be64 (of_nat (length ?ib))) :: (bytes, sync_error) result)"
    by (simp add: subslice_def)
  moreover have "unat (of_nat (length ?pre + length ?ib) :: u64) = length ?pre + length ?ib"
    "unat (of_nat (length ?pre) :: u64) = length ?pre" "unat (of_nat (length ?ib) :: u64) = length ?ib"
    by (rule nat, simp only: len)+
  ultimately show ?thesis
    by (simp only: fetch_index_def f prod.case size foot index start at elems of_Ok_simps rbind.simps Let_def
        from_be_roundtrip)
qed

text \<open>The index names exactly the file's pages, and fetching one by its location decodes to it.\<close>

lemma fetch_page_run:
  assumes "lz4_frame_inverse lz4c lz4d" and "holds_file cl lz4c ps H s f h pds" and "serves cl s f"
  shows "case map_of pds p of
      None \<Rightarrow> locations lz4c pds p = None
    | Some d \<Rightarrow> \<exists>off sz frm ph. locations lz4c pds p = Some (off, sz) \<and>
        get_ltx_range cl (fr_level f) (fr_min f) (fr_max f) (unat off) (unat sz) s = Ok frm \<and>
        decode_page_frame lz4d frm (unat ps) = Ok (ph, d)"
proof -
  let ?ix = "index_from lz4c 100 pds"
  have dom: "fst ` set ?ix = fst ` set pds"
    using index_from_pgnos [of lz4c 100 pds] by (metis image_set)
  show ?thesis
  proof (cases "map_of pds p")
    case None
    then have "p \<notin> fst ` set ?ix"
      by (simp add: dom map_of_eq_None_iff)
    then have "locations lz4c pds p = None"
      unfolding locations_def map_of_eq_None_iff .
    then show ?thesis
      by (simp add: None)
  next
    case (Some d)
    obtain b where get: "get_ltx cl (fr_level f) (fr_min f) (fr_max f) s = Ok b" and enc: "is_encoding lz4c b h pds"
      using assms(2) by (auto simp: holds_file_def)
    have ps: "h_page_size h = ps"
      using holds_file_facts(5) [OF assms(2)] .
    have dist: "distinct (map fst ?ix)"
      using accepts_all_sorted [OF is_encoding_facts(2,3) [OF enc]] by simp
    have "p \<in> fst ` set ?ix"
      using Some unfolding dom by (force dest: map_of_SomeD)
    then obtain off sz where ent: "(p, off, sz) \<in> set ?ix"
      by auto
    then have loc: "locations lz4c pds p = Some (off, sz)"
      using dist by (simp add: locations_def)
    have "elem_of (p, off, sz) \<in> set (map elem_of ?ix)"
      using ent by simp
    from is_encoding_reads [OF assms(1) enc this] Some
    have "read_entry lz4d (unat ps) b (elem_of (p, off, sz)) = Ok (p, d)"
      by (simp add: ps elem_of_def)
    then obtain frm ph where frm: "indexed_frame b (elem_of (p, off, sz)) = Ok frm"
      and dec: "decode_page_frame lz4d frm (unat ps) = Ok (ph, d)"
      by (auto simp: read_entry_def res_simps)
    have "subslice (unat off) (unat (off + sz)) b = (Ok frm :: (bytes, ltx_error) result)"
      using frm by (simp add: indexed_frame_def elem_of_def Let_def split: if_splits)
    note at = subslice_word [OF this]
    have "frm \<noteq> []"
      using dec by (auto simp: decode_page_frame_def page_header_decode_def)
    then have "0 < unat sz"
      using at by (cases "unat sz = 0") auto
    then have "get_ltx_range cl (fr_level f) (fr_min f) (fr_max f) (unat off) (unat sz) s = Ok frm"
      using assms(3) get at by (simp add: serves_def)
    with Some loc dec show ?thesis
      by auto
  qed
qed

text \<open>A reader whose cached indexes are those of the replica.\<close>

definition cached :: "'s replica_client \<Rightarrow> u32 \<Rightarrow> 's \<Rightarrow> 's reader \<Rightarrow> bool" where
  "cached cl ps s rd \<longleftrightarrow> rd_client rd = cl \<and> rd_page_size rd = ps \<and>
    (\<forall>f m. rd_indexes rd f = Some m \<longrightarrow> fetch_index cl s f = Ok m)"

lemma load_index_run:
  assumes "cached cl ps s rd" and "fetch_index cl s f = Ok m"
  shows "\<exists>rd'. load_index f s rd = (Ok m, rd') \<and> cached cl ps s rd' \<and> rd_plan rd' = rd_plan rd"
proof (cases "rd_indexes rd f")
  case None
  then show ?thesis
    using assms by (auto simp: load_index_def cached_def)
next
  case (Some m')
  then have "fetch_index cl s f = Ok m'"
    using assms(1) unfolding cached_def by blast
  then show ?thesis
    using Some assms by (simp add: load_index_def)
qed

lemma read_from_run:
  assumes "lz4_frame_inverse lz4c lz4d"
    and "\<And>f. f \<in> set keys \<Longrightarrow> holds_file cl lz4c ps H s f (Hd f) (P f)" and "\<And>f. f \<in> set keys \<Longrightarrow> serves cl s f"
    and "cached cl ps s rd"
  shows "\<exists>rd'. read_from lz4d p s keys rd = (Ok (map_of (concat (map P keys)) p), rd') \<and>
    cached cl ps s rd' \<and> rd_plan rd' = rd_plan rd"
  using assms(2-4)
proof (induction keys arbitrary: rd)
  case Nil
  then show ?case by simp
next
  case (Cons f keys)
  have f: "holds_file cl lz4c ps H s f (Hd f) (P f)" "serves cl s f"
    using Cons.prems by simp_all
  obtain rd1 where load: "load_index f s rd = (Ok (locations lz4c (P f)), rd1)"
    and rd1: "cached cl ps s rd1" "rd_plan rd1 = rd_plan rd"
    using load_index_run [OF Cons.prems(3) fetch_index_run [OF f]] by blast
  note page = fetch_page_run [OF assms(1) f, of p]
  obtain level mn mx where key: "f = (level, mn, mx)" by (cases f)
  show ?case
  proof (cases "map_of (P f) p")
    case None
    then have "locations lz4c (P f) p = None"
      using page by simp
    moreover obtain rd2 where "read_from lz4d p s keys rd1 = (Ok (map_of (concat (map P keys)) p), rd2)"
      "cached cl ps s rd2" "rd_plan rd2 = rd_plan rd1"
      using Cons.IH [OF _ _ rd1(1)] Cons.prems by auto
    ultimately show ?thesis
      using load None rd1 by (simp add: map_add_def)
  next
    case (Some d)
    then show ?thesis
      using page load rd1 by (auto simp: key cached_def map_add_def)
  qed
qed

lemma read_page_run:
  assumes "lz4_frame_inverse lz4c lz4d"
    and "\<And>f. f \<in> set (rd_plan rd) \<Longrightarrow> holds_file cl lz4c ps H s f (Hd f) (P f)"
    and "\<And>f. f \<in> set (rd_plan rd) \<Longrightarrow> serves cl s f" and "cached cl ps s rd"
  shows "\<exists>rd'. read_page lz4d p s rd = (Ok (newest_map (map P (rd_plan rd)) p), rd') \<and>
    cached cl ps s rd' \<and> rd_plan rd' = rd_plan rd"
proof -
  have "map_of (concat (map P (rev (rd_plan rd)))) = newest_map (map P (rd_plan rd))"
    using newest_map_rev [of "map P (rd_plan rd)"] by (simp add: rev_map)
  then show ?thesis
    using read_from_run [OF assms(1), of "rev (rd_plan rd)" cl ps H s Hd P rd p] assms(2-4)
    by (simp add: read_page_def)
qed

lemma reader_open_run:
  assumes "reader_open cl at s = Ok rd" and "list_all_levels cl s = Ok files" and "faithful cl lz4c ps H s files"
  shows "cached cl ps s rd \<and> is_run 0 (rd_plan rd) \<and> set (rd_plan rd) \<subseteq> set files \<and> rd_plan rd \<noteq> []"
proof -
  from assms(1,2) obtain plan f fs h where plan: "open_plan files at = Ok plan" "plan = f # fs"
    and h: "header_of cl f s = Ok h"
    and rd: "rd = \<lparr>rd_client = cl, rd_plan = plan, rd_page_size = h_page_size h, rd_indexes = Map.empty\<rparr>"
  proof -
    from assms(1,2) obtain plan where op: "open_plan files at = Ok plan" and
      rest: "(case plan of [] \<Rightarrow> Panic | (level, mn, mx) # _ \<Rightarrow>
        rbind (of_storage (get_ltx_range cl level mn mx 0 HEADER_SIZE s)) (\<lambda>hd_bytes.
        rbind (of_ltx (header_decode hd_bytes)) (\<lambda>h.
        Ok \<lparr>rd_client = cl, rd_plan = plan, rd_page_size = h_page_size h, rd_indexes = Map.empty\<rparr>))) = Ok rd"
      by (auto simp: reader_open_def res_simps)
    obtain level mn mx fs where "plan = (level, mn, mx) # fs"
      using rest by (cases plan) auto
    then show thesis
      using that [of plan "(level, mn, mx)" fs] op rest by (auto simp: header_of_def res_simps)
  qed
  have "is_run 0 plan \<and> set plan \<subseteq> set files"
  proof (cases at)
    case None
    then show ?thesis
      using plan_restore_Ok [of files plan] plan(1) by (simp add: open_plan_def)
  next
    case (Some target)
    then have "plan_restore (filter (\<lambda>f. fr_max f \<le> target) files) = Ok plan"
      using plan(1) by (auto simp: open_plan_def plan_restore_to_def split: result.splits if_splits sync_error.splits)
    from plan_restore_Ok [OF this] show ?thesis by auto
  qed
  moreover have "h_page_size h = ps"
  proof -
    obtain h' pds where "holds_file cl lz4c ps H s f h' pds"
      using assms(3) calculation plan(2) by (force simp: faithful_def)
    from holds_file_facts(2,5) [OF this] h show ?thesis by simp
  qed
  ultimately show ?thesis
    using plan(2) by (simp add: rd cached_def)
qed

lemma earlier_reads:
  assumes "lz4_frame_inverse lz4c lz4d"
    and "\<And>f. f \<in> set (rd_plan rd) \<Longrightarrow> holds_file cl lz4c ps H s f (Hd f) (P f)"
    and "\<And>f. f \<in> set (rd_plan rd) \<Longrightarrow> serves cl s f" and "cached cl ps s rd"
  shows "cached cl ps s (foldl (\<lambda>rd p. snd (read_page lz4d p s rd)) rd ps') \<and>
    rd_plan (foldl (\<lambda>rd p. snd (read_page lz4d p s rd)) rd ps') = rd_plan rd"
  using assms(2-4)
proof (induction ps' arbitrary: rd)
  case Nil
  then show ?case by simp
next
  case (Cons p ps')
  obtain rd' where "snd (read_page lz4d p s rd) = rd'" "cached cl ps s rd'" "rd_plan rd' = rd_plan rd"
    using read_page_run [OF assms(1) Cons.prems, of p] by auto
  then show ?case
    using Cons.IH [of rd'] Cons.prems by simp
qed

text \<open>
  C37: on a faithful replica an opened reader returns every page of the image at its TXID (the one a
  restore builds), from whichever file holds its newest version and whatever pages it read before.
\<close>

theorem read_page_serves_the_image:
  assumes "lz4_frame_inverse lz4c lz4d" and "faithful cl lz4c ps H s files"
    and "list_all_levels cl s = Ok files" and "\<forall>f \<in> set files. serves cl s f"
    and "reader_open cl at s = Ok rd" and "1 \<le> i"
    and "i \<le> pages ps (H (run_end 0 (rd_plan rd)))" and "of_nat i \<noteq> lock_pgno ps"
  shows "fst (read_page lz4d (of_nat i) s (foldl (\<lambda>rd p. snd (read_page lz4d p s rd)) rd earlier)) =
    Ok (Some (page_of (unat ps) (H (run_end 0 (rd_plan rd))) i))"
proof -
  note rd = reader_open_run [OF assms(5,3,2)]
  obtain Hd P where holds: "\<And>f. f \<in> set (rd_plan rd) \<Longrightarrow> holds_file cl lz4c ps H s f (Hd f) (P f)"
    using faithful_files [OF assms(2)] rd by metis
  have serve: "\<And>f. f \<in> set (rd_plan rd) \<Longrightarrow> serves cl s f"
    using rd assms(4) by blast
  let ?rd = "foldl (\<lambda>rd p. snd (read_page lz4d p s rd)) rd earlier"
  have c: "cached cl ps s ?rd" "rd_plan ?rd = rd_plan rd"
    using earlier_reads [OF assms(1) holds serve] rd by blast+
  have "fst (read_page lz4d (of_nat i) s ?rd) = Ok (newest_map (map P (rd_plan rd)) (of_nat i))"
    using read_page_run [OF assms(1), of ?rd cl ps H s Hd P "of_nat i"] c holds serve by auto
  moreover have "pages ps (H 0) = 0"
    using assms(2) by (simp add: faithful_def history_def pages_def)
  ultimately show ?thesis
    using run_pages [OF conjunct1 [OF conjunct2 [OF rd]] holds assms(6-8)] assms(6) by (auto split: option.splits)
qed

lemma sample_serves: "serves sample_client sample_replica f"
proof -
  have "off + len < 2 ^ 64" if "map_of sample_replica k = Some b" "off + len \<le> length b" for k b off len
    using that sample_object_small [of k b] by simp
  then show ?thesis
    by (auto simp: serves_def get_ltx_def get_ltx_range_def ltx_size_def sample_client_def replica_client_new_def
        mem_store_def os_res_def split: option.splits)
qed

theorem read_page_serves_the_image_witness:
  "\<exists>rd. reader_open sample_client None sample_replica = Ok rd \<and>
    fst (read_page stored_dec 1 sample_replica rd) = Ok (Some (replicate 512 9))"
proof -
  obtain files where files: "list_all_levels sample_client sample_replica = Ok files"
    and set: "set files = {(0, 1, 1), (1, 2, 3)}"
    by (rule sample_listing)
  obtain plan where plan: "plan_restore files = Ok plan" "run_end 0 plan = 3"
    by (rule sample_plan [OF set])
  note ok = plan_restore_Ok [OF plan(1)]
  obtain f fs where fs: "plan = f # fs"
    using plan(2) by (cases plan) auto
  have "f \<in> set files"
    using ok fs by auto
  then obtain h pds where "holds_file sample_client stored 512 sample_history sample_replica f h pds"
    using sample_faithful [OF set] by (auto simp: faithful_def)
  from holds_file_facts(2) [OF this] have h: "header_of sample_client f sample_replica = Ok h" .
  define rd where "rd = \<lparr>rd_client = sample_client, rd_plan = plan, rd_page_size = h_page_size h,
    rd_indexes = Map.empty\<rparr>"
  have op: "reader_open sample_client None sample_replica = Ok rd"
    using h files plan(1) fs
    by (cases f) (auto simp: reader_open_def open_plan_def header_of_def rd_def res_simps)
  have end3: "run_end 0 (rd_plan rd) = 3"
    by (simp add: rd_def plan(2))
  have hyps: "(1::nat) \<le> pages 512 (sample_history (run_end 0 (rd_plan rd)))" "of_nat 1 \<noteq> lock_pgno 512"
    unfolding end3 by (simp_all add: sample_pages lock_pgno_def PENDING_BYTE_def)
  have "fst (read_page stored_dec 1 sample_replica rd) = Ok (Some (replicate 512 9))"
    using read_page_serves_the_image [OF stored_inverse sample_faithful [OF set] files _ op order_refl hyps, of "[]"]
      sample_serves sample_page_1 [of 3] by (simp add: end3)
  with op show ?thesis by blast
qed

end
