(* ===== verification/Effect.thy ===== *)
theory Effect
  imports Prelude
begin

text \<open>
  Operations that change a state and may fail: the state after the call is kept on every outcome, as a
  Rust method on \<^verbatim>\<open>&mut self\<close> keeps what it changed before it returned an error.
\<close>

type_synonym ('s, 'a, 'e) op = "'s \<Rightarrow> ('a, 'e) result \<times> 's"

named_theorems op_simps \<open>equations of operations\<close>

definition op_ret :: "'a \<Rightarrow> ('s, 'a, 'e) op" where
  "op_ret x s = (Ok x, s)"

definition op_fail :: "'e \<Rightarrow> ('s, 'a, 'e) op" where
  "op_fail e s = (Err e, s)"

text \<open>\<open>?\<close> on a value already computed.\<close>

definition op_of :: "('a, 'e) result \<Rightarrow> ('s, 'a, 'e) op" where
  "op_of r s = (r, s)"

definition op_bind :: "('s, 'a, 'e) op \<Rightarrow> ('a \<Rightarrow> ('s, 'b, 'e) op) \<Rightarrow> ('s, 'b, 'e) op" where
  "op_bind m f s =
    (case m s of (r, s') \<Rightarrow>
     (case r of Ok x \<Rightarrow> f x s' | Err e \<Rightarrow> (Err e, s') | Panic \<Rightarrow> (Panic, s')))"

text \<open>A call whose outcome is inspected instead of returned; a panic unwinds through it.\<close>

definition op_try :: "('s, 'a, 'e) op \<Rightarrow> (('a, 'e) result \<Rightarrow> ('s, 'b, 'f) op) \<Rightarrow> ('s, 'b, 'f) op" where
  "op_try m f s = (case m s of (r, s') \<Rightarrow> (case r of Panic \<Rightarrow> (Panic, s') | r \<Rightarrow> f r s'))"

definition op_map_err :: "('e \<Rightarrow> 'f) \<Rightarrow> ('s, 'a, 'e) op \<Rightarrow> ('s, 'a, 'f) op" where
  "op_map_err g m s = (case m s of (r, s') \<Rightarrow> (rmap_err g r, s'))"

definition op_get :: "('s \<Rightarrow> 'a) \<Rightarrow> ('s, 'a, 'e) op" where
  "op_get f s = (Ok (f s), s)"

definition op_modify :: "('s \<Rightarrow> 's) \<Rightarrow> ('s, unit, 'e) op" where
  "op_modify f s = (Ok (), f s)"

text \<open>An operation on a part of the state.\<close>

definition op_on :: "('s \<Rightarrow> 't) \<Rightarrow> ('t \<Rightarrow> 's \<Rightarrow> 's) \<Rightarrow> ('t, 'a, 'e) op \<Rightarrow> ('s, 'a, 'e) op" where
  "op_on get put m s = (case m (get s) of (r, t) \<Rightarrow> (r, put t s))"

fun op_each :: "('a \<Rightarrow> ('s, unit, 'e) op) \<Rightarrow> 'a list \<Rightarrow> ('s, unit, 'e) op" where
  "op_each f [] = op_ret ()"
| "op_each f (x # xs) = op_bind (f x) (\<lambda>_. op_each f xs)"

fun op_map :: "('a \<Rightarrow> ('s, 'b, 'e) op) \<Rightarrow> 'a list \<Rightarrow> ('s, 'b list, 'e) op" where
  "op_map f [] = op_ret []"
| "op_map f (x # xs) = op_bind (f x) (\<lambda>y. op_bind (op_map f xs) (\<lambda>ys. op_ret (y # ys)))"

lemmas op_defs [op_simps] = op_ret_def op_fail_def op_of_def op_get_def op_modify_def op_map_err_def op_on_def

lemma op_bind_cases:
  assumes "op_bind m f s = (r, s')"
  obtains (err) e where "m s = (Err e, s')" and "r = Err e"
  | (panic) "m s = (Panic, s')" and "r = Panic"
  | (step) x s1 where "m s = (Ok x, s1)" and "f x s1 = (r, s')"
proof -
  obtain r1 s1 where m: "m s = (r1, s1)" by (cases "m s")
  show thesis
  proof (cases r1)
    case (Ok x)
    with m assms show ?thesis by (intro step [of x s1]) (auto simp: op_bind_def)
  next
    case (Err e)
    with m assms show ?thesis by (intro err [of e]) (auto simp: op_bind_def)
  next
    case Panic
    with m assms show ?thesis by (intro panic) (auto simp: op_bind_def)
  qed
qed

lemma op_bind_Ok [op_simps]:
  "op_bind m f s = (Ok y, s') \<longleftrightarrow> (\<exists>x s1. m s = (Ok x, s1) \<and> f x s1 = (Ok y, s'))"
  by (auto simp: op_bind_def split: prod.splits result.splits)

lemma op_bind_run: "m s = (Ok x, s1) \<Longrightarrow> op_bind m f s = f x s1"
  by (simp add: op_bind_def)

lemma op_bind_stop: "m s = (Err e, s1) \<Longrightarrow> op_bind m f s = (Err e, s1)" "m s = (Panic, s1) \<Longrightarrow> op_bind m f s = (Panic, s1)"
  by (simp_all add: op_bind_def)

text \<open>A relation between the state before and after that every call respects.\<close>

definition keeps :: "('s \<Rightarrow> 's \<Rightarrow> bool) \<Rightarrow> ('s, 'a, 'e) op \<Rightarrow> bool" where
  "keeps R m \<longleftrightarrow> (\<forall>s r s'. m s = (r, s') \<longrightarrow> R s s')"

lemma keepsD: "keeps R m \<Longrightarrow> m s = (r, s') \<Longrightarrow> R s s'"
  by (simp add: keeps_def)

lemma keepsI: "(\<And>s r s'. m s = (r, s') \<Longrightarrow> R s s') \<Longrightarrow> keeps R m"
  by (simp add: keeps_def)

text \<open>What every value an operation returns satisfies, in the state it returns it in.\<close>

definition yields :: "('a \<Rightarrow> 's \<Rightarrow> bool) \<Rightarrow> ('s, 'a, 'e) op \<Rightarrow> bool" where
  "yields P m \<longleftrightarrow> (\<forall>s x s'. m s = (Ok x, s') \<longrightarrow> P x s')"

lemma yieldsD: "yields P m \<Longrightarrow> m s = (Ok x, s') \<Longrightarrow> P x s'"
  by (simp add: yields_def)

lemma yields_bind: "(\<And>x. yields P (f x)) \<Longrightarrow> yields P (op_bind m f)"
  by (auto simp: yields_def op_bind_Ok)

lemma yields_bind_post: "yields Q m \<Longrightarrow> (\<And>s x. Q x s \<Longrightarrow> P' x s) \<Longrightarrow>
    (\<And>s x y s'. P' x s \<Longrightarrow> f x s = (Ok y, s') \<Longrightarrow> P y s') \<Longrightarrow> yields P (op_bind m f)"
  by (auto simp: yields_def op_bind_Ok) blast

lemma yields_try: "(\<And>x. yields P (f x)) \<Longrightarrow> yields P (op_try m f)"
  by (auto simp: yields_def op_try_def split: prod.splits result.splits)

lemma yields_none: "yields P (op_fail e)" "yields P (op_of Panic)" "yields P (op_of (Err e))"
  by (auto simp: yields_def op_defs)

lemma yields_ret: "(\<And>s. P x s) \<Longrightarrow> yields P (op_ret x)"
  by (auto simp: yields_def op_defs)

text \<open>Preorders compose along the calls of an operation.\<close>

locale state_order =
  fixes R :: "'s \<Rightarrow> 's \<Rightarrow> bool"
  assumes refl: "R s s" and trans: "R s s' \<Longrightarrow> R s' s'' \<Longrightarrow> R s s''"
begin

lemma keeps_pure: "keeps R (op_ret x)" "keeps R (op_fail e)" "keeps R (op_of r)" "keeps R (op_get f)"
  by (auto simp: keeps_def op_defs refl)

lemma keeps_bind: "keeps R m \<Longrightarrow> (\<And>x. keeps R (f x)) \<Longrightarrow> keeps R (op_bind m f)"
proof (rule keepsI)
  fix s r s'
  assume m: "keeps R m" "\<And>x. keeps R (f x)" and run: "op_bind m f s = (r, s')"
  from run show "R s s'"
    by (cases rule: op_bind_cases) (use m in \<open>blast intro: trans dest: keepsD\<close>)+
qed

lemma keeps_try: "keeps R m \<Longrightarrow> (\<And>x. keeps R (f x)) \<Longrightarrow> keeps R (op_try m f)"
proof (rule keepsI)
  fix s r s'
  assume m: "keeps R m" "\<And>x. keeps R (f x)" and run: "op_try m f s = (r, s')"
  obtain r1 s1 where 1: "m s = (r1, s1)" by (cases "m s")
  then have "R s s1"
    using m(1) by (rule keepsD [rotated])
  moreover have "s1 = s' \<or> R s1 s'"
    using run 1 m(2) by (cases r1) (auto simp: op_try_def dest: keepsD)
  ultimately show "R s s'"
    using trans by blast
qed

lemma keeps_map_err: "keeps R m \<Longrightarrow> keeps R (op_map_err g m)"
  by (auto simp: keeps_def op_map_err_def split: prod.splits)

lemma keeps_modify: "(\<And>s. R s (f s)) \<Longrightarrow> keeps R (op_modify f)"
  by (simp add: keeps_def op_modify_def)

lemma keeps_on: "(\<And>s r t. m (get s) = (r, t) \<Longrightarrow> R s (put t s)) \<Longrightarrow> keeps R (op_on get put m)"
  by (auto simp: keeps_def op_on_def split: prod.splits)

lemma keeps_each: "(\<And>x. keeps R (f x)) \<Longrightarrow> keeps R (op_each f xs)"
  by (induction xs) (auto intro: keeps_bind keeps_pure)

lemma keeps_map: "(\<And>x. keeps R (f x)) \<Longrightarrow> keeps R (op_map f xs)"
  by (induction xs) (auto intro!: keeps_bind keeps_pure)

lemmas keeps_intros = keeps_pure keeps_bind keeps_try keeps_map_err keeps_modify keeps_on keeps_each keeps_map

end

end
