(* ===== verification/Level.thy ===== *)
theory Level
  imports RestorePlan
begin

text \<open>
  The compaction levels and their time windows (\<^verbatim>\<open>src/sync/level.rs\<close>). A duration is a number of
  nanoseconds and a \<^verbatim>\<open>SystemTime\<close> an integer number of nanoseconds since the Unix epoch (the
  platform's bound on representable times is left out). The lemmas show which configurations are
  accepted, that the cascade's two directions agree, and where an instant's window begins.
\<close>

section \<open>Levels\<close>

type_synonym duration = nat
type_synonym instant = int

abbreviation (input) secs :: "nat \<Rightarrow> duration" where
  "secs n \<equiv> n * 1000000000"

definition SNAPSHOT_LEVEL :: u32 where
  "SNAPSHOT_LEVEL = 9"

record compaction_level =
  cv_level :: u32
  cv_interval :: duration

type_synonym compaction_levels = "compaction_level list"

definition mk_level :: "u32 \<Rightarrow> duration \<Rightarrow> compaction_level" where
  "mk_level level interval = \<lparr>cv_level = level, cv_interval = interval\<rparr>"

text \<open>\<^verbatim>\<open>as u64\<close> keeps the low 64 bits; an instant before the epoch counts as the epoch.\<close>

definition truncate :: "instant \<Rightarrow> duration \<Rightarrow> instant" where
  "truncate now interval =
    (if interval = 0 then now
     else let since = nat now; truncated = (since div interval) * interval
     in int (unat (of_nat truncated :: u64)))"

definition interval_boundary :: "instant \<Rightarrow> duration \<Rightarrow> instant" where
  "interval_boundary now interval = truncate now interval"

definition level_prev_compaction_at :: "compaction_level \<Rightarrow> instant \<Rightarrow> instant" where
  "level_prev_compaction_at lvl now = truncate now (cv_interval lvl)"

definition level_next_compaction_at :: "compaction_level \<Rightarrow> instant \<Rightarrow> instant" where
  "level_next_compaction_at lvl now = level_prev_compaction_at lvl now + int (cv_interval lvl)"

section \<open>Configurations\<close>

fun dec_digits :: "nat \<Rightarrow> string" where
  "dec_digits n = (if n < 10 then [char_of (48 + n)] else dec_digits (n div 10) @ [char_of (48 + n mod 10)])"

declare dec_digits.simps [simp del]

definition invalid_levels :: "string \<Rightarrow> sync_error" where
  "invalid_levels msg = InvalidCompactionLevels msg"

text \<open>The loop of \<^verbatim>\<open>validate\<close>, from index \<open>i\<close>.\<close>

fun validate_from :: "nat \<Rightarrow> compaction_levels \<Rightarrow> (unit, sync_error) result" where
  "validate_from i [] = Ok ()"
| "validate_from i (lvl # ls) =
     (if unat (cv_level lvl) \<noteq> i then
        Err (invalid_levels (''compaction level out of order: '' @ dec_digits (unat (cv_level lvl)) @
          '', expected '' @ dec_digits i))
      else if cv_level lvl > SNAPSHOT_LEVEL - 1 then
        Err (invalid_levels (''compaction level cannot exceed '' @ dec_digits (unat (SNAPSHOT_LEVEL - 1))))
      else if cv_level lvl = 0 \<and> cv_interval lvl \<noteq> 0 then
        Err (invalid_levels ''cannot set interval on compaction level zero'')
      else if cv_level lvl \<noteq> 0 \<and> cv_interval lvl = 0 then
        Err (invalid_levels (''interval required for level '' @ dec_digits (unat (cv_level lvl))))
      else validate_from (i + 1) ls)"

definition levels_validate :: "compaction_levels \<Rightarrow> (unit, sync_error) result" where
  "levels_validate ls =
    (if ls = [] then Err (invalid_levels ''at least one compaction level is required'')
     else validate_from 0 ls)"

definition compaction_levels_new :: "compaction_levels \<Rightarrow> (compaction_levels, sync_error) result" where
  "compaction_levels_new levels = rbind (levels_validate levels) (\<lambda>_. Ok levels)"

definition default_levels :: compaction_levels where
  "default_levels = [mk_level 0 0, mk_level 1 (secs 30), mk_level 2 (secs (5 * 60)), mk_level 3 (secs (60 * 60))]"

definition get_level :: "compaction_levels \<Rightarrow> u32 \<Rightarrow> compaction_level option" where
  "get_level ls level =
    (if unat level < length ls \<and> cv_level (ls ! unat level) = level then Some (ls ! unat level) else None)"

definition max_level :: "compaction_levels \<Rightarrow> u32" where
  "max_level ls = (let n = (of_nat (length ls) :: u32) in if n = 0 then 0 else n - 1)"

definition prev_level :: "compaction_levels \<Rightarrow> u32 \<Rightarrow> u32 option" where
  "prev_level ls level =
    (if level = SNAPSHOT_LEVEL then Some (max_level ls) else if level = 0 then None else Some (level - 1))"

definition next_level :: "compaction_levels \<Rightarrow> u32 \<Rightarrow> u32 option" where
  "next_level ls level =
    (if level = SNAPSHOT_LEVEL then None
     else if level = max_level ls then Some SNAPSHOT_LEVEL else Some (level + 1))"

definition is_valid_level :: "compaction_levels \<Rightarrow> u32 \<Rightarrow> bool" where
  "is_valid_level ls level \<longleftrightarrow> level = SNAPSHOT_LEVEL \<or> unat level < length ls"

definition levels_prev_compaction_at :: "compaction_levels \<Rightarrow> u32 \<Rightarrow> instant \<Rightarrow> instant option" where
  "levels_prev_compaction_at ls level now = map_option (\<lambda>l. level_prev_compaction_at l now) (get_level ls level)"

definition levels_next_compaction_at :: "compaction_levels \<Rightarrow> u32 \<Rightarrow> instant \<Rightarrow> instant option" where
  "levels_next_compaction_at ls level now = map_option (\<lambda>l. level_next_compaction_at l now) (get_level ls level)"

section \<open>What is accepted\<close>

text \<open>A cascade: dense levels below the snapshot level, with windows on all but the first.\<close>

definition cascade :: "compaction_levels \<Rightarrow> bool" where
  "cascade ls \<longleftrightarrow> ls \<noteq> [] \<and> length ls \<le> 9 \<and>
    (\<forall>i < length ls. unat (cv_level (ls ! i)) = i \<and> (cv_interval (ls ! i) = 0 \<longleftrightarrow> i = 0))"

lemma validate_from_Ok:
  "validate_from i ls = Ok () \<longleftrightarrow> (ls = [] \<or> i + length ls \<le> 9) \<and>
    (\<forall>j < length ls. unat (cv_level (ls ! j)) = i + j \<and> (cv_interval (ls ! j) = 0 \<longleftrightarrow> i + j = 0))"
proof (induction ls arbitrary: i)
  case Nil
  then show ?case by simp
next
  case (Cons lvl ls)
  have high: "cv_level lvl > SNAPSHOT_LEVEL - 1 \<longleftrightarrow> unat (cv_level lvl) > 8"
    by (simp add: SNAPSHOT_LEVEL_def word_less_nat_alt)
  have zero: "cv_level lvl = 0 \<longleftrightarrow> unat (cv_level lvl) = 0"
    by (simp add: unat_eq_zero)
  have "validate_from i (lvl # ls) = Ok () \<longleftrightarrow> unat (cv_level lvl) = i \<and> i \<le> 8 \<and>
      (cv_interval lvl = 0 \<longleftrightarrow> i = 0) \<and> validate_from (i + 1) ls = Ok ()"
    unfolding validate_from.simps high zero by auto
  then show ?case
    unfolding Cons.IH by (auto simp: less_Suc_eq_0_disj)
qed

lemma compaction_levels_new_Ok: "compaction_levels_new ls = Ok ls' \<longleftrightarrow> ls' = ls \<and> cascade ls"
proof (cases "ls = []")
  case True
  then show ?thesis
    by (simp add: compaction_levels_new_def levels_validate_def cascade_def)
next
  case False
  then have "compaction_levels_new ls = Ok ls' \<longleftrightarrow> validate_from 0 ls = Ok () \<and> ls' = ls"
    by (auto simp: compaction_levels_new_def levels_validate_def res_simps)
  then show ?thesis
    unfolding validate_from_Ok using False by (auto simp: cascade_def)
qed

text \<open>
  C38: a level configuration is accepted, and returned as it is, exactly when it is a cascade: at
  least one level, levels numbered by their index and below the snapshot level 9, no interval on
  level 0 and a positive one on every other level.
\<close>

theorem compaction_levels_accepted:
  "compaction_levels_new ls = Ok ls' \<longleftrightarrow> ls' = ls \<and> cascade ls"
  by (rule compaction_levels_new_Ok)

lemma max_level_cascade: "cascade ls \<Longrightarrow> unat (max_level ls) = length ls - 1"
proof -
  assume c: "cascade ls"
  then have n: "unat (of_nat (length ls) :: u32) = length ls" "0 < length ls" "length ls \<le> 9"
    by (auto simp: cascade_def unsigned_of_nat take_bit_nat_eq_self)
  then have "(of_nat (length ls) :: u32) \<noteq> 0"
    by (metis unat_0 less_numeral_extra(3))
  then have "unat (max_level ls) = unat ((of_nat (length ls) :: u32) - 1)"
    by (simp add: max_level_def Let_def)
  also have "\<dots> = length ls - 1"
    using n by (subst unat_sub) (simp_all add: word_le_nat_alt Suc_leI)
  finally show ?thesis .
qed

text \<open>
  In an accepted configuration the two directions of the cascade are inverse: a level's
  compactions go to exactly the level that reads from it, up to the snapshot level.
\<close>

theorem prev_next_level_inverse:
  assumes "compaction_levels_new levels = Ok ls" and "is_valid_level ls l" and "is_valid_level ls m"
  shows "next_level ls l = Some m \<longleftrightarrow> prev_level ls m = Some l"
proof -
  have c: "cascade ls"
    using assms(1) by (simp add: compaction_levels_new_Ok)
  then have n: "length ls \<le> 9" "0 < length ls" "unat (max_level ls) = length ls - 1"
    using max_level_cascade by (auto simp: cascade_def)
  have valid: "is_valid_level ls x \<longleftrightarrow> unat x = 9 \<or> unat x < length ls" for x
    by (auto simp: is_valid_level_def SNAPSHOT_LEVEL_def word_unat_eq_iff)
  have suc: "unat (l + 1) = unat l + 1" if "unat l < 9"
    using that by (simp add: unat_word_ariths)
  have pred: "unat (m - 1) = unat m - 1" if "m \<noteq> 0"
    using that by (simp add: unat_sub word_le_nat_alt unat_gt_0 Suc_leI)
  have eq: "x = y \<longleftrightarrow> unat x = unat y" for x y :: u32
    by (simp add: word_unat_eq_iff)
  have snap: "unat SNAPSHOT_LEVEL = 9"
    by (simp add: SNAPSHOT_LEVEL_def)
  have "next_level ls l = Some m \<longleftrightarrow> unat l \<noteq> 9 \<and>
      (if unat l = length ls - 1 then unat m = 9 else unat m = unat l + 1)"
    using assms(2) n suc unfolding next_level_def valid by (auto simp: eq snap)
  also have "\<dots> \<longleftrightarrow> (if unat m = 9 then unat l = length ls - 1 else unat m \<noteq> 0 \<and> unat l = unat m - 1)"
    using assms(2,3) n unfolding valid by auto
  also have "\<dots> \<longleftrightarrow> prev_level ls m = Some l"
    using n pred unfolding prev_level_def by (auto simp: eq snap)
  finally show ?thesis .
qed

theorem prev_next_level_inverse_witness: "prev_level default_levels SNAPSHOT_LEVEL = Some 3"
proof -
  have "compaction_levels_new default_levels = Ok default_levels"
    by (simp add: compaction_levels_new_def levels_validate_def default_levels_def mk_level_def
        SNAPSHOT_LEVEL_def word_less_nat_alt)
  moreover have "is_valid_level default_levels 3" "is_valid_level default_levels SNAPSHOT_LEVEL"
    by (simp_all add: is_valid_level_def default_levels_def)
  moreover have "next_level default_levels 3 = Some SNAPSHOT_LEVEL"
    by (simp add: next_level_def max_level_def default_levels_def SNAPSHOT_LEVEL_def)
  ultimately show ?thesis
    using prev_next_level_inverse [of default_levels default_levels 3 SNAPSHOT_LEVEL] by blast
qed

section \<open>Windows\<close>

lemma truncate_eq:
  assumes "0 < iv" and "0 \<le> now" and "now < 2 ^ 64"
  shows "truncate now iv = now div int iv * int iv"
proof -
  have "nat now div iv * iv \<le> nat now"
    by simp
  also have "nat now < 2 ^ 64"
    using assms(2,3) by (simp add: nat_less_iff)
  finally have "unat (of_nat (nat now div iv * iv) :: u64) = nat now div iv * iv"
    by (simp add: unsigned_of_nat take_bit_nat_eq_self del: of_nat_mult)
  moreover have "truncate now iv = int (unat (of_nat (nat now div iv * iv) :: u64))"
    using assms(1) unfolding truncate_def Let_def by (simp only: less_not_refl2 if_False)
  ultimately have "truncate now iv = int (nat now div iv * iv)"
    by (simp only:)
  then show ?thesis
    using assms(2) by (simp add: zdiv_int)
qed

lemma truncate_bounds:
  assumes "0 < iv" and "0 \<le> now" and "now < 2 ^ 64"
  shows "int iv dvd truncate now iv" "truncate now iv \<le> now" "now < truncate now iv + int iv" "0 \<le> truncate now iv"
proof -
  have iv: "0 < int iv" using assms(1) by simp
  have "now = now div int iv * int iv + now mod int iv" by simp
  moreover have "0 \<le> now mod int iv" "now mod int iv < int iv"
    using iv by simp_all
  moreover have "0 \<le> now div int iv * int iv"
    using iv assms(2) by (simp add: pos_imp_zdiv_nonneg_iff)
  ultimately show "int iv dvd truncate now iv" "truncate now iv \<le> now"
    "now < truncate now iv + int iv" "0 \<le> truncate now iv"
    unfolding truncate_eq [OF assms] by (simp, linarith+)
qed

lemma truncate_unique:
  assumes "0 < iv" and "0 \<le> now" and "now < 2 ^ 64" and "int iv dvd b" and "b \<le> now" and "now < b + int iv"
  shows "truncate now iv = b"
proof -
  obtain q where b: "b = int iv * q" using assms(4) by (elim dvdE)
  have "now div int iv = q"
    by (rule int_div_pos_eq [of _ _ _ "now - b"]) (use assms(5,6) b in auto)
  then show ?thesis
    using b by (simp add: truncate_eq [OF assms(1-3)])
qed

text \<open>
  C39: until 2554 (below \<open>2^64\<close> nanoseconds) a level's window starts at the one multiple of its
  interval, counted from the Unix epoch, that lies at most one interval before the instant, and the
  next compaction is the first multiple after it.
\<close>

theorem window_alignment:
  assumes "0 < cv_interval lvl" and "0 \<le> now" and "now < 2 ^ 64"
  shows "level_prev_compaction_at lvl now = b \<and> level_next_compaction_at lvl now = c \<longleftrightarrow>
    int (cv_interval lvl) dvd b \<and> b \<le> now \<and> now < c \<and> c = b + int (cv_interval lvl)"
  using truncate_bounds [OF assms] truncate_unique [OF assms, of b]
  by (auto simp: level_prev_compaction_at_def level_next_compaction_at_def)

theorem window_alignment_witness:
  "level_prev_compaction_at (mk_level 1 (secs 30)) 95000000000 = 90000000000"
  using window_alignment [of "mk_level 1 (secs 30)" 95000000000 90000000000 120000000000]
  by (simp add: mk_level_def)

end
