(* ===== verification/Db.thy ===== *)
theory Db
  imports Effect RestorePlan Level
begin

text \<open>
  The database handle (\<^verbatim>\<open>src/db/mod.rs\<close>) and the process lock (\<^verbatim>\<open>src/lock.rs\<close>). SQLite, \<^verbatim>\<open>flock\<close>, the
  clock and the disk are outside the program: the record \<open>host\<close> of the calls made to them, on an
  abstract world \<open>'w\<close> that any call may change (other connections write meanwhile). The handle
  carries the world it acts on. SQL is the text the code sends.
\<close>

section \<open>The host\<close>

datatype flock_result = FlockOk | FlockWouldBlock | FlockFailed io_error

text \<open>
  A row comes back as its integer columns. \<open>ho_read\<close> and \<open>ho_len\<close> are a file's bytes and size;
  \<open>ho_fault\<close> says whether the next operation on a local file fails.
\<close>

record 'w host =
  ho_open :: "string \<Rightarrow> ('w, unit, db_error) op"
  ho_busy_timeout :: "duration \<Rightarrow> ('w, unit, db_error) op"
  ho_pragma_update :: "string \<Rightarrow> int \<Rightarrow> ('w, unit, db_error) op"
  ho_batch :: "string \<Rightarrow> ('w, unit, db_error) op"
  ho_query_text :: "string \<Rightarrow> ('w, string, db_error) op"
  ho_query_row :: "string \<Rightarrow> ('w, int list, db_error) op"
  ho_query_optional :: "string \<Rightarrow> ('w, int list option, db_error) op"
  ho_persist_wal :: "('w, int, db_error) op"
  ho_flock :: "string \<Rightarrow> 'w \<Rightarrow> flock_result \<times> 'w"
  ho_read :: "string \<Rightarrow> ('w, bytes, io_error) op"
  ho_len :: "string \<Rightarrow> ('w, nat, io_error) op"
  ho_fault :: "'w \<Rightarrow> io_error option \<times> 'w"
  ho_now :: "'w \<Rightarrow> instant \<times> 'w"

section \<open>The handle\<close>

definition DEFAULT_BUSY_TIMEOUT :: duration where
  "DEFAULT_BUSY_TIMEOUT = secs 1"

definition SEQ_TABLE :: string where
  "SEQ_TABLE = ''_literstream_seq''"

datatype checkpoint_mode = Passive | Full | Restart | Truncate

fun as_sql :: "checkpoint_mode \<Rightarrow> string" where
  "as_sql Passive = ''PASSIVE''"
| "as_sql Full = ''FULL''"
| "as_sql Restart = ''RESTART''"
| "as_sql Truncate = ''TRUNCATE''"

record checkpoint_result =
  cr_busy :: bool
  cr_log_frames :: int
  cr_checkpointed_frames :: int

definition fully_checkpointed :: "checkpoint_result \<Rightarrow> bool" where
  "fully_checkpointed r \<longleftrightarrow> \<not> cr_busy r \<and> cr_log_frames r = cr_checkpointed_frames r"

record 'w db =
  d_path :: string
  d_wal_path :: string
  d_page_size :: u32
  d_locked :: bool
  d_world :: 'w

definition on_world :: "('w, 'a, 'e) op \<Rightarrow> ('w db, 'a, 'e) op" where
  "on_world = op_on d_world (\<lambda>w d. d\<lparr>d_world := w\<rparr>)"

text \<open>\<^verbatim>\<open>row.get(i)\<close> as an integer, and as a \<^verbatim>\<open>u32\<close>, which fails out of range.\<close>

definition row_get :: "nat \<Rightarrow> int list \<Rightarrow> (int, db_error) result" where
  "row_get i row = (if i < length row then Ok (row ! i) else Err Sqlite)"

definition row_get_u32 :: "nat \<Rightarrow> int list \<Rightarrow> (u32, db_error) result" where
  "row_get_u32 i row =
    rbind (row_get i row) (\<lambda>n. if 0 \<le> n \<and> n < 2 ^ 32 then Ok (of_int n) else Err Sqlite)"

definition ascii_lower :: "char \<Rightarrow> char" where
  "ascii_lower c = (let n = of_char c :: nat in if 65 \<le> n \<and> n \<le> 90 then char_of (n + 32) else c)"

definition create_seq_sql :: string where
  "create_seq_sql =
    ''CREATE TABLE IF NOT EXISTS '' @ SEQ_TABLE @ '' (id INTEGER PRIMARY KEY, seq INTEGER);'' @
    CHR 0x0A # replicate 13 CHR '' '' @ ''INSERT OR IGNORE INTO '' @ SEQ_TABLE @ '' (id, seq) VALUES (1, 0);''"

definition set_persist_wal :: "'w host \<Rightarrow> ('w, unit, db_error) op" where
  "set_persist_wal ho =
    op_bind (ho_persist_wal ho) (\<lambda>rc.
    if rc \<noteq> 0 then op_fail (FileControl ''persist_wal'' rc) else op_ret ())"

definition open_with_busy_timeout :: "'w host \<Rightarrow> string \<Rightarrow> duration \<Rightarrow> 'w \<Rightarrow> ('w db, db_error) result \<times> 'w" where
  "open_with_busy_timeout ho path busy_timeout =
    op_bind (ho_open ho path) (\<lambda>_.
    op_bind (ho_busy_timeout ho busy_timeout) (\<lambda>_.
    op_bind (ho_pragma_update ho ''wal_autocheckpoint'' 0) (\<lambda>_.
    op_bind (ho_query_text ho ''PRAGMA journal_mode=WAL'') (\<lambda>mode.
    if List.map ascii_lower mode \<noteq> ''wal'' then op_fail (NotWalMode mode) else
    op_bind (set_persist_wal ho) (\<lambda>_.
    op_bind (ho_query_row ho ''PRAGMA page_size'') (\<lambda>row.
    op_bind (op_of (row_get_u32 0 row)) (\<lambda>page_size.
    op_bind (ho_batch ho create_seq_sql) (\<lambda>_ w.
    (Ok \<lparr>d_path = path, d_wal_path = path @ ''-wal'', d_page_size = page_size, d_locked = False,
      d_world = w\<rparr>, w)))))))))"

definition db_open :: "'w host \<Rightarrow> string \<Rightarrow> 'w \<Rightarrow> ('w db, db_error) result \<times> 'w" where
  "db_open ho path = open_with_busy_timeout ho path DEFAULT_BUSY_TIMEOUT"

definition bump_sql :: string where
  "bump_sql =
    ''INSERT INTO '' @ SEQ_TABLE @ '' (id, seq) VALUES (1, 1)'' @ CHR 0x0A # replicate 13 CHR '' '' @
    ''ON CONFLICT(id) DO UPDATE SET seq = seq + 1''"

definition bump_seq :: "'w host \<Rightarrow> ('w db, unit, db_error) op" where
  "bump_seq ho = on_world (ho_batch ho bump_sql)"

text \<open>\<^verbatim>\<open>metadata(..).map(|m| m.len()).unwrap_or(0)\<close>\<close>

definition wal_size :: "'w host \<Rightarrow> ('w db, nat, 'e) op" where
  "wal_size ho d =
    op_try (on_world (ho_len ho (d_wal_path d))) (\<lambda>r. op_ret (case r of Ok n \<Rightarrow> n | _ \<Rightarrow> 0)) d"

definition wal_frame_count :: "'w host \<Rightarrow> ('w db, nat, 'e) op" where
  "wal_frame_count ho d =
    op_bind (wal_size ho) (\<lambda>sz.
    op_ret (let frame_size = 24 + unat (d_page_size d) in if sz \<le> 32 then 0 else (sz - 32) div frame_size)) d"

definition count_sql :: string where
  "count_sql = ''SELECT COUNT(1) FROM '' @ SEQ_TABLE"

definition acquire_read_lock :: "'w host \<Rightarrow> ('w db, unit, db_error) op" where
  "acquire_read_lock ho d =
    (if d_locked d then (Ok (), d) else
     op_bind (on_world (ho_batch ho ''BEGIN'')) (\<lambda>_.
     op_bind (on_world (ho_query_row ho count_sql)) (\<lambda>row.
     op_bind (op_of (row_get 0 row)) (\<lambda>_.
     op_modify (\<lambda>d. d\<lparr>d_locked := True\<rparr>)))) d)"

definition release_read_lock :: "'w host \<Rightarrow> ('w db, unit, db_error) op" where
  "release_read_lock ho d =
    (if \<not> d_locked d then (Ok (), d) else
     op_bind (on_world (ho_batch ho ''ROLLBACK'')) (\<lambda>_.
     op_modify (\<lambda>d. d\<lparr>d_locked := False\<rparr>)) d)"

definition checkpoint_sql :: "checkpoint_mode \<Rightarrow> string" where
  "checkpoint_sql mode = ''PRAGMA wal_checkpoint('' @ as_sql mode @ '')''"

definition checkpoint_row :: "int list \<Rightarrow> (checkpoint_result, db_error) result" where
  "checkpoint_row row =
    rbind (row_get 0 row) (\<lambda>busy.
    rbind (row_get 1 row) (\<lambda>log_frames.
    rbind (row_get 2 row) (\<lambda>checkpointed.
    Ok \<lparr>cr_busy = (busy \<noteq> 0), cr_log_frames = log_frames, cr_checkpointed_frames = checkpointed\<rparr>)))"

definition checkpoint :: "'w host \<Rightarrow> checkpoint_mode \<Rightarrow> bool \<Rightarrow> ('w db, checkpoint_result, db_error) op" where
  "checkpoint ho mode restart_wal d =
    (let had_lock = d_locked d in
     op_bind (if had_lock then release_read_lock ho else op_ret ()) (\<lambda>_.
     op_bind (on_world (ho_query_row ho (checkpoint_sql mode))) (\<lambda>row.
     op_bind (op_of (checkpoint_row row)) (\<lambda>res.
     op_bind (if restart_wal \<and> mode = Passive \<and> \<not> cr_busy res then bump_seq ho else op_ret ()) (\<lambda>_.
     op_bind (if had_lock then acquire_read_lock ho else op_ret ()) (\<lambda>_.
     op_ret res))))) d)"

definition journal_mode :: "'w host \<Rightarrow> ('w db, string, db_error) op" where
  "journal_mode ho = on_world (ho_query_text ho ''PRAGMA journal_mode'')"

definition wal_autocheckpoint :: "'w host \<Rightarrow> ('w db, int, db_error) op" where
  "wal_autocheckpoint ho =
    op_bind (on_world (ho_query_row ho ''PRAGMA wal_autocheckpoint'')) (\<lambda>row. op_of (row_get 0 row))"

definition db_seq :: "'w host \<Rightarrow> ('w db, int option, db_error) op" where
  "db_seq ho =
    op_bind (on_world (ho_query_optional ho (''SELECT seq FROM '' @ SEQ_TABLE @ '' WHERE id=1''))) (\<lambda>r.
    case r of None \<Rightarrow> op_ret None | Some row \<Rightarrow> op_bind (op_of (row_get 0 row)) (\<lambda>n. op_ret (Some n)))"

section \<open>The process lock\<close>

text \<open>For a path that ends in a file name; \<^verbatim>\<open>file_name()\<close> of one that does not is nothing.\<close>

definition path_parent :: "string \<Rightarrow> string" where
  "path_parent p =
    (let d = rev (dropWhile (\<lambda>c. c \<noteq> CHR ''/'') (rev p)) in if length d \<le> 1 then d else butlast d)"

definition path_join :: "string \<Rightarrow> string \<Rightarrow> string" where
  "path_join dir name =
    (if dir = [] \<or> last dir = CHR ''/'' then dir @ name else dir @ ''/'' @ name)"

definition lock_path_for :: "string \<Rightarrow> string" where
  "lock_path_for db_path =
    (let name = (if path_filename db_path = '''' then ''db'' else path_filename db_path)
     in path_join (path_parent db_path) (''.'' @ name @ ''.literstream.lock''))"

text \<open>A local file operation: it fails when the disk does, and has no effect then.\<close>

definition fs_op :: "'w host \<Rightarrow> ('w, unit, io_error) op" where
  "fs_op ho w = (case ho_fault ho w of (None, w) \<Rightarrow> (Ok (), w) | (Some e, w) \<Rightarrow> (Err e, w))"

definition process_lock_acquire :: "'w host \<Rightarrow> string \<Rightarrow> ('w, string, lock_error) op" where
  "process_lock_acquire ho db_path =
    (let path = lock_path_for db_path in
     op_bind (op_map_err LockIo (fs_op ho)) (\<lambda>_ w.
     case ho_flock ho path w of
       (FlockOk, w) \<Rightarrow> (Ok path, w)
     | (FlockWouldBlock, w) \<Rightarrow> (Err (Held path), w)
     | (FlockFailed e, w) \<Rightarrow> (Err (LockIo e), w)))"

section \<open>The read transaction\<close>

text \<open>
  What SQLite documents of transactions, with \<open>txn\<close> telling whether the connection is in one: BEGIN fails inside a
  transaction; a statement that fails opens none, but may end the one there is; outside of one, a statement leaves
  none open. Only the statements of a checkpoint are spoken of.
\<close>

definition txn_law :: "'w host \<Rightarrow> ('w \<Rightarrow> bool) \<Rightarrow> bool" where
  "txn_law ho txn \<longleftrightarrow> (\<forall>w r w'.
    (ho_batch ho ''BEGIN'' w = (r, w') \<longrightarrow> (if r = Ok () then \<not> txn w \<and> txn w' else txn w' \<longrightarrow> txn w)) \<and>
    (ho_batch ho ''ROLLBACK'' w = (r, w') \<longrightarrow> (if r = Ok () then \<not> txn w' else txn w' = txn w)) \<and>
    (ho_batch ho bump_sql w = (r, w') \<longrightarrow> txn w' \<longrightarrow> txn w)) \<and>
    (\<forall>sql \<in> insert count_sql (range checkpoint_sql). \<forall>w r w'. ho_query_row ho sql w = (r, w') \<longrightarrow>
      (txn w' \<longrightarrow> txn w) \<and> (\<forall>row. r = Ok row \<longrightarrow> txn w' = txn w))"

lemma on_world_run: "on_world m d = (r, d') \<longleftrightarrow> (\<exists>w. m (d_world d) = (r, w) \<and> d' = d\<lparr>d_world := w\<rparr>)"
  by (auto simp: on_world_def op_on_def split: prod.splits)

lemma txn_lawD:
  assumes "txn_law ho txn"
  shows "on_world (ho_batch ho ''BEGIN'') d = (r, d') \<Longrightarrow> d_locked d' = d_locked d \<and>
      (if r = Ok () then \<not> txn (d_world d) \<and> txn (d_world d') else txn (d_world d') \<longrightarrow> txn (d_world d))"
    and "on_world (ho_batch ho ''ROLLBACK'') d = (r, d') \<Longrightarrow> d_locked d' = d_locked d \<and>
      (if r = Ok () then \<not> txn (d_world d') else txn (d_world d') = txn (d_world d))"
    and "on_world (ho_batch ho bump_sql) d = (r, d') \<Longrightarrow> d_locked d' = d_locked d \<and> (txn (d_world d') \<longrightarrow> txn (d_world d))"
    and "on_world (ho_query_row ho sql) d = (q, d') \<Longrightarrow> sql \<in> insert count_sql (range checkpoint_sql) \<Longrightarrow>
      d_locked d' = d_locked d \<and> (txn (d_world d') \<longrightarrow> txn (d_world d)) \<and> (\<forall>row. q = Ok row \<longrightarrow> txn (d_world d') = txn (d_world d))"
proof -
  have start: "ho_batch ho ''BEGIN'' w = (r, w') \<Longrightarrow> (if r = Ok () then \<not> txn w \<and> txn w' else txn w' \<longrightarrow> txn w)"
    and rollback: "ho_batch ho ''ROLLBACK'' w = (r, w') \<Longrightarrow> (if r = Ok () then \<not> txn w' else txn w' = txn w)"
    and bump: "ho_batch ho bump_sql w = (r, w') \<Longrightarrow> txn w' \<longrightarrow> txn w"
    and row: "sql \<in> insert count_sql (range checkpoint_sql) \<Longrightarrow> ho_query_row ho sql w = (q, w') \<Longrightarrow>
      (txn w' \<longrightarrow> txn w) \<and> (\<forall>row. q = Ok row \<longrightarrow> txn w' = txn w)" for w w'
    using assms unfolding txn_law_def by blast+
  show "on_world (ho_batch ho ''BEGIN'') d = (r, d') \<Longrightarrow> d_locked d' = d_locked d \<and>
      (if r = Ok () then \<not> txn (d_world d) \<and> txn (d_world d') else txn (d_world d') \<longrightarrow> txn (d_world d))"
    using start unfolding on_world_run by fastforce
  show "on_world (ho_batch ho ''ROLLBACK'') d = (r, d') \<Longrightarrow> d_locked d' = d_locked d \<and>
      (if r = Ok () then \<not> txn (d_world d') else txn (d_world d') = txn (d_world d))"
    using rollback unfolding on_world_run by fastforce
  show "on_world (ho_batch ho bump_sql) d = (r, d') \<Longrightarrow> d_locked d' = d_locked d \<and> (txn (d_world d') \<longrightarrow> txn (d_world d))"
    using bump unfolding on_world_run by fastforce
  show "on_world (ho_query_row ho sql) d = (q, d') \<Longrightarrow> sql \<in> insert count_sql (range checkpoint_sql) \<Longrightarrow>
      d_locked d' = d_locked d \<and> (txn (d_world d') \<longrightarrow> txn (d_world d)) \<and> (\<forall>row. q = Ok row \<longrightarrow> txn (d_world d') = txn (d_world d))"
    using row unfolding on_world_run by fastforce
qed

text \<open>The flag says the transaction is open, and the handle is the only one to open it.\<close>

definition lock_flag_right :: "('w \<Rightarrow> bool) \<Rightarrow> 'w db \<Rightarrow> bool" where
  "lock_flag_right txn d \<longleftrightarrow> d_locked d = txn (d_world d)"

lemma acquire_run:
  assumes "txn_law ho txn" and "lock_flag_right txn d" and "acquire_read_lock ho d = (r, d')"
  shows "(r = Ok () \<longrightarrow> d_locked d' \<and> txn (d_world d')) \<and> (d_locked d' \<longrightarrow> txn (d_world d'))"
proof (cases "d_locked d")
  case True
  then show ?thesis
    using assms(2,3) by (auto simp: acquire_read_lock_def lock_flag_right_def)
next
  case False
  obtain r1 d1 where begin1: "on_world (ho_batch ho ''BEGIN'') d = (r1, d1)"
    by (cases "on_world (ho_batch ho ''BEGIN'') d")
  obtain r2 d2 where row: "on_world (ho_query_row ho count_sql) d1 = (r2, d2)"
    by (cases "on_world (ho_query_row ho count_sql) d1")
  note step = txn_lawD(1) [OF assms(1) begin1] txn_lawD(4) [OF assms(1) row insertI1]
  show ?thesis
    using assms(3) False step begin1 row
    by (cases r1; cases r2; cases "row_get 0 (case r2 of Ok x \<Rightarrow> x | _ \<Rightarrow> [])")
      (auto simp: acquire_read_lock_def op_bind_def op_of_def op_modify_def)
qed

lemma release_run:
  assumes "txn_law ho txn" and "lock_flag_right txn d" and "release_read_lock ho d = (r, d')"
  shows "lock_flag_right txn d' \<and> (r = Ok () \<longrightarrow> \<not> txn (d_world d'))"
proof (cases "d_locked d")
  case False
  then show ?thesis
    using assms(2,3) by (auto simp: release_read_lock_def lock_flag_right_def)
next
  case True
  obtain r1 d1 where rollback: "on_world (ho_batch ho ''ROLLBACK'') d = (r1, d1)"
    by (cases "on_world (ho_batch ho ''ROLLBACK'') d")
  note step = txn_lawD(2) [OF assms(1) rollback]
  show ?thesis
    using assms(2,3) True step rollback
    by (cases r1) (auto simp: release_read_lock_def op_bind_def op_modify_def lock_flag_right_def)
qed

text \<open>
  C40: a checkpoint that succeeds ran its pragma with the read transaction closed and leaves the
  transaction, and the flag for it, as they were before; whatever fails on the way, the flag is never
  set without a transaction behind it.
\<close>

theorem checkpoint_keeps_read_lock:
  assumes "txn_law ho txn" and "lock_flag_right txn d" and "checkpoint ho mode restart_wal d = (r, d')"
  shows "(d_locked d' \<longrightarrow> txn (d_world d')) \<and>
    (\<forall>res. r = Ok res \<longrightarrow> d_locked d' = d_locked d \<and> lock_flag_right txn d' \<and>
      (\<exists>d0 row d1. on_world (ho_query_row ho (checkpoint_sql mode)) d0 = (Ok row, d1) \<and>
        \<not> txn (d_world d0) \<and> checkpoint_row row = Ok res))"
proof -
  obtain r0 d0 where rel: "(if d_locked d then release_read_lock ho else op_ret ()) d = (r0, d0)"
    by fastforce
  have d0: "lock_flag_right txn d0 \<and> (r0 = Ok () \<longrightarrow> \<not> txn (d_world d0)) \<and> (r0 = Ok () \<longrightarrow> \<not> d_locked d0)"
    using rel release_run [OF assms(1,2), of r0 d0] assms(2)
    by (auto simp: op_ret_def lock_flag_right_def split: if_splits)
  obtain r1 d1 where row: "on_world (ho_query_row ho (checkpoint_sql mode)) d0 = (r1, d1)"
    by (cases "on_world (ho_query_row ho (checkpoint_sql mode)) d0")
  have d1: "r0 = Ok () \<longrightarrow> lock_flag_right txn d1" "d_locked d1 = d_locked d0"
    using txn_lawD(4) [OF assms(1) row] d0 by (auto simp: lock_flag_right_def)
  show ?thesis
  proof (cases "\<exists>row res. r0 = Ok () \<and> r1 = Ok row \<and> checkpoint_row row = Ok res")
    case False
    then have "(\<nexists>res. r = Ok res) \<and> (d' = d0 \<or> r0 = Ok () \<and> d' = d1)"
      using assms(3) rel row
      by (cases r0; cases r1) (auto simp: checkpoint_def Let_def op_bind_def op_of_def split: result.splits prod.splits)
    then show ?thesis
      using d0 d1 by (auto simp: lock_flag_right_def)
  next
    case True
    then obtain rw res where ok: "r0 = Ok ()" "r1 = Ok rw" "checkpoint_row rw = Ok res" by blast
    let ?bump = "if restart_wal \<and> mode = Passive \<and> \<not> cr_busy res then bump_seq ho else op_ret ()"
    obtain r2 d2 where bump: "?bump d1 = (r2, d2)" by fastforce
    have d2: "lock_flag_right txn d2" "d_locked d2 = d_locked d0"
      using bump txn_lawD(3) [OF assms(1), of d1 r2 d2] d1 ok(1) d0
      by (auto simp: bump_seq_def op_ret_def lock_flag_right_def split: if_splits)
    obtain r3 d3 where acq: "(if d_locked d then acquire_read_lock ho else op_ret ()) d2 = (r3, d3)"
      by fastforce
    have "checkpoint ho mode restart_wal d =
        op_bind ?bump (\<lambda>_. op_bind (if d_locked d then acquire_read_lock ho else op_ret ()) (\<lambda>_. op_ret res)) d1"
      using rel row ok by (simp add: checkpoint_def Let_def op_bind_def op_of_def)
    then have run: "(r, d') = (case r2 of Ok _ \<Rightarrow> (case r3 of Ok _ \<Rightarrow> (Ok res, d3) | Err e \<Rightarrow> (Err e, d3) | Panic \<Rightarrow> (Panic, d3))
        | Err e \<Rightarrow> (Err e, d2) | Panic \<Rightarrow> (Panic, d2))"
      using assms(3) bump acq by (cases r2; cases r3) (simp_all add: op_bind_def op_ret_def)
    have d3: "(r3 = Ok () \<longrightarrow> d_locked d3 = d_locked d \<and> lock_flag_right txn d3) \<and> (d_locked d3 \<longrightarrow> txn (d_world d3))"
      using acq acquire_run [OF assms(1) d2(1), of r3 d3] d2 d0 ok(1)
      by (auto simp: op_ret_def lock_flag_right_def split: if_splits)
    show ?thesis
      using run d2 d3 d0 ok row by (cases r2; cases r3) (auto simp: lock_flag_right_def)
  qed
qed

text \<open>A host of one connection, whose every query returns the same row, for concrete instances.\<close>

record sample_world =
  sw_txn :: bool
  sw_disk :: "(string \<times> bytes) list"
  sw_row :: "(int list, db_error) result"

definition sample_batch :: "string \<Rightarrow> (sample_world, unit, db_error) op" where
  "sample_batch sql w =
    (if sql = ''BEGIN'' then (if sw_txn w then (Err Sqlite, w) else (Ok (), w\<lparr>sw_txn := True\<rparr>))
     else if sql = ''ROLLBACK'' then (if sw_txn w then (Ok (), w\<lparr>sw_txn := False\<rparr>) else (Err Sqlite, w))
     else (Ok (), w))"

definition sample_host :: "sample_world host" where
  "sample_host =
    \<lparr>ho_open = (\<lambda>_. op_ret ()), ho_busy_timeout = (\<lambda>_. op_ret ()), ho_pragma_update = (\<lambda>_ _. op_ret ()),
     ho_batch = sample_batch, ho_query_text = (\<lambda>_. op_ret ''wal''),
     ho_query_row = (\<lambda>sql w. (sw_row w, w)), ho_query_optional = (\<lambda>_. op_ret None),
     ho_persist_wal = op_ret 0, ho_flock = (\<lambda>_ w. (FlockOk, w)),
     ho_read = (\<lambda>path w. (case map_of (sw_disk w) path of None \<Rightarrow> Err NotFound | Some b \<Rightarrow> Ok b, w)),
     ho_len = (\<lambda>path w. (case map_of (sw_disk w) path of None \<Rightarrow> Err NotFound | Some b \<Rightarrow> Ok (length b), w)),
     ho_fault = (\<lambda>w. (None, w)), ho_now = (\<lambda>w. (0, w))\<rparr>"

definition sample_db :: "(string \<times> bytes) list \<Rightarrow> (int list, db_error) result \<Rightarrow> sample_world db" where
  "sample_db disk row =
    \<lparr>d_path = ''app.db'', d_wal_path = ''app.db-wal'', d_page_size = 512, d_locked = False,
     d_world = \<lparr>sw_txn = False, sw_disk = disk, sw_row = row\<rparr>\<rparr>"

lemma sample_txn_law: "txn_law sample_host sw_txn"
proof -
  have "bump_sql \<noteq> ''BEGIN''" "bump_sql \<noteq> ''ROLLBACK''"
    by (simp_all add: bump_sql_def)
  then show ?thesis
    by (auto simp: txn_law_def sample_host_def sample_batch_def)
qed

theorem checkpoint_keeps_read_lock_witness:
  "\<exists>d1 d2 res. acquire_read_lock sample_host (sample_db [] (Ok [0, 2, 2])) = (Ok (), d1) \<and>
    checkpoint sample_host Passive True d1 = (Ok res, d2) \<and> d_locked d2 \<and> sw_txn (d_world d2)"
proof -
  let ?d = "sample_db [] (Ok [0, 2, 2])"
  let ?d1 = "?d\<lparr>d_locked := True, d_world := (d_world ?d)\<lparr>sw_txn := True\<rparr>\<rparr>"
  have acq: "acquire_read_lock sample_host ?d = (Ok (), ?d1)"
    by (simp add: acquire_read_lock_def sample_db_def sample_host_def sample_batch_def op_simps op_bind_def
        on_world_def row_get_def)
  have "fst (checkpoint sample_host Passive True ?d1) = Ok \<lparr>cr_busy = False, cr_log_frames = 2, cr_checkpointed_frames = 2\<rparr>"
    by (simp add: checkpoint_def release_read_lock_def acquire_read_lock_def sample_db_def sample_host_def
        sample_batch_def op_simps op_bind_def on_world_def row_get_def checkpoint_row_def bump_seq_def bump_sql_def)
  then obtain d2 where ck: "checkpoint sample_host Passive True ?d1 =
      (Ok \<lparr>cr_busy = False, cr_log_frames = 2, cr_checkpointed_frames = 2\<rparr>, d2)"
    by (metis prod.collapse)
  have "lock_flag_right sw_txn ?d1"
    by (simp add: lock_flag_right_def)
  from checkpoint_keeps_read_lock [OF sample_txn_law this ck] have "d_locked d2" "sw_txn (d_world d2)"
    by (simp_all add: lock_flag_right_def)
  with acq ck show ?thesis by blast
qed

text \<open>
  When the read transaction begins, its first query fails and the transaction stays open, the handle does not know
  of it, and every later attempt to take the read lock fails too.
\<close>

lemma failed_acquire_sticks:
  assumes "txn_law ho txn" and "\<not> d_locked d" and "acquire_read_lock ho d = (Err e, d2)" and "txn (d_world d2)"
    and "txn (d_world d3) = txn (d_world d2)" and "d_locked d3 = d_locked d2" and "acquire_read_lock ho d3 = (r, d4)"
  shows "\<not> d_locked d2 \<and> r \<noteq> Ok ()"
proof -
  have stuck: "\<not> d_locked d2"
    using assms(2,3) by (auto simp: acquire_read_lock_def op_bind_def op_of_def op_modify_def on_world_run
        split: result.splits prod.splits)
  obtain r5 d5 where again: "on_world (ho_batch ho ''BEGIN'') d3 = (r5, d5)"
    by (cases "on_world (ho_batch ho ''BEGIN'') d3")
  then have "r5 \<noteq> Ok ()"
    using txn_lawD(1) [OF assms(1) again] assms(4,5) by auto
  then have "r \<noteq> Ok ()"
    using assms(6,7) stuck again
    by (cases r5) (auto simp: acquire_read_lock_def op_bind_def)
  with stuck show ?thesis by blast
qed

end
