(* ===== verification/FileIndex.thy ===== *)
theory FileIndex
  imports Storage
begin

text \<open>
  The local index of the replica's files (\<^verbatim>\<open>FileIndex\<close> of \<^verbatim>\<open>src/sync/mod.rs\<close>). A \<^verbatim>\<open>BTreeMap\<close> is an
  association list in ascending key order; the interface \<open>btree_map\<close> states what the index relies on.
  The lemmas show that the index refines one map from level and TXID range to file.
\<close>

section \<open>Ordered maps\<close>

locale btree_map =
  fixes lookup :: "'m \<Rightarrow> 'k::linorder \<Rightarrow> 'v option"
    and empty :: 'm
    and insert_key :: "'k \<Rightarrow> 'v \<Rightarrow> 'm \<Rightarrow> 'm"
    and remove_key :: "'k \<Rightarrow> 'm \<Rightarrow> 'm"
    and entries :: "'m \<Rightarrow> ('k \<times> 'v) list"
    and valid :: "'m \<Rightarrow> bool"
  assumes valid_empty: "valid empty" and lookup_empty: "lookup empty = Map.empty"
    and valid_insert: "valid m \<Longrightarrow> valid (insert_key k v m)"
    and lookup_insert: "valid m \<Longrightarrow> lookup (insert_key k v m) = (lookup m)(k \<mapsto> v)"
    and valid_remove: "valid m \<Longrightarrow> valid (remove_key k m)"
    and lookup_remove: "valid m \<Longrightarrow> lookup (remove_key k m) = (lookup m)(k := None)"
    and entries_sorted: "valid m \<Longrightarrow> sorted_wrt (<) (map fst (entries m))"
    and entries_lookup: "valid m \<Longrightarrow> map_of (entries m) = lookup m"
begin

lemma entries_iff: "valid m \<Longrightarrow> (k, v) \<in> set (entries m) \<longleftrightarrow> lookup m k = Some v"
  using entries_sorted [of m] entries_lookup [of m]
  by (metis map_of_eq_Some_iff strict_sorted_iff)

lemma keys_sorted: "valid m \<Longrightarrow> sorted (map fst (entries m)) \<and> distinct (map fst (entries m))"
  using entries_sorted [of m] strict_sorted_iff by blast

lemma entries_insert:
  "valid m \<Longrightarrow> set (entries (insert_key k v m)) = insert (k, v) {e \<in> set (entries m). fst e \<noteq> k}"
  using entries_iff [OF valid_insert, of m] entries_iff [of m]
  by (auto simp: lookup_insert split: if_splits)

lemma entries_remove:
  "valid m \<Longrightarrow> set (entries (remove_key k m)) = {e \<in> set (entries m). fst e \<noteq> k}"
  using entries_iff [OF valid_remove, of m] entries_iff [of m]
  by (auto simp: lookup_remove split: if_splits)

end

fun bt_insert :: "'k::linorder \<Rightarrow> 'v \<Rightarrow> ('k \<times> 'v) list \<Rightarrow> ('k \<times> 'v) list" where
  "bt_insert k v [] = [(k, v)]"
| "bt_insert k v ((k', v') # m) =
     (if k < k' then (k, v) # (k', v') # m else if k = k' then (k, v) # m else (k', v') # bt_insert k v m)"

definition bt_remove :: "'k::linorder \<Rightarrow> ('k \<times> 'v) list \<Rightarrow> ('k \<times> 'v) list" where
  "bt_remove k m = filter (\<lambda>(k', _). k' \<noteq> k) m"

definition bt_valid :: "('k::linorder \<times> 'v) list \<Rightarrow> bool" where
  "bt_valid m \<longleftrightarrow> sorted_wrt (<) (map fst m)"

lemma set_bt_insert: "set (map fst (bt_insert k v m)) = insert k (set (map fst m))"
  by (induction k v m rule: bt_insert.induct) auto

lemma bt_insert_valid: "bt_valid m \<Longrightarrow> bt_valid (bt_insert k v m)"
proof (induction k v m rule: bt_insert.induct)
  case (2 k v k' v' m)
  have "sorted_wrt (<) (map fst (bt_insert k v m))" if "k' < k"
    using 2 that by (auto simp: bt_valid_def)
  then show ?case
    using 2(2) set_bt_insert [of k v m] by (auto simp: bt_valid_def)
qed (simp add: bt_valid_def)

lemma map_of_bt_insert: "bt_valid m \<Longrightarrow> map_of (bt_insert k v m) = (map_of m)(k \<mapsto> v)"
proof (induction k v m rule: bt_insert.induct)
  case (2 k v k' v' m)
  then show ?case
    by (cases "k = k'"; cases "k < k'") (auto simp: bt_valid_def fun_eq_iff)
qed simp

lemma map_of_bt_remove: "map_of (bt_remove k m) = (map_of m)(k := None)"
  by (simp add: bt_remove_def map_of_filter_key)

interpretation bt: btree_map map_of "[]" bt_insert bt_remove "\<lambda>m. m" bt_valid
proof unfold_locales
  show "bt_valid m \<Longrightarrow> bt_valid (bt_remove k m)" for m :: "('k::linorder \<times> 'v) list" and k
    unfolding bt_valid_def bt_remove_def by (induction m) auto
qed (simp_all add: bt_insert_valid map_of_bt_insert map_of_bt_remove, simp_all add: bt_valid_def)

section \<open>The index\<close>

type_synonym level_files = "((u64 \<times> u64) \<times> ltx_file_info) list"

record file_index =
  fi_levels :: "(u32 \<times> level_files) list"

definition fi_empty :: file_index where
  "fi_empty = \<lparr>fi_levels = []\<rparr>"

definition fi_insert :: "ltx_file_info \<Rightarrow> file_index \<Rightarrow> file_index" where
  "fi_insert info fi =
    (let files = (case map_of (fi_levels fi) (li_level info) of None \<Rightarrow> [] | Some m \<Rightarrow> m)
     in fi\<lparr>fi_levels := bt_insert (li_level info) (bt_insert (li_min info, li_max info) info files) (fi_levels fi)\<rparr>)"

definition fi_remove :: "u32 \<Rightarrow> u64 \<Rightarrow> u64 \<Rightarrow> file_index \<Rightarrow> file_index" where
  "fi_remove level mn mx fi =
    (case map_of (fi_levels fi) level of
       None \<Rightarrow> fi
     | Some m \<Rightarrow> fi\<lparr>fi_levels := bt_insert level (bt_remove (mn, mx) m) (fi_levels fi)\<rparr>)"

definition fi_list :: "u32 \<Rightarrow> file_index \<Rightarrow> ltx_file_info list" where
  "fi_list level fi = (case map_of (fi_levels fi) level of None \<Rightarrow> [] | Some m \<Rightarrow> map snd m)"

definition fi_all_levels :: "file_index \<Rightarrow> (u32 \<times> u64 \<times> u64) list" where
  "fi_all_levels fi =
    concat (map (\<lambda>(level, m). map (\<lambda>(_, info). (level, li_min info, li_max info)) m) (fi_levels fi))"

section \<open>One map\<close>

definition info_key :: "ltx_file_info \<Rightarrow> u32 \<times> u64 \<times> u64" where
  "info_key info = (li_level info, li_min info, li_max info)"

definition fi_lookup :: "file_index \<Rightarrow> u32 \<times> u64 \<times> u64 \<Rightarrow> ltx_file_info option" where
  "fi_lookup fi key = (case key of (level, mn, mx) \<Rightarrow>
     case map_of (fi_levels fi) level of None \<Rightarrow> None | Some m \<Rightarrow> map_of m (mn, mx))"

definition fi_valid :: "file_index \<Rightarrow> bool" where
  "fi_valid fi \<longleftrightarrow> bt_valid (fi_levels fi) \<and>
    (\<forall>level m. map_of (fi_levels fi) level = Some m \<longrightarrow> bt_valid m) \<and>
    (\<forall>key info. fi_lookup fi key = Some info \<longrightarrow> info_key info = key)"

lemma fi_empty_valid [simp]: "fi_valid fi_empty" "fi_lookup fi_empty = Map.empty"
  by (simp_all add: fi_valid_def fi_empty_def fi_lookup_def fun_eq_iff bt_valid_def)

lemma fi_lookup_insert:
  assumes "fi_valid fi"
  shows "fi_lookup (fi_insert info fi) = (fi_lookup fi)(info_key info \<mapsto> info)"
proof (rule ext)
  fix key :: "u32 \<times> u64 \<times> u64"
  obtain level mn mx where key: "key = (level, mn, mx)" by (cases key)
  have v: "bt_valid (fi_levels fi)" "map_of (fi_levels fi) l = Some m \<Longrightarrow> bt_valid m" for l m
    using assms by (auto simp: fi_valid_def)
  then have "bt_valid (case map_of (fi_levels fi) (li_level info) of None \<Rightarrow> [] | Some m \<Rightarrow> m)"
    by (auto simp: bt_valid_def split: option.split)
  then show "fi_lookup (fi_insert info fi) key = ((fi_lookup fi)(info_key info \<mapsto> info)) key"
    using v(1) by (auto simp: fi_lookup_def fi_insert_def key info_key_def Let_def map_of_bt_insert split: option.split)
qed

text \<open>The index after a file has been added.\<close>

definition names :: "u32 \<times> u64 \<times> u64 \<Rightarrow> file_index \<Rightarrow> file_index \<Rightarrow> bool" where
  "names f fi fi' \<longleftrightarrow> (\<exists>i. info_key i = f \<and> fi' = fi_insert i fi)"

lemma names_insert: "names (l, a, b) fi (fi_insert \<lparr>li_level = l, li_min = a, li_max = b, li_size = sz, li_created = c\<rparr> fi)"
  unfolding names_def by (rule exI, rule conjI [OF _ refl]) (simp add: info_key_def)

lemma fi_insert_valid: "fi_valid fi \<Longrightarrow> fi_valid (fi_insert info fi)"
proof -
  assume fi: "fi_valid fi"
  then have v: "bt_valid (fi_levels fi)" "\<And>l m. map_of (fi_levels fi) l = Some m \<Longrightarrow> bt_valid m"
    by (auto simp: fi_valid_def)
  then have "bt_valid (bt_insert (li_min info, li_max info) info
      (case map_of (fi_levels fi) (li_level info) of None \<Rightarrow> [] | Some m \<Rightarrow> m))"
    by (intro bt_insert_valid) (auto simp: bt_valid_def split: option.split)
  then have "bt_valid (fi_levels (fi_insert info fi)) \<and>
      (\<forall>l m. map_of (fi_levels (fi_insert info fi)) l = Some m \<longrightarrow> bt_valid m)"
    using v by (auto simp: fi_insert_def Let_def map_of_bt_insert bt_insert_valid)
  moreover have "\<forall>key i. fi_lookup (fi_insert info fi) key = Some i \<longrightarrow> info_key i = key"
    using fi by (auto simp: fi_lookup_insert fi_valid_def)
  ultimately show ?thesis
    by (simp add: fi_valid_def)
qed

lemma fi_lookup_remove:
  assumes "fi_valid fi"
  shows "fi_lookup (fi_remove level mn mx fi) = (fi_lookup fi)((level, mn, mx) := None)"
proof (rule ext)
  fix key :: "u32 \<times> u64 \<times> u64"
  obtain l a b where key: "key = (l, a, b)" by (cases key)
  have "bt_valid (fi_levels fi)"
    using assms by (simp add: fi_valid_def)
  then show "fi_lookup (fi_remove level mn mx fi) key = ((fi_lookup fi)((level, mn, mx) := None)) key"
    by (auto simp: fi_lookup_def fi_remove_def key map_of_bt_insert map_of_bt_remove split: option.split)
qed

lemma fi_remove_valid: "fi_valid fi \<Longrightarrow> fi_valid (fi_remove level mn mx fi)"
proof -
  assume fi: "fi_valid fi"
  then have v: "bt_valid (fi_levels fi)" "\<And>l m. map_of (fi_levels fi) l = Some m \<Longrightarrow> bt_valid m"
    by (auto simp: fi_valid_def)
  then have "bt_valid (fi_levels (fi_remove level mn mx fi)) \<and>
      (\<forall>l m. map_of (fi_levels (fi_remove level mn mx fi)) l = Some m \<longrightarrow> bt_valid m)"
    by (auto simp: fi_remove_def map_of_bt_insert bt_insert_valid bt.valid_remove split: option.split)
  moreover have "\<forall>key i. fi_lookup (fi_remove level mn mx fi) key = Some i \<longrightarrow> info_key i = key"
    using fi by (auto simp: fi_lookup_remove fi_valid_def split: if_splits)
  ultimately show ?thesis
    by (simp add: fi_valid_def)
qed

lemma set_fi_list:
  assumes "fi_valid fi"
  shows "info \<in> set (fi_list level fi) \<longleftrightarrow> li_level info = level \<and> fi_lookup fi (info_key info) = Some info"
proof (cases "map_of (fi_levels fi) level")
  case None
  then show ?thesis
    by (auto simp: fi_list_def fi_lookup_def info_key_def)
next
  case (Some m)
  then have m: "bt_valid m"
    using assms by (simp add: fi_valid_def)
  have "info \<in> set (map snd m) \<longleftrightarrow> (\<exists>k. map_of m k = Some info)"
    using bt.entries_iff [OF m] by force
  also have "\<dots> \<longleftrightarrow> li_level info = level \<and> fi_lookup fi (info_key info) = Some info"
  proof
    assume "\<exists>k. map_of m k = Some info"
    then obtain a b where ab: "map_of m (a, b) = Some info" by auto
    then have "fi_lookup fi (level, a, b) = Some info"
      using Some by (simp add: fi_lookup_def)
    then show "li_level info = level \<and> fi_lookup fi (info_key info) = Some info"
      using assms unfolding fi_valid_def by (metis fst_conv info_key_def)
  next
    assume "li_level info = level \<and> fi_lookup fi (info_key info) = Some info"
    then show "\<exists>k. map_of m k = Some info"
      using Some by (intro exI [of _ "(li_min info, li_max info)"]) (auto simp: fi_lookup_def info_key_def)
  qed
  finally show ?thesis
    using Some by (simp add: fi_list_def)
qed

lemma fi_list_keys:
  assumes "fi_valid fi"
  shows "sorted (map (\<lambda>i. (li_min i, li_max i)) (fi_list level fi)) \<and>
    distinct (map (\<lambda>i. (li_min i, li_max i)) (fi_list level fi))"
proof (cases "map_of (fi_levels fi) level")
  case None
  then show ?thesis by (simp add: fi_list_def)
next
  case (Some m)
  then have m: "bt_valid m"
    using assms by (simp add: fi_valid_def)
  have "(li_min i, li_max i) = k" if "(k, i) \<in> set m" for k i
  proof -
    obtain a b where k: "k = (a, b)" by (cases k)
    have "fi_lookup fi (level, a, b) = Some i"
      using bt.entries_iff [OF m] that Some by (simp add: fi_lookup_def k)
    then show ?thesis
      using assms by (auto simp: fi_valid_def info_key_def k)
  qed
  then have "map (\<lambda>i. (li_min i, li_max i)) (fi_list level fi) = map fst m"
    using Some by (auto simp: fi_list_def)
  then show ?thesis
    using bt.keys_sorted [OF m] by simp
qed

lemma set_fi_all_levels:
  assumes "fi_valid fi"
  shows "set (fi_all_levels fi) = dom (fi_lookup fi)"
proof -
  have v: "bt_valid (fi_levels fi)"
    using assms by (simp add: fi_valid_def)
  have "key \<in> set (fi_all_levels fi) \<longleftrightarrow> key \<in> dom (fi_lookup fi)" for key
  proof -
    obtain l a b where key: "key = (l, a, b)" by (cases key)
    have "key \<in> set (fi_all_levels fi) \<longleftrightarrow>
        (\<exists>m k i. map_of (fi_levels fi) l = Some m \<and> (k, i) \<in> set m \<and> (a, b) = (li_min i, li_max i))"
    proof -
      have "key \<in> set (fi_all_levels fi) \<longleftrightarrow> (\<exists>m k i. (l, m) \<in> set (fi_levels fi) \<and> (k, i) \<in> set m \<and> (a, b) = (li_min i, li_max i))"
      proof -
        have "key \<in> set (fi_all_levels fi) \<longleftrightarrow> (\<exists>lm \<in> set (fi_levels fi). \<exists>ki \<in> set (snd lm).
            key = (fst lm, li_min (snd ki), li_max (snd ki)))"
          by (simp add: fi_all_levels_def case_prod_beta image_iff)
        also have "\<dots> \<longleftrightarrow> (\<exists>m k i. (l, m) \<in> set (fi_levels fi) \<and> (k, i) \<in> set m \<and> (a, b) = (li_min i, li_max i))"
          unfolding key Bex_def split_paired_Ex by (simp del: split_paired_Ex) blast
        finally show ?thesis .
      qed
      then show ?thesis
        unfolding bt.entries_iff [OF v] .
    qed
    also have "\<dots> \<longleftrightarrow> (\<exists>m i. map_of (fi_levels fi) l = Some m \<and> map_of m (a, b) = Some i)"
    proof (intro iffI; elim exE conjE)
      fix m k i
      assume m: "map_of (fi_levels fi) l = Some m" "(k, i) \<in> set m" "(a, b) = (li_min i, li_max i)"
      obtain c d where k: "k = (c, d)" by (cases k)
      have "bt_valid m"
        using assms m(1) unfolding fi_valid_def by blast
      then have at: "map_of m (c, d) = Some i"
        using bt.entries_iff [of m "(c, d)" i] m(2) k by simp
      then have "fi_lookup fi (l, c, d) = Some i"
        using m(1) by (simp add: fi_lookup_def)
      then have "info_key i = (l, c, d)"
        using assms unfolding fi_valid_def by blast
      then have "(a, b) = (c, d)"
        using m(3) by (simp add: info_key_def)
      with m(1) at show "\<exists>m i. map_of (fi_levels fi) l = Some m \<and> map_of m (a, b) = Some i"
        by blast
    next
      fix m i
      assume m: "map_of (fi_levels fi) l = Some m" "map_of m (a, b) = Some i"
      then have "fi_lookup fi (l, a, b) = Some i"
        by (simp add: fi_lookup_def)
      then have "info_key i = (l, a, b)"
        using assms unfolding fi_valid_def by blast
      then show "\<exists>m k i. map_of (fi_levels fi) l = Some m \<and> (k, i) \<in> set m \<and> (a, b) = (li_min i, li_max i)"
        using m map_of_SomeD [OF m(2)] unfolding info_key_def by blast
    qed
    also have "\<dots> \<longleftrightarrow> key \<in> dom (fi_lookup fi)"
      by (auto simp: fi_lookup_def key split: option.splits)
    finally show ?thesis .
  qed
  then show ?thesis by blast
qed

text \<open>
  C35: the file index refines one map from level and TXID range to file: inserting and removing are
  updates of that map, a level lists its files once each in TXID order, and all levels together list
  the map's domain.
\<close>

theorem file_index_refines_map:
  assumes "fi_valid fi"
  shows "fi_valid (fi_insert info fi) \<and> fi_lookup (fi_insert info fi) = (fi_lookup fi)(info_key info \<mapsto> info) \<and>
    fi_valid (fi_remove level mn mx fi) \<and>
    fi_lookup (fi_remove level mn mx fi) = (fi_lookup fi)((level, mn, mx) := None) \<and>
    set (fi_list level fi) = {i. li_level i = level \<and> fi_lookup fi (info_key i) = Some i} \<and>
    sorted (map (\<lambda>i. (li_min i, li_max i)) (fi_list level fi)) \<and>
    distinct (map (\<lambda>i. (li_min i, li_max i)) (fi_list level fi)) \<and>
    set (fi_all_levels fi) = dom (fi_lookup fi)"
  using fi_insert_valid [OF assms] fi_lookup_insert [OF assms] fi_remove_valid [OF assms]
    fi_lookup_remove [OF assms] set_fi_list [OF assms] fi_list_keys [OF assms] set_fi_all_levels [OF assms]
  by blast

definition sample_info :: "u32 \<Rightarrow> u64 \<Rightarrow> u64 \<Rightarrow> int \<Rightarrow> ltx_file_info" where
  "sample_info level mn mx t = \<lparr>li_level = level, li_min = mn, li_max = mx, li_size = 1, li_created = Some t\<rparr>"

theorem file_index_refines_map_witness:
  "fi_list 0 (fi_insert (sample_info 0 2 2 9) (fi_insert (sample_info 0 1 1 8) fi_empty)) =
      [sample_info 0 1 1 8, sample_info 0 2 2 9] \<and>
    fi_lookup (fi_insert (sample_info 0 2 2 9) (fi_insert (sample_info 0 1 1 8) fi_empty)) (0, 1, 1) =
      Some (sample_info 0 1 1 8)"
proof -
  have v: "fi_valid (fi_insert (sample_info 0 1 1 8) fi_empty)"
    by (rule fi_insert_valid) simp
  show ?thesis
    using file_index_refines_map [OF v, of "sample_info 0 2 2 9"] fi_lookup_insert [of fi_empty "sample_info 0 1 1 8"]
    by (simp add: info_key_def) (simp add: sample_info_def fi_list_def fi_insert_def fi_empty_def Let_def)
qed

end
