(* ===== verification/Staging.thy ===== *)
theory Staging
  imports Db FileIndex LtxEncoder
begin

text \<open>
  The state of a syncer and its local staging directory (\<^verbatim>\<open>src/sync/mod.rs\<close>): staging a file durably,
  uploading and removing it, and recovering what an earlier run left. The staging directory is a list
  of entries, a level directory's name and a file name with the file's bytes; the partial content of a
  file that is still being written is not modelled.
\<close>

section \<open>The syncer\<close>

definition DEFAULT_MIN_CHECKPOINT_FRAMES :: u64 where
  "DEFAULT_MIN_CHECKPOINT_FRAMES = 1000"
definition DEFAULT_TRUNCATE_FRAMES :: u64 where
  "DEFAULT_TRUNCATE_FRAMES = 121359"
definition LEVEL0 :: u32 where
  "LEVEL0 = 0"
definition MULTIPART_THRESHOLD :: nat where
  "MULTIPART_THRESHOLD = 16 * 1024 * 1024"

datatype sync_outcome = Skipped | Snapshot u64 u32 | Incremental u64 nat

record position =
  po_txid :: u64
  po_wal_offset :: u64
  po_salt1 :: u32
  po_salt2 :: u32
  po_synced_to_wal_end :: bool

definition position_default :: position where
  "position_default = \<lparr>po_txid = 0, po_wal_offset = 0, po_salt1 = 0, po_salt2 = 0, po_synced_to_wal_end = False\<rparr>"

text \<open>A path under the staging root: the level directory and the file name.\<close>

type_synonym staged_path = "string \<times> string"
type_synonym staging_dir = "(staged_path \<times> bytes) list"

record staged_file =
  sf_outcome :: sync_outcome
  sf_level :: u32
  sf_min :: u64
  sf_max :: u64
  sf_path :: staged_path
  sf_new_pos :: position

text \<open>\<open>sy_store\<close> is the state of the object store behind the client, \<open>sy_scratch\<close> the compaction directory.\<close>

record ('w, 's) syncer =
  sy_db :: "'w db"
  sy_client :: "'s replica_client"
  sy_store :: 's
  sy_pos :: position
  sy_lock :: string
  sy_min_checkpoint_frames :: u64
  sy_truncate_frames :: u64
  sy_resnapshots :: u64
  sy_staging :: staging_dir
  sy_scratch :: "(string \<times> bytes) list"
  sy_files :: file_index

type_synonym ('w, 's, 'a) sync_op = "(('w, 's) syncer, 'a, sync_error) op"

section \<open>Parts of the state\<close>

definition on_db :: "('w db, 'a, db_error) op \<Rightarrow> ('w, 's, 'a) sync_op" where
  "on_db m = op_on sy_db (\<lambda>d sy. sy\<lparr>sy_db := d\<rparr>) (op_map_err SyncDb m)"

definition on_host :: "('w, 'a, io_error) op \<Rightarrow> ('w, 's, 'a) sync_op" where
  "on_host m = op_on sy_db (\<lambda>d sy. sy\<lparr>sy_db := d\<rparr>) (on_world (op_map_err SyncIo m))"

definition on_store :: "('s \<Rightarrow> ('a, storage_error) result \<times> 's) \<Rightarrow> ('w, 's, 'a) sync_op" where
  "on_store m = op_on sy_store (\<lambda>s sy. sy\<lparr>sy_store := s\<rparr>) (op_map_err SyncStorage m)"

definition system_now :: "'w host \<Rightarrow> ('w, 's, instant) sync_op" where
  "system_now ho = on_host (\<lambda>w. case ho_now ho w of (t, w) \<Rightarrow> (Ok t, w))"

text \<open>\<open>as_millis() as i64\<close>, zero before the epoch.\<close>

definition now_ms :: "'w host \<Rightarrow> ('w, 's, u64) sync_op" where
  "now_ms ho = op_bind (system_now ho) (\<lambda>t. op_ret (if t < 0 then 0 else of_int (t div 1000000)))"

text \<open>The calls to \<^verbatim>\<open>std::fs\<close> on staged files.\<close>

definition fs_create :: "'w host \<Rightarrow> staged_path \<Rightarrow> ('w, 's, unit) sync_op" where
  "fs_create ho path = op_bind (on_host (fs_op ho)) (\<lambda>_.
    op_modify (\<lambda>sy. sy\<lparr>sy_staging := AList.update path [] (sy_staging sy)\<rparr>))"

definition fs_write :: "'w host \<Rightarrow> staged_path \<Rightarrow> bytes \<Rightarrow> ('w, 's, unit) sync_op" where
  "fs_write ho path b = op_bind (on_host (fs_op ho)) (\<lambda>_.
    op_modify (\<lambda>sy. sy\<lparr>sy_staging := AList.update path b (sy_staging sy)\<rparr>))"

definition fs_read :: "'w host \<Rightarrow> staged_path \<Rightarrow> ('w, 's, bytes) sync_op" where
  "fs_read ho path = op_bind (on_host (fs_op ho)) (\<lambda>_ sy.
    (case map_of (sy_staging sy) path of None \<Rightarrow> (Err (SyncIo NotFound), sy) | Some b \<Rightarrow> (Ok b, sy)))"

definition fs_len :: "'w host \<Rightarrow> staged_path \<Rightarrow> ('w, 's, nat) sync_op" where
  "fs_len ho path = op_bind (fs_read ho path) (\<lambda>b. op_ret (length b))"

definition fs_remove :: "'w host \<Rightarrow> staged_path \<Rightarrow> ('w, 's, unit) sync_op" where
  "fs_remove ho path = op_bind (on_host (fs_op ho)) (\<lambda>_ sy.
    (case map_of (sy_staging sy) path of
       None \<Rightarrow> (Err (SyncIo NotFound), sy)
     | Some _ \<Rightarrow> (Ok (), sy\<lparr>sy_staging := AList.delete path (sy_staging sy)\<rparr>)))"

definition fs_rename :: "'w host \<Rightarrow> staged_path \<Rightarrow> staged_path \<Rightarrow> ('w, 's, unit) sync_op" where
  "fs_rename ho src dst = op_bind (on_host (fs_op ho)) (\<lambda>_ sy.
    (case map_of (sy_staging sy) src of
       None \<Rightarrow> (Err (SyncIo NotFound), sy)
     | Some b \<Rightarrow> (Ok (), sy\<lparr>sy_staging := AList.update dst b (AList.delete src (sy_staging sy))\<rparr>)))"

section \<open>Staging a file\<close>

definition litestream_dir :: "string \<Rightarrow> string" where
  "litestream_dir db_path = db_path @ ''-litestream''"

definition staging_root :: "string \<Rightarrow> string" where
  "staging_root db_path = path_join (litestream_dir db_path) ''ltx''"

definition staged_ltx_path :: "u32 \<Rightarrow> u64 \<Rightarrow> u64 \<Rightarrow> staged_path" where
  "staged_ltx_path level mn mx = (pad_hex 4 (unat level), ltx_filename mn mx)"

definition with_extension_suffix :: "staged_path \<Rightarrow> string \<Rightarrow> staged_path" where
  "with_extension_suffix path suf = (fst path, snd path @ suf)"

text \<open>
  \<open>encode\<close> drives a fresh encoder; the file is written, synced and renamed. Whether the directory
  entry itself reached the disk is not checked by the code.
\<close>

definition stage ::
  "'w host \<Rightarrow> u32 \<Rightarrow> u64 \<Rightarrow> u64 \<Rightarrow> (encoder \<Rightarrow> ('w, 's, encoder) sync_op) \<Rightarrow> ('w, 's, staged_path) sync_op" where
  "stage ho level mn mx encode =
    (let final_path = staged_ltx_path level mn mx; tmp = with_extension_suffix final_path ''.tmp'' in
     op_bind (on_host (fs_op ho)) (\<lambda>_.
     op_bind (fs_create ho tmp) (\<lambda>_.
     op_bind (encode encoder_new) (\<lambda>enc.
     op_bind (fs_write ho tmp (e_w (fst (encoder_finish enc)))) (\<lambda>_.
     op_bind (on_host (fs_op ho)) (\<lambda>_.
     op_bind (fs_rename ho tmp final_path) (\<lambda>_.
     op_ret final_path)))))))"

section \<open>Uploading\<close>

definition upload_ltx_file ::
  "'w host \<Rightarrow> u32 \<Rightarrow> u64 \<Rightarrow> u64 \<Rightarrow> staged_path \<Rightarrow> ('w, 's, unit) sync_op" where
  "upload_ltx_file ho level mn mx path =
    op_bind (fs_len ho path) (\<lambda>sz.
    op_bind (op_get sy_client) (\<lambda>cl.
    op_bind
      (if sz \<ge> MULTIPART_THRESHOLD then
         op_bind (fs_read ho path) (\<lambda>b. on_store (put_ltx_multipart cl level mn mx b))
       else
         op_bind (fs_read ho path) (\<lambda>b.
         op_bind (on_store (put_ltx_cas cl level mn mx b)) (\<lambda>out.
         case out of Conflict \<Rightarrow> op_fail (Equivocation mx) | _ \<Rightarrow> op_ret ())))
      (\<lambda>_. fs_remove ho path)))"

definition upload_staged :: "'w host \<Rightarrow> staged_file \<Rightarrow> ('w, 's, sync_outcome) sync_op" where
  "upload_staged ho s =
    op_try (fs_len ho (sf_path s)) (\<lambda>r.
    let sz = (case r of Ok n \<Rightarrow> n | _ \<Rightarrow> 0) in
    op_bind (upload_ltx_file ho (sf_level s) (sf_min s) (sf_max s) (sf_path s)) (\<lambda>_.
    op_bind (system_now ho) (\<lambda>now.
    op_bind (op_modify (\<lambda>sy. sy\<lparr>sy_files := fi_insert \<lparr>li_level = sf_level s, li_min = sf_min s, li_max = sf_max s,
      li_size = sz, li_created = Some now\<rparr> (sy_files sy), sy_pos := sf_new_pos s\<rparr>)) (\<lambda>_.
    op_ret (sf_outcome s)))))"

section \<open>Recovery\<close>

text \<open>\<^verbatim>\<open>u32::from_str_radix(n, 16)\<close>\<close>

definition from_str_radix_16_u32 :: "string \<Rightarrow> u32 option" where
  "from_str_radix_16_u32 s =
    (case from_str_radix_16 s of None \<Rightarrow> None
     | Some n \<Rightarrow> if unat n < 2 ^ 32 then Some (ucast n) else None)"

definition ends_with :: "string \<Rightarrow> string \<Rightarrow> bool" where
  "ends_with s suf \<longleftrightarrow> strip_suffix s suf \<noteq> None"

text \<open>One directory entry: half-written files are removed (a failure to is ignored), files collected.\<close>

definition recover_entry ::
  "'w host \<Rightarrow> staged_path \<Rightarrow> ('w, 's, (u32 \<times> u64 \<times> u64 \<times> staged_path) list) sync_op" where
  "recover_entry ho path =
    (case from_str_radix_16_u32 (fst path) of
       None \<Rightarrow> op_ret []
     | Some level \<Rightarrow>
        op_bind (on_host (fs_op ho)) (\<lambda>_.
        if ends_with (snd path) ''.ltx.tmp'' then op_try (fs_remove ho path) (\<lambda>_. op_ret [])
        else op_ret (case parse_ltx_filename (snd path) of
          None \<Rightarrow> [] | Some (mn, mx) \<Rightarrow> [(level, mn, mx, path)])))"

definition recover_staging :: "'w host \<Rightarrow> ('w, 's, unit) sync_op" where
  "recover_staging ho =
    op_try (on_host (fs_op ho)) (\<lambda>r.
    case r of
      Ok _ \<Rightarrow>
        op_bind (op_get (\<lambda>sy. map fst (sy_staging sy))) (\<lambda>entries.
        op_bind (op_map (recover_entry ho) entries) (\<lambda>found.
        let staged = sort_key (\<lambda>(level, mn, mx, _). (mn, mx, level)) (concat found) in
        op_each (\<lambda>(level, mn, mx, path). upload_ltx_file ho level mn mx path) staged))
    | Err e \<Rightarrow> if e = SyncIo NotFound then op_ret () else op_fail e
    | Panic \<Rightarrow> op_of Panic)"

text \<open>Any error while listing counts as an empty directory.\<close>

definition staged_backlog_bytes :: "staging_dir \<Rightarrow> nat" where
  "staged_backlog_bytes staging =
    sum_list (map (\<lambda>(path, b). length b) (filter (\<lambda>(path, _). ends_with (snd path) ''.ltx'') staging))"

end
