(* ===== verification/WalSync.thy ===== *)
theory WalSync
  imports Staging
begin

text \<open>
  Synchronising (\<^verbatim>\<open>src/sync/mod.rs\<close>): planning the next file from the position and the WAL, encoding a
  snapshot or an increment into staging, uploading it, and checkpoints. Database and WAL files are read
  in one step each, under the read transaction the handle holds.
\<close>

section \<open>Reading files\<close>

text \<open>\<^verbatim>\<open>read_exact\<close> of a buffer, and the rest of a file; seeking past \<open>2^63 - 1\<close> is an error.\<close>

definition read_exact_at :: "'w host \<Rightarrow> string \<Rightarrow> u64 \<Rightarrow> nat \<Rightarrow> ('w, 's, bytes) sync_op" where
  "read_exact_at ho path offset n =
    op_bind (on_host (ho_read ho path)) (\<lambda>b.
    if unat offset \<ge> 2 ^ 63 then op_fail (SyncIo IoOther)
    else if unat offset + n \<le> length b then op_ret (take n (drop (unat offset) b))
    else op_fail (SyncIo UnexpectedEof))"

definition read_tail :: "'w host \<Rightarrow> string \<Rightarrow> u64 \<Rightarrow> ('w, 's, bytes) sync_op" where
  "read_tail ho path offset =
    op_bind (on_host (ho_read ho path)) (\<lambda>b.
    if unat offset \<ge> 2 ^ 63 then op_fail (SyncIo IoOther) else op_ret (drop (unat offset) b))"

definition wal_page :: "bytes \<Rightarrow> nat \<Rightarrow> nat \<Rightarrow> (bytes, sync_error) result" where
  "wal_page wal frame_offset page_size =
    (let start = frame_offset + WAL_FRAME_HEADER_SIZE in subslice start (start + page_size) wal)"

definition no_checksum_header ::
  "u64 \<Rightarrow> u32 \<Rightarrow> u32 \<Rightarrow> u64 \<Rightarrow> u64 \<Rightarrow> u64 \<Rightarrow> u32 \<Rightarrow> u32 \<Rightarrow> header" where
  "no_checksum_header timestamp page_size commit txid wal_offset wsize salt1 salt2 =
    \<lparr>h_flags = HEADER_FLAG_NO_CHECKSUM, h_page_size = page_size, h_commit = commit, h_min_txid = txid,
     h_max_txid = txid, h_timestamp = timestamp, h_pre_apply_checksum = checksum_zero,
     h_wal_offset = wal_offset, h_wal_size = wsize, h_wal_salt1 = salt1, h_wal_salt2 = salt2, h_node_id = 0\<rparr>"

section \<open>Planning\<close>

datatype plan = Skip | PlanSnapshot u64 | PlanIncremental u64 u32 u32

abbreviation wal_start :: u64 where
  "wal_start \<equiv> of_nat WAL_HEADER_SIZE"

definition sync_plan :: "position \<Rightarrow> u64 \<Rightarrow> wal_header option \<Rightarrow> plan" where
  "sync_plan pos wal_len header =
    (if po_txid pos = 0 then PlanSnapshot wal_start
     else
       (case header of
          None \<Rightarrow> if po_synced_to_wal_end pos then Skip else PlanSnapshot wal_start
        | Some h \<Rightarrow>
           let salt_match = (wh_salt1 h = po_salt1 pos \<and> wh_salt2 h = po_salt2 pos) in
           if po_wal_offset pos > wal_len \<or> \<not> salt_match
           then PlanIncremental wal_start (wh_salt1 h) (wh_salt2 h)
           else PlanIncremental (po_wal_offset pos) (po_salt1 pos) (po_salt2 pos)))"

section \<open>Snapshots\<close>

text \<open>The pages \<open>1..=commit\<close> without the lock page; a page comes from the WAL, else from the database file.\<close>

definition snapshot_page ::
  "nat \<Rightarrow> bytes \<Rightarrow> bytes \<Rightarrow> page_map \<Rightarrow> u32 \<Rightarrow> (bytes, sync_error) result" where
  "snapshot_page page_size db_bytes wal pm pgno =
    (case map_of (pm_pages pm) pgno of
       Some off \<Rightarrow> wal_page wal off page_size
     | None \<Rightarrow>
        (let off = (unat pgno - 1) * page_size in
         if off + page_size \<le> length db_bytes then Ok (take page_size (drop off db_bytes))
         else Err (SyncIo UnexpectedEof)))"

definition snapshot_list :: "u32 \<Rightarrow> u32 \<Rightarrow> u32 list" where
  "snapshot_list commit lock = filter (\<lambda>pgno. pgno \<noteq> lock) (map of_nat [1..<Suc (unat commit)])"

definition encode_snapshot ::
  "(bytes \<Rightarrow> bytes) \<Rightarrow> header \<Rightarrow> (u32 \<Rightarrow> (bytes, sync_error) result) \<Rightarrow> u32 list \<Rightarrow> encoder
    \<Rightarrow> (encoder, sync_error) result" where
  "encode_snapshot lz4c h page_at pgnos enc =
    rbind (of_ltx (encode_header enc h)) (\<lambda>enc.
    rfoldM (\<lambda>enc pgno. rbind (page_at pgno) (\<lambda>d. of_ltx (encode_page lz4c enc pgno d))) enc pgnos)"

definition empty_page_map :: page_map where
  "empty_page_map = \<lparr>pm_pages = [], pm_commit = 0, pm_end_offset = 0\<rparr>"

definition snapshot_map :: "u64 \<Rightarrow> bytes \<Rightarrow> (wal_header option \<times> page_map, sync_error) result" where
  "snapshot_map offset wal =
    (if length wal \<ge> WAL_HEADER_SIZE then
       rbind (of_wal (wal_header_parse wal)) (\<lambda>h.
       rbind (of_wal (wal_reader_new_at_offset wal (unat offset))) (\<lambda>r. Ok (Some h, snd (wal_page_map r))))
     else Ok (None, empty_page_map))"

definition build_snapshot :: "'w host \<Rightarrow> (bytes \<Rightarrow> bytes) \<Rightarrow> u64 \<Rightarrow> bytes \<Rightarrow> ('w, 's, staged_file) sync_op" where
  "build_snapshot ho lz4c offset wal =
    op_bind (op_get sy_db) (\<lambda>db.
    let page_size = d_page_size db in
    op_bind (on_host (ho_read ho (d_path db))) (\<lambda>db_bytes.
    op_bind (op_of (snapshot_map offset wal)) (\<lambda>(wal_header, pm).
    let salts = (case wal_header of None \<Rightarrow> (0, 0) | Some h \<Rightarrow> (wh_salt1 h, wh_salt2 h));
        commit = (if pm_commit pm > 0 then pm_commit pm else of_nat (length db_bytes div unat page_size));
        wsize = (of_nat (pm_end_offset pm - unat offset) :: u64) in
    op_bind (op_get (\<lambda>sy. po_txid (sy_pos sy) + 1)) (\<lambda>txid.
    op_bind
      (stage ho LEVEL0 txid txid (\<lambda>enc.
        op_bind (now_ms ho) (\<lambda>now.
        op_of (encode_snapshot lz4c
          (no_checksum_header now page_size commit txid offset wsize (fst salts) (snd salts))
          (snapshot_page (unat page_size) db_bytes wal pm) (snapshot_list commit (lock_pgno page_size)) enc))))
      (\<lambda>path.
    op_ret \<lparr>sf_outcome = Snapshot txid commit, sf_level = LEVEL0, sf_min = txid, sf_max = txid, sf_path = path,
      sf_new_pos = \<lparr>po_txid = txid, po_wal_offset = offset + wsize, po_salt1 = fst salts, po_salt2 = snd salts,
        po_synced_to_wal_end = (offset + wsize \<ge> of_nat (length wal))\<rparr>\<rparr>)))))"

text \<open>\<^verbatim>\<open>fs::read(..).unwrap_or_default()\<close>\<close>

definition read_wal_or_empty :: "'w host \<Rightarrow> ('w, 's, bytes) sync_op" where
  "read_wal_or_empty ho =
    op_bind (op_get (\<lambda>sy. d_path (sy_db sy) @ ''-wal'')) (\<lambda>wal_path.
    op_try (on_host (ho_read ho wal_path)) (\<lambda>r. op_ret (case r of Ok b \<Rightarrow> b | _ \<Rightarrow> [])))"

definition build_snapshot_now :: "'w host \<Rightarrow> (bytes \<Rightarrow> bytes) \<Rightarrow> ('w, 's, staged_file) sync_op" where
  "build_snapshot_now ho lz4c = op_bind (read_wal_or_empty ho) (\<lambda>wal. build_snapshot ho lz4c wal_start wal)"

section \<open>Increments\<close>

definition incremental_seed ::
  "'w host \<Rightarrow> string \<Rightarrow> u64 \<Rightarrow> u64 \<Rightarrow> wal_header \<Rightarrow> ('w, 's, u32 \<times> u32) sync_op" where
  "incremental_seed ho wal_path offset fsize header =
    (if offset \<le> wal_start then op_ret (wh_checksum1 header, wh_checksum2 header) else
     op_bind (read_exact_at ho wal_path (offset - fsize) WAL_FRAME_HEADER_SIZE) (\<lambda>b.
     let ph = wal_frame_header_parse b in
     if fh_salt1 ph \<noteq> wh_salt1 header \<or> fh_salt2 ph \<noteq> wh_salt2 header
     then op_fail (SyncWal PrevFrameMismatch) else op_ret (fh_checksum1 ph, fh_checksum2 ph)))"

text \<open>\<^verbatim>\<open>page_map.pages[&pgno]\<close> panics where there is no entry.\<close>

definition incremental_page :: "wal_reader \<Rightarrow> page_map \<Rightarrow> u32 \<Rightarrow> (bytes, sync_error) result" where
  "incremental_page r pm pgno =
    (case map_of (pm_pages pm) pgno of None \<Rightarrow> Panic | Some off \<Rightarrow> of_wal (page_data_at r off))"

definition build_incremental ::
  "'w host \<Rightarrow> (bytes \<Rightarrow> bytes) \<Rightarrow> u64 \<Rightarrow> u32 \<Rightarrow> u32 \<Rightarrow> u64 \<Rightarrow> wal_header \<Rightarrow> string
    \<Rightarrow> ('w, 's, staged_file option) sync_op" where
  "build_incremental ho lz4c offset salt1 salt2 wal_len header wal_path =
    op_bind (op_get (\<lambda>sy. d_page_size (sy_db sy))) (\<lambda>page_size.
    let fsize = of_nat WAL_FRAME_HEADER_SIZE + ucast page_size in
    op_bind (incremental_seed ho wal_path offset fsize header) (\<lambda>seed.
    op_bind (read_tail ho wal_path offset) (\<lambda>tail.
    op_bind (op_of (of_wal (wal_reader_from_tail header tail (unat offset) seed))) (\<lambda>reader.
    case wal_page_map reader of (reader, pm) \<Rightarrow>
    if pm_pages pm = [] then op_ret None else
    let wsize = of_nat (pm_end_offset pm) - offset; commit = pm_commit pm;
        pgnos = sort (map fst (pm_pages pm)) in
    op_bind (op_get (\<lambda>sy. po_txid (sy_pos sy) + 1)) (\<lambda>txid.
    op_bind
      (stage ho LEVEL0 txid txid (\<lambda>enc.
        op_bind (now_ms ho) (\<lambda>now.
        op_of (encode_snapshot lz4c
          (no_checksum_header now page_size commit txid offset wsize salt1 salt2)
          (incremental_page reader pm) pgnos enc))))
      (\<lambda>path.
    let final_offset = offset + wsize in
    op_ret (Some \<lparr>sf_outcome = Incremental txid (length pgnos), sf_level = LEVEL0, sf_min = txid, sf_max = txid,
      sf_path = path, sf_new_pos = \<lparr>po_txid = txid, po_wal_offset = final_offset, po_salt1 = salt1, po_salt2 = salt2,
        po_synced_to_wal_end = (final_offset \<ge> wal_len)\<rparr>\<rparr>)))))))"

section \<open>One sync\<close>

definition build_under_lock :: "'w host \<Rightarrow> (bytes \<Rightarrow> bytes) \<Rightarrow> ('w, 's, staged_file option) sync_op" where
  "build_under_lock ho lz4c =
    op_bind (op_get (\<lambda>sy. d_path (sy_db sy) @ ''-wal'')) (\<lambda>wal_path.
    op_try (on_host (ho_len ho wal_path)) (\<lambda>r.
    let wal_len = (case r of Ok n \<Rightarrow> of_nat n | _ \<Rightarrow> 0) in
    op_bind
      (if wal_len \<ge> wal_start then
         op_bind (read_exact_at ho wal_path 0 WAL_HEADER_SIZE) (\<lambda>hbuf.
         op_bind (op_of (of_wal (wal_header_parse hbuf))) (\<lambda>h. op_ret (Some h)))
       else op_ret None)
      (\<lambda>header.
    op_bind (op_get sy_pos) (\<lambda>pos.
    case sync_plan pos wal_len header of
      Skip \<Rightarrow> op_ret None
    | PlanSnapshot offset \<Rightarrow>
        op_bind (read_wal_or_empty ho) (\<lambda>wal.
        op_bind (build_snapshot ho lz4c offset wal) (\<lambda>s. op_ret (Some s)))
    | PlanIncremental offset salt1 salt2 \<Rightarrow>
        (case header of
           None \<Rightarrow> op_of Panic
         | Some h \<Rightarrow> build_incremental ho lz4c offset salt1 salt2 wal_len h wal_path)))))"

definition build_next :: "'w host \<Rightarrow> (bytes \<Rightarrow> bytes) \<Rightarrow> ('w, 's, staged_file option) sync_op" where
  "build_next ho lz4c = op_bind (on_db (acquire_read_lock ho)) (\<lambda>_. build_under_lock ho lz4c)"

definition sync :: "'w host \<Rightarrow> (bytes \<Rightarrow> bytes) \<Rightarrow> ('w, 's, sync_outcome) sync_op" where
  "sync ho lz4c =
    op_bind (build_next ho lz4c) (\<lambda>staged.
    case staged of None \<Rightarrow> op_ret Skipped | Some s \<Rightarrow> upload_staged ho s)"

text \<open>The loop may go on as long as others write; \<open>None\<close> is a loop that never ends.\<close>

partial_function (option) flush_from ::
  "'w host \<Rightarrow> (bytes \<Rightarrow> bytes) \<Rightarrow> u32 \<Rightarrow> ('w, 's) syncer \<Rightarrow> ((u32, sync_error) result \<times> ('w, 's) syncer) option" where
  "flush_from ho lz4c written sy =
    (case sync ho lz4c sy of (r, sy) \<Rightarrow>
     (case r of
        Ok out \<Rightarrow> if out = Skipped then Some (Ok written, sy) else flush_from ho lz4c (written + 1) sy
      | Err e \<Rightarrow> Some (Err e, sy)
      | Panic \<Rightarrow> Some (Panic, sy)))"

definition flush ::
  "'w host \<Rightarrow> (bytes \<Rightarrow> bytes) \<Rightarrow> ('w, 's) syncer \<Rightarrow> ((u32, sync_error) result \<times> ('w, 's) syncer) option" where
  "flush ho lz4c sy = flush_from ho lz4c 0 sy"

section \<open>Checkpoints\<close>

definition frames_below :: "u32 \<Rightarrow> u64 \<Rightarrow> u64" where
  "frames_below page_size wal_offset =
    (let fsize = of_nat WAL_FRAME_HEADER_SIZE + ucast page_size
     in (if wal_offset \<ge> wal_start then wal_offset - wal_start else 0) div fsize)"

definition run_checkpoint ::
  "'w host \<Rightarrow> (bytes \<Rightarrow> bytes) \<Rightarrow> checkpoint_mode \<Rightarrow> bool \<Rightarrow> ('w, 's, checkpoint_mode \<times> checkpoint_result) sync_op" where
  "run_checkpoint ho lz4c mode restart_wal =
    op_bind (build_next ho lz4c) (\<lambda>staged.
    op_bind (op_get (\<lambda>sy. (d_page_size (sy_db sy), po_wal_offset (sy_pos sy)))) (\<lambda>(page_size, wal_offset).
    let captured_offset = (case staged of Some s \<Rightarrow> po_wal_offset (sf_new_pos s) | None \<Rightarrow> wal_offset);
        synced_frames = frames_below page_size captured_offset in
    op_bind (on_db (checkpoint ho mode restart_wal)) (\<lambda>res.
    op_bind (case staged of Some s \<Rightarrow> op_bind (upload_staged ho s) (\<lambda>_. op_ret ()) | None \<Rightarrow> op_ret ()) (\<lambda>_.
    op_bind
      (if of_int (cr_checkpointed_frames res) > synced_frames then
         op_bind (build_snapshot_now ho lz4c) (\<lambda>snap.
         op_bind (upload_staged ho snap) (\<lambda>_.
         op_modify (\<lambda>sy. sy\<lparr>sy_resnapshots := sy_resnapshots sy + 1\<rparr>)))
       else op_ret ())
      (\<lambda>_. op_ret (mode, res))))))"

definition live_wal_frames :: "('w, 's) syncer \<Rightarrow> u64" where
  "live_wal_frames sy = frames_below (d_page_size (sy_db sy)) (po_wal_offset (sy_pos sy))"

definition checkpoint_if_needed ::
  "'w host \<Rightarrow> (bytes \<Rightarrow> bytes) \<Rightarrow> ('w, 's, (checkpoint_mode \<times> checkpoint_result) option) sync_op" where
  "checkpoint_if_needed ho lz4c =
    op_bind (op_get (\<lambda>sy. (live_wal_frames sy, sy_truncate_frames sy, sy_min_checkpoint_frames sy)))
      (\<lambda>(live, truncate_frames, min_frames).
    if live \<ge> truncate_frames then op_bind (run_checkpoint ho lz4c Truncate True) (\<lambda>c. op_ret (Some c))
    else if live \<ge> min_frames then op_bind (run_checkpoint ho lz4c Passive True) (\<lambda>c. op_ret (Some c))
    else op_ret None)"

definition checkpoint_now ::
  "'w host \<Rightarrow> (bytes \<Rightarrow> bytes) \<Rightarrow> checkpoint_mode \<Rightarrow> ('w, 's, checkpoint_mode \<times> checkpoint_result) sync_op" where
  "checkpoint_now ho lz4c mode = run_checkpoint ho lz4c mode False"

section \<open>Opening\<close>

text \<open>\<^verbatim>\<open>max_by_key\<close> takes the last of the greatest.\<close>

definition derive_position :: "'s replica_client \<Rightarrow> 's \<Rightarrow> file_index \<Rightarrow> (position, sync_error) result" where
  "derive_position cl s files =
    (case max_last (\<lambda>f. snd (snd f)) (fi_all_levels files) of
       None \<Rightarrow> Ok position_default
     | Some (_, _, txid) \<Rightarrow>
        rbind (case max_last li_max (fi_list LEVEL0 files) of
            None \<Rightarrow> Ok (0, 0, 0)
          | Some f \<Rightarrow>
             rbind (of_storage (get_ltx cl LEVEL0 (li_min f) (li_max f) s)) (\<lambda>b.
             rbind (of_ltx (decode_header (decoder_new b))) (\<lambda>(_, h).
             Ok (h_wal_offset h + h_wal_size h, h_wal_salt1 h, h_wal_salt2 h))))
          (\<lambda>(wal_offset, salt1, salt2).
        Ok \<lparr>po_txid = txid, po_wal_offset = wal_offset, po_salt1 = salt1, po_salt2 = salt2,
          po_synced_to_wal_end = False\<rparr>))"

text \<open>
  \<open>db\<close>, \<open>cl\<close> and the store are given, with what an earlier run left in staging; the fields that are
  set last have no use before.
\<close>

definition syncer_open ::
  "'w host \<Rightarrow> 'w db \<Rightarrow> 's replica_client \<Rightarrow> 's \<Rightarrow> staging_dir
    \<Rightarrow> (unit, sync_error) result \<times> ('w, 's) syncer" where
  "syncer_open ho db cl s staging =
    op_bind (op_on sy_db (\<lambda>d sy. sy\<lparr>sy_db := d\<rparr>)
        (op_map_err SyncLock (on_world (process_lock_acquire ho (d_path db))))) (\<lambda>lock.
    op_bind (op_modify (\<lambda>sy. sy\<lparr>sy_lock := lock\<rparr>)) (\<lambda>_.
    op_bind (recover_staging ho) (\<lambda>_.
    op_bind (on_store (\<lambda>s. (list_all_ltx cl MAX_LEVEL s, s))) (\<lambda>listed.
    let files = foldl (\<lambda>fi f. fi_insert f fi) fi_empty listed in
    op_bind (\<lambda>sy. (derive_position cl (sy_store sy) files, sy)) (\<lambda>pos.
    op_bind (on_db (acquire_read_lock ho)) (\<lambda>_.
    op_modify (\<lambda>sy. sy\<lparr>sy_pos := pos, sy_files := files\<rparr>)))))))
    \<lparr>sy_db = db, sy_client = cl, sy_store = s, sy_pos = position_default, sy_lock = '''',
     sy_min_checkpoint_frames = DEFAULT_MIN_CHECKPOINT_FRAMES, sy_truncate_frames = DEFAULT_TRUNCATE_FRAMES,
     sy_resnapshots = 0, sy_staging = staging, sy_scratch = [], sy_files = fi_empty\<rparr>"

end
