(* ===== verification/SyncSafety.thy ===== *)
theory SyncSafety
  imports WalSync SampleReplica
begin

text \<open>
  A TXID range that has a staged file has one until the object store has an object for the range, through
  syncs, checkpoints and recovery, whatever fails and wherever a run stops. The bytes are the subject of
  CheckpointSafety and Reopening. The proof composes the state order \<open>durable_le\<close> along the operations.
\<close>

section \<open>Names\<close>

lemma level_name:
  assumes "l \<le> MAX_LEVEL"
  shows "from_str_radix_16_u32 (pad_hex 4 (unat l)) = Some l"
proof -
  have l: "unat l < 16 ^ 4"
    using assms by (simp add: MAX_LEVEL_def word_le_nat_alt)
  then have pad: "pad_hex 4 (unat l) = hexw 4 (unat l)"
    using pad_hex_hexw [of 4 "unat l"] by simp
  have v: "hex_value_from 0 (hexw 4 (unat l)) = Some (unat l)"
    using hex_value_from_hexw [of "unat l" 4 0 "[]"] l by simp
  obtain c cs where h: "hexw 4 (unat l) = c # cs"
    by (metis length_hexw length_Suc_conv numeral_eq_Suc)
  then have "c \<noteq> CHR ''+''"
    using hexw_chars(2) [of 4 "unat l"] by auto
  then have "from_str_radix_16 (hexw 4 (unat l)) = Some (ucast l)"
    using v h by (simp add: from_str_radix_16_def)
  moreover have "unat (ucast l :: u64) = unat l"
    by (rule unat_ucast_up) simp
  moreover have "ucast (ucast l :: u64) = l"
    by (rule bit_word_eqI) (auto simp: bit_simps)
  ultimately show ?thesis
    using unsigned_less [of l, where 'a = nat] by (simp add: from_str_radix_16_u32_def pad)
qed

text \<open>The TXID range a staged file's path names, as recovery reads it.\<close>

definition path_range :: "staged_path \<Rightarrow> (u32 \<times> u64 \<times> u64) option" where
  "path_range path =
    (case from_str_radix_16_u32 (fst path) of None \<Rightarrow> None
     | Some level \<Rightarrow> map_option (\<lambda>(mn, mx). (level, mn, mx)) (parse_ltx_filename (snd path)))"

lemma path_range_staged: "l \<le> MAX_LEVEL \<Longrightarrow> path_range (staged_ltx_path l a b) = Some (l, a, b)"
  by (simp add: path_range_def staged_ltx_path_def level_name parse_filename)

lemma length_ltx_filename [simp]: "length (ltx_filename a b) = 37"
  by (simp add: ltx_filename_def u64_hex)

lemma tmp_not_staged: "staged_ltx_path l a b \<noteq> with_extension_suffix (staged_ltx_path l' a' b') ''.tmp''"
proof
  assume "staged_ltx_path l a b = with_extension_suffix (staged_ltx_path l' a' b') ''.tmp''"
  then have "length (ltx_filename a b) = length (ltx_filename a' b' @ ''.tmp'')"
    by (simp add: staged_ltx_path_def with_extension_suffix_def)
  then show False by simp
qed

section \<open>Durable transactions\<close>

text \<open>
  What a store does to other objects: nothing; and to the one a failed call named: the call's effect
  or nothing.
\<close>

definition fault_law :: "'s object_store \<Rightarrow> ('s \<Rightarrow> string \<Rightarrow> bytes option) \<Rightarrow> bool" where
  "fault_law st objs \<longleftrightarrow> (\<forall>k s r s'.
    (\<forall>bs. os_put_parts st k bs s = (r, s') \<longrightarrow>
      (\<forall>k'. k' \<noteq> k \<longrightarrow> objs s' k' = objs s k') \<and> objs s' k \<in> {objs s k, Some (concat bs)}) \<and>
    (\<forall>b. os_put st k b s = (r, s') \<longrightarrow>
      (\<forall>k'. k' \<noteq> k \<longrightarrow> objs s' k' = objs s k') \<and> objs s' k \<in> {objs s k, Some b}) \<and>
    (os_delete st k s = (r, s') \<longrightarrow>
      (\<forall>k'. k' \<noteq> k \<longrightarrow> objs s' k' = objs s k') \<and> objs s' k \<in> {objs s k, None}))"

definition durable :: "('s \<Rightarrow> string \<Rightarrow> bytes option) \<Rightarrow> ('w, 's) syncer \<Rightarrow> u32 \<times> u64 \<times> u64 \<Rightarrow> bool" where
  "durable objs sy x \<longleftrightarrow> (case x of (l, a, b) \<Rightarrow>
    map_of (sy_staging sy) (staged_ltx_path l a b) \<noteq> None \<or>
    objs (sy_store sy) (ltx_key (sy_client sy) l a b) \<noteq> None)"

definition durable_le :: "('s \<Rightarrow> string \<Rightarrow> bytes option) \<Rightarrow> ('w, 's) syncer \<Rightarrow> ('w, 's) syncer \<Rightarrow> bool" where
  "durable_le objs sy sy' \<longleftrightarrow> sy_client sy' = sy_client sy \<and>
    (\<forall>x. fst x \<le> MAX_LEVEL \<longrightarrow> durable objs sy x \<longrightarrow> durable objs sy' x)"

interpretation dur: state_order "durable_le objs" for objs
  by unfold_locales (auto simp: durable_le_def)

text \<open>The client's store obeys its contract.\<close>

definition good_store :: "('s \<Rightarrow> string \<Rightarrow> bytes option) \<Rightarrow> ('w, 's) syncer \<Rightarrow> bool" where
  "good_store objs sy \<longleftrightarrow> store_ok (cl_store (sy_client sy)) objs \<and> fault_law (cl_store (sy_client sy)) objs"

text \<open>Steps keep the order where the store is good, so they are taken relative to it.\<close>

definition safe_step :: "('s \<Rightarrow> string \<Rightarrow> bytes option) \<Rightarrow> ('w, 's) syncer \<Rightarrow> ('w, 's) syncer \<Rightarrow> bool" where
  "safe_step objs sy sy' \<longleftrightarrow> (good_store objs sy \<longrightarrow> durable_le objs sy sy')"

interpretation saf: state_order "safe_step objs" for objs
proof unfold_locales
  fix s s' s''
  show "safe_step objs s s"
    by (simp add: safe_step_def dur.refl)
  assume "safe_step objs s s'" "safe_step objs s' s''"
  then show "safe_step objs s s''"
    using dur.trans [of objs s s' s''] by (auto simp: safe_step_def good_store_def durable_le_def)
qed

lemma safe_same:
  assumes "sy_client sy' = sy_client sy" and "sy_store sy' = sy_store sy"
    and "\<forall>p. map_of (sy_staging sy) p \<noteq> None \<longrightarrow> map_of (sy_staging sy') p \<noteq> None"
  shows "safe_step objs sy sy'"
proof -
  have "durable objs sy' x" if "durable objs sy x" for x
  proof (cases x)
    case (fields l a b)
    then show ?thesis
      using that assms(1,2) assms(3) [THEN spec, of "staged_ltx_path l a b"] by (auto simp: durable_def)
  qed
  then show ?thesis
    using assms(1) by (simp add: safe_step_def durable_le_def)
qed

lemma safe_host: "keeps (safe_step objs) (on_host m)"
  unfolding on_host_def by (rule saf.keeps_on, rule safe_same) simp_all

lemma safe_db: "keeps (safe_step objs) (on_db m)"
  unfolding on_db_def by (rule saf.keeps_on, rule safe_same) simp_all

lemma safe_modify:
  "(\<And>sy. sy_client (f sy) = sy_client sy \<and> sy_store (f sy) = sy_store sy \<and>
    (\<forall>p. map_of (sy_staging sy) p \<noteq> None \<longrightarrow> map_of (sy_staging (f sy)) p \<noteq> None)) \<Longrightarrow>
    keeps (safe_step objs) (op_modify f)"
  by (rule saf.keeps_modify, rule safe_same) blast+

lemma safe_get: "(\<And>sy. \<exists>r. m sy = (r, sy)) \<Longrightarrow> keeps (safe_step objs) m"
proof (rule keepsI)
  fix s r s'
  assume "\<And>sy. \<exists>r. m sy = (r, sy)" "m s = (r, s')"
  then have "s' = s" by (metis prod.inject)
  then show "safe_step objs s s'" by (simp add: saf.refl)
qed

lemma safe_fs_read: "keeps (safe_step objs) (fs_read ho path)"
  unfolding fs_read_def by (intro saf.keeps_bind safe_host safe_get) (simp split: option.split)

lemma safe_fs_len: "keeps (safe_step objs) (fs_len ho path)"
  unfolding fs_len_def by (intro saf.keeps_intros safe_fs_read)

lemma safe_fs_create: "keeps (safe_step objs) (fs_create ho path)"
  unfolding fs_create_def by (intro saf.keeps_bind safe_host safe_modify) (simp add: update_conv')

lemma safe_fs_write: "keeps (safe_step objs) (fs_write ho path b)"
  unfolding fs_write_def by (intro saf.keeps_bind safe_host safe_modify) (simp add: update_conv')

lemma safe_now: "keeps (safe_step objs) (system_now ho)" "keeps (safe_step objs) (now_ms ho)"
  unfolding now_ms_def system_now_def by (intro saf.keeps_intros safe_host)+

lemmas safe_intros = saf.keeps_pure saf.keeps_bind saf.keeps_try saf.keeps_map_err saf.keeps_each saf.keeps_map
  safe_host safe_db safe_fs_read safe_fs_len safe_fs_create safe_fs_write safe_now

section \<open>Uploads and staging\<close>

lemma safe_rename:
  fixes ho :: "'w host" and objs :: "'s \<Rightarrow> string \<Rightarrow> bytes option"
  assumes "\<And>l a b. l \<le> MAX_LEVEL \<Longrightarrow> src \<noteq> staged_ltx_path l a b"
  shows "keeps (safe_step objs) (fs_rename ho src dst)"
  unfolding fs_rename_def
proof (rule saf.keeps_bind [OF safe_host], rule keepsI)
  fix x r and s s' :: "('w, 's) syncer"
  assume "(case map_of (sy_staging s) src of None \<Rightarrow> (Err (SyncIo NotFound), s)
    | Some b \<Rightarrow> (Ok (), s\<lparr>sy_staging := AList.update dst b (AList.delete src (sy_staging s))\<rparr>)) = (r, s')"
  then have s': "sy_client s' = sy_client s" "sy_store s' = sy_store s"
    "\<And>p. p \<noteq> src \<Longrightarrow> map_of (sy_staging s) p \<noteq> None \<Longrightarrow> map_of (sy_staging s') p \<noteq> None"
    by (auto simp: update_conv' delete_conv' split: option.splits)
  have "durable objs s' x" if "fst x \<le> MAX_LEVEL" "durable objs s x" for x
  proof (cases x)
    case (fields l a b)
    then show ?thesis
      using that s'(1,2) s'(3) [of "staged_ltx_path l a b"] assms [of l a b] by (auto simp: durable_def)
  qed
  then show "safe_step objs s s'"
    using s'(1) by (simp add: safe_step_def durable_le_def)
qed

lemma safe_stage:
  assumes "\<And>enc. keeps (safe_step objs) (encode enc)"
  shows "keeps (safe_step objs) (stage ho level mn mx encode)"
  unfolding stage_def Let_def
  by (intro safe_intros assms safe_rename) (metis tmp_not_staged)

text \<open>Removing a staged file whose range the store holds.\<close>

lemma removed_is_stored:
  assumes "fs_remove ho path sy = (r, sy')" and "path_range path = Some (l, a, b)"
    and "objs (sy_store sy) (ltx_key (sy_client sy) l a b) \<noteq> None"
  shows "safe_step objs sy sy'"
proof -
  obtain r1 sy1 where io: "on_host (fs_op ho) sy = (r1, sy1)" by (cases "on_host (fs_op ho) sy")
  then have same: "sy_client sy1 = sy_client sy" "sy_store sy1 = sy_store sy" "sy_staging sy1 = sy_staging sy"
    by (auto simp: on_host_def op_on_def split: prod.splits)
  have "sy_client sy' = sy_client sy \<and> sy_store sy' = sy_store sy \<and>
      (sy_staging sy' = sy_staging sy \<or> sy_staging sy' = AList.delete path (sy_staging sy))"
    using assms(1) io same
    by (cases r1) (auto simp: fs_remove_def op_bind_def split: option.splits)
  moreover have "x = (l, a, b)" if "fst x \<le> MAX_LEVEL" "staged_ltx_path (fst x) (fst (snd x)) (snd (snd x)) = path" for x
    using path_range_staged [OF that(1)] that(2) assms(2) by (metis option.inject prod.collapse)
  ultimately show ?thesis
    using assms(3) by (fastforce simp: safe_step_def durable_le_def durable_def delete_conv' split: prod.splits)
qed


text \<open>A put by the client: it adds to the store, and on success the object is there.\<close>

definition adds ::
  "('s \<Rightarrow> string \<Rightarrow> bytes option) \<Rightarrow> string \<Rightarrow> ('w, 's) syncer \<Rightarrow> ('w, 's) syncer \<Rightarrow> bool" where
  "adds objs k sy sy' \<longleftrightarrow> sy_client sy' = sy_client sy \<and> sy_staging sy' = sy_staging sy \<and>
    (\<forall>k'. objs (sy_store sy) k' \<noteq> None \<longrightarrow> objs (sy_store sy') k' \<noteq> None)"

lemma adds_safe: "adds objs k sy sy' \<Longrightarrow> safe_step objs sy sy'"
  by (auto simp: adds_def safe_step_def durable_le_def durable_def)

lemma on_store_run:
  "on_store m sy = (r, sy') \<longleftrightarrow>
    (\<exists>q s. m (sy_store sy) = (q, s) \<and> r = rmap_err SyncStorage q \<and> sy' = sy\<lparr>sy_store := s\<rparr>)"
  by (auto simp: on_store_def op_on_def op_map_err_def split: prod.splits)

lemma cas_adds:
  assumes "good_store objs sy" and "on_store (put_ltx_cas (sy_client sy) l a b c) sy = (r, sy')"
  shows "adds objs (ltx_key (sy_client sy) l a b) sy sy' \<and>
    (\<forall>out. r = Ok out \<longrightarrow> objs (sy_store sy') (ltx_key (sy_client sy) l a b) \<noteq> None)"
proof -
  let ?k = "ltx_key (sy_client sy) l a b"
  obtain q s where put: "put_ltx_cas (sy_client sy) l a b c (sy_store sy) = (q, s)"
    and r: "r = rmap_err SyncStorage q" "sy' = sy\<lparr>sy_store := s\<rparr>"
    using assms(2) by (auto simp: on_store_run)
  have ok: "store_ok (cl_store (sy_client sy)) objs"
    using assms(1) by (simp add: good_store_def)
  note run = put_ltx_cas_run [OF ok put]
  have "objs s k' \<noteq> None" if "objs (sy_store sy) k' \<noteq> None" for k'
    using run that by (cases "k' = ?k") auto
  moreover have "objs s ?k \<noteq> None" if "q = Ok out" for out
    using run that by (cases out) auto
  ultimately show ?thesis
    by (auto simp: adds_def r)
qed

lemma multipart_adds:
  assumes "good_store objs sy" and "on_store (put_ltx_multipart (sy_client sy) l a b c) sy = (r, sy')"
  shows "adds objs (ltx_key (sy_client sy) l a b) sy sy' \<and>
    (r = Ok () \<longrightarrow> objs (sy_store sy') (ltx_key (sy_client sy) l a b) \<noteq> None)"
proof -
  let ?k = "ltx_key (sy_client sy) l a b"
  obtain q s where put: "put_ltx_multipart (sy_client sy) l a b c (sy_store sy) = (q, s)"
    and r: "r = rmap_err SyncStorage q" "sy' = sy\<lparr>sy_store := s\<rparr>"
    using assms(2) by (auto simp: on_store_run)
  obtain q' where "os_put_parts (cl_store (sy_client sy)) ?k (multipart_parts MULTIPART_CHUNK c) (sy_store sy) = (q', s)"
    using put by (auto simp: put_ltx_multipart_def split: prod.splits)
  then have other: "\<forall>k'. k' \<noteq> ?k \<longrightarrow> objs s k' = objs (sy_store sy) k'"
    "objs s ?k = objs (sy_store sy) ?k \<or> objs s ?k \<noteq> None"
    using assms(1) unfolding good_store_def fault_law_def by blast+
  have "objs s k' \<noteq> None" if "objs (sy_store sy) k' \<noteq> None" for k'
    using other that by (cases "k' = ?k") auto
  moreover have "objs s ?k \<noteq> None" if "q = Ok ()"
    using put_ltx_multipart_Ok [of "sy_client sy" objs l a b c "sy_store sy" s] assms(1) put that
    by (simp add: good_store_def)
  ultimately show ?thesis
    by (auto simp: adds_def r)
qed

text \<open>The put of \<^verbatim>\<open>upload_ltx_file\<close>, with the client fixed.\<close>

definition upload_put :: "'w host \<Rightarrow> u32 \<Rightarrow> u64 \<Rightarrow> u64 \<Rightarrow> staged_path \<Rightarrow> nat \<Rightarrow> 's replica_client \<Rightarrow> ('w, 's, unit) sync_op" where
  "upload_put ho level mn mx path sz cl =
    (if sz \<ge> MULTIPART_THRESHOLD then
       op_bind (fs_read ho path) (\<lambda>b. on_store (put_ltx_multipart cl level mn mx b))
     else
       op_bind (fs_read ho path) (\<lambda>b.
       op_bind (on_store (put_ltx_cas cl level mn mx b)) (\<lambda>out.
       case out of Conflict \<Rightarrow> op_fail (Equivocation mx) | _ \<Rightarrow> op_ret ())))"

lemma fs_read_same:
  "fs_read ho path sy = (r, sy') \<Longrightarrow> sy_client sy' = sy_client sy \<and> sy_store sy' = sy_store sy \<and>
    sy_staging sy' = sy_staging sy \<and> sy_files sy' = sy_files sy \<and> sy_pos sy' = sy_pos sy \<and>
    (\<forall>b. r = Ok b \<longrightarrow> map_of (sy_staging sy) path = Some b)"
  unfolding fs_read_def
  by (erule op_bind_cases) (auto simp: on_host_def op_on_def split: prod.splits option.splits)

lemma upload_put_run:
  assumes "good_store objs sy" and "upload_put ho l a b path sz (sy_client sy) sy = (r, sy')"
  shows "safe_step objs sy sy' \<and> good_store objs sy' \<and>
    (r = Ok () \<longrightarrow> objs (sy_store sy') (ltx_key (sy_client sy') l a b) \<noteq> None)"
proof -
  obtain r1 sy1 where rd: "fs_read ho path sy = (r1, sy1)" by (cases "fs_read ho path sy")
  note same = fs_read_same [OF rd]
  have s1: "safe_step objs sy sy1" "good_store objs sy1" "sy_client sy1 = sy_client sy"
    using same assms(1) safe_same [of sy1 sy objs] by (auto simp: good_store_def)
  show ?thesis
  proof (cases r1)
    case (Ok c)
    show ?thesis
    proof (cases "sz \<ge> MULTIPART_THRESHOLD")
      case True
      then have "on_store (put_ltx_multipart (sy_client sy1) l a b c) sy1 = (r, sy')"
        using assms(2) rd Ok s1(3) by (simp add: upload_put_def op_bind_def)
      from multipart_adds [OF s1(2) this] show ?thesis
        using saf.trans [OF s1(1) adds_safe] s1 by (auto simp: adds_def good_store_def)
    next
      case False
      obtain r2 sy2 where put: "on_store (put_ltx_cas (sy_client sy1) l a b c) sy1 = (r2, sy2)"
        by (cases "on_store (put_ltx_cas (sy_client sy1) l a b c) sy1")
      then have "sy' = sy2 \<and> (r = Ok () \<longrightarrow> (\<exists>out. r2 = Ok out))"
        using assms(2) rd Ok s1(3) False
        by (cases r2) (auto simp: upload_put_def op_bind_def op_fail_def op_ret_def split: put_outcome.splits)
      with cas_adds [OF s1(2) put] show ?thesis
        using saf.trans [OF s1(1) adds_safe] s1 by (auto simp: adds_def good_store_def)
    qed
  qed (use assms(2) rd s1 in \<open>auto simp: upload_put_def op_bind_def split: if_splits\<close>)
qed

lemma safe_upload:
  assumes "path_range path = Some (l, a, b)"
  shows "keeps (safe_step objs) (upload_ltx_file ho l a b path)"
proof -
  have "safe_step objs sy sy'"
    if run: "op_bind (upload_put ho l a b path sz (sy_client sy)) (\<lambda>_. fs_remove ho path) sy = (r, sy')"
      and good: "good_store objs sy" for sz sy r sy'
    using run
  proof (cases rule: op_bind_cases)
    case (step x sy1)
    from upload_put_run [OF good step(1)] have s1: "safe_step objs sy sy1"
      "objs (sy_store sy1) (ltx_key (sy_client sy1) l a b) \<noteq> None"
      by auto
    show ?thesis
      by (rule saf.trans [OF s1(1) removed_is_stored [where path = path]]) (use step(2) assms s1(2) in auto)
  qed (use upload_put_run [OF good] in blast)+
  then have put: "safe_step objs sy sy'"
    if "op_bind (upload_put ho l a b path sz (sy_client sy)) (\<lambda>_. fs_remove ho path) sy = (r, sy')"
    for sz sy r sy'
    using that by (cases "good_store objs sy") (auto simp: safe_step_def)
  have "keeps (safe_step objs) (op_bind (op_get sy_client) (\<lambda>cl.
      op_bind (upload_put ho l a b path sz cl) (\<lambda>_. fs_remove ho path)))" for sz
    by (rule keepsI) (use put in \<open>auto simp: op_bind_def [of "op_get sy_client"] op_get_def\<close>)
  then show ?thesis
    unfolding upload_ltx_file_def upload_put_def [symmetric] by (rule saf.keeps_bind [OF safe_fs_len])
qed


section \<open>Operations\<close>

lemma safe_upload_staged:
  assumes "path_range (sf_path f) = Some (sf_level f, sf_min f, sf_max f)"
  shows "keeps (safe_step objs) (upload_staged ho f)"
  unfolding upload_staged_def Let_def
  by (intro safe_intros safe_upload [OF assms] safe_modify) simp

lemma safe_scratch: "keeps (safe_step objs) (read_wal_or_empty ho)" "keeps (safe_step objs) (read_exact_at ho path off n)"
  "keeps (safe_step objs) (read_tail ho path off)" "keeps (safe_step objs) (incremental_seed ho path off m h)"
  unfolding read_wal_or_empty_def read_exact_at_def read_tail_def incremental_seed_def Let_def
  by (auto intro!: safe_intros)

lemma safe_build_snapshot: "keeps (safe_step objs) (build_snapshot ho lz4c off wal)"
  unfolding build_snapshot_def Let_def by (auto intro!: safe_intros safe_stage split: prod.split)

lemma safe_build_incremental: "keeps (safe_step objs) (build_incremental ho lz4c off a b n h path)"
  unfolding build_incremental_def Let_def
  by (auto intro!: safe_intros safe_stage safe_scratch split: prod.split)

lemma safe_build_next: "keeps (safe_step objs) (build_next ho lz4c)"
  unfolding build_next_def build_under_lock_def Let_def
  by (auto intro!: safe_intros safe_scratch safe_build_snapshot safe_build_incremental split: plan.split option.split)

text \<open>What a build returns is staged under its own name.\<close>

definition staged_here :: "('w, 's) syncer \<Rightarrow> staged_file \<Rightarrow> bool" where
  "staged_here sy f \<longleftrightarrow> sf_level f = LEVEL0 \<and> sf_path f = staged_ltx_path LEVEL0 (sf_min f) (sf_max f) \<and>
    map_of (sy_staging sy) (sf_path f) \<noteq> None"

lemma stage_Ok:
  assumes "stage ho l a b encode sy = (Ok path, sy')"
  shows "path = staged_ltx_path l a b \<and> map_of (sy_staging sy') path \<noteq> None"
  using assms by (auto simp: stage_def Let_def op_simps fs_rename_def update_conv' split: option.splits)

lemma yields_stage_then:
  "(\<And>sy. map_of (sy_staging sy) (staged_ltx_path l a b) \<noteq> None \<Longrightarrow> P (g (staged_ltx_path l a b)) sy) \<Longrightarrow>
    yields P (op_bind (stage ho l a b encode) (\<lambda>path. op_ret (g path)))"
  by (auto simp: yields_def op_bind_Ok op_ret_def dest!: stage_Ok)

lemma yields_snapshot: "yields (\<lambda>f sy. staged_here sy f) (build_snapshot ho lz4c off wal)"
  unfolding build_snapshot_def Let_def case_prod_beta
  by ((rule yields_stage_then yields_bind)+) (simp add: staged_here_def)

definition staged_option :: "staged_file option \<Rightarrow> ('w, 's) syncer \<Rightarrow> bool" where
  "staged_option r sy \<longleftrightarrow> (case r of None \<Rightarrow> True | Some f \<Rightarrow> staged_here sy f)"

lemma staged_option_None: "yields staged_option (op_ret None)"
  by (simp add: yields_ret staged_option_def)

lemma yields_if: "yields P m \<Longrightarrow> yields P n \<Longrightarrow> yields P (if c then m else n)"
  by simp

lemma yields_incremental: "yields staged_option (build_incremental ho lz4c off a b n h path)"
  unfolding build_incremental_def Let_def case_prod_beta
  by ((rule yields_stage_then yields_if staged_option_None yields_bind)+)
    (simp add: staged_here_def staged_option_def)

lemma yields_some: "yields (\<lambda>f sy. staged_here sy f) m \<Longrightarrow> yields staged_option (op_bind m (\<lambda>s. op_ret (Some s)))"
  by (auto simp: yields_def op_bind_Ok op_ret_def staged_option_def)

lemma yields_build_next: "yields staged_option (build_next ho lz4c)"
  unfolding build_next_def build_under_lock_def Let_def
  by (auto intro!: yields_bind yields_try yields_none yields_some yields_snapshot yields_incremental
      staged_option_None split: plan.split option.split)

lemma build_next_Ok: "build_next ho lz4c sy = (Ok (Some f), sy') \<Longrightarrow> staged_here sy' f"
  by (drule yieldsD [OF yields_build_next]) (simp add: staged_option_def)

lemma staged_here_range: "staged_here sy f \<Longrightarrow> path_range (sf_path f) = Some (sf_level f, sf_min f, sf_max f)"
  by (simp add: staged_here_def LEVEL0_def path_range_staged)

lemma saf_bind_post:
  assumes "keeps (safe_step objs) m" and "\<And>s x s1. m s = (Ok x, s1) \<Longrightarrow> keeps (safe_step objs) (f x)"
  shows "keeps (safe_step objs) (op_bind m f)"
proof (rule keepsI)
  fix s r s'
  assume "op_bind m f s = (r, s')"
  then show "safe_step objs s s'"
  proof (cases rule: op_bind_cases)
    case (step x s1)
    then show ?thesis
      using saf.trans [OF keepsD [OF assms(1) step(1)] keepsD [OF assms(2) [OF step(1)] step(2)]] by blast
  qed (use keepsD [OF assms(1)] in blast)+
qed

lemma safe_sync: "keeps (safe_step objs) (sync ho lz4c)"
  unfolding sync_def
  by (rule saf_bind_post [OF safe_build_next])
    (auto intro!: safe_intros safe_upload_staged staged_here_range dest: build_next_Ok split: option.split)

lemma safe_snapshot_now:
  "keeps (safe_step objs) (op_bind (build_snapshot_now ho lz4c) (\<lambda>snap.
    op_bind (upload_staged ho snap) (\<lambda>_. op_modify (\<lambda>sy. sy\<lparr>sy_resnapshots := sy_resnapshots sy + 1\<rparr>))))"
proof (rule saf_bind_post)
  show "keeps (safe_step objs) (build_snapshot_now ho lz4c)"
    unfolding build_snapshot_now_def by (intro saf.keeps_bind safe_scratch safe_build_snapshot)
next
  fix s f s1
  assume "build_snapshot_now ho lz4c s = (Ok f, s1)"
  then have "staged_here s1 f"
    by (auto simp: build_snapshot_now_def op_bind_Ok dest: yieldsD [OF yields_snapshot])
  then show "keeps (safe_step objs) (op_bind (upload_staged ho f)
      (\<lambda>_. op_modify (\<lambda>sy. sy\<lparr>sy_resnapshots := sy_resnapshots sy + 1\<rparr>)))"
    by (intro saf.keeps_bind safe_upload_staged safe_modify staged_here_range) simp_all
qed

text \<open>The part of a checkpoint cycle after its frames were staged.\<close>

definition after_build ::
  "'w host \<Rightarrow> (bytes \<Rightarrow> bytes) \<Rightarrow> checkpoint_mode \<Rightarrow> bool \<Rightarrow> staged_file option
    \<Rightarrow> ('w, 's, checkpoint_mode \<times> checkpoint_result) sync_op" where
  "after_build ho lz4c mode restart_wal staged =
    op_bind (op_get (\<lambda>sy. (d_page_size (sy_db sy), po_wal_offset (sy_pos sy)))) (\<lambda>(page_size, wal_offset).
    let captured_offset = (case staged of Some s \<Rightarrow> po_wal_offset (sf_new_pos s) | None \<Rightarrow> wal_offset);
        synced_frames = frames_below page_size captured_offset in
    op_bind (on_db (checkpoint ho mode restart_wal)) (\<lambda>res.
    op_bind (case staged of Some s \<Rightarrow> op_bind (upload_staged ho s) (\<lambda>_. op_ret ()) | None \<Rightarrow> op_ret ()) (\<lambda>_.
    op_bind
      (if of_int (cr_checkpointed_frames res) > synced_frames then
         op_bind (build_snapshot_now ho lz4c) (\<lambda>snap.
         op_bind (upload_staged ho snap) (\<lambda>_.
         op_modify (\<lambda>sy. sy\<lparr>sy_resnapshots := sy_resnapshots sy + 1\<rparr>)))
       else op_ret ())
      (\<lambda>_. op_ret (mode, res)))))"

lemma run_checkpoint_alt:
  "run_checkpoint ho lz4c mode restart_wal = op_bind (build_next ho lz4c) (after_build ho lz4c mode restart_wal)"
  by (simp add: run_checkpoint_def after_build_def [abs_def])

lemma safe_after_build:
  assumes "\<And>f. staged = Some f \<Longrightarrow> path_range (sf_path f) = Some (sf_level f, sf_min f, sf_max f)"
  shows "keeps (safe_step objs) (after_build ho lz4c mode restart_wal staged)"
proof -
  have "keeps (safe_step objs) (case staged of Some s \<Rightarrow> op_bind (upload_staged ho s) (\<lambda>_. op_ret ()) | None \<Rightarrow> op_ret ())"
    using assms by (auto intro!: safe_intros safe_upload_staged split: option.split)
  then show ?thesis
    unfolding after_build_def Let_def by (auto intro!: safe_intros safe_snapshot_now split: prod.split)
qed

lemma safe_run_checkpoint: "keeps (safe_step objs) (run_checkpoint ho lz4c mode restart_wal)"
  unfolding run_checkpoint_alt
  by (rule saf_bind_post [OF safe_build_next])
    (auto intro!: safe_after_build staged_here_range dest: build_next_Ok)

lemma safe_checkpoints:
  "keeps (safe_step objs) (checkpoint_if_needed ho lz4c)" "keeps (safe_step objs) (checkpoint_now ho lz4c mode)"
  unfolding checkpoint_if_needed_def checkpoint_now_def
  by (auto intro!: safe_intros safe_run_checkpoint split: prod.split)

end
