(* ===== verification/SyncOrder.thy ===== *)
theory SyncOrder
  imports WalSync
begin

text \<open>
  Relations between the states before and after the operations of a syncer: a relation that the calls
  to the host respect is respected by what is built from them. One locale per group of calls, so that
  a relation is checked on the calls only.
\<close>

section \<open>Local files\<close>

locale staging_order = state_order R for R :: "('w, 's) syncer \<Rightarrow> ('w, 's) syncer \<Rightarrow> bool" +
  fixes ho :: "'w host"
  assumes host_fs: "keeps R (on_host (fs_op ho))" and host_now: "keeps R (system_now ho)"
    and staging: "R sy (sy\<lparr>sy_staging := d\<rparr>)"
begin

lemma keeps_case:
  "(\<And>sy. R sy (snd (m sy))) \<Longrightarrow> keeps R m"
  by (rule keepsI) (metis snd_conv)

lemma keeps_fs: "keeps R (fs_read ho path)" "keeps R (fs_create ho path)" "keeps R (fs_write ho path b)"
  "keeps R (fs_rename ho path path')" "keeps R (fs_remove ho path)" "keeps R (fs_len ho path)" "keeps R (now_ms ho)"
  unfolding fs_len_def fs_read_def fs_create_def fs_write_def fs_rename_def fs_remove_def now_ms_def
  by (intro keeps_bind keeps_pure keeps_modify host_fs host_now staging keeps_case;
      simp add: refl staging split: option.split)+

lemma keeps_stage: "(\<And>enc. keeps R (encode enc)) \<Longrightarrow> keeps R (stage ho l a b encode)"
  unfolding stage_def Let_def by (intro keeps_pure keeps_bind host_fs keeps_fs)

lemma keeps_encode: "keeps R (op_bind (now_ms ho) (\<lambda>now. op_of (m now)))"
  by (intro keeps_bind keeps_pure keeps_fs)

end

section \<open>Reading the database and the WAL\<close>

locale building_order = staging_order R ho for R :: "('w, 's) syncer \<Rightarrow> ('w, 's) syncer \<Rightarrow> bool" and ho +
  assumes host_read: "keeps R (on_host (ho_read ho path))" and host_len: "keeps R (on_host (ho_len ho path))"
    and host_lock: "keeps R (on_db (acquire_read_lock ho))"
begin

lemma keeps_build_snapshot: "keeps R (build_snapshot ho lz4c off wal)" "keeps R (read_wal_or_empty ho)"
  unfolding build_snapshot_def read_wal_or_empty_def Let_def
  by (auto intro!: keeps_pure keeps_bind keeps_try host_read keeps_fs keeps_stage split: prod.split)

lemma keeps_build_snapshot_now: "keeps R (build_snapshot_now ho lz4c)"
  unfolding build_snapshot_now_def by (intro keeps_bind keeps_build_snapshot)

lemma keeps_build_incremental: "keeps R (build_incremental ho lz4c off a b n h path)"
  unfolding build_incremental_def read_tail_def read_exact_at_def incremental_seed_def Let_def
  by (auto intro!: keeps_pure keeps_bind host_read keeps_fs keeps_stage split: prod.split)

lemma keeps_build_next: "keeps R (build_next ho lz4c)"
  unfolding build_next_def build_under_lock_def read_exact_at_def Let_def
  by (auto intro!: keeps_pure keeps_bind keeps_try host_read host_len host_lock keeps_build_snapshot
      keeps_build_incremental split: plan.split option.split)

end

section \<open>Uploading\<close>

locale storing_order = staging_order R ho for R :: "('w, 's) syncer \<Rightarrow> ('w, 's) syncer \<Rightarrow> bool" and ho +
  assumes store: "R sy (sy\<lparr>sy_store := s\<rparr>)"
begin

lemma keeps_store: "keeps R (on_store m)"
  unfolding on_store_def by (rule keeps_on) (rule store)

lemma keeps_upload_file: "keeps R (upload_ltx_file ho l a b path)"
  unfolding upload_ltx_file_def
  by (auto intro!: keeps_pure keeps_bind keeps_fs keeps_store split: put_outcome.split)

end

locale uploading_order = storing_order R ho for R :: "('w, 's) syncer \<Rightarrow> ('w, 's) syncer \<Rightarrow> bool" and ho +
  assumes index: "R sy (sy\<lparr>sy_files := fi, sy_pos := p\<rparr>)"
begin

lemma keeps_upload_staged: "keeps R (upload_staged ho f)"
  unfolding upload_staged_def Let_def
  by (auto intro!: keeps_pure keeps_bind keeps_try keeps_fs keeps_upload_file host_now keeps_modify index)

end

section \<open>A whole cycle\<close>

locale cycle_order = building_order R ho + uploading_order R ho
  for R :: "('w, 's) syncer \<Rightarrow> ('w, 's) syncer \<Rightarrow> bool" and ho +
  assumes host_checkpoint: "keeps R (on_db (checkpoint ho mode restart_wal))"
    and resnapshots: "R sy (sy\<lparr>sy_resnapshots := n\<rparr>)"
begin

lemma keeps_sync: "keeps R (sync ho lz4c)"
  unfolding sync_def
  by (auto intro!: keeps_pure keeps_bind keeps_build_next keeps_upload_staged split: option.split)

lemma keeps_run_checkpoint: "keeps R (run_checkpoint ho lz4c mode restart_wal)"
  unfolding run_checkpoint_def Let_def
  by (auto intro!: keeps_pure keeps_bind keeps_build_next keeps_upload_staged keeps_build_snapshot_now keeps_modify
      host_checkpoint resnapshots split: option.split prod.split)

end

end
