(* ===== verification/SyncBuild.thy ===== *)
theory SyncBuild
  imports WalSync Compactor
begin

text \<open>
  What a sync stages: a snapshot holds the live database, the file with the committed frames of the WAL
  over it; an increment holds the newest committed version of every page among the frames since the
  position. The lemmas connect the page map's offsets with the frames' contents and the encoder loop
  with the file format.
\<close>

section \<open>Frames and their bytes\<close>

text \<open>The newest content of each page among the committed frames.\<close>

definition newest_data :: "wal_frame list \<Rightarrow> u32 \<Rightarrow> bytes option" where
  "newest_data fs = map_of (rev (map (\<lambda>f. (fr_pgno f, fr_data f)) (committed fs)))"

text \<open>A page of the live database: its newest committed frame, else the database file.\<close>

definition live_page :: "nat \<Rightarrow> bytes \<Rightarrow> wal_frame list \<Rightarrow> u32 \<Rightarrow> bytes" where
  "live_page ps db_bytes fs p =
    (case newest_data fs p of Some d \<Rightarrow> d | None \<Rightarrow> page_of ps db_bytes (unat p))"

definition frame_at :: "wal_reader \<Rightarrow> wal_frame \<Rightarrow> bool" where
  "frame_at r f \<longleftrightarrow> w_base r \<le> fr_offset f \<and>
    fr_offset f - w_base r + WAL_FRAME_HEADER_SIZE + unat (wh_page_size (w_header r)) \<le> length (w_data r) \<and>
    fr_data f = take (unat (wh_page_size (w_header r)))
      (drop (fr_offset f - w_base r + WAL_FRAME_HEADER_SIZE) (w_data r))"

lemma frames_located:
  "w_base r \<le> WAL_HEADER_SIZE + w_frame_n r * frame_size (w_header r) \<Longrightarrow> f \<in> set (read_frames r) \<Longrightarrow> frame_at r f"
proof (induction r rule: read_frames.induct)
  case (1 r)
  show ?case
  proof (cases "read_frame r")
    case None
    then show ?thesis
      using "1.prems"(2) by (simp add: read_frames_None)
  next
    case (Some rf)
    obtain r1 g where rf: "rf = (r1, g)" by (cases rf)
    have step: "read_frame r = Some (r1, g)"
      using Some rf by simp
    note r1 = read_frame_Some [OF step]
    have g: "frame_at r g"
      using step "1.prems"(1)
      by (auto simp: read_frame_def Let_def frame_at_def frame_size_def split: if_splits prod.splits)
    have "w_base r1 \<le> WAL_HEADER_SIZE + w_frame_n r1 * frame_size (w_header r1)"
      using "1.prems"(1) r1 by (simp add: trans_le_add1)
    then have "frame_at r1 f" if "f \<in> set (read_frames r1)"
      using "1.IH" [OF Some rf [symmetric]] that by blast
    then show ?thesis
      using "1.prems"(2) g r1 by (auto simp: read_frames_Some [OF step] frame_at_def)
  qed
qed

lemma latest_data:
  assumes "\<And>f. f \<in> set fs \<Longrightarrow> page_at (fr_offset f) = Ok (fr_data f)"
  shows "case latest fs p of
      None \<Rightarrow> map_of (rev (map (\<lambda>f. (fr_pgno f, fr_data f)) fs)) p = None
    | Some off \<Rightarrow> \<exists>d. map_of (rev (map (\<lambda>f. (fr_pgno f, fr_data f)) fs)) p = Some d \<and> page_at off = Ok d"
  using assms
proof (induction fs rule: rev_induct)
  case Nil
  then show ?case by (simp add: latest_def)
next
  case (snoc f fs)
  then show ?case
    by (auto simp: latest_snoc split: option.splits)
qed

lemma page_map_data:
  fixes r :: wal_reader
  assumes "\<And>f. f \<in> set (read_frames r) \<Longrightarrow> page_at (fr_offset f) = Ok (fr_data f)"
  defines "pm \<equiv> snd (wal_page_map r)"
  shows "case map_of (pm_pages pm) p of
      None \<Rightarrow> pm_commit pm < p \<or> newest_data (read_frames r) p = None
    | Some off \<Rightarrow> \<exists>d. p \<le> pm_commit pm \<and> newest_data (read_frames r) p = Some d \<and> page_at off = Ok d"
proof -
  have "page_at (fr_offset f) = Ok (fr_data f)" if "f \<in> set (committed (read_frames r))" for f
    using assms(1) that committed_subset by blast
  from latest_data [of "committed (read_frames r)" page_at p, OF this]
  show ?thesis
    using wal_page_map_run [of r] unfolding pm_def newest_data_def
    by (cases "p \<le> pm_commit (snd (wal_page_map r))") (auto split: option.splits)
qed

section \<open>The encoder loop\<close>

lemma encode_snapshot_pages:
  assumes "\<And>p. p \<in> set pgnos \<Longrightarrow> page_at p = Ok (g p)"
  shows "encode_snapshot lz4c h page_at pgnos enc =
    rbind (of_ltx (encode_header enc h)) (\<lambda>e. of_ltx (encode_pages lz4c e (map (\<lambda>p. (p, g p)) pgnos)))"
proof -
  have "rfoldM (\<lambda>enc pgno. rbind (page_at pgno) (\<lambda>d. of_ltx (encode_page lz4c enc pgno d))) e pgnos =
      of_ltx (encode_pages lz4c e (map (\<lambda>p. (p, g p)) pgnos))" for e
    using assms
  proof (induction pgnos arbitrary: e)
    case Nil
    then show ?case by (simp add: encode_pages_def)
  next
    case (Cons p pgnos)
    then show ?case
      by (cases "encode_page lz4c e p (g p)") (simp_all add: encode_pages_def of_ltx_def)
  qed
  then show ?thesis
    by (simp add: encode_snapshot_def)
qed

lemma encode_snapshot_file:
  assumes "\<And>p. p \<in> set pgnos \<Longrightarrow> page_at p = Ok (g p)"
    and "encode_snapshot lz4c h page_at pgnos encoder_new = Ok enc"
  shows "\<exists>t. encode_file lz4c h (map (\<lambda>p. (p, g p)) pgnos) checksum_zero = Ok (e_w (fst (encoder_finish enc)), t)"
proof -
  from assms(2) obtain e where "encode_header encoder_new h = Ok e"
    "encode_pages lz4c e (map (\<lambda>p. (p, g p)) pgnos) = Ok enc"
    by (auto simp: encode_snapshot_pages [of pgnos page_at g, OF assms(1)] rbind_eq_Ok)
  then show ?thesis
    by (simp add: encode_file_no_post case_prod_beta)
qed

lemma encode_snapshot_Ok:
  assumes "\<And>p. p \<in> set pgnos \<Longrightarrow> page_at p = Ok (g p)"
    and "encode_file lz4c h (map (\<lambda>p. (p, g p)) pgnos) checksum_zero = Ok bt"
  shows "\<exists>enc. encode_snapshot lz4c h page_at pgnos encoder_new = Ok enc"
  using assms(2) by (auto simp: encode_snapshot_pages [of pgnos page_at g, OF assms(1)] encode_file_no_post res_simps)

section \<open>Staging\<close>

lemma on_host_run: "on_host m sy = (r, sy') \<longleftrightarrow>
    (\<exists>q w. m (d_world (sy_db sy)) = (q, w) \<and> r = rmap_err SyncIo q \<and>
      sy' = sy\<lparr>sy_db := (sy_db sy)\<lparr>d_world := w\<rparr>\<rparr>)"
  by (auto simp: on_host_def op_on_def on_world_def op_map_err_def split: prod.splits)

lemma stage_content:
  assumes "stage ho l a b encode sy = (Ok path, sy')"
  obtains enc sy0 sy1 where "encode encoder_new sy0 = (Ok enc, sy1)"
    and "map_of (sy_staging sy') path = Some (e_w (fst (encoder_finish enc)))"
proof -
  let ?final = "staged_ltx_path l a b"
  let ?tmp = "with_extension_suffix ?final ''.tmp''"
  have same: "sy_staging sy2 = sy_staging sy1" if "on_host m sy1 = (r, sy2)" for m :: "('a, unit, io_error) op" and r sy1 sy2
    using that by (auto simp: on_host_run)
  from assms obtain s2 enc s3 s4 s5 where
    enc: "encode encoder_new s2 = (Ok enc, s3)" and
    wr: "fs_write ho ?tmp (e_w (fst (encoder_finish enc))) s3 = (Ok (), s4)" and
    sync: "on_host (fs_op ho) s4 = (Ok (), s5)" and
    ren: "fs_rename ho ?tmp ?final s5 = (Ok (), sy')" and path: "path = ?final"
    by (auto simp: stage_def Let_def op_bind_Ok op_ret_def)
  have "map_of (sy_staging s4) ?tmp = Some (e_w (fst (encoder_finish enc)))"
    using wr by (auto simp: fs_write_def op_bind_Ok op_modify_def update_conv')
  then have "map_of (sy_staging s5) ?tmp = Some (e_w (fst (encoder_finish enc)))"
    using same [OF sync] by simp
  then have "map_of (sy_staging sy') path = Some (e_w (fst (encoder_finish enc)))"
    using ren path by (auto simp: fs_rename_def op_bind_Ok update_conv' dest!: same split: option.splits)
  with enc show thesis by (rule that)
qed

section \<open>Snapshots\<close>

lemma encode_snapshot_reads:
  assumes "encode_snapshot lz4c h page_at pgnos enc = Ok enc'" and "p \<in> set pgnos"
  shows "\<exists>d. page_at p = Ok d"
proof -
  have "rfoldM (\<lambda>enc pgno. rbind (page_at pgno) (\<lambda>d. of_ltx (encode_page lz4c enc pgno d))) e pgnos = Ok enc' \<Longrightarrow>
      \<exists>d. page_at p = Ok d" for e
    using assms(2) by (induction pgnos arbitrary: e) (auto simp: rbind_eq_Ok)
  then show ?thesis
    using assms(1) by (auto simp: encode_snapshot_def rbind_eq_Ok)
qed

lemma last_commit_0: "last_commit fs = 0 \<longleftrightarrow> committed fs = []"
proof -
  have "fr_is_commit (last (committed fs))" if "committed fs \<noteq> []"
    using that hd_dropWhile [of "\<lambda>f. \<not> fr_is_commit f" "rev fs"] by (simp add: committed_def last_rev)
  then show ?thesis
    by (auto simp: last_commit_def fr_is_commit_def)
qed

text \<open>The frames of a WAL file, none where it has no header.\<close>

definition wal_frames :: "bytes \<Rightarrow> u32 \<Rightarrow> wal_frame list \<Rightarrow> bool" where
  "wal_frames wal page_size fs \<longleftrightarrow>
    (if length wal < WAL_HEADER_SIZE then fs = []
     else \<exists>r. wal_reader_new wal = Ok r \<and> wh_page_size (w_header r) = page_size \<and> fs = read_frames r)"

lemma wal_reader_at_start:
  "wal_reader_new_at_offset wal WAL_HEADER_SIZE = wal_reader_new wal"
  by (cases "wal_header_parse wal") (simp_all add: wal_reader_new_at_offset_def wal_reader_new_def Let_def)

lemma snapshot_map_data:
  assumes "wal_frames wal page_size fs" and "snapshot_map wal_start wal = Ok (wh, pm)"
  shows "pm_commit pm = last_commit fs" and "\<not> pm_commit pm > 0 \<Longrightarrow> newest_data fs p = None"
    and "case map_of (pm_pages pm) p of
      None \<Rightarrow> pm_commit pm < p \<or> newest_data fs p = None
    | Some off \<Rightarrow> \<exists>d. p \<le> pm_commit pm \<and> newest_data fs p = Some d \<and> wal_page wal off (unat page_size) = Ok d"
proof -
  have all: "pm_commit pm = last_commit fs \<and> (case map_of (pm_pages pm) p of
      None \<Rightarrow> pm_commit pm < p \<or> newest_data fs p = None
    | Some off \<Rightarrow> \<exists>d. p \<le> pm_commit pm \<and> newest_data fs p = Some d \<and> wal_page wal off (unat page_size) = Ok d)"
  proof (cases "length wal < WAL_HEADER_SIZE")
    case True
    then show ?thesis
      using assms by (auto simp: wal_frames_def snapshot_map_def empty_page_map_def newest_data_def committed_def
          last_commit_def)
  next
    case False
    then obtain r where r: "wal_reader_new wal = Ok r" "wh_page_size (w_header r) = page_size" "fs = read_frames r"
      using assms(1) by (auto simp: wal_frames_def)
    have at: "unat wal_start = WAL_HEADER_SIZE" by simp
    have pm: "pm = snd (wal_page_map r)"
      using assms(2) False r(1) unfolding snapshot_map_def at wal_reader_at_start by (auto simp: res_simps)
    have base: "w_base r = 0" "w_data r = wal"
      using r(1) by (auto simp: wal_reader_new_def res_simps)
    have "frame_at r f" if "f \<in> set (read_frames r)" for f
      by (rule frames_located [OF _ that]) (simp add: base)
    then have "wal_page wal (fr_offset f) (unat page_size) = Ok (fr_data f)" if "f \<in> set (read_frames r)" for f
      using that by (simp add: frame_at_def base r(2) wal_page_def Let_def subslice_Ok)
    from page_map_data [of r "\<lambda>off. wal_page wal off (unat page_size)" p, OF this]
    show ?thesis
      using wal_page_map_run [of r] by (simp only: pm r(3))
  qed
  then show commit: "pm_commit pm = last_commit fs" by blast
  show "newest_data fs p = None" if "\<not> pm_commit pm > 0"
    using that last_commit_0 [of fs] commit by (simp add: newest_data_def word_gt_0)
  show "case map_of (pm_pages pm) p of
      None \<Rightarrow> pm_commit pm < p \<or> newest_data fs p = None
    | Some off \<Rightarrow> \<exists>d. p \<le> pm_commit pm \<and> newest_data fs p = Some d \<and> wal_page wal off (unat page_size) = Ok d"
    using all by blast
qed

lemma snapshot_page_live:
  assumes "wal_frames wal page_size fs" and "snapshot_map wal_start wal = Ok (wh, pm)"
    and "p \<le> (if pm_commit pm > 0 then pm_commit pm else m)"
  shows "snapshot_page (unat page_size) db_bytes wal pm p =
    (if newest_data fs p = None \<and> (unat p - 1) * unat page_size + unat page_size > length db_bytes
     then Err (SyncIo UnexpectedEof) else Ok (live_page (unat page_size) db_bytes fs p))"
  using snapshot_map_data(2,3) [OF assms(1,2), of p] assms(3)
  by (auto simp: snapshot_page_def live_page_def page_of_def Let_def not_less split: option.splits if_splits)

lemma snapshot_list_le: "p \<in> set (snapshot_list commit lock) \<Longrightarrow> p \<le> commit"
  by (auto simp: snapshot_list_def word_le_nat_alt unsigned_of_nat less_Suc_eq_le simp del: upt_Suc
      intro: order.trans [OF take_bit_nat_less_eq_self])

lemma build_snapshot_run:
  fixes ho :: "'w host" and sy :: "('w, 's) syncer"
  assumes "build_snapshot ho lz4c wal_start wal sy = (Ok f, sy')"
    and "ho_read ho (d_path (sy_db sy)) (d_world (sy_db sy)) = (Ok db_bytes, w)"
    and "wal_frames wal (d_page_size (sy_db sy)) fs"
  defines "ps \<equiv> d_page_size (sy_db sy)" and "txid \<equiv> po_txid (sy_pos sy) + 1"
  defines "commit \<equiv> if last_commit fs > 0 then last_commit fs else of_nat (length db_bytes div unat ps)"
  shows "\<exists>b h t. map_of (sy_staging sy') (staged_ltx_path LEVEL0 txid txid) = Some b \<and>
    encode_file lz4c h (map (\<lambda>p. (p, live_page (unat ps) db_bytes fs p)) (snapshot_list commit (lock_pgno ps)))
      checksum_zero = Ok (b, t) \<and>
    h_commit h = commit \<and> h_page_size h = ps \<and> h_min_txid h = txid \<and> h_max_txid h = txid \<and>
    sf_min f = txid \<and> sf_max f = txid \<and> po_txid (sf_new_pos f) = txid"
proof -
  let ?sy = "sy\<lparr>sy_db := (sy_db sy)\<lparr>d_world := w\<rparr>\<rparr>"
  have rd: "on_host (ho_read ho (d_path (sy_db sy))) sy = (Ok db_bytes, ?sy)"
    using assms(2) by (simp add: on_host_run)
  obtain wh pm where pm: "snapshot_map wal_start wal = Ok (wh, pm)"
    using assms(1) rd unfolding build_snapshot_def Let_def
    by (auto simp: op_bind_Ok op_get_def op_of_def)
  have commit: "(if pm_commit pm > 0 then pm_commit pm else of_nat (length db_bytes div unat ps)) = commit"
    using snapshot_map_data(1) [OF assms(3) pm] by (simp add: commit_def)
  let ?page = "snapshot_page (unat ps) db_bytes wal pm" and ?pgnos = "snapshot_list commit (lock_pgno ps)"
  obtain h path where st: "stage ho LEVEL0 txid txid (\<lambda>enc. op_bind (now_ms ho) (\<lambda>now.
        op_of (encode_snapshot lz4c (h now) ?page ?pgnos enc))) ?sy = (Ok path, sy')"
    and h: "\<And>now. h_commit (h now) = commit \<and> h_page_size (h now) = ps \<and> h_min_txid (h now) = txid \<and> h_max_txid (h now) = txid"
    and f: "sf_min f = txid" "sf_max f = txid" "po_txid (sf_new_pos f) = txid"
  proof -
    let ?h = "\<lambda>now. no_checksum_header now ps commit txid wal_start (of_nat (pm_end_offset pm - unat wal_start))
      (fst (case wh of None \<Rightarrow> (0, 0) | Some h \<Rightarrow> (wh_salt1 h, wh_salt2 h)))
      (snd (case wh of None \<Rightarrow> (0, 0) | Some h \<Rightarrow> (wh_salt1 h, wh_salt2 h)))"
    have "\<exists>path. stage ho LEVEL0 txid txid (\<lambda>enc. op_bind (now_ms ho) (\<lambda>now.
        op_of (encode_snapshot lz4c (?h now) ?page ?pgnos enc))) ?sy = (Ok path, sy') \<and> sf_min f = txid \<and> sf_max f = txid \<and>
        po_txid (sf_new_pos f) = txid"
      using assms(1) rd pm unfolding build_snapshot_def Let_def ps_def [symmetric]
      by (auto simp: op_bind_Ok op_get_def op_of_def op_ret_def commit [symmetric] txid_def ps_def)
    then show thesis
      using that [of ?h] by (auto simp: no_checksum_header_def)
  qed
  have path: "path = staged_ltx_path LEVEL0 txid txid"
    using st by (auto simp: stage_def Let_def op_bind_Ok op_ret_def)
  obtain enc and sy0 sy1 :: "('w, 's) syncer" where
    "op_bind (now_ms ho) (\<lambda>now. op_of (encode_snapshot lz4c (h now) ?page ?pgnos encoder_new)) sy0 = (Ok enc, sy1)"
    and b: "map_of (sy_staging sy') path = Some (e_w (fst (encoder_finish enc)))"
    by (rule stage_content [OF st]) blast
  then obtain now where enc: "encode_snapshot lz4c (h now) ?page ?pgnos encoder_new = Ok enc"
    by (auto simp: op_bind_Ok op_of_def)
  have "?page p = Ok (live_page (unat ps) db_bytes fs p)" if mem: "p \<in> set ?pgnos" for p
  proof -
    obtain d where d: "?page p = Ok d"
      using encode_snapshot_reads [OF enc mem] by blast
    have "p \<le> (if pm_commit pm > 0 then pm_commit pm else of_nat (length db_bytes div unat ps))"
      using snapshot_list_le [OF mem] unfolding commit .
    from snapshot_page_live [OF assms(3) pm this, folded ps_def] show ?thesis
      using d by (simp split: if_splits)
  qed
  from encode_snapshot_file [of ?pgnos ?page "live_page (unat ps) db_bytes fs", OF this enc]
  obtain t where "encode_file lz4c (h now) (map (\<lambda>p. (p, live_page (unat ps) db_bytes fs p)) ?pgnos) checksum_zero =
      Ok (e_w (fst (encoder_finish enc)), t)"
    by blast
  then show ?thesis
    using b h [of now] f unfolding path by blast
qed

section \<open>Increments\<close>

lemma page_map_loop_same:
  "page_map_loop r pages tx commit = (r', pages', commit') \<Longrightarrow>
    w_data r' = w_data r \<and> w_base r' = w_base r \<and> w_header r' = w_header r"
proof (induction r pages tx commit rule: page_map_loop.induct)
  case (1 r pages tx commit)
  show ?case
  proof (cases "read_frame r")
    case None
    then show ?thesis using "1.prems" by (simp add: page_map_loop.simps)
  next
    case (Some rf)
    obtain r1 f where rf: "rf = (r1, f)" by (cases rf)
    have step: "read_frame r = Some (r1, f)"
      using Some rf by simp
    show ?thesis
      using "1.IH" [OF Some rf [symmetric] refl] "1.prems" read_frame_Some [OF step]
      by (subst (asm) page_map_loop.simps) (auto simp: step Let_def split: if_splits)
  qed
qed

lemma wal_page_map_same:
  "wal_page_map r = (r', pm) \<Longrightarrow> w_data r' = w_data r \<and> w_base r' = w_base r \<and> w_header r' = w_header r"
  by (auto simp: wal_page_map_def Let_def split: prod.splits dest!: page_map_loop_same)

lemma frame_unsigned:
  assumes "wh_page_size h = ps"
  shows "unat (of_nat WAL_FRAME_HEADER_SIZE + ucast ps :: u64) = frame_size h"
proof -
  have "unat (ucast ps :: u64) = unat ps"
    by (rule unat_ucast_up) simp
  moreover have "unat ps < 2 ^ 32"
    using unsigned_less [of ps, where 'a = nat] by simp
  ultimately show ?thesis
    using assms by (simp add: frame_size_def unat_plus_simple [THEN iffD1] word_le_nat_alt unat_word_ariths)
qed

text \<open>The reader an increment starts from verifies the same frames as one that read the whole WAL.\<close>

lemma incremental_reader:
  assumes "wal_reader_new wal = Ok r0" and "n \<le> length (read_frames r0)"
    and "unat offset = WAL_HEADER_SIZE + n * frame_size (w_header r0)"
    and "wh_page_size (w_header r0) = ps"
    and "ho_read ho path (d_world (sy_db sy)) = (Ok wal, w)"
    and "incremental_seed ho path offset (of_nat WAL_FRAME_HEADER_SIZE + ucast ps) (w_header r0) sy = (Ok seed, sy')"
  shows "wal_reader_from_tail (w_header r0) (drop (unat offset) wal) (unat offset) seed = Ok r \<Longrightarrow>
      read_frames r = drop n (read_frames r0) \<and> w_data r = drop (unat offset) wal \<and> w_base r = unat offset \<and>
      w_header r = w_header r0 \<and> w_frame_n r = n"
    and "\<exists>w1 \<in> {d_world (sy_db sy), w}. sy' = sy\<lparr>sy_db := (sy_db sy)\<lparr>d_world := w1\<rparr>\<rparr>"
proof -
  let ?h = "w_header r0" and ?off = "unat offset" and ?fsize = "of_nat WAL_FRAME_HEADER_SIZE + ucast ps :: u64"
  have fs: "unat ?fsize = frame_size ?h" "frame_size ?h > 0"
    using frame_unsigned [OF assms(4)] by (simp_all add: frame_size_def)
  obtain r1 where r1: "wal_reader_new_at_offset wal ?off = Ok r1" "read_frames r1 = drop n (read_frames r0)"
      "w_header r1 = ?h" "w_base r1 = 0" "w_data r1 = wal" "w_frame_n r1 = n"
    using wal_resume_run [OF assms(1,2)] assms(3) by auto
  have parse: "wal_header_parse wal = Ok ?h"
    using assms(1) by (auto simp: wal_reader_new_def res_simps)
  have start: "offset \<le> wal_start \<longleftrightarrow> n = 0"
    using assms(3) fs(2) by (simp add: word_le_nat_alt)
  have seed: "seed = w_chksum r1 \<and> (\<exists>w1 \<in> {d_world (sy_db sy), w}. sy' = sy\<lparr>sy_db := (sy_db sy)\<lparr>d_world := w1\<rparr>\<rparr>)"
  proof (cases "n = 0")
    case True
    have "w_chksum r1 = (wh_checksum1 ?h, wh_checksum2 ?h)"
      using r1(1) True fs(2) assms(3) by (auto simp: wal_reader_new_at_offset_def parse Let_def)
    moreover have "sy' = sy" "seed = (wh_checksum1 ?h, wh_checksum2 ?h)"
      using assms(6) True start by (simp_all add: incremental_seed_def op_ret_def)
    ultimately show ?thesis
      by auto
  next
    case False
    then obtain m where n: "n = Suc m" by (cases n) auto
    have prev: "unat (offset - ?fsize) = WAL_HEADER_SIZE + m * frame_size ?h"
      using assms(3) fs(1) n by (subst unat_sub) (simp_all add: word_le_nat_alt)
    have hdr: "w_chksum r1 = (let ph = wal_frame_header_parse
        (take WAL_FRAME_HEADER_SIZE (drop (WAL_HEADER_SIZE + m * frame_size ?h) wal)) in (fh_checksum1 ph, fh_checksum2 ph))"
      using r1(1) fs(2) unfolding assms(3) n
      by (auto simp: wal_reader_new_at_offset_def parse Let_def simp del: wal_size_defs split: if_splits)
    show ?thesis
      using assms(5,6) False start hdr
      by (auto simp: incremental_seed_def read_exact_at_def op_simps on_host_run prev Let_def simp del: wal_size_defs
          split: if_splits)
  qed
  then show "\<exists>w1 \<in> {d_world (sy_db sy), w}. sy' = sy\<lparr>sy_db := (sy_db sy)\<lparr>d_world := w1\<rparr>\<rparr>"
    by blast
  assume "wal_reader_from_tail ?h (drop ?off wal) ?off seed = Ok r"
  moreover have "wal_reader_from_tail ?h (drop ?off wal) ?off (w_chksum r1) = Ok (on_tail ?off r1)"
    using fs r1 assms(3) by (cases r1) (simp add: wal_reader_from_tail_def on_tail_def)
  ultimately have "r = on_tail ?off r1"
    using seed by simp
  moreover have "read_frames (on_tail ?off r1) = read_frames r1"
    by (rule read_frames_on_tail) (use r1 assms(3) in auto)
  ultimately show "read_frames r = drop n (read_frames r0) \<and> w_data r = drop ?off wal \<and> w_base r = ?off \<and>
      w_header r = ?h \<and> w_frame_n r = n"
    using r1 by (simp add: on_tail_def)
qed

text \<open>The page numbers of an increment: those of the committed frames, within the committed size.\<close>

definition changed_pages :: "wal_frame list \<Rightarrow> u32 list" where
  "changed_pages fs = sorted_list_of_set (fr_pgno ` set (committed fs) \<inter> {p. p \<le> last_commit fs})"

lemma newest_data_iff: "newest_data fs p \<noteq> None \<longleftrightarrow> p \<in> fr_pgno ` set (committed fs)"
  by (force simp: newest_data_def map_of_eq_None_iff)

lemma latest_iff: "latest fs p \<noteq> None \<longleftrightarrow> p \<in> fr_pgno ` set fs"
  by (force simp: latest_def map_of_eq_None_iff)

lemma page_map_pgnos:
  assumes "pm = snd (wal_page_map r)"
  shows "sort (map fst (pm_pages pm)) = changed_pages (read_frames r)"
    and "pm_pages pm = [] \<longleftrightarrow> changed_pages (read_frames r) = []"
proof -
  note run = wal_page_map_run [of r, folded assms]
  have "p \<in> fst ` set (pm_pages pm) \<longleftrightarrow> p \<in> fr_pgno ` set (committed (read_frames r)) \<and> p \<le> last_commit (read_frames r)" for p
  proof -
    have "p \<in> fst ` set (pm_pages pm) \<longleftrightarrow> map_of (pm_pages pm) p \<noteq> None"
      by (simp add: map_of_eq_None_iff)
    also have "\<dots> \<longleftrightarrow> p \<le> last_commit (read_frames r) \<and> latest (committed (read_frames r)) p \<noteq> None"
      using run by (simp del: not_None_eq)
    finally show ?thesis
      by (simp only: latest_iff conj_commute)
  qed
  then have "fst ` set (pm_pages pm) = fr_pgno ` set (committed (read_frames r)) \<inter> {p. p \<le> last_commit (read_frames r)}"
    by blast
  then have "changed_pages (read_frames r) = sort (remdups (map fst (pm_pages pm)))"
    unfolding changed_pages_def by (metis list.set_map sorted_list_of_set_sort_remdups)
  then show sort: "sort (map fst (pm_pages pm)) = changed_pages (read_frames r)"
    using run by (simp add: distinct_remdups_id)
  show "pm_pages pm = [] \<longleftrightarrow> changed_pages (read_frames r) = []"
    unfolding sort [symmetric] by (metis length_0_conv length_map length_sort)
qed

text \<open>Frames stand one after the other.\<close>

lemma frame_offsets:
  "k < length (read_frames r) \<Longrightarrow>
    fr_offset (read_frames r ! k) = WAL_HEADER_SIZE + (w_frame_n r + k) * frame_size (w_header r)"
proof (induction r arbitrary: k rule: read_frames.induct)
  case (1 r)
  show ?case
  proof (cases "read_frame r")
    case None
    then show ?thesis using "1.prems" by (simp add: read_frames_None)
  next
    case (Some rf)
    obtain r1 g where rf: "rf = (r1, g)" by (cases rf)
    have step: "read_frame r = Some (r1, g)"
      using Some rf by simp
    note r1 = read_frame_Some [OF step]
    have g: "fr_offset g = WAL_HEADER_SIZE + w_frame_n r * frame_size (w_header r)"
      using step by (auto simp: read_frame_def Let_def split: if_splits prod.splits)
    show ?thesis
      using "1.IH" [OF Some rf [symmetric], of "k - 1"] "1.prems" r1 g
      by (cases k) (simp_all add: read_frames_Some [OF step])
  qed
qed

lemma committed_take: "\<exists>m. committed fs = take m fs"
  unfolding committed_def by (metis dropWhile_eq_drop rev_drop rev_rev_ident)

text \<open>Where reading resumes after a page map: at the end of the last committed frame.\<close>

lemma page_map_end:
  assumes "pm = snd (wal_page_map r)"
  defines "cs \<equiv> committed (read_frames r)"
  assumes "cs \<noteq> []" and "fr_pgno (last cs) \<le> fr_commit (last cs)"
  shows "pm_end_offset pm = WAL_HEADER_SIZE + (w_frame_n r + length cs) * frame_size (w_header r)"
proof -
  note run = wal_page_map_run [of r, folded assms(1)]
  let ?last = "fr_offset (last cs)"
  obtain m where cs: "cs = take m (read_frames r)"
    using committed_take cs_def by blast
  have at: "fr_offset (cs ! k) = WAL_HEADER_SIZE + (w_frame_n r + k) * frame_size (w_header r)" if "k < length cs" for k
    using that frame_offsets [of k r] by (simp add: cs)
  have last: "?last = WAL_HEADER_SIZE + (w_frame_n r + (length cs - 1)) * frame_size (w_header r)"
    using at [of "length cs - 1"] assms(3) by (simp add: last_conv_nth)
  have commit: "pm_commit pm = fr_commit (last cs)"
    using run assms(3) by (simp add: last_commit_def cs_def)
  have "latest cs (fr_pgno (last cs)) = Some ?last"
    using assms(3) by (metis append_butlast_last_id fun_upd_same latest_snoc)
  then have map_last: "map_of (pm_pages pm) (fr_pgno (last cs)) = Some ?last"
    using run commit assms(4) by (simp add: cs_def)
  have "off \<le> ?last" if mem: "off \<in> snd ` set (pm_pages pm)" for off
  proof -
    obtain p where "(p, off) \<in> set (pm_pages pm)"
      using mem by force
    moreover have "distinct (map fst (pm_pages pm))"
      using run by blast
    ultimately have "map_of (pm_pages pm) p = Some off"
      by (rule map_of_is_SomeI [rotated])
    then have "latest cs p = Some off"
      using run by (auto simp: cs_def split: if_splits)
    then have "off \<in> fr_offset ` set cs"
      by (auto simp: latest_def dest!: map_of_SomeD)
    then obtain k where "k < length cs" "off = fr_offset (cs ! k)"
      by (auto simp: in_set_conv_nth)
    then show ?thesis
      using at last by auto
  qed
  moreover have "?last \<in> snd ` set (pm_pages pm)"
    using map_of_SomeD [OF map_last] by force
  ultimately have "Max (snd ` set (pm_pages pm)) = ?last"
    by (intro Max_eqI) auto
  then have "pm_end_offset pm = ?last + frame_size (w_header r)"
    using run map_last by auto
  moreover have "length cs = Suc (length cs - 1)"
    using assms(3) by (cases cs) auto
  ultimately show ?thesis
    using last by (metis add.assoc add_Suc_right mult_Suc add.commute)
qed

lemma frame_at_page:
  "frame_at r g \<Longrightarrow> w_data r' = w_data r \<Longrightarrow> w_base r' = w_base r \<Longrightarrow> w_header r' = w_header r \<Longrightarrow>
    page_data_at r' (fr_offset g) = Ok (fr_data g)"
  unfolding frame_at_def page_data_at_def Let_def subslice_def by (elim conjE) (simp only:, simp)

lemma incremental_page_run:
  assumes "wal_page_map r = (r', pm)" and "w_base r \<le> WAL_HEADER_SIZE + w_frame_n r * frame_size (w_header r)"
    and "p \<in> set (changed_pages (read_frames r))"
  shows "incremental_page r' pm p = Ok (the (newest_data (read_frames r) p))"
proof -
  have pm: "pm = snd (wal_page_map r)"
    using assms(1) by simp
  have "page_data_at r' (fr_offset g) = Ok (fr_data g)" if "g \<in> set (read_frames r)" for g
    using frames_located [OF assms(2) that] wal_page_map_same [OF assms(1)] by (blast intro: frame_at_page)
  from page_map_data [of r "page_data_at r'" p, OF this, folded pm]
  have data: "case map_of (pm_pages pm) p of None \<Rightarrow> pm_commit pm < p \<or> newest_data (read_frames r) p = None
    | Some off \<Rightarrow> \<exists>d. p \<le> pm_commit pm \<and> newest_data (read_frames r) p = Some d \<and> page_data_at r' off = Ok d" .
  have "p \<in> set (sort (map fst (pm_pages pm)))"
    using assms(3) by (simp only: page_map_pgnos(1) [OF pm])
  then obtain off where "map_of (pm_pages pm) p = Some off"
    by (metis map_of_eq_None_iff not_None_eq set_sort list.set_map)
  then show ?thesis
    using data by (auto simp: incremental_page_def of_wal_def)
qed

lemma build_incremental_run:
  fixes ho :: "'w host" and sy :: "('w, 's) syncer"
  assumes run: "build_incremental ho lz4c offset salt1 salt2 wal_len (w_header r0) path sy = (Ok res, sy')"
    and wal: "wal_reader_new wal = Ok r0" "n \<le> length (read_frames r0)"
      "unat offset = WAL_HEADER_SIZE + n * frame_size (w_header r0)"
      "wh_page_size (w_header r0) = d_page_size (sy_db sy)"
    and rd: "\<forall>w \<in> W. \<exists>w' \<in> W. ho_read ho path w = (Ok wal, w')" and start: "d_world (sy_db sy) \<in> W"
  defines "fs \<equiv> drop n (read_frames r0)" and "txid \<equiv> po_txid (sy_pos sy) + 1"
  shows "case res of
      None \<Rightarrow> changed_pages fs = []
    | Some f \<Rightarrow> changed_pages fs \<noteq> [] \<and>
        (\<exists>b h t. map_of (sy_staging sy') (staged_ltx_path LEVEL0 txid txid) = Some b \<and>
          encode_file lz4c h (map (\<lambda>p. (p, the (newest_data fs p))) (changed_pages fs)) checksum_zero = Ok (b, t) \<and>
          h_commit h = last_commit fs \<and> h_page_size h = d_page_size (sy_db sy) \<and>
          h_min_txid h = txid \<and> h_max_txid h = txid) \<and>
        sf_min f = txid \<and> sf_max f = txid \<and> po_txid (sf_new_pos f) = txid \<and>
        po_salt1 (sf_new_pos f) = salt1 \<and> po_salt2 (sf_new_pos f) = salt2 \<and>
        (fr_pgno (last (committed fs)) \<le> fr_commit (last (committed fs)) \<longrightarrow>
          po_wal_offset (sf_new_pos f) =
            of_nat (WAL_HEADER_SIZE + (n + length (committed fs)) * frame_size (w_header r0)))"
proof -
  let ?ps = "d_page_size (sy_db sy)"
  let ?fsize = "of_nat WAL_FRAME_HEADER_SIZE + ucast ?ps :: u64"
  obtain w where w: "ho_read ho path (d_world (sy_db sy)) = (Ok wal, w)" "w \<in> W"
    using rd start by blast
  obtain seed sy1 where seed: "incremental_seed ho path offset ?fsize (w_header r0) sy = (Ok seed, sy1)"
    using run unfolding build_incremental_def Let_def by (auto simp: op_bind_Ok op_get_def)
  note reader = incremental_reader [OF wal w(1) seed]
  obtain w1 where sy1: "sy1 = sy\<lparr>sy_db := (sy_db sy)\<lparr>d_world := w1\<rparr>\<rparr>" "w1 \<in> W"
    using reader(2) start w(2) by blast
  obtain w2 where w2: "ho_read ho path w1 = (Ok wal, w2)"
    using rd sy1(2) by blast
  let ?sy2 = "sy\<lparr>sy_db := (sy_db sy)\<lparr>d_world := w2\<rparr>\<rparr>"
  have tail: "tl' = drop (unat offset) wal \<and> sy2 = ?sy2" if "read_tail ho path offset sy1 = (Ok tl', sy2)" for tl' sy2
    using that w2 by (auto simp: read_tail_def op_simps on_host_run sy1 split: if_splits)
  obtain tl' sy2 where "read_tail ho path offset sy1 = (Ok tl', sy2)"
    using run seed unfolding build_incremental_def Let_def by (auto simp: op_bind_Ok op_get_def)
  with tail have rt: "read_tail ho path offset sy1 = (Ok (drop (unat offset) wal), ?sy2)"
    by blast
  obtain r where r: "wal_reader_from_tail (w_header r0) (drop (unat offset) wal) (unat offset) seed = Ok r"
    using run seed rt unfolding build_incremental_def Let_def
    by (auto simp: op_bind_Ok op_get_def op_of_def)
  note same = reader(1) [OF r]
  obtain r' pm where pm: "wal_page_map r = (r', pm)" by (cases "wal_page_map r")
  have pm': "pm = snd (wal_page_map r)" "w_data r' = drop (unat offset) wal" "w_base r' = unat offset"
      "w_header r' = w_header r0" "fs = read_frames r"
    using pm same wal_page_map_same [OF pm] by (simp_all add: fs_def)
  note pgnos = page_map_pgnos [OF pm'(1), folded pm'(5)]
  show ?thesis
  proof (cases "pm_pages pm = []")
    case True
    have "res = None"
      using run seed rt r pm True unfolding build_incremental_def Let_def
      by (auto simp: op_bind_Ok op_get_def op_of_def op_ret_def)
    then show ?thesis
      using True pgnos by simp
  next
    case False
    let ?wsize = "of_nat (pm_end_offset pm) - offset"
    let ?h = "\<lambda>now. no_checksum_header now ?ps (pm_commit pm) txid offset ?wsize salt1 salt2"
    let ?page = "incremental_page r' pm" and ?data = "\<lambda>p. the (newest_data fs p)"
    obtain path' f where st: "stage ho LEVEL0 txid txid (\<lambda>enc. op_bind (now_ms ho) (\<lambda>now.
        op_of (encode_snapshot lz4c (?h now) ?page (changed_pages fs) enc))) ?sy2 = (Ok path', sy')"
      and f: "res = Some f" "sf_min f = txid" "sf_max f = txid" "po_txid (sf_new_pos f) = txid"
        "po_wal_offset (sf_new_pos f) = offset + ?wsize" "po_salt1 (sf_new_pos f) = salt1" "po_salt2 (sf_new_pos f) = salt2"
      using run seed rt r pm False unfolding build_incremental_def Let_def
      by (auto simp: op_bind_Ok op_get_def op_of_def op_ret_def pgnos(1) sy1 txid_def)
    have path': "path' = staged_ltx_path LEVEL0 txid txid"
      using st by (auto simp: stage_def Let_def op_bind_Ok op_ret_def)
    obtain enc and sy3 sy4 :: "('w, 's) syncer" where
      "op_bind (now_ms ho) (\<lambda>now. op_of (encode_snapshot lz4c (?h now) ?page (changed_pages fs) encoder_new)) sy3 = (Ok enc, sy4)"
      and b: "map_of (sy_staging sy') path' = Some (e_w (fst (encoder_finish enc)))"
      by (rule stage_content [OF st]) blast
    then obtain now where enc: "encode_snapshot lz4c (?h now) ?page (changed_pages fs) encoder_new = Ok enc"
      by (auto simp: op_bind_Ok op_of_def)
    have "?page p = Ok (?data p)" if mem: "p \<in> set (changed_pages fs)" for p
      using incremental_page_run [OF pm _ mem [unfolded pm'(5)]] same wal(3) by (simp add: pm'(5))
    from encode_snapshot_file [of "changed_pages fs" ?page ?data, OF this enc]
    obtain t where t: "encode_file lz4c (?h now) (map (\<lambda>p. (p, ?data p)) (changed_pages fs)) checksum_zero =
        Ok (e_w (fst (encoder_finish enc)), t)"
      by blast
    have "pm_commit pm = last_commit fs"
      using wal_page_map_run [of r] pm' by simp
    then have h: "h_commit (?h now) = last_commit fs" "h_page_size (?h now) = ?ps" "h_min_txid (?h now) = txid"
        "h_max_txid (?h now) = txid"
      by (simp_all add: no_checksum_header_def)
    have "committed fs \<noteq> []"
      using False pgnos by (auto simp: changed_pages_def)
    then have "po_wal_offset (sf_new_pos f) = of_nat (WAL_HEADER_SIZE + (n + length (committed fs)) * frame_size (w_header r0))"
      if "fr_pgno (last (committed fs)) \<le> fr_commit (last (committed fs))"
      using page_map_end [OF pm'(1), folded pm'(5)] that same f(5) by simp
    moreover have "changed_pages fs \<noteq> []"
      using False pgnos by simp
    ultimately show ?thesis
      using t b h f unfolding path' by auto
  qed
qed

text \<open>The position after a snapshot of a WAL with a header.\<close>

lemma build_snapshot_position:
  assumes run: "build_snapshot ho lz4c wal_start wal sy = (Ok f, sy')" and r: "wal_reader_new wal = Ok r"
  defines "cs \<equiv> committed (read_frames r)"
  assumes last: "cs = [] \<or> fr_pgno (last cs) \<le> fr_commit (last cs)"
  shows "po_wal_offset (sf_new_pos f) = of_nat (WAL_HEADER_SIZE + length cs * frame_size (w_header r)) \<and>
    po_salt1 (sf_new_pos f) = wh_salt1 (w_header r) \<and> po_salt2 (sf_new_pos f) = wh_salt2 (w_header r)"
proof -
  have at: "unat wal_start = WAL_HEADER_SIZE" by simp
  define pm where "pm = snd (wal_page_map r)"
  have parse: "wal_header_parse wal = Ok (w_header r)" "length wal \<ge> WAL_HEADER_SIZE" "w_frame_n r = 0"
    using r by (auto simp: wal_reader_new_def res_simps wal_header_parse_def split: if_splits)
  have map: "snapshot_map wal_start wal = Ok (Some (w_header r), pm)"
    using parse r unfolding snapshot_map_def at wal_reader_at_start pm_def by (simp add: res_simps)
  have pos: "po_wal_offset (sf_new_pos f) = wal_start + of_nat (pm_end_offset pm - WAL_HEADER_SIZE)"
    "po_salt1 (sf_new_pos f) = wh_salt1 (w_header r)" "po_salt2 (sf_new_pos f) = wh_salt2 (w_header r)"
    using run unfolding build_snapshot_def Let_def at map
    by (auto simp: op_bind_Ok op_get_def op_of_def op_ret_def simp del: wal_size_defs)
  have "pm_end_offset pm - WAL_HEADER_SIZE = length cs * frame_size (w_header r)"
  proof (cases "cs = []")
    case True
    then have "changed_pages (read_frames r) = []"
      by (simp add: changed_pages_def cs_def)
    then have "pm_pages pm = []"
      using page_map_pgnos(2) [OF pm_def] by simp
    then show ?thesis
      using True wal_page_map_run [of r] by (simp add: pm_def)
  next
    case False
    then show ?thesis
      using page_map_end [OF pm_def, folded cs_def] last parse(3) by simp
  qed
  then show ?thesis
    using pos by simp
qed

end
