(* ===== verification/LiveImage.thy ===== *)
theory LiveImage
  imports SyncBuild RestoreCorrect
begin

text \<open>
  The database as its readers see it: the committed frames of the WAL over the database file. The
  pages a sync stages are those of this image, so its file carries the history the restore
  theorems speak of.
\<close>

section \<open>The image\<close>

definition live_commit :: "u32 \<Rightarrow> bytes \<Rightarrow> wal_frame list \<Rightarrow> u32" where
  "live_commit ps db_bytes fs =
    (if last_commit fs > 0 then last_commit fs else of_nat (length db_bytes div unat ps))"

definition live_image :: "u32 \<Rightarrow> bytes \<Rightarrow> wal_frame list \<Rightarrow> bytes" where
  "live_image ps db_bytes fs =
    concat (map (\<lambda>i. live_page (unat ps) db_bytes fs (of_nat i)) [1..<Suc (unat (live_commit ps db_bytes fs))])"

text \<open>Every page up to the committed size is in the WAL or in the file, and has the page size.\<close>

definition whole :: "u32 \<Rightarrow> bytes \<Rightarrow> wal_frame list \<Rightarrow> bool" where
  "whole ps db_bytes fs \<longleftrightarrow> 0 < unat ps \<and>
    (\<forall>i. 1 \<le> i \<and> i \<le> unat (live_commit ps db_bytes fs) \<longrightarrow>
      newest_data fs (of_nat i) \<noteq> None \<or> i * unat ps \<le> length db_bytes) \<and>
    (\<forall>p d. newest_data fs p = Some d \<longrightarrow> length d = unat ps)"

lemma length_live_page:
  assumes "whole ps db_bytes fs" and "1 \<le> i" and "i \<le> unat (live_commit ps db_bytes fs)"
  shows "length (live_page (unat ps) db_bytes fs (of_nat i)) = unat ps"
proof -
  have i: "unat (of_nat i :: u32) = i"
    using assms(3) unsigned_less [of "live_commit ps db_bytes fs", where 'a = nat]
    by (simp add: unsigned_of_nat take_bit_nat_eq_self)
  have "i * unat ps \<le> length db_bytes \<Longrightarrow> (i - 1) * unat ps + unat ps \<le> length db_bytes"
    using assms(2) by (cases i) auto
  then show ?thesis
    using assms unfolding whole_def
    by (auto simp: live_page_def page_of_def i min_def split: option.splits)
qed

lemma concat_chunks:
  "(\<forall>x \<in> set xs. length x = n) \<Longrightarrow> length (concat xs) = length xs * n \<and>
    (k < length xs \<longrightarrow> take n (drop (k * n) (concat xs)) = xs ! k)"
proof (induction xs arbitrary: k)
  case (Cons x xs)
  then show ?case
    by (cases k) auto
qed simp

lemma live_image_pages:
  assumes "whole ps db_bytes fs"
  shows "pages ps (live_image ps db_bytes fs) = unat (live_commit ps db_bytes fs)"
    and "1 \<le> i \<Longrightarrow> i \<le> unat (live_commit ps db_bytes fs) \<Longrightarrow>
      page_of (unat ps) (live_image ps db_bytes fs) i = live_page (unat ps) db_bytes fs (of_nat i)"
proof -
  let ?c = "unat (live_commit ps db_bytes fs)"
  let ?xs = "map (\<lambda>i. live_page (unat ps) db_bytes fs (of_nat i)) [1..<Suc ?c]"
  have len: "\<forall>x \<in> set ?xs. length x = unat ps"
    using length_live_page [OF assms] by auto
  note chunks = concat_chunks [OF len]
  show "pages ps (live_image ps db_bytes fs) = ?c"
    using chunks assms by (simp add: pages_def live_image_def whole_def)
  show "page_of (unat ps) (live_image ps db_bytes fs) i = live_page (unat ps) db_bytes fs (of_nat i)"
    if "1 \<le> i" "i \<le> ?c"
    using chunks [of "i - 1"] that by (simp add: page_of_def live_image_def nth_upt del: upt_Suc)
qed

section \<open>Staged files carry the history\<close>

lemma snapshot_carries:
  assumes "whole ps db_bytes fs" and "H txid = live_image ps db_bytes fs"
    and "h_page_size h = ps" and "h_commit h = live_commit ps db_bytes fs"
  shows "carries ps H (l, mn, txid) h
    (map (\<lambda>p. (p, live_page (unat ps) db_bytes fs p)) (snapshot_list (live_commit ps db_bytes fs) (lock_pgno ps)))"
proof -
  let ?c = "live_commit ps db_bytes fs"
  note img = live_image_pages [OF assms(1)]
  have mem: "p \<in> set (snapshot_list ?c (lock_pgno ps)) \<longleftrightarrow>
      (\<exists>i. p = of_nat i \<and> 1 \<le> i \<and> i \<le> unat ?c) \<and> p \<noteq> lock_pgno ps" for p
    by (auto simp: snapshot_list_def less_Suc_eq_le simp del: upt_Suc)
  have i: "unat (of_nat i :: u32) = i" if "i \<le> unat ?c" for i
    using that unsigned_less [of ?c, where 'a = nat] by (simp add: unsigned_of_nat take_bit_nat_eq_self)
  show ?thesis
    using img by (auto simp: carries_def assms(2-4) mem image_iff i)
qed

text \<open>Pages the database grew by are logged.\<close>

definition grown_pages_logged :: "u32 \<Rightarrow> bytes \<Rightarrow> wal_frame list \<Rightarrow> wal_frame list \<Rightarrow> bool" where
  "grown_pages_logged ps db_bytes old fs \<longleftrightarrow>
    (\<forall>i. unat (live_commit ps db_bytes old) < i \<and> i \<le> unat (last_commit fs) \<and> of_nat i \<noteq> lock_pgno ps \<longrightarrow>
      of_nat i \<in> set (changed_pages fs))"

lemma committed_append: "committed fs \<noteq> [] \<Longrightarrow> committed (old @ fs) = old @ committed fs"
proof -
  assume "committed fs \<noteq> []"
  then obtain f where "f \<in> set (rev fs)" "fr_is_commit f"
    by (auto simp: committed_def dropWhile_eq_Nil_conv)
  then show ?thesis
    by (simp add: committed_def dropWhile_append1)
qed

lemma newest_data_append:
  assumes "committed old = old" and "committed fs \<noteq> []"
  shows "newest_data (old @ fs) = newest_data old ++ newest_data fs" and "last_commit (old @ fs) = last_commit fs"
  using assms committed_append [OF assms(2), of old] by (simp_all add: newest_data_def last_commit_def)

lemma increment_carries:
  assumes "committed old = old" and "committed fs \<noteq> []"
    and "whole ps db_bytes old" and "whole ps db_bytes (old @ fs)" and "grown_pages_logged ps db_bytes old fs"
    and "H (txid - 1) = live_image ps db_bytes old" and "H txid = live_image ps db_bytes (old @ fs)"
    and "h_page_size h = ps" and "h_commit h = last_commit fs" and "0 \<notin> set (changed_pages fs)"
  shows "carries ps H (l, txid, txid) h (map (\<lambda>p. (p, the (newest_data fs p))) (changed_pages fs))"
proof -
  note new = newest_data_append [OF assms(1,2)]
  have "last_commit fs > 0"
    using assms(2) last_commit_0 [of fs] by (simp add: word_gt_0)
  then have c: "live_commit ps db_bytes (old @ fs) = last_commit fs"
    by (simp add: live_commit_def new(2))
  note img = live_image_pages [OF assms(4), folded assms(7), unfolded c]
  note img0 = live_image_pages [OF assms(3), folded assms(6)]
  have mem: "p \<in> set (changed_pages fs) \<longleftrightarrow> p \<le> last_commit fs \<and> newest_data fs p \<noteq> None" for p
    unfolding newest_data_iff by (auto simp: changed_pages_def)
  have of_unat: "unat (of_nat i :: u32) = i" "of_nat i \<le> last_commit fs" if "i \<le> unat (last_commit fs)" for i
  proof -
    show "unat (of_nat i :: u32) = i"
      using that unsigned_less [of "last_commit fs", where 'a = nat] by (simp add: unsigned_of_nat take_bit_nat_eq_self)
    then show "of_nat i \<le> last_commit fs"
      using that by (simp add: word_le_nat_alt)
  qed
  have content: "the (newest_data fs p) = page_of (unat ps) (H txid) (unat p)" if "p \<in> set (changed_pages fs)" for p
  proof -
    have "p \<noteq> 0"
      using that assms(10) by blast
    then have "1 \<le> unat p" "unat p \<le> unat (last_commit fs)"
      using that by (simp_all add: mem word_le_nat_alt Suc_le_eq unat_gt_0)
    from img(2) [OF this] show ?thesis
      using that by (auto simp: mem live_page_def new(1))
  qed
  have kept: "i \<le> pages ps (H t) \<and> page_of (unat ps) (H t) i = page_of (unat ps) (H txid) i"
    if i: "1 \<le> i" "i \<le> unat (last_commit fs)" and out: "of_nat i \<notin> set (changed_pages fs)" "of_nat i \<noteq> lock_pgno ps"
      and t: "t = txid - 1" for i t
  proof -
    have le: "i \<le> unat (live_commit ps db_bytes old)"
      using assms(5) i out by (auto simp: grown_pages_logged_def not_less [symmetric])
    have "newest_data fs (of_nat i) = None"
      using out(1) of_unat(2) [OF i(2)] by (simp add: mem)
    then have "live_page (unat ps) db_bytes (old @ fs) (of_nat i) = live_page (unat ps) db_bytes old (of_nat i)"
      by (simp add: live_page_def new(1) map_add_def)
    then show ?thesis
      using img(2) [OF i] img0(2) [OF i(1) le] img0(1) le t by simp
  qed
  have last: "t = txid - 1" if "txid \<le> t + 1" "t < txid" for t
  proof -
    have "t + 1 = txid"
      using that(1) inc_le [OF that(2)] by (simp add: order_antisym)
    then show ?thesis by auto
  qed
  show ?thesis
    using img(1) content kept last by (auto simp: carries_def assms(8,9) image_image)
qed

end
