(* ===== verification/FileSize.thy ===== *)
theory FileSize
  imports Compactor
begin

text \<open>
  No file the encoder writes outgrows a 64-bit length: page numbers are 32-bit and distinct, and an
  LZ4 frame is at most a constant and twice its input.
\<close>

text \<open>The bound LZ4 documents for the frame format, rounded up.\<close>

definition lz4_bounded :: "(bytes \<Rightarrow> bytes) \<Rightarrow> bool" where
  "lz4_bounded lz4c \<longleftrightarrow> (\<forall>d. length (lz4c d) \<le> 2 * length d + 64)"

lemma distinct_u32: "distinct (ps :: u32 list) \<Longrightarrow> length ps \<le> 2 ^ 32"
proof -
  assume "distinct ps"
  then have "length ps = card (set ps)"
    by (simp add: distinct_card)
  also have "\<dots> \<le> card (UNIV :: u32 set)"
    by (rule card_mono) simp_all
  finally show ?thesis
    by (simp add: card_word)
qed

lemma length_frames:
  assumes "lz4_bounded lz4c" and "\<forall>pd \<in> set pds. length (snd pd) \<le> n"
  shows "length (concat (map (frame lz4c) pds)) \<le> length pds * (2 * n + 70)"
  using assms(2)
proof (induction pds)
  case (Cons pd pds)
  have "length (lz4c (snd pd)) \<le> 2 * length (snd pd) + 64"
    using assms(1) by (simp add: lz4_bounded_def)
  then have "length (frame lz4c pd) \<le> 2 * n + 70"
    using Cons.prems by (simp add: frame_def)
  then show ?case
    using Cons by simp
qed simp

lemma encoded_length:
  assumes "lz4_bounded lz4c" and "encode_file lz4c h pds post = Ok (b, t)"
  shows "length b < 2 ^ 64"
proof -
  have val: "header_validate h = Ok ()" and acc: "accepts_all h 0 pds"
    using assms(2) by (auto simp: encode_file_iff)
  have b: "b = file_bytes lz4c h pds post"
    using assms(2) by (rule encode_file_bytes)
  have "unat (h_page_size h) \<le> 65536"
    using header_validate_page_size [OF val] by (auto simp: is_valid_page_size_def word_le_nat_alt)
  then have "\<forall>pd \<in> set pds. length (snd pd) \<le> 65536"
    using accepts_all_sizes [OF acc] by auto
  from length_frames [OF assms(1) this] have "length (concat (map (frame lz4c) pds)) \<le> length pds * 131142"
    by simp
  moreover have "length pds \<le> 2 ^ 32"
    using accepts_all_sorted [OF val acc] distinct_u32 [of "map fst pds"] by simp
  ultimately have "length (concat (map (frame lz4c) pds)) + 30 * length pds + 140 < 2 ^ 64"
    by simp
  then show ?thesis
    using length_file_bytes [of lz4c h pds post] b by simp
qed

lemma encoded_is_encoding:
  "lz4_bounded lz4c \<Longrightarrow> encode_file lz4c h pds post = Ok (b, t) \<Longrightarrow> is_encoding lz4c b h pds"
  using encoded_length unfolding is_encoding_def by blast

lemma stored_bounded: "lz4_bounded stored"
  by (simp add: lz4_bounded_def stored_def)

end
