(* ===== verification/SyncCorrect.thy ===== *)
theory SyncCorrect
  imports SyncSafety SyncOrder LiveImage FileSize
begin

text \<open>
  One sync extends a replica that carries the database's history by the next transaction: the file it
  plans, stages and uploads holds the live database, or what changed in it since the position.
\<close>

section \<open>What an upload puts in the store\<close>

lemma Ok_rmap_err: "Ok x = rmap_err g q \<longleftrightarrow> q = Ok x"
  by (cases q) auto

lemma upload_put_content:
  assumes good: "good_store objs sy" and run: "upload_put ho l a b path sz (sy_client sy) sy = (Ok (), sy')"
  shows "objs (sy_store sy') (ltx_key (sy_client sy) l a b) = map_of (sy_staging sy) path \<and>
    (\<forall>k. k \<noteq> ltx_key (sy_client sy) l a b \<longrightarrow> objs (sy_store sy') k = objs (sy_store sy) k) \<and>
    sy_client sy' = sy_client sy"
proof -
  let ?cl = "sy_client sy"
  let ?k = "ltx_key ?cl l a b"
  have ok: "store_ok (cl_store ?cl) objs" "fault_law (cl_store ?cl) objs"
    using good by (simp_all add: good_store_def)
  obtain c sy1 where rd: "fs_read ho path sy = (Ok c, sy1)"
    using run by (auto simp: upload_put_def op_bind_Ok split: if_splits)
  note same = fs_read_same [OF rd]
  show ?thesis
  proof (cases "sz \<ge> MULTIPART_THRESHOLD")
    case True
    then obtain s where put: "put_ltx_multipart ?cl l a b c (sy_store sy) = (Ok (), s)" and sy': "sy' = sy1\<lparr>sy_store := s\<rparr>"
      using run rd same by (auto simp: upload_put_def op_bind_Ok on_store_run Ok_rmap_err)
    from put obtain q where "os_put_parts (cl_store ?cl) ?k (multipart_parts MULTIPART_CHUNK c) (sy_store sy) = (q, s)"
      by (auto simp: put_ltx_multipart_def split: prod.splits)
    then have "\<forall>k. k \<noteq> ?k \<longrightarrow> objs s k = objs (sy_store sy) k"
      using ok(2) unfolding fault_law_def by blast
    moreover have "objs s ?k = Some c"
      using put_ltx_multipart_Ok [OF ok(1) put] by simp
    ultimately show ?thesis
      using same sy' by simp
  next
    case False
    then obtain out sy2 where store: "on_store (put_ltx_cas ?cl l a b c) sy1 = (Ok out, sy2)"
      and last: "(case out of Conflict \<Rightarrow> op_fail (Equivocation b) | _ \<Rightarrow> op_ret ()) sy2 = (Ok (), sy')"
      using run rd by (auto simp: upload_put_def op_bind_Ok)
    have out: "out \<noteq> Conflict" "sy' = sy2"
      using last by (cases out; simp add: op_fail_def op_ret_def)+
    obtain s where put: "put_ltx_cas ?cl l a b c (sy_store sy) = (Ok out, s)" and sy': "sy' = sy1\<lparr>sy_store := s\<rparr>"
      using store same out(2) by (auto simp: on_store_run Ok_rmap_err)
    show ?thesis
      using put_ltx_cas_run [OF ok(1) put] same sy' out by (cases out) auto
  qed
qed

lemma fs_remove_same:
  "fs_remove ho path sy = (r, sy') \<Longrightarrow> sy_client sy' = sy_client sy \<and> sy_store sy' = sy_store sy \<and> sy_pos sy' = sy_pos sy"
  unfolding fs_remove_def by (erule op_bind_cases) (auto simp: on_host_run split: option.splits)

definition same_index :: "('w, 's) syncer \<Rightarrow> ('w, 's) syncer \<Rightarrow> bool" where
  "same_index sy sy' \<longleftrightarrow> sy_files sy' = sy_files sy"

interpretation six: storing_order same_index ho for ho
  by unfold_locales (auto simp: same_index_def system_now_def on_host_run keeps_def split: prod.splits)

lemma upload_staged_Ok:
  assumes good: "good_store objs sy" and run: "upload_staged ho f sy = (Ok out, sy')"
  defines "k \<equiv> ltx_key (sy_client sy) (sf_level f) (sf_min f) (sf_max f)"
  shows "objs (sy_store sy') k = map_of (sy_staging sy) (sf_path f)"
    and "\<And>k'. k' \<noteq> k \<Longrightarrow> objs (sy_store sy') k' = objs (sy_store sy) k'"
    and "sy_client sy' = sy_client sy" and "sy_pos sy' = sf_new_pos f" and "out = sf_outcome f"
    and "names (sf_level f, sf_min f, sf_max f) (sy_files sy) (sy_files sy')"
proof -
  have len: "sy_client sy1 = sy_client sy \<and> sy_store sy1 = sy_store sy \<and> sy_staging sy1 = sy_staging sy"
    if "fs_len ho (sf_path f) sy = (r, sy1)" for r sy sy1
    using that unfolding fs_len_def by (auto elim!: op_bind_cases dest!: fs_read_same simp: op_ret_def)
  obtain r1 sy1 where 1: "fs_len ho (sf_path f) sy = (r1, sy1)" by (cases "fs_len ho (sf_path f) sy")
  obtain sy4 where up: "upload_ltx_file ho (sf_level f) (sf_min f) (sf_max f) (sf_path f) sy1 = (Ok (), sy4)"
    and post: "\<exists>t sy5. system_now ho sy4 = (Ok t, sy5) \<and> sy_pos sy' = sf_new_pos f \<and> sy_client sy' = sy_client sy5 \<and>
      sy_store sy' = sy_store sy5 \<and> out = sf_outcome f \<and> names (sf_level f, sf_min f, sf_max f) (sy_files sy5) (sy_files sy')"
    using run 1 by (cases r1) (auto simp: upload_staged_def op_try_def Let_def op_bind_Ok op_modify_def op_ret_def names_insert)
  then have post': "sy_pos sy' = sf_new_pos f" "sy_client sy' = sy_client sy4" "sy_store sy' = sy_store sy4" "out = sf_outcome f"
    by (auto simp: system_now_def on_host_run)
  have "sy_files sy4 = sy_files sy1" "sy_files sy1 = sy_files sy"
    using keepsD [OF six.keeps_upload_file up] keepsD [OF six.keeps_fs(6) 1] by (simp_all add: same_index_def)
  then show "names (sf_level f, sf_min f, sf_max f) (sy_files sy) (sy_files sy')"
    using post by (auto simp: system_now_def on_host_run)
  obtain n sy2 sy3 where 2: "fs_len ho (sf_path f) sy1 = (Ok n, sy2)"
    and put: "upload_put ho (sf_level f) (sf_min f) (sf_max f) (sf_path f) n (sy_client sy2) sy2 = (Ok (), sy3)"
    and rm: "fs_remove ho (sf_path f) sy3 = (Ok (), sy4)"
    using up unfolding upload_ltx_file_def upload_put_def [symmetric] by (auto simp: op_bind_Ok op_get_def)
  have same: "sy_client sy2 = sy_client sy" "sy_store sy2 = sy_store sy" "sy_staging sy2 = sy_staging sy"
    using len [OF 1] len [OF 2] by simp_all
  then have "good_store objs sy2"
    using good by (simp add: good_store_def)
  from upload_put_content [OF this put] fs_remove_same [OF rm] same post'
  show "objs (sy_store sy') k = map_of (sy_staging sy) (sf_path f)"
    "\<And>k'. k' \<noteq> k \<Longrightarrow> objs (sy_store sy') k' = objs (sy_store sy) k'" "sy_client sy' = sy_client sy"
    "sy_pos sy' = sf_new_pos f" "out = sf_outcome f"
    by (auto simp: k_def)
qed

section \<open>What a build stages\<close>

text \<open>
  The files a build reads do not change while it runs: \<open>W\<close> are the states of the world it goes through.
  The read transaction it holds keeps the database file as it is; frames appended during the call
  count as appended before it.
\<close>

definition still :: "'w host \<Rightarrow> 'w set \<Rightarrow> string \<Rightarrow> bytes \<Rightarrow> bool" where
  "still ho W path b \<longleftrightarrow> (\<forall>w \<in> W. (\<exists>w' \<in> W. ho_read ho path w = (Ok b, w')) \<and>
    (\<exists>w' \<in> W. ho_len ho path w = (Ok (length b), w')))"

definition locked_build :: "'w host \<Rightarrow> ('w, 's) syncer \<Rightarrow> bytes \<Rightarrow> bytes \<Rightarrow> bool" where
  "locked_build ho sy db_bytes wal \<longleftrightarrow> (\<exists>W. still ho W (d_path (sy_db sy)) db_bytes \<and>
    still ho W (d_path (sy_db sy) @ ''-wal'') wal \<and>
    (\<forall>d. acquire_read_lock ho (sy_db sy) = (Ok (), d) \<longrightarrow> d_world d \<in> W))"

lemma acquire_fields:
  "acquire_read_lock ho d = (r, d') \<Longrightarrow> d_path d' = d_path d \<and> d_page_size d' = d_page_size d"
  by (auto simp: acquire_read_lock_def on_world_run op_of_def op_modify_def split: if_splits elim!: op_bind_cases)

lemma on_host_Ok: "on_host m sy = (Ok x, sy') \<longleftrightarrow>
    (\<exists>w. m (d_world (sy_db sy)) = (Ok x, w) \<and> sy' = sy\<lparr>sy_db := (sy_db sy)\<lparr>d_world := w\<rparr>\<rparr>)"
  by (auto simp: on_host_run Ok_rmap_err)

lemma wal_header_parse_take:
  assumes "length wal \<ge> WAL_HEADER_SIZE"
  shows "wal_header_parse (take WAL_HEADER_SIZE wal) = wal_header_parse wal"
  using wal_header_parse_append [of "take 32 wal" "drop 32 wal"] assms by simp

text \<open>Whatever was read first, the state differs from the one at the start only in the database handle.\<close>

definition reading :: "'w set \<Rightarrow> ('w, 's) syncer \<Rightarrow> ('w, 's) syncer \<Rightarrow> bool" where
  "reading W sy sy1 \<longleftrightarrow> (\<exists>d. sy1 = sy\<lparr>sy_db := d\<rparr> \<and> d_path d = d_path (sy_db sy) \<and>
    d_page_size d = d_page_size (sy_db sy) \<and> d_world d \<in> W)"

lemma reading_host:
  assumes "reading W sy sy1" and "still ho W path b"
  shows "on_host (ho_read ho path) sy1 = (r, sy2) \<Longrightarrow> r = Ok b \<and> reading W sy sy2"
    and "on_host (ho_len ho path) sy1 = (r', sy2) \<Longrightarrow> r' = Ok (length b) \<and> reading W sy sy2"
proof -
  obtain d where d: "sy1 = sy\<lparr>sy_db := d\<rparr>" "d_path d = d_path (sy_db sy)" "d_page_size d = d_page_size (sy_db sy)"
      "d_world d \<in> W"
    using assms(1) by (auto simp: reading_def)
  have upd: "reading W sy (sy1\<lparr>sy_db := (sy_db sy1)\<lparr>d_world := w\<rparr>\<rparr>)" if "w \<in> W" for w
    unfolding reading_def by (rule exI [of _ "d\<lparr>d_world := w\<rparr>"]) (simp add: d that)
  obtain w1 w2 where w: "ho_read ho path (d_world d) = (Ok b, w1)" "w1 \<in> W"
      "ho_len ho path (d_world d) = (Ok (length b), w2)" "w2 \<in> W"
    using assms(2) d(4) by (meson still_def)
  have world: "d_world (sy_db sy1) = d_world d"
    by (simp add: d(1))
  show "r = Ok b \<and> reading W sy sy2" if "on_host (ho_read ho path) sy1 = (r, sy2)"
    using that upd [OF w(2)] unfolding on_host_run world w(1) by auto
  show "r' = Ok (length b) \<and> reading W sy sy2" if "on_host (ho_len ho path) sy1 = (r', sy2)"
    using that upd [OF w(4)] unfolding on_host_run world w(3) by auto
qed

lemma reading_run:
  assumes "reading W sy sy1" and "still ho W path b"
  obtains sy2 where "on_host (ho_read ho path) sy1 = (Ok b, sy2)" and "reading W sy sy2"
  using reading_host(1) [OF assms] by (metis surj_pair)

lemma build_next_reads:
  fixes ho :: "'w host" and sy :: "('w, 's) syncer"
  assumes run: "build_next ho lz4c sy = (Ok res, sy')" and env: "locked_build ho sy db_bytes wal"
    and wal: "length wal < 2 ^ 63"
  defines "wal_path \<equiv> d_path (sy_db sy) @ ''-wal''"
  obtains W header sy1 where "still ho W (d_path (sy_db sy)) db_bytes" and "still ho W wal_path wal"
    and "reading W sy sy1"
    and "if length wal \<ge> WAL_HEADER_SIZE then \<exists>h. wal_header_parse wal = Ok h \<and> header = Some h else header = None"
    and "(case sync_plan (sy_pos sy) (of_nat (length wal)) header of
        Skip \<Rightarrow> op_ret None
      | PlanSnapshot offset \<Rightarrow>
          op_bind (read_wal_or_empty ho) (\<lambda>wal.
          op_bind (build_snapshot ho lz4c offset wal) (\<lambda>s. op_ret (Some s)))
      | PlanIncremental offset salt1 salt2 \<Rightarrow>
          (case header of
             None \<Rightarrow> op_of Panic
           | Some h \<Rightarrow> build_incremental ho lz4c offset salt1 salt2 (of_nat (length wal)) h wal_path)) sy1 = (Ok res, sy')"
proof -
  obtain W where W: "still ho W (d_path (sy_db sy)) db_bytes" "still ho W wal_path wal"
    "\<And>d. acquire_read_lock ho (sy_db sy) = (Ok (), d) \<Longrightarrow> d_world d \<in> W"
    using env by (auto simp: locked_build_def wal_path_def)
  obtain sy1 where acq: "on_db (acquire_read_lock ho) sy = (Ok (), sy1)"
    and build: "build_under_lock ho lz4c sy1 = (Ok res, sy')"
    using run by (auto simp: build_next_def op_bind_Ok)
  obtain d where d: "acquire_read_lock ho (sy_db sy) = (Ok (), d)" "sy1 = sy\<lparr>sy_db := d\<rparr>"
    using acq by (auto simp: on_db_def op_on_def op_map_err_def Ok_rmap_err split: prod.splits)
  then have sy1: "reading W sy sy1"
    using W(3) [OF d(1)] acquire_fields [OF d(1)] by (auto simp: reading_def)
  then have path: "d_path (sy_db sy1) @ ''-wal'' = wal_path"
    by (auto simp: reading_def wal_path_def)
  obtain r2 sy2 where len: "on_host (ho_len ho wal_path) sy1 = (r2, sy2)" by (cases "on_host (ho_len ho wal_path) sy1")
  note r2 = reading_host(2) [OF sy1 W(2) len]
  let ?len = "of_nat (length wal) :: u64"
  have le: "?len \<ge> wal_start \<longleftrightarrow> length wal \<ge> WAL_HEADER_SIZE"
    using wal by (simp add: word_le_nat_alt unsigned_of_nat take_bit_nat_eq_self)
  obtain header sy3 where head: "(if ?len \<ge> wal_start then
         op_bind (read_exact_at ho wal_path 0 WAL_HEADER_SIZE) (\<lambda>hbuf.
         op_bind (op_of (of_wal (wal_header_parse hbuf))) (\<lambda>h. op_ret (Some h)))
       else op_ret None) sy2 = (Ok header, sy3)"
    and rest: "(case sync_plan (sy_pos sy3) ?len header of
        Skip \<Rightarrow> op_ret None
      | PlanSnapshot offset \<Rightarrow>
          op_bind (read_wal_or_empty ho) (\<lambda>wal.
          op_bind (build_snapshot ho lz4c offset wal) (\<lambda>s. op_ret (Some s)))
      | PlanIncremental offset salt1 salt2 \<Rightarrow>
          (case header of
             None \<Rightarrow> op_of Panic
           | Some h \<Rightarrow> build_incremental ho lz4c offset salt1 salt2 ?len h wal_path)) sy3 = (Ok res, sy')"
    using build r2 len path by (auto simp: build_under_lock_def op_bind_Ok op_get_def op_try_def Let_def
        cong: plan.case_cong option.case_cong)
  have "reading W sy sy3 \<and> (if length wal \<ge> WAL_HEADER_SIZE then \<exists>h. wal_header_parse wal = Ok h \<and> header = Some h
      else header = None)"
  proof (cases "length wal \<ge> WAL_HEADER_SIZE")
    case True
    obtain sy4 where "on_host (ho_read ho wal_path) sy2 = (Ok wal, sy4)" "reading W sy sy4"
      using reading_run [OF conjunct2 [OF r2] W(2)] by blast
    then show ?thesis
      using head True le by (auto simp: read_exact_at_def op_simps Ok_rmap_err of_wal_def wal_header_parse_take simp del: wal_size_defs)
  next
    case False
    then show ?thesis
      using head le r2 by (auto simp: op_ret_def)
  qed
  moreover from this have "sy_pos sy3 = sy_pos sy"
    by (auto simp: reading_def)
  ultimately show thesis
    using that [OF W(1,2), of sy3 header] rest by simp
qed

text \<open>What a build staged carries the history's step to its transaction.\<close>

definition stages :: "(bytes \<Rightarrow> bytes) \<Rightarrow> u32 \<Rightarrow> (u64 \<Rightarrow> bytes) \<Rightarrow> ('w, 's) syncer \<Rightarrow> u64 \<Rightarrow> staged_file \<Rightarrow> bool" where
  "stages lz4c ps H sy txid f \<longleftrightarrow> txid \<noteq> 0 \<and> sf_min f = txid \<and> sf_max f = txid \<and> po_txid (sf_new_pos f) = txid \<and> staged_here sy f \<and>
    (\<exists>b h pds. map_of (sy_staging sy) (sf_path f) = Some b \<and> is_encoding lz4c b h pds \<and>
      carries ps H (LEVEL0, txid, txid) h pds \<and> h_min_txid h = txid \<and> h_max_txid h = txid)"

text \<open>The staged file holds the pages \<open>pds\<close>.\<close>

definition staged_pages ::
  "(bytes \<Rightarrow> bytes) \<Rightarrow> ('w, 's) syncer \<Rightarrow> staged_file \<Rightarrow> u64 \<Rightarrow> u32 \<Rightarrow> u32 \<Rightarrow> (u32 \<times> bytes) list \<Rightarrow> bool" where
  "staged_pages lz4c sy f txid ps commit pds \<longleftrightarrow> sf_min f = txid \<and> sf_max f = txid \<and> po_txid (sf_new_pos f) = txid \<and>
    staged_here sy f \<and> (\<exists>b h t. map_of (sy_staging sy) (sf_path f) = Some b \<and>
      encode_file lz4c h pds checksum_zero = Ok (b, t) \<and> h_commit h = commit \<and> h_page_size h = ps \<and>
      h_min_txid h = txid \<and> h_max_txid h = txid)"

lemma staged_pages_carry:
  assumes "staged_pages lz4c sy f txid ps commit pds"
    and "lz4_bounded lz4c"
    and "\<And>h. h_page_size h = ps \<Longrightarrow> h_commit h = commit \<Longrightarrow> carries ps H (LEVEL0, txid, txid) h pds"
  shows "stages lz4c ps H sy txid f"
proof -
  obtain b h t where b: "map_of (sy_staging sy) (sf_path f) = Some b" "encode_file lz4c h pds checksum_zero = Ok (b, t)"
    "h_commit h = commit" "h_page_size h = ps" "h_min_txid h = txid" "h_max_txid h = txid"
    using assms(1) by (auto simp: staged_pages_def)
  have "txid \<noteq> 0"
    using encode_file_accepts [OF b(2)] b(5) by (auto simp: header_validate_def split: if_splits)
  moreover have "is_encoding lz4c b h pds"
    by (rule encoded_is_encoding [OF assms(2) b(2)])
  ultimately show ?thesis
    using assms(1) assms(3) [OF b(4,3)] b(1,5,6) unfolding stages_def staged_pages_def by blast
qed

lemma build_snapshot_pages:
  fixes ho :: "'w host" and sy :: "('w, 's) syncer"
  assumes f: "build_snapshot ho lz4c wal_start wal sy = (Ok f, sy')"
    and w: "ho_read ho (d_path (sy_db sy)) (d_world (sy_db sy)) = (Ok db_bytes, w)"
  defines "ps \<equiv> d_page_size (sy_db sy)" and "txid \<equiv> po_txid (sy_pos sy) + 1"
  assumes fs: "wal_frames wal ps fs"
  shows "staged_pages lz4c sy' f txid ps (live_commit ps db_bytes fs)
    (map (\<lambda>p. (p, live_page (unat ps) db_bytes fs p)) (snapshot_list (live_commit ps db_bytes fs) (lock_pgno ps)))"
proof -
  obtain b h t where b: "map_of (sy_staging sy') (staged_ltx_path LEVEL0 txid txid) = Some b"
    "encode_file lz4c h (map (\<lambda>p. (p, live_page (unat ps) db_bytes fs p))
      (snapshot_list (live_commit ps db_bytes fs) (lock_pgno ps))) checksum_zero = Ok (b, t)"
    "h_commit h = live_commit ps db_bytes fs" "h_page_size h = ps" "h_min_txid h = txid" "h_max_txid h = txid"
    and m: "sf_min f = txid" "sf_max f = txid" "po_txid (sf_new_pos f) = txid"
    using build_snapshot_run [OF f w fs [unfolded ps_def], folded ps_def txid_def, folded live_commit_def] by blast
  have here: "staged_here sy' f"
    using yieldsD [OF yields_snapshot f] .
  then have "sf_path f = staged_ltx_path LEVEL0 txid txid"
    using m by (simp add: staged_here_def)
  then show ?thesis
    using here b m unfolding staged_pages_def by (intro conjI exI [of _ b] exI [of _ h] exI [of _ t]) simp_all
qed

lemma build_next_snapshot:
  fixes ho :: "'w host" and sy :: "('w, 's) syncer"
  assumes run: "build_next ho lz4c sy = (Ok res, sy')" and env: "locked_build ho sy db_bytes wal"
    and wal: "length wal < 2 ^ 63" and pos: "po_txid (sy_pos sy) = 0"
  defines "ps \<equiv> d_page_size (sy_db sy)"
  assumes fs: "wal_frames wal ps fs"
  shows "\<exists>f. res = Some f \<and> staged_pages lz4c sy' f 1 ps (live_commit ps db_bytes fs)
      (map (\<lambda>p. (p, live_page (unat ps) db_bytes fs p)) (snapshot_list (live_commit ps db_bytes fs) (lock_pgno ps))) \<and>
    (\<forall>r. wal_reader_new wal = Ok r \<and>
        (committed fs = [] \<or> fr_pgno (last (committed fs)) \<le> fr_commit (last (committed fs))) \<longrightarrow>
      po_wal_offset (sf_new_pos f) = of_nat (WAL_HEADER_SIZE + length (committed fs) * frame_size (w_header r)) \<and>
      po_salt1 (sf_new_pos f) = wh_salt1 (w_header r) \<and> po_salt2 (sf_new_pos f) = wh_salt2 (w_header r))"
proof -
  obtain W header sy1 where W: "still ho W (d_path (sy_db sy)) db_bytes" "still ho W (d_path (sy_db sy) @ ''-wal'') wal"
    and sy1: "reading W sy sy1"
    and rest: "op_bind (read_wal_or_empty ho) (\<lambda>wal. op_bind (build_snapshot ho lz4c wal_start wal)
      (\<lambda>s. op_ret (Some s))) sy1 = (Ok res, sy')"
    by (rule build_next_reads [OF run env wal]) (simp add: sync_plan_def pos)
  have same_path: "d_path (sy_db sy1) @ ''-wal'' = d_path (sy_db sy) @ ''-wal''"
    using sy1 by (auto simp: reading_def)
  obtain sy2 where "on_host (ho_read ho (d_path (sy_db sy) @ ''-wal'')) sy1 = (Ok wal, sy2)" and sy2: "reading W sy sy2"
    by (rule reading_run [OF sy1 W(2)])
  then have "read_wal_or_empty ho sy1 = (Ok wal, sy2)"
    by (simp add: read_wal_or_empty_def op_bind_def op_get_def same_path op_try_def op_ret_def)
  then obtain f where f: "build_snapshot ho lz4c wal_start wal sy2 = (Ok f, sy')" "res = Some f"
    using rest by (auto simp: op_bind_Ok op_ret_def)
  obtain d where d: "sy2 = sy\<lparr>sy_db := d\<rparr>" "d_path d = d_path (sy_db sy)" "d_page_size d = ps" "d_world d \<in> W"
    using sy2 by (auto simp: reading_def ps_def)
  obtain w where w: "ho_read ho (d_path (sy_db sy2)) (d_world (sy_db sy2)) = (Ok db_bytes, w)"
    using W(1) d by (auto simp: still_def)
  have "staged_pages lz4c sy' f 1 ps (live_commit ps db_bytes fs)
      (map (\<lambda>p. (p, live_page (unat ps) db_bytes fs p)) (snapshot_list (live_commit ps db_bytes fs) (lock_pgno ps)))"
    using build_snapshot_pages [OF f(1) w, of fs] fs d pos by simp
  moreover have "read_frames r = fs" if "wal_reader_new wal = Ok r" for r
    using that fs by (auto simp: wal_frames_def wal_reader_new_def wal_header_parse_def split: if_splits)
  ultimately show ?thesis
    using f(2) build_snapshot_position [OF f(1)] by blast
qed

text \<open>Where the next sync resumes: the number of frames of this WAL the position is past.\<close>

definition resumes :: "position \<Rightarrow> wal_reader \<Rightarrow> nat \<Rightarrow> nat \<Rightarrow> bool" where
  "resumes pos r wal_len n \<longleftrightarrow> n \<le> length (read_frames r) \<and>
    (if wh_salt1 (w_header r) = po_salt1 pos \<and> wh_salt2 (w_header r) = po_salt2 pos \<and> unat (po_wal_offset pos) \<le> wal_len
     then unat (po_wal_offset pos) = WAL_HEADER_SIZE + n * frame_size (w_header r) else n = 0)"

lemma build_next_incremental:
  fixes ho :: "'w host" and sy :: "('w, 's) syncer"
  assumes run: "build_next ho lz4c sy = (Ok res, sy')" and env: "locked_build ho sy db_bytes wal"
    and wal: "length wal < 2 ^ 63" "wal_reader_new wal = Ok r" and pos: "po_txid (sy_pos sy) \<noteq> 0"
    and n: "resumes (sy_pos sy) r (length wal) n"
    and ps: "wh_page_size (w_header r) = d_page_size (sy_db sy)"
  obtains W sy1 offset where "d_path (sy_db sy1) = d_path (sy_db sy)" and "d_page_size (sy_db sy1) = d_page_size (sy_db sy)"
    and "sy_pos sy1 = sy_pos sy" and "unat offset = WAL_HEADER_SIZE + n * frame_size (w_header r)"
    and "\<forall>w \<in> W. \<exists>w' \<in> W. ho_read ho (d_path (sy_db sy) @ ''-wal'') w = (Ok wal, w')"
    and "d_world (sy_db sy1) \<in> W"
    and "build_incremental ho lz4c offset (wh_salt1 (w_header r)) (wh_salt2 (w_header r)) (of_nat (length wal))
      (w_header r) (d_path (sy_db sy) @ ''-wal'') sy1 = (Ok res, sy')"
proof -
  let ?h = "w_header r"
  have parse: "wal_header_parse wal = Ok ?h" "length wal \<ge> WAL_HEADER_SIZE"
    using wal(2) by (auto simp: wal_reader_new_def res_simps wal_header_parse_def split: if_splits)
  obtain W sy1 where W: "still ho W (d_path (sy_db sy) @ ''-wal'') wal" and sy1: "reading W sy sy1"
    and rest: "(case sync_plan (sy_pos sy) (of_nat (length wal)) (Some ?h) of
        Skip \<Rightarrow> op_ret None
      | PlanSnapshot offset \<Rightarrow> op_bind (read_wal_or_empty ho) (\<lambda>wal.
          op_bind (build_snapshot ho lz4c offset wal) (\<lambda>s. op_ret (Some s)))
      | PlanIncremental offset salt1 salt2 \<Rightarrow> build_incremental ho lz4c offset salt1 salt2 (of_nat (length wal)) ?h
          (d_path (sy_db sy) @ ''-wal'')) sy1 = (Ok res, sy')"
    by (rule build_next_reads [OF run env wal(1)]) (use parse in \<open>auto cong: plan.case_cong\<close>)
  have len: "unat (of_nat (length wal) :: u64) = length wal"
    using wal(1) by (simp add: unsigned_of_nat take_bit_nat_eq_self)
  define offset :: u64 where "offset = (if wh_salt1 ?h = po_salt1 (sy_pos sy) \<and> wh_salt2 ?h = po_salt2 (sy_pos sy) \<and>
      unat (po_wal_offset (sy_pos sy)) \<le> length wal then po_wal_offset (sy_pos sy) else wal_start)"
  have plan: "sync_plan (sy_pos sy) (of_nat (length wal)) (Some ?h) = PlanIncremental offset (wh_salt1 ?h) (wh_salt2 ?h)"
    using pos by (auto simp: sync_plan_def Let_def offset_def word_less_nat_alt len)
  have off: "unat offset = WAL_HEADER_SIZE + n * frame_size ?h"
    using n by (auto simp: resumes_def offset_def)
  show thesis
    by (rule that [of sy1 offset W]) (use sy1 W rest off in \<open>auto simp: reading_def still_def plan\<close>)
qed

lemma encode_file_nonzero:
  assumes "encode_file lz4c h pds post = Ok r" and "p \<in> fst ` set pds"
  shows "p \<noteq> 0"
proof -
  have "accepts_all h prev qds \<Longrightarrow> p \<in> fst ` set qds \<Longrightarrow> p \<noteq> 0" for prev qds
    by (induction qds arbitrary: prev) (auto simp: accepts_def)
  then show ?thesis
    using encode_file_accepts [OF assms(1)] assms(2) by blast
qed

text \<open>
  The database at the position and now: the frames up to the position end with a commit, both images
  are whole, and the pages the database grew by are in the new frames.
\<close>

definition step_of :: "u32 \<Rightarrow> (u64 \<Rightarrow> bytes) \<Rightarrow> u64 \<Rightarrow> bytes \<Rightarrow> wal_frame list \<Rightarrow> wal_frame list \<Rightarrow> bool" where
  "step_of ps H txid db_bytes old fs \<longleftrightarrow> committed old = old \<and> whole ps db_bytes old \<and> whole ps db_bytes (old @ fs) \<and>
    grown_pages_logged ps db_bytes old fs \<and>
    H (txid - 1) = live_image ps db_bytes old \<and> H txid = live_image ps db_bytes (old @ fs)"

lemma build_next_increment:
  fixes ho :: "'w host" and sy :: "('w, 's) syncer"
  assumes run: "build_next ho lz4c sy = (Ok res, sy')" and env: "locked_build ho sy db_bytes wal"
    and wal: "length wal < 2 ^ 63" "wal_reader_new wal = Ok r" and pos: "po_txid (sy_pos sy) \<noteq> 0"
    and n: "resumes (sy_pos sy) r (length wal) n"
  defines "ps \<equiv> d_page_size (sy_db sy)" and "fs \<equiv> drop n (read_frames r)" and "txid \<equiv> po_txid (sy_pos sy) + 1"
  assumes ps: "wh_page_size (w_header r) = ps"
  shows "case res of
      None \<Rightarrow> changed_pages fs = []
    | Some f \<Rightarrow> changed_pages fs \<noteq> [] \<and> staged_pages lz4c sy' f txid ps (last_commit fs)
          (map (\<lambda>p. (p, the (newest_data fs p))) (changed_pages fs)) \<and>
        (fr_pgno (last (committed fs)) \<le> fr_commit (last (committed fs)) \<longrightarrow>
          po_wal_offset (sf_new_pos f) = of_nat (WAL_HEADER_SIZE + (n + length (committed fs)) * frame_size (w_header r)) \<and>
          po_salt1 (sf_new_pos f) = wh_salt1 (w_header r) \<and> po_salt2 (sf_new_pos f) = wh_salt2 (w_header r))"
proof -
  obtain W offset and sy1 :: "('w, 's) syncer" where
    sy1: "d_page_size (sy_db sy1) = ps" "sy_pos sy1 = sy_pos sy" "d_world (sy_db sy1) \<in> W"
    and offset: "unat offset = WAL_HEADER_SIZE + n * frame_size (w_header r)"
    and rd: "\<forall>w \<in> W. \<exists>w' \<in> W. ho_read ho (d_path (sy_db sy) @ ''-wal'') w = (Ok wal, w')"
    and inc: "build_incremental ho lz4c offset (wh_salt1 (w_header r)) (wh_salt2 (w_header r)) (of_nat (length wal))
      (w_header r) (d_path (sy_db sy) @ ''-wal'') sy1 = (Ok res, sy')"
    by (rule build_next_incremental [OF run env wal pos n]) (use ps in \<open>auto simp: ps_def\<close>)
  have len: "n \<le> length (read_frames r)"
    using n by (simp add: resumes_def)
  have psr: "wh_page_size (w_header r) = d_page_size (sy_db sy1)"
    using ps sy1 by simp
  note built = build_incremental_run [OF inc wal(2) len offset psr rd sy1(3), folded fs_def,
      unfolded sy1(1,2), folded txid_def]
  show ?thesis
  proof (cases res)
    case None
    then show ?thesis using built by simp
  next
    case (Some f)
    obtain b h t where ch: "changed_pages fs \<noteq> []" "map_of (sy_staging sy') (staged_ltx_path LEVEL0 txid txid) = Some b"
      "encode_file lz4c h (map (\<lambda>p. (p, the (newest_data fs p))) (changed_pages fs)) checksum_zero = Ok (b, t)"
      "h_commit h = last_commit fs" "h_page_size h = ps" "h_min_txid h = txid" "h_max_txid h = txid"
      and m: "sf_min f = txid" "sf_max f = txid" "po_txid (sf_new_pos f) = txid"
      and p: "fr_pgno (last (committed fs)) \<le> fr_commit (last (committed fs)) \<Longrightarrow>
          po_wal_offset (sf_new_pos f) = of_nat (WAL_HEADER_SIZE + (n + length (committed fs)) * frame_size (w_header r))"
        "po_salt1 (sf_new_pos f) = wh_salt1 (w_header r)" "po_salt2 (sf_new_pos f) = wh_salt2 (w_header r)"
      using built unfolding Some option.case by blast
    have here: "staged_here sy' f"
      using build_next_Ok run Some by blast
    then have path: "sf_path f = staged_ltx_path LEVEL0 txid txid"
      using m by (simp add: staged_here_def)
    have "staged_pages lz4c sy' f txid ps (last_commit fs) (map (\<lambda>p. (p, the (newest_data fs p))) (changed_pages fs))"
      using here ch m unfolding staged_pages_def path by blast
    then show ?thesis
      using Some ch(1) p by simp
  qed
qed

lemma increment_stages:
  assumes pages: "staged_pages lz4c sy f txid ps (last_commit fs) (map (\<lambda>p. (p, the (newest_data fs p))) (changed_pages fs))"
    and step: "step_of ps H txid db_bytes old fs" and changed: "changed_pages fs \<noteq> []"
    and bound: "lz4_bounded lz4c"
  shows "stages lz4c ps H sy txid f"
proof -
  obtain b h t where enc: "encode_file lz4c h (map (\<lambda>p. (p, the (newest_data fs p))) (changed_pages fs)) checksum_zero = Ok (b, t)"
    using pages by (auto simp: staged_pages_def)
  have nz: "0 \<notin> set (changed_pages fs)"
    using encode_file_nonzero [OF enc, of 0] by (auto simp: image_image)
  have "committed fs \<noteq> []"
    using changed by (auto simp: changed_pages_def)
  then have carry: "carries ps H (LEVEL0, txid, txid) h (map (\<lambda>p. (p, the (newest_data fs p))) (changed_pages fs))"
    if "h_page_size h = ps" "h_commit h = last_commit fs" for h
    using step nz that unfolding step_of_def by (intro increment_carries) auto
  show ?thesis
    by (rule staged_pages_carry [OF pages bound carry])
qed

section \<open>Local steps\<close>

text \<open>Building changes neither the store nor the position.\<close>

definition local_step :: "('w, 's) syncer \<Rightarrow> ('w, 's) syncer \<Rightarrow> bool" where
  "local_step sy sy' \<longleftrightarrow> sy_client sy' = sy_client sy \<and> sy_store sy' = sy_store sy \<and> sy_pos sy' = sy_pos sy \<and>
    sy_files sy' = sy_files sy"

interpretation loc: building_order local_step ho for ho
proof
  fix sy :: "('w, 's) syncer" and d
  show "local_step sy (sy\<lparr>sy_staging := d\<rparr>)"
    by (simp add: local_step_def)
qed (auto simp: local_step_def system_now_def on_host_def on_db_def op_on_def keeps_def split: prod.splits)

lemmas local_build_next = loc.keeps_build_next and local_snapshot_now = loc.keeps_build_snapshot_now

text \<open>A build numbers its file with the TXID after the position.\<close>

definition numbered :: "staged_file \<Rightarrow> ('w, 's) syncer \<Rightarrow> bool" where
  "numbered f sy \<longleftrightarrow> sf_min f = po_txid (sy_pos sy) + 1 \<and> sf_max f = sf_min f \<and> po_txid (sf_new_pos f) = sf_min f"

definition numbered_option :: "staged_file option \<Rightarrow> ('w, 's) syncer \<Rightarrow> bool" where
  "numbered_option r sy \<longleftrightarrow> (case r of None \<Rightarrow> True | Some f \<Rightarrow> numbered f sy)"

lemma yields_numbered:
  assumes "\<And>txid enc. keeps local_step (e txid enc)"
    and "\<And>txid path sy. po_txid (sy_pos sy) + 1 = txid \<Longrightarrow> P (g txid path) sy"
  shows "yields P (op_bind (op_get (\<lambda>sy. po_txid (sy_pos sy) + 1)) (\<lambda>txid.
    op_bind (stage ho l txid txid (e txid)) (\<lambda>path. op_ret (g txid path))))"
proof -
  have "P x sy'" if st: "stage ho l t t (e t) sy = (Ok path, sy')" and x: "x = g t path" "t = po_txid (sy_pos sy) + 1" for t sy path sy' x
  proof -
    have "sy_pos sy' = sy_pos sy"
      using keepsD [OF loc.keeps_stage [OF assms(1)] st] by (simp add: local_step_def)
    then show ?thesis
      using assms(2) [of sy' t path] x by simp
  qed
  then show ?thesis
    by (auto simp: yields_def op_bind_Ok op_get_def op_ret_def)
qed

lemma build_next_txid:
  fixes ho :: "'w host" and sy :: "('w, 's) syncer"
  assumes "build_next ho lz4c sy = (Ok (Some f), sy')"
  shows "sf_min f = po_txid (sy_pos sy) + 1 \<and> sf_max f = sf_min f \<and> po_txid (sf_new_pos f) = sf_min f"
proof -
  have snap: "yields numbered (build_snapshot ho lz4c off wal :: ('w, 's, staged_file) sync_op)" for off wal
    unfolding build_snapshot_def Let_def case_prod_beta
    by ((rule yields_numbered loc.keeps_encode yields_bind)+) (simp_all add: numbered_def)
  have none: "yields numbered_option (op_ret None :: ('w, 's, staged_file option) sync_op)"
    by (simp add: yields_ret numbered_option_def)
  have incr: "yields numbered_option (build_incremental ho lz4c off a b n h path :: ('w, 's, staged_file option) sync_op)" for off a b n h path
    unfolding build_incremental_def Let_def case_prod_beta
    by ((rule yields_numbered loc.keeps_encode yields_if none yields_bind)+) (simp_all add: numbered_def numbered_option_def)
  have some: "yields numbered_option (op_bind (build_snapshot ho lz4c off wal) (\<lambda>s. op_ret (Some s)) ::
      ('w, 's, staged_file option) sync_op)" for off wal
    using snap by (auto simp: yields_def op_bind_Ok op_ret_def numbered_option_def)
  have "yields numbered_option (build_next ho lz4c :: ('w, 's, staged_file option) sync_op)"
    unfolding build_next_def build_under_lock_def Let_def
    by (auto intro!: yields_bind yields_try yields_none some incr none split: plan.split option.split)
  from yieldsD [OF this assms] keepsD [OF local_build_next assms] show ?thesis
    by (simp add: numbered_option_def numbered_def local_step_def)
qed

end
