(* ===== verification/RestoreProps.thy ===== *)
theory RestoreProps
  imports SampleReplica
begin

text \<open>
  The properties of the restore paths, on a replica that carries a history: the image rebuilt in
  memory and on disk, point-in-time restores, catching up a local copy, and crashes in between.
\<close>

section \<open>Restoring\<close>

lemma restore_run:
  assumes "lz4_frame_inverse lz4c lz4d" and "faithful cl lz4c ps H s files" and "plan_restore files = Ok plan"
  shows "apply_plan cl lz4d plan s = Ok (H (run_end 0 plan))"
proof -
  have "set plan \<subseteq> set files" "is_run 0 plan" "H 0 = []"
    using plan_restore_Ok [OF assms(3)] assms(2) by (auto simp: faithful_def history_def)
  then show ?thesis
    using apply_plan_run [OF assms(1,2), of plan 0] by (simp add: apply_plan_def)
qed

text \<open>
  C14: on a replica that carries a history, a full restore in memory, oldest file first, and one to a
  path, newest file first with each page written once, produce the same image: the one at the
  furthest TXID a contiguous run of files reaches. On disk the clean marker says so.
\<close>

theorem restore_memory_and_path_agree:
  assumes "lz4_frame_inverse lz4c lz4d" and "faithful cl lz4c ps H s files"
    and "list_all_levels cl s = Ok files" and "plan_restore files = Ok plan"
  shows "restore cl lz4d s = Ok (H (run_end 0 plan)) \<and>
    (\<exists>effs. restore_to_path cl lz4d s = (effs, Ok (run_end 0 plan)) \<and>
      l_db (run_effects l effs) = Some (H (run_end 0 plan)) \<and>
      l_marker (run_effects l effs) =
        Some (Clean (run_end 0 plan) ps (of_nat (pages ps (H (run_end 0 plan)))) (length (H (run_end 0 plan)))))"
  using restore_run [OF assms(1,2,4)] apply_plan_to_path_run [OF assms(1,2,4), of l] assms(3,4)
  by (auto simp: restore_def restore_to_path_def restore_to_path_with_files_def settled_def)

theorem restore_memory_and_path_agree_witness:
  "restore sample_client stored_dec sample_replica = Ok (replicate 512 9 @ replicate 512 8) \<and>
    (\<exists>effs. restore_to_path sample_client stored_dec sample_replica = (effs, Ok 3) \<and>
      l_db (run_effects \<lparr>l_db = None, l_marker = None\<rparr> effs) = Some (replicate 512 9 @ replicate 512 8))"
proof -
  obtain files where files: "list_all_levels sample_client sample_replica = Ok files"
    "set files = {(0, 1, 1), (1, 2, 3)}" by (rule sample_listing)
  obtain plan where "plan_restore files = Ok plan" "run_end 0 plan = 3"
    using sample_plan [OF files(2)] .
  then show ?thesis
    using restore_memory_and_path_agree [OF stored_inverse sample_faithful [OF files(2)] files(1),
        where l = "\<lparr>l_db = None, l_marker = None\<rparr>"]
    by (auto simp: sample_history_def)
qed

lemma faithful_subset: "faithful cl lz4c ps H s files \<Longrightarrow> set files' \<subseteq> set files \<Longrightarrow> faithful cl lz4c ps H s files'"
  by (auto simp: faithful_def)

lemma restore_to_txid_run:
  assumes "lz4_frame_inverse lz4c lz4d" and "faithful cl lz4c ps H s files"
    and "list_all_levels cl s = Ok files" and "proper_files files"
  shows "if \<exists>f \<in> set files. fr_min f = 1 \<and> fr_max f \<le> target
    then \<exists>t. restore_to_txid cl lz4d target s = Ok (H t, t) \<and> t \<le> target \<and>
      (\<forall>fs. is_run 0 fs \<and> set fs \<subseteq> set files \<and> (\<forall>f \<in> set fs. fr_max f \<le> target) \<longrightarrow> run_end 0 fs \<le> t)
    else restore_to_txid cl lz4d target s = Err (TxidTooOld target)"
proof -
  let ?files = "filter (\<lambda>f. fr_max f \<le> target) files"
  have proper: "proper_files ?files"
    using assms(4) by (simp add: proper_files_def)
  note ex = plan_restore_NoSnapshot [OF proper]
  show ?thesis
  proof (cases "\<exists>f \<in> set files. fr_min f = 1 \<and> fr_max f \<le> target")
    case True
    then obtain plan where plan: "plan_restore ?files = Ok plan"
      using ex by auto
    note ok = plan_restore_Ok [OF plan]
    have "faithful cl lz4c ps H s ?files"
      using assms(2) by (rule faithful_subset) auto
    from restore_run [OF assms(1) this plan]
    have "restore_to_txid cl lz4d target s = Ok (H (run_end 0 plan), run_end 0 plan)"
      using assms(3) plan ok by (simp add: restore_to_txid_def plan_restore_to_def run_end_last)
    moreover have "last plan \<in> set ?files"
      using ok last_in_set by blast
    then have "run_end 0 plan \<le> target"
      using ok by (simp add: run_end_last)
    moreover have "run_end 0 fs \<le> run_end 0 plan"
      if "is_run 0 fs \<and> set fs \<subseteq> set files \<and> (\<forall>f \<in> set fs. fr_max f \<le> target)" for fs
    proof -
      have "set fs \<subseteq> set ?files" "is_run 0 fs"
        using that by auto
      then show ?thesis
        using ok by blast
    qed
    ultimately show ?thesis
      using True by auto
  next
    case False
    have "plan_restore ?files = Err NoSnapshot"
    proof (cases "plan_restore ?files")
      case (Ok plan)
      then show ?thesis using ex False by auto
    qed (auto simp: plan_restore_def split: prod.splits if_splits)
    then show ?thesis
      using False assms(3) by (simp add: restore_to_txid_def plan_restore_to_def)
  qed
qed

text \<open>
  C22: a restore to a target TXID fails with "too old" exactly when no base file ends at or before
  the target. Otherwise it returns the exact image at a TXID that is at or before the target and as
  far as the files ending there allow.
\<close>

theorem restore_to_txid_never_overshoots:
  assumes "lz4_frame_inverse lz4c lz4d" and "faithful cl lz4c ps H s files"
    and "list_all_levels cl s = Ok files" and "proper_files files"
  shows "if \<exists>f \<in> set files. fr_min f = 1 \<and> fr_max f \<le> target
    then \<exists>t. restore_to_txid cl lz4d target s = Ok (H t, t) \<and> t \<le> target \<and>
      (\<forall>fs. is_run 0 fs \<and> set fs \<subseteq> set files \<and> (\<forall>f \<in> set fs. fr_max f \<le> target) \<longrightarrow> run_end 0 fs \<le> t)
    else restore_to_txid cl lz4d target s = Err (TxidTooOld target)"
  by (rule restore_to_txid_run [OF assms])

theorem restore_to_txid_never_overshoots_witness:
  "\<exists>t \<le> 2. restore_to_txid sample_client stored_dec 2 sample_replica = Ok (sample_history t, t)"
proof -
  obtain files where files: "list_all_levels sample_client sample_replica = Ok files"
    "set files = {(0, 1, 1), (1, 2, 3)}" by (rule sample_listing)
  have "\<exists>f \<in> set files. fr_min f = 1 \<and> fr_max f \<le> 2"
    using files(2) by (auto simp: word_le_nat_alt)
  then show ?thesis
    using restore_to_txid_never_overshoots [OF stored_inverse sample_faithful [OF files(2)] files(1)
        sample_proper [OF files(2)], of 2] by auto
qed

lemma timestamp_scan:
  assumes "\<forall>f \<in> set files. header_of cl f s = Ok (hof f)"
  shows "rfoldM (\<lambda>target f. if fr_max f \<le> target then Ok target else
      rbind (header_of cl f s) (\<lambda>h. Ok (if h_timestamp h \<le>s ts then fr_max f else target))) a files =
    Ok (foldl max a (map fr_max (filter (\<lambda>f. h_timestamp (hof f) \<le>s ts) files)))"
  using assms
proof (induction files arbitrary: a)
  case (Cons f fs)
  then show ?case by (cases "fr_max f \<le> a") (auto simp: max_def)
qed simp

text \<open>
  C23: a restore to a timestamp is the restore to the largest TXID among all files, of every level,
  whose header's timestamp is at or before it, and fails when there is none.
\<close>

theorem restore_to_timestamp_snaps:
  assumes "list_all_levels cl s = Ok files" and "\<forall>f \<in> set files. header_of cl f s = Ok (hof f)"
    and "target = head_txid (filter (\<lambda>f. h_timestamp (hof f) \<le>s ts) files)"
  shows "restore_to_timestamp cl lz4d ts s =
    (if target = 0 then Err (TxidTooOld 0) else restore_to_txid cl lz4d target s)"
  using timestamp_scan [OF assms(2), of ts 0] assms(1)
  by (simp add: restore_to_timestamp_def assms(3) head_txid_def)

theorem restore_to_timestamp_snaps_witness:
  "restore_to_timestamp sample_client stored_dec 0 sample_replica =
    restore_to_txid sample_client stored_dec 3 sample_replica"
proof -
  obtain files where files: "list_all_levels sample_client sample_replica = Ok files"
    "set files = {(0, 1, 1), (1, 2, 3)}" by (rule sample_listing)
  let ?hof = "\<lambda>f :: file_range. if f = (0, 1, 1) then sample_header 1 1 2 else sample_header 2 3 2"
  have hd: "\<forall>f \<in> set files. header_of sample_client f sample_replica = Ok (?hof f)"
    using holds_file_facts(2) [OF sample_holds(1)] holds_file_facts(2) [OF sample_holds(2)] files(2) by simp
  have "filter (\<lambda>f. h_timestamp (?hof f) \<le>s 0) files = files"
    by (rule filter_True) (simp add: sample_header_def)
  then show ?thesis
    using restore_to_timestamp_snaps [OF files(1) hd refl, where ts = 0] sample_head [OF files(2)] by simp
qed

section \<open>Catching up\<close>

text \<open>A clean marker that matches the file's length tells the truth.\<close>

definition truthful :: "(u64 \<Rightarrow> bytes) \<Rightarrow> local_db \<Rightarrow> bool" where
  "truthful H l \<longleftrightarrow> (case l_marker l of
     Some (Clean t _ _ n) \<Rightarrow> map_option length (l_db l) = Some n \<longrightarrow> l_db l = Some (H t)
   | _ \<Rightarrow> True)"

text \<open>What a full restore does, in the fallback arms.\<close>

definition rebuilt :: "u32 \<Rightarrow> (u64 \<Rightarrow> bytes) \<Rightarrow> file_range list \<Rightarrow> local_db
    \<Rightarrow> effect list \<times> (catch_up_result, sync_error) result \<Rightarrow> bool" where
  "rebuilt ps H files l out \<longleftrightarrow>
    (if \<exists>f \<in> set files. fr_min f = 1
     then \<exists>t reason. snd out = Ok (FullRestore t reason) \<and> run_effects l (fst out) = settled ps H t \<and>
       (\<forall>fs. is_run 0 fs \<and> set fs \<subseteq> set files \<longrightarrow> run_end 0 fs \<le> t)
     else out = ([], Err NoSnapshot))"

lemma full_restore_run:
  assumes "lz4_frame_inverse lz4c lz4d" and "faithful cl lz4c ps H s files" and "proper_files files"
  shows "rebuilt ps H files l (full_restore cl lz4d files reason s)"
proof (cases "\<exists>f \<in> set files. fr_min f = 1")
  case True
  then obtain plan where plan: "plan_restore files = Ok plan"
    using plan_restore_NoSnapshot [OF assms(3)] by auto
  obtain effs where "apply_plan_to_path cl lz4d plan s = (effs, Ok (run_end 0 plan))"
    "run_effects l effs = settled ps H (run_end 0 plan)"
    using apply_plan_to_path_run [OF assms(1,2) plan] by blast
  then show ?thesis
    using True plan plan_restore_Ok [OF plan]
    by (simp add: rebuilt_def full_restore_def restore_to_path_with_files_def)
next
  case False
  have "plan_restore files = Err NoSnapshot"
  proof (cases "plan_restore files")
    case (Ok plan)
    then show ?thesis using plan_restore_NoSnapshot [OF assms(3)] False by auto
  qed (auto simp: plan_restore_def split: prod.splits if_splits)
  then show ?thesis
    using False by (simp add: rebuilt_def full_restore_def restore_to_path_with_files_def)
qed

lemma plan_restore_from_cases:
  assumes "pos < head_txid files"
  obtains "plan_restore_from files pos = Err (ChainGap pos)"
  | plan where "plan_restore_from files pos = Ok plan" "is_run pos plan" "set plan \<subseteq> set files"
      "run_end pos plan = head_txid files" "plan \<noteq> []"
proof -
  obtain p r where g: "greedy_cover files pos = (p, r)" by (cases "greedy_cover files pos")
  note sound = is_run_sound [OF g]
  show thesis
  proof (cases "r < head_txid files")
    case True
    then show ?thesis
      using assms that(1) g by (simp add: plan_restore_from_def Let_def)
  next
    case False
    moreover have "r \<le> head_txid files"
      using run_end_head [of p files pos] sound assms by auto
    ultimately have "r = head_txid files"
      by simp
    with assms g sound show ?thesis
      by (intro that(2) [of p]) (auto simp: plan_restore_from_def Let_def)
  qed
qed

text \<open>The outcome of catching up: nothing to do, a delta, or a rebuild.\<close>

definition caught_up :: "u32 \<Rightarrow> (u64 \<Rightarrow> bytes) \<Rightarrow> file_range list \<Rightarrow> local_db
    \<Rightarrow> effect list \<times> (catch_up_result, sync_error) result \<Rightarrow> bool" where
  "caught_up ps H files l out \<longleftrightarrow>
    (fst out = [] \<and> snd out = Ok (UpToDate (head_txid files)) \<and> l_db l = Some (H (head_txid files))) \<or>
    (\<exists>t n. snd out = Ok (Incremental t (head_txid files) n) \<and> t < head_txid files \<and>
      run_effects l (fst out) = settled ps H (head_txid files)) \<or>
    rebuilt ps H files l out"

lemma catch_up_run:
  assumes "lz4_frame_inverse lz4c lz4d" and "faithful cl lz4c ps H s files" and "proper_files files"
    and "truthful H l"
  shows "caught_up ps H files l (catch_up_with cl lz4d files l s)"
proof -
  have full: "caught_up ps H files l (full_restore cl lz4d files reason s)" for reason
    using full_restore_run [OF assms(1-3)] by (simp add: caught_up_def)
  show ?thesis
  proof (cases "l_marker l")
    case None
    then show ?thesis using full by (simp add: catch_up_with_def)
  next
    case (Some m)
    show ?thesis
    proof (cases m)
      case (Applying a b)
      then show ?thesis using Some full by (simp add: catch_up_with_def)
    next
      case (Clean t p c n)
      show ?thesis
      proof (cases "map_option length (l_db l) = Some n \<and> t \<le> head_txid files")
        case False
        then show ?thesis
          using Some Clean full by (auto simp: catch_up_with_def Let_def not_le)
      next
        case ok: True
        then have db: "l_db l = Some (H t)"
          using assms(4) Some Clean by (simp add: truthful_def)
        show ?thesis
        proof (cases "t = head_txid files")
          case True
          then show ?thesis
            using Some Clean ok db by (auto simp: catch_up_with_def Let_def caught_up_def)
        next
          case False
          with ok have less: "t < head_txid files" by (simp add: le_less)
          show ?thesis
          proof (cases rule: plan_restore_from_cases [OF less])
            case 1
            then show ?thesis
              using Some Clean ok less full by (auto simp: catch_up_with_def Let_def)
          next
            case (2 plan)
            obtain Hd P where holds: "\<And>f. f \<in> set plan \<Longrightarrow> holds_file cl lz4c ps H s f (Hd f) (P f)"
              using faithful_files [OF assms(2) 2(3)] by blast
            have "history ps H"
              using assms(2) by (simp add: faithful_def)
            from delta_path_run [OF assms(1) this 2(2,5) holds db]
            obtain shape effs where d: "delta_shape_of cl plan s = Ok shape" "ds_page_size shape = ps"
              "apply_delta_to_path cl lz4d plan t shape s = (effs, Ok (head_txid files))"
              "run_effects l effs = settled ps H (head_txid files)"
              using 2(4) by auto
            show ?thesis
            proof (cases "ps = p \<and> local_page_size l = Some p")
              case True
              then have "catch_up_with cl lz4d files l s = (effs, Ok (Incremental t (head_txid files) (length plan)))"
                using Some Clean ok less 2(1,5) d by (auto simp: catch_up_with_def Let_def)
              then show ?thesis
                using less d(4) by (simp add: caught_up_def)
            next
              case no: False
              have "catch_up_with cl lz4d files l s = full_restore cl lz4d files PageSizeChanged s"
                using Some Clean ok less 2(1,5) d no by (auto simp: catch_up_with_def Let_def)
              then show ?thesis using full by simp
            qed
          qed
        qed
      qed
    qed
  qed
qed

text \<open>
  C15: catching up a local copy whose marker is truthful leaves it at the newest TXID when it needs
  nothing or a delta; when it falls back it rebuilds the image at the furthest TXID a contiguous run
  from the start reaches, and it fails only where there is nothing to restore from.
\<close>

theorem catch_up_correct:
  assumes "lz4_frame_inverse lz4c lz4d" and "faithful cl lz4c ps H s files" and "proper_files files"
    and "list_all_levels cl s = Ok files" and "truthful H l"
  shows "caught_up ps H files l (catch_up cl lz4d l s)"
  using catch_up_run [OF assms(1-3,5)] assms(4) by (simp add: catch_up_def)

definition sample_local :: local_db where
  "sample_local = \<lparr>l_db = Some (sample_history 1), l_marker = Some (Clean 1 512 2 1024)\<rparr>"

lemma sample_local_truthful: "truthful sample_history sample_local"
  by (simp add: truthful_def sample_local_def)

theorem catch_up_correct_witness:
  "\<exists>files. set files = {(0, 1, 1), (1, 2, 3)} \<and>
    caught_up 512 sample_history files sample_local (catch_up sample_client stored_dec sample_local sample_replica)"
proof -
  obtain files where files: "list_all_levels sample_client sample_replica = Ok files"
    "set files = {(0, 1, 1), (1, 2, 3)}" by (rule sample_listing)
  then show ?thesis
    using catch_up_correct [OF stored_inverse sample_faithful [OF files(2)] sample_proper [OF files(2)] files(1)
        sample_local_truthful] by blast
qed

text \<open>
  C17: whatever the replica and the local state are, catching up changes the file only after the
  in-flight marker is written, and writes a clean marker only as its last effect and only when it
  succeeds, so a crash or an error in between leaves the copy untouched or marked as in flight.
\<close>

theorem catch_up_marks_in_flight:
  assumes "catch_up cl lz4d l s = (effs, r)" and "k < length effs \<or> \<not> is_ok r"
  shows "run_effects l (take k effs) = l \<or>
    (\<exists>a b. l_marker (run_effects l (take k effs)) = Some (Applying a b))"
  using guarded_prefix [OF catch_up_guarded [OF assms(1)] assms(2)] .

theorem catch_up_marks_in_flight_witness:
  "\<exists>effs r. catch_up (replica_client_new mem_store ''db'') stored_dec \<lparr>l_db = None, l_marker = None\<rparr> [] = (effs, r) \<and>
    \<not> is_ok r \<and> run_effects \<lparr>l_db = None, l_marker = None\<rparr> effs = \<lparr>l_db = None, l_marker = None\<rparr>"
proof -
  let ?cl = "replica_client_new mem_store ''db''" and ?l = "\<lparr>l_db = None, l_marker = None\<rparr>"
  have "list_ltx ?cl level [] = Ok []" for level
    by (simp add: list_ltx_def replica_client_new_def mem_store_def os_res_def map_filter_simps)
  then have "list_all_levels ?cl [] = Ok []"
    by (simp add: list_all_levels_def list_all_ltx_def rmapM_Ok_map [where g = "\<lambda>_. []"] del: upt_Suc)
  then have up: "catch_up ?cl stored_dec ?l [] = ([], Err NoSnapshot)"
    by (simp add: catch_up_def catch_up_with_def full_restore_def restore_to_path_with_files_def
        plan_restore_def greedy_cover.simps [of "[]"] next_file_def)
  then show ?thesis
    using catch_up_marks_in_flight [OF up, of 0] by simp
qed

lemma caught_up_ok:
  assumes "caught_up ps H files l out" and "is_ok (snd out)"
  shows "fst out = [] \<or> (\<exists>t. run_effects l (fst out) = settled ps H t)"
  using assms unfolding caught_up_def rebuilt_def by (auto split: if_splits)

lemma truthful_settled [simp]: "truthful H (settled ps H t)"
  by (simp add: truthful_def settled_def)

lemma truthful_applying: "l_marker l = Some (Applying a b) \<Longrightarrow> truthful H l"
  by (simp add: truthful_def)

text \<open>
  C24: an incremental restore from a position the local file really is at either refuses without
  touching the file, or leaves it at the newest TXID.
\<close>

theorem restore_incremental_correct:
  assumes "lz4_frame_inverse lz4c lz4d" and "faithful cl lz4c ps H s files"
    and "list_all_levels cl s = Ok files" and "l_db l = Some (H from_txid)" and "from_txid \<le> head_txid files"
  shows "\<exists>effs r. restore_incremental cl lz4d l from_txid s = (effs, r) \<and>
    (effs = [] \<and> (\<exists>e. r = Err e) \<or>
     r = Ok (head_txid files) \<and> l_db (run_effects l effs) = Some (H (head_txid files)))"
proof (cases "from_txid = head_txid files")
  case True
  then have "plan_restore_from files from_txid = Ok []"
    by (simp add: plan_restore_from_def Let_def)
  then show ?thesis
    using True assms(3,4) by (simp add: restore_incremental_def)
next
  case False
  with assms(5) have less: "from_txid < head_txid files" by (simp add: le_less)
  show ?thesis
  proof (cases rule: plan_restore_from_cases [OF less])
    case 1
    then show ?thesis using assms(3) by (simp add: restore_incremental_def)
  next
    case (2 plan)
    obtain Hd P where holds: "\<And>f. f \<in> set plan \<Longrightarrow> holds_file cl lz4c ps H s f (Hd f) (P f)"
      using faithful_files [OF assms(2) 2(3)] by blast
    have "history ps H"
      using assms(2) by (simp add: faithful_def)
    from delta_path_run [OF assms(1) this 2(2,5) holds assms(4)]
    obtain shape effs where "delta_shape_of cl plan s = Ok shape" "ds_page_size shape = ps"
      "apply_delta_to_path cl lz4d plan from_txid shape s = (effs, Ok (head_txid files))"
      "run_effects l effs = settled ps H (head_txid files)"
      using 2(4) by auto
    then show ?thesis
      using assms(3) 2(1,5)
      by (cases "local_page_size l = Some ps")
        (auto simp: restore_incremental_def settled_def split: option.split)
  qed
qed

theorem restore_incremental_correct_witness:
  "\<exists>effs r. restore_incremental sample_client stored_dec sample_local 1 sample_replica = (effs, r) \<and>
    (effs = [] \<and> (\<exists>e. r = Err e) \<or>
     r = Ok 3 \<and> l_db (run_effects sample_local effs) = Some (replicate 512 9 @ replicate 512 8))"
proof -
  obtain files where files: "list_all_levels sample_client sample_replica = Ok files"
    "set files = {(0, 1, 1), (1, 2, 3)}" by (rule sample_listing)
  have head: "head_txid files = 3"
    using files(2) by (rule sample_head)
  have "l_db sample_local = Some (sample_history 1)" "1 \<le> head_txid files"
    by (simp_all add: sample_local_def head)
  from restore_incremental_correct [OF stored_inverse sample_faithful [OF files(2)] files(1) this]
  show ?thesis
    by (simp add: head sample_history_def)
qed

end
