(* ===== verification/Retention.thy ===== *)
theory Retention
  imports FileIndex RestorePlan
begin

text \<open>
  Retention decisions (\<^verbatim>\<open>src/sync/retention.rs\<close>): which files of a level may be deleted by age and by
  TXID. A time is an integer number of nanoseconds since the Unix epoch. The lemmas give each rule's
  exact result, and the fact the pruning rests on: a base file can replace every run's beginning.
\<close>

section \<open>The rules\<close>

definition expired :: "ltx_file_info \<Rightarrow> int \<Rightarrow> bool" where
  "expired f cutoff = (case li_created f of Some t \<Rightarrow> t < cutoff | None \<Rightarrow> False)"

definition keep_newest :: "ltx_file_info list \<Rightarrow> ltx_file_info list \<Rightarrow> ltx_file_info list" where
  "keep_newest files deleted =
    (if files \<noteq> [] \<and> deleted \<noteq> [] \<and> last deleted = last files then butlast deleted else deleted)"

definition snapshot_expired_step ::
  "int \<Rightarrow> ltx_file_info list \<times> u64 \<Rightarrow> ltx_file_info \<Rightarrow> ltx_file_info list \<times> u64" where
  "snapshot_expired_step cutoff st f =
    (case st of (deleted, lowest) \<Rightarrow>
     if expired f cutoff then (deleted @ [f], lowest)
     else if lowest = 0 \<or> li_max f < lowest then (deleted, li_max f)
     else (deleted, lowest))"

definition snapshot_expired :: "ltx_file_info list \<Rightarrow> int \<Rightarrow> ltx_file_info list \<times> u64" where
  "snapshot_expired files cutoff =
    (case foldl (snapshot_expired_step cutoff) ([], 0) files of (deleted, lowest) \<Rightarrow>
     (keep_newest files deleted, lowest))"

definition too_new :: "int \<Rightarrow> ltx_file_info \<Rightarrow> bool" where
  "too_new cutoff f = (case li_created f of Some t \<Rightarrow> t > cutoff | None \<Rightarrow> False)"

text \<open>The scan: the files to delete, and whether it got through all files.\<close>

fun l0_scan :: "u64 \<Rightarrow> int \<Rightarrow> ltx_file_info list \<Rightarrow> ltx_file_info list \<Rightarrow> ltx_file_info list \<times> bool" where
  "l0_scan max_l1 cutoff deleted [] = (deleted, True)"
| "l0_scan max_l1 cutoff deleted (f # fs) =
     (if too_new cutoff f then (deleted, False)
      else l0_scan max_l1 cutoff (if li_max f \<le> max_l1 then deleted @ [f] else deleted) fs)"

definition l0_expired :: "ltx_file_info list \<Rightarrow> u64 \<Rightarrow> int \<Rightarrow> ltx_file_info list" where
  "l0_expired files max_l1_txid cutoff =
    (if max_l1_txid = 0 then [] else
     case l0_scan max_l1_txid cutoff [] files of (deleted, processed_all) \<Rightarrow>
     if processed_all then keep_newest files deleted else deleted)"

definition below_txid :: "ltx_file_info list \<Rightarrow> u64 \<Rightarrow> ltx_file_info list" where
  "below_txid files txid = keep_newest files (filter (\<lambda>f. li_max f < txid) files)"

section \<open>Their results\<close>

lemma set_keep_newest_filter:
  assumes "distinct files"
  shows "set (keep_newest files (filter Q files)) = {f \<in> set files. Q f} - {last files}"
proof (cases "files = []")
  case True
  then show ?thesis by (simp add: keep_newest_def)
next
  case False
  then obtain xs x where files: "files = xs @ [x]"
    by (metis append_butlast_last_id)
  have x: "x \<notin> set xs"
    using assms by (simp add: files)
  show ?thesis
  proof (cases "Q x")
    case True
    then show ?thesis
      using x by (auto simp: keep_newest_def files)
  next
    case no: False
    have "last (filter Q xs) \<noteq> x" if "filter Q xs \<noteq> []"
      using last_in_set [OF that] x by auto
    then show ?thesis
      using no x by (auto simp: keep_newest_def files)
  qed
qed

lemma snapshot_fold:
  "fst (foldl (snapshot_expired_step cutoff) st files) = fst st @ filter (\<lambda>f. expired f cutoff) files"
  by (induction files arbitrary: st) (auto simp: snapshot_expired_step_def split: prod.splits)

definition min_retained :: "int \<Rightarrow> u64 \<Rightarrow> ltx_file_info list \<Rightarrow> u64 \<Rightarrow> bool" where
  "min_retained cutoff m0 files m \<longleftrightarrow>
    (m = 0 \<longleftrightarrow> m0 = 0 \<and> (\<forall>f \<in> set files. expired f cutoff)) \<and>
    (m = m0 \<or> (\<exists>f \<in> set files. \<not> expired f cutoff \<and> m = li_max f)) \<and>
    (m0 \<noteq> 0 \<longrightarrow> m \<le> m0) \<and> (\<forall>f \<in> set files. \<not> expired f cutoff \<longrightarrow> m \<le> li_max f)"

lemma min_retained_Cons:
  assumes "li_max f \<noteq> 0"
    and "min_retained cutoff (if expired f cutoff then m0
      else if m0 = 0 \<or> li_max f < m0 then li_max f else m0) fs m"
  shows "min_retained cutoff m0 (f # fs) m"
proof (cases "expired f cutoff")
  case True
  then show ?thesis
    using assms(2) by (auto simp: min_retained_def)
next
  case keep: False
  let ?m1 = "if m0 = 0 \<or> li_max f < m0 then li_max f else m0"
  have m1: "?m1 \<noteq> 0" "m0 \<noteq> 0 \<Longrightarrow> ?m1 \<le> m0" "?m1 \<le> li_max f" "?m1 = m0 \<or> ?m1 = li_max f"
    using assms(1) by (simp_all add: not_less less_imp_le)
  have rest: "min_retained cutoff ?m1 fs m"
    using assms(2) keep by simp
  then have m: "m \<noteq> 0" "m \<le> ?m1" "m = ?m1 \<or> (\<exists>g \<in> set fs. \<not> expired g cutoff \<and> m = li_max g)"
    "\<And>g. g \<in> set fs \<Longrightarrow> \<not> expired g cutoff \<Longrightarrow> m \<le> li_max g"
    using m1(1) unfolding min_retained_def by blast+
  have "m = m0 \<or> (\<exists>g \<in> set (f # fs). \<not> expired g cutoff \<and> m = li_max g)"
    using m(3) m1(4) keep by (metis list.set_intros)
  moreover have "m0 \<noteq> 0 \<Longrightarrow> m \<le> m0" "m \<le> li_max f"
    using order_trans [OF m(2)] m1(2,3) by blast+
  ultimately show ?thesis
    using m(1,4) keep unfolding min_retained_def by simp
qed

lemma snapshot_min:
  assumes "\<forall>f \<in> set files. li_max f \<noteq> 0"
  shows "min_retained cutoff (snd st) files (snd (foldl (snapshot_expired_step cutoff) st files))"
  using assms
proof (induction files arbitrary: st)
  case Nil
  then show ?case by (simp add: min_retained_def)
next
  case (Cons f fs)
  let ?st = "snapshot_expired_step cutoff st f"
  have "snd ?st = (if expired f cutoff then snd st
      else if snd st = 0 \<or> li_max f < snd st then li_max f else snd st)"
    by (simp add: snapshot_expired_step_def split: prod.split)
  then show ?case
    using Cons.IH [of ?st] Cons.prems min_retained_Cons [of f] by simp
qed

lemma l0_scan_result:
  "l0_scan m cutoff del files =
    (del @ filter (\<lambda>f. li_max f \<le> m) (takeWhile (\<lambda>f. \<not> too_new cutoff f) files),
     list_all (\<lambda>f. \<not> too_new cutoff f) files)"
  by (induction files arbitrary: del) auto

lemma l0_expired_set:
  assumes "distinct files" and "m \<noteq> 0"
  shows "set (l0_expired files m cutoff) =
    {f \<in> set (takeWhile (\<lambda>f. \<not> too_new cutoff f) files). li_max f \<le> m} - {last files}"
proof (cases "list_all (\<lambda>f. \<not> too_new cutoff f) files")
  case True
  then have "takeWhile (\<lambda>f. \<not> too_new cutoff f) files = files"
    by (simp add: list_all_iff)
  then show ?thesis
    using True assms(2) set_keep_newest_filter [OF assms(1)] unfolding l0_expired_def l0_scan_result
    by (simp only: if_False if_True prod.case append_Nil)
next
  case False
  let ?tw = "takeWhile (\<lambda>f. \<not> too_new cutoff f) files"
  have "last files \<notin> set ?tw"
  proof
    assume l: "last files \<in> set ?tw"
    have split: "files = ?tw @ dropWhile (\<lambda>f. \<not> too_new cutoff f) files" by simp
    have "dropWhile (\<lambda>f. \<not> too_new cutoff f) files \<noteq> []"
      using False by (auto simp: list_all_iff dropWhile_eq_Nil_conv)
    then have "last files \<in> set (dropWhile (\<lambda>f. \<not> too_new cutoff f) files)"
      by (metis split last_appendR last_in_set)
    then show False
      using l assms(1) split by (metis distinct_append disjoint_iff)
  qed
  then show ?thesis
    using False assms(2) by (auto simp: l0_expired_def l0_scan_result)
qed

text \<open>
  C36: each retention rule deletes exactly the files it names, never the newest of the level; L0 files
  go only when folded into L1 and from the old end up to the first file that is too new; and the
  bound for the lower levels is the smallest TXID of the snapshots kept by age.
\<close>

theorem retention_rules:
  assumes "distinct files" and "\<forall>f \<in> set files. li_max f \<noteq> 0" and "max_l1 \<noteq> 0"
  shows "set (fst (snapshot_expired files cutoff)) = {f \<in> set files. expired f cutoff} - {last files} \<and>
    snd (snapshot_expired files cutoff) =
      (if \<forall>f \<in> set files. expired f cutoff then 0
       else Min {li_max f |f. f \<in> set files \<and> \<not> expired f cutoff}) \<and>
    set (below_txid files txid) = {f \<in> set files. li_max f < txid} - {last files} \<and>
    set (l0_expired files max_l1 cutoff) =
      {f \<in> set (takeWhile (\<lambda>f. \<not> too_new cutoff f) files). li_max f \<le> max_l1} - {last files}"
proof -
  let ?m = "snd (foldl (snapshot_expired_step cutoff) ([], 0) files)"
    and ?S = "{li_max f |f. f \<in> set files \<and> \<not> expired f cutoff}"
  have snap: "snapshot_expired files cutoff = (keep_newest files (filter (\<lambda>f. expired f cutoff) files), ?m)"
    using snapshot_fold [of cutoff "([], 0)" files] by (simp add: snapshot_expired_def case_prod_beta)
  have min: "min_retained cutoff 0 files ?m"
    using snapshot_min [OF assms(2), of cutoff "([], 0)"] by simp
  have "?m = Min ?S" if "\<not> (\<forall>f \<in> set files. expired f cutoff)"
    by (rule Min_eqI [symmetric]) (use min that in \<open>auto simp: min_retained_def\<close>)
  then have "?m = (if \<forall>f \<in> set files. expired f cutoff then 0 else Min ?S)"
    using min by (auto simp: min_retained_def)
  then show ?thesis
    unfolding snap fst_conv snd_conv below_txid_def l0_expired_set [OF assms(1,3)]
      set_keep_newest_filter [OF assms(1)] by (intro conjI refl)
qed

theorem retention_rules_witness:
  "set (l0_expired [sample_info 0 1 1 100, sample_info 0 2 2 150, sample_info 0 3 3 900] 2 500) =
    {sample_info 0 1 1 100, sample_info 0 2 2 150}"
proof -
  let ?fs = "[sample_info 0 1 1 100, sample_info 0 2 2 150, sample_info 0 3 3 900]"
  have fs: "distinct ?fs" "\<forall>f \<in> set ?fs. li_max f \<noteq> 0" "(2 :: u64) \<noteq> 0"
    by (simp_all add: sample_info_def)
  from retention_rules [OF fs, of 500 0] have "set (l0_expired ?fs 2 500) =
      {f \<in> set (takeWhile (\<lambda>f. \<not> too_new 500 f) ?fs). li_max f \<le> 2} - {last ?fs}"
    by (elim conjE)
  moreover have "takeWhile (\<lambda>f. \<not> too_new 500 f) ?fs = [sample_info 0 1 1 100, sample_info 0 2 2 150]"
    by (simp add: too_new_def sample_info_def)
  ultimately have "set (l0_expired ?fs 2 500) =
      {f \<in> set [sample_info 0 1 1 100, sample_info 0 2 2 150]. li_max f \<le> 2} - {last ?fs}"
    by (simp only:)
  also have "\<dots> = {sample_info 0 1 1 100, sample_info 0 2 2 150}"
    by (auto simp: sample_info_def)
  finally show ?thesis .
qed

section \<open>Reach\<close>

text \<open>How far the files of a set restore a database.\<close>

definition reaches :: "file_range set \<Rightarrow> u64 \<Rightarrow> bool" where
  "reaches K t \<longleftrightarrow> (\<exists>fs. is_run 0 fs \<and> set fs \<subseteq> K \<and> t \<le> run_end 0 fs)"

lemma reaches_mono: "reaches K t \<Longrightarrow> K \<subseteq> K' \<Longrightarrow> reaches K' t"
  by (auto simp: reaches_def)

lemma is_run_from_further:
  "is_run p fs \<Longrightarrow> p \<le> q \<Longrightarrow> q < fr_max g \<Longrightarrow> fs = g # gs \<Longrightarrow> is_run q fs"
  using plus_one_mono [of p q "fr_max g"] by auto

lemma run_past:
  assumes "is_run p fs" and "p \<le> m"
  shows "is_run m (dropWhile (\<lambda>f. fr_max f \<le> m) fs) \<and>
    run_end p fs \<le> run_end m (dropWhile (\<lambda>f. fr_max f \<le> m) fs)"
  using assms
proof (induction fs arbitrary: p)
  case Nil
  then show ?case by simp
next
  case (Cons f fs)
  show ?case
  proof (cases "fr_max f \<le> m")
    case True
    then show ?thesis
      using Cons.IH [of "fr_max f"] Cons.prems by simp
  next
    case False
    then have "is_run m (f # fs)"
      using Cons.prems is_run_from_further [of p "f # fs" m f fs] by auto
    then show ?thesis
      using False by simp
  qed
qed

lemma is_run_above: "is_run p fs \<Longrightarrow> f \<in> set fs \<Longrightarrow> p < fr_max f"
proof (induction fs arbitrary: p)
  case (Cons g gs)
  then show ?case
    using Cons.IH [of "fr_max g"] by (auto intro: less_trans)
qed simp

text \<open>
  A file from TXID 1 stands in for the beginning of any run: only the files that end past it are
  needed besides.
\<close>

lemma reaches_via_base:
  assumes "reaches K t" and "b \<in> K'" and "fr_min b = 1" and "fr_max b \<noteq> 0"
    and "\<And>f. f \<in> K \<Longrightarrow> fr_max b < fr_max f \<Longrightarrow> f \<in> K'"
  shows "reaches K' t"
proof -
  obtain fs where fs: "is_run 0 fs" "set fs \<subseteq> K" "t \<le> run_end 0 fs"
    using assms(1) by (auto simp: reaches_def)
  let ?m = "fr_max b" and ?rest = "dropWhile (\<lambda>f. fr_max f \<le> fr_max b) fs"
  have past: "is_run ?m ?rest" "run_end 0 fs \<le> run_end ?m ?rest"
    using run_past [OF fs(1), of ?m] by auto
  have "f \<in> K'" if "f \<in> set ?rest" for f
    using assms(5) [of f] is_run_above [OF past(1) that] set_dropWhileD [OF that] fs(2) by blast
  moreover have "is_run 0 (b # ?rest)"
    using past(1) assms(3,4) by (simp add: word_gt_0)
  ultimately show ?thesis
    using assms(2) fs(3) past(2) unfolding reaches_def
    by (intro exI [of _ "b # ?rest"]) auto
qed

end
