(* ===== verification/CompactCarry.thy ===== *)
theory CompactCarry
  imports RestoreCorrect FileSize Retention
begin

text \<open>
  Merging files of a replica that carry the history gives a file that carries the window they cover:
  what a compaction or a snapshot uploads can stand in for its inputs.
\<close>

section \<open>The merged pages of a run\<close>

lemma newest_map_append: "newest_map (xs @ ys) = newest_map xs ++ newest_map ys"
proof (induction ys rule: rev_induct)
  case Nil
  then show ?case by (simp add: newest_map_def)
next
  case (snoc y ys)
  have "newest_map (xs @ ys @ [y]) = newest_map ((xs @ ys) @ [y])" by simp
  then show ?case
    unfolding newest_map_snoc using snoc by (simp add: newest_map_snoc [of ys y] map_add_assoc)
qed

lemma run_suffix:
  assumes "is_run t0 plan" and "t0 \<le> t" and "t < run_end t0 plan"
  obtains pre suf where "plan = pre @ suf" and "suf \<noteq> []" and "is_run t suf" and "run_end t suf = run_end t0 plan"
proof -
  define suf where "suf = dropWhile (\<lambda>f. fr_max f \<le> t) plan"
  have ne: "plan \<noteq> []"
    using assms(2,3) by (cases plan) auto
  have last: "\<not> fr_max (last plan) \<le> t"
    using assms(3) run_end_last [OF ne] by (simp add: not_le)
  then have "suf \<noteq> []"
    using ne by (auto simp: suf_def)
  moreover have plan: "plan = takeWhile (\<lambda>f. fr_max f \<le> t) plan @ suf"
    by (simp add: suf_def)
  moreover have "is_run t suf"
    using run_past [OF assms(1,2)] by (simp add: suf_def)
  moreover have "run_end t suf = run_end t0 plan"
    using \<open>suf \<noteq> []\<close> plan run_end_last [of suf t] run_end_last [OF ne, of t0] by (metis last_appendR)
  ultimately show thesis
    using that by blast
qed

lemma plus_one_le: "mn \<noteq> 0 \<Longrightarrow> mn \<le> t + 1 \<Longrightarrow> t < b \<Longrightarrow> mn - 1 \<le> (t :: u64)"
  by uint_arith

lemma merged_carries:
  assumes run: "is_run (mn - 1) plan" and ne: "plan \<noteq> []" and mn: "mn \<noteq> 0"
    and holds: "\<And>f. f \<in> set plan \<Longrightarrow> holds_file cl lz4c ps H s f (Hd f) (P f)"
    and h: "h_page_size h = ps" "h_commit h = h_commit (Hd (last plan))"
  shows "carries ps H (l, mn, fr_max (last plan)) h (merged_pages (h_commit h) (map P plan))"
proof -
  let ?b = "fr_max (last plan)" and ?pds = "merged_pages (h_commit h) (map P plan)"
  have b: "run_end (mn - 1) plan = ?b"
    by (rule run_end_last [OF ne])
  note last = holds_file_facts [OF holds [OF last_in_set [OF ne]]]
  have commit: "unat (h_commit h) = pages ps (H ?b)"
    using h(2) last(6) by simp
  then have small: "i < 2 ^ 32" if "i \<le> pages ps (H ?b)" for i
    using unsigned_less [of "h_commit h", where 'a = nat] that by simp
  have dist: "distinct (map fst ?pds)"
    using merged_pgnos_sorted strict_sorted_iff by blast
  have at: "map_of ?pds p = (if p \<le> h_commit h then newest_map (map P plan) p else None)" for p
    by (rule map_of_merged)
  have page: "snd pd = page_of (unat ps) (H ?b) (unat (fst pd))" if pd: "pd \<in> set ?pds" for pd
  proof -
    have new: "fst pd \<le> h_commit h" "newest_map (map P plan) (fst pd) = Some (snd pd)"
      using at [of "fst pd"] map_of_is_SomeI [OF dist, of "fst pd" "snd pd"] pd by (simp_all split: if_splits)
    then have "fst pd \<in> fst ` set (concat (map P plan))"
      using dom_newest_map [of "map P plan"] by blast
    then obtain f pd' where f: "f \<in> set plan" "pd' \<in> set (P f)" "fst pd' = fst pd"
      by auto
    have ok: "fst pd \<noteq> 0" "fst pd \<noteq> lock_pgno ps"
      using holds_file_facts(7) [OF holds [OF f(1)] f(2)] f(3) by auto
    have "unat (fst pd) \<le> pages ps (H ?b)"
      using new(1) commit by (simp add: word_le_nat_alt)
    moreover have "1 \<le> unat (fst pd)"
      using ok(1) by (simp add: Suc_le_eq unat_gt_0)
    ultimately show ?thesis
      using run_pages [OF run holds, of "unat (fst pd)", unfolded b] new(2) ok(2) by simp
  qed
  have absent: "i \<le> pages ps (H t) \<and> page_of (unat ps) (H t) i = page_of (unat ps) (H ?b) i"
    if i: "1 \<le> i" "i \<le> pages ps (H ?b)" "of_nat i \<notin> fst ` set ?pds" "of_nat i \<noteq> lock_pgno ps"
      and t: "mn \<le> t + 1" "t < ?b" for i t
  proof -
    have "unat (of_nat i :: u32) = i"
      using small [OF i(2)] by (simp add: unsigned_of_nat take_bit_nat_eq_self)
    then have "of_nat i \<le> h_commit h"
      using i(2) commit by (simp add: word_le_nat_alt)
    then have none: "newest_map (map P plan) (of_nat i) = None"
      using at [of "of_nat i"] i(3) map_of_eq_None_iff [of ?pds "of_nat i"] by simp
    obtain pre suf where suf: "plan = pre @ suf" "is_run t suf" "run_end t suf = ?b"
      using run_suffix [OF run plus_one_le [OF mn t] t(2) [folded b]] b by metis
    have "newest_map (map P suf) (of_nat i) = None"
      using none by (simp add: suf(1) newest_map_append)
    then show ?thesis
      using run_pages [OF suf(2) holds, of i] i suf by auto
  qed
  show ?thesis
    unfolding carries_def using h(1) commit page absent by auto
qed

section \<open>Compaction\<close>

text \<open>A file of the replica whose header names its own TXID range.\<close>

definition holds_titled ::
  "'s replica_client \<Rightarrow> (bytes \<Rightarrow> bytes) \<Rightarrow> u32 \<Rightarrow> (u64 \<Rightarrow> bytes) \<Rightarrow> 's \<Rightarrow> file_range \<Rightarrow> header
    \<Rightarrow> (u32 \<times> bytes) list \<Rightarrow> bool" where
  "holds_titled cl lz4c ps H s f h pds \<longleftrightarrow> holds_file cl lz4c ps H s f h pds \<and>
    h_min_txid h = fr_min f \<and> h_max_txid h = fr_max f"

lemma contiguous_is_run:
  assumes "contiguous_run hs" and "list_all2 (\<lambda>f h. h_min_txid h = fr_min f \<and> h_max_txid h = fr_max f) plan hs"
    and "plan \<noteq> []" and "fr_min (hd plan) \<le> pos + 1" and "pos < fr_max (hd plan)"
  shows "is_run pos plan"
  using assms
proof (induction plan arbitrary: pos hs)
  case (Cons f fs)
  obtain h hs' where hs: "hs = h # hs'" "h_max_txid h = fr_max f"
    "list_all2 (\<lambda>f h. h_min_txid h = fr_min f \<and> h_max_txid h = fr_max f) fs hs'"
    using Cons.prems(2) by (auto simp: list_all2_Cons1)
  show ?case
  proof (cases fs)
    case Nil
    then show ?thesis
      using Cons.prems by simp
  next
    case (Cons g gs)
    then obtain h' hs'' where hs': "hs' = h' # hs''" "h_min_txid h' = fr_min g" "h_max_txid h' = fr_max g"
      using hs(3) by (auto simp: list_all2_Cons1)
    have first: "fr_min g \<le> fr_max f + 1" "fr_max f < fr_max g"
      using Cons.prems(1) hs hs' unfolding contiguous_run_def by (force simp: hs hs')+
    have "contiguous_run hs'"
      using Cons.prems(1) unfolding contiguous_run_def hs hs'
      by (metis Suc_less_eq hd_conv_nth length_Cons list.distinct(1) nth_Cons_0 nth_Cons_Suc zero_less_Suc)
    from Cons.IH [OF this hs(3), of "fr_max f"] first Cons.prems(4,5) \<open>fs = g # gs\<close> show ?thesis
      by simp
  qed
qed simp

text \<open>The bytes of the files, in order.\<close>

definition file_bytes_of :: "'s replica_client \<Rightarrow> 's \<Rightarrow> file_range list \<Rightarrow> bytes list \<Rightarrow> bool" where
  "file_bytes_of cl s fs refs \<longleftrightarrow> list_all2 (\<lambda>f b. get_ltx cl (fr_level f) (fr_min f) (fr_max f) s = Ok b) fs refs"

lemma file_bytes_encodings:
  assumes "file_bytes_of cl s fs refs" and "\<And>f. f \<in> set fs \<Longrightarrow> holds_file cl lz4c ps H s f (Hd f) (P f)"
  shows "encodings lz4c refs (map (\<lambda>f. (Hd f, P f)) fs)"
proof -
  have "is_encoding lz4c (refs ! i) (Hd (fs ! i)) (P (fs ! i))" if i: "i < length fs" for i
  proof -
    have "get_ltx cl (fr_level (fs ! i)) (fr_min (fs ! i)) (fr_max (fs ! i)) s = Ok (refs ! i)"
      using assms(1) i by (auto simp: file_bytes_of_def list_all2_conv_all_nth)
    then show ?thesis
      using assms(2) [of "fs ! i"] i by (auto simp: holds_file_def)
  qed
  then show ?thesis
    using assms(1) by (auto simp: encodings_def file_bytes_of_def list_all2_conv_all_nth)
qed

lemma compaction_carries:
  assumes lz4: "lz4_frame_inverse lz4c lz4d" and bound: "lz4_bounded lz4c"
    and refs: "file_bytes_of cl s fs refs" and ne: "fs \<noteq> []"
    and holds: "\<And>f. f \<in> set fs \<Longrightarrow> holds_titled cl lz4c ps H s f (Hd f) (P f)"
    and first: "fr_min (hd fs) \<noteq> 0" "fr_min (hd fs) \<le> fr_max (hd fs)"
    and run: "compact_to_writer lz4c lz4d refs = Ok (b, t)"
  shows "is_run (fr_min (hd fs) - 1) fs" and
    "\<exists>h pds. is_encoding lz4c b h pds \<and> carries ps H (l, fr_min (hd fs), fr_max (last fs)) h pds \<and>
      h_min_txid h = fr_min (hd fs) \<and> h_max_txid h = fr_max (last fs)"
proof -
  let ?srcs = "map (\<lambda>f. (Hd f, P f)) fs"
  have held: "holds_file cl lz4c ps H s f (Hd f) (P f)" if "f \<in> set fs" for f
    using holds [OF that] by (simp add: holds_titled_def)
  have enc: "encodings lz4c refs ?srcs"
    by (rule file_bytes_encodings [OF refs held])
  have "contiguous_run (map fst ?srcs)"
    using compact_run(2) [OF lz4 enc] ne run by auto
  note out = compact_run(1) [OF lz4 enc _ this]
  have "list_all2 (\<lambda>f h. h_min_txid h = fr_min f \<and> h_max_txid h = fr_max f) fs (map fst ?srcs)"
    using holds by (auto simp: list_all2_conv_all_nth holds_titled_def)
  moreover have "fr_min (hd fs) - 1 < fr_max (hd fs)"
    using first by uint_arith
  ultimately show is_run: "is_run (fr_min (hd fs) - 1) fs"
    using contiguous_is_run [OF \<open>contiguous_run (map fst ?srcs)\<close> _ ne] by simp
  let ?h = "fst (compaction ?srcs)" and ?pds = "snd (compaction ?srcs)"
  have hd_last: "hd ?srcs = (Hd (hd fs), P (hd fs))" "last ?srcs = (Hd (last fs), P (last fs))"
    using ne by (simp_all add: hd_map last_map)
  have ps: "h_page_size (Hd (hd fs)) = ps"
    using holds_file_facts(5) [OF held [OF hd_in_set [OF ne]]] .
  have h: "h_page_size ?h = ps" "h_commit ?h = h_commit (Hd (last fs))" "h_min_txid ?h = fr_min (hd fs)"
    "h_max_txid ?h = fr_max (last fs)"
    using ps hd_last holds [OF hd_in_set [OF ne]] holds [OF last_in_set [OF ne]]
    by (simp_all add: compaction_def Let_def compacted_header_def holds_titled_def)
  have "encode_file lz4c ?h ?pds checksum_zero = Ok (b, t)"
    using out run ne by simp
  then have "is_encoding lz4c b ?h ?pds"
    by (rule encoded_is_encoding [OF bound])
  moreover have "?pds = merged_pages (h_commit ?h) (map P fs)"
    by (simp add: compaction_def Let_def comp_def)
  moreover have "carries ps H (l, fr_min (hd fs), fr_max (last fs)) ?h (merged_pages (h_commit ?h) (map P fs))"
    by (rule merged_carries [OF is_run ne first(1) held h(1,2)])
  ultimately show "\<exists>h pds. is_encoding lz4c b h pds \<and> carries ps H (l, fr_min (hd fs), fr_max (last fs)) h pds \<and>
      h_min_txid h = fr_min (hd fs) \<and> h_max_txid h = fr_max (last fs)"
    using h(3,4) by (intro exI [of _ ?h] exI [of _ ?pds]) simp
qed

end
