(* ===== verification/Tiers.thy ===== *)
theory Tiers
  imports Level CompactCarry
begin

text \<open>
  The tiers of a replica, as sets of files: what the raw level, the cascade and the snapshots must hold
  together for every TXID to stay reachable, and why each kind of upload and deletion keeps that.
\<close>

section \<open>Reach\<close>

lemma reaches_le: "reaches K t \<Longrightarrow> t' \<le> t \<Longrightarrow> reaches K t'"
  by (auto simp: reaches_def)

lemma reaches_zero: "reaches K 0"
  by (auto simp: reaches_def intro: exI [of _ "[]"])

lemma reaches_base: "f \<in> K \<Longrightarrow> fr_min f = 1 \<Longrightarrow> reaches K (fr_max f)"
proof (cases "fr_max f = 0")
  case False
  assume "f \<in> K" "fr_min f = 1"
  then show ?thesis
    using False unfolding reaches_def by (intro exI [of _ "[f]"]) (simp add: word_gt_0)
qed (simp add: reaches_zero)

lemma plus_one_bound: "m < (x :: u64) \<Longrightarrow> m + 1 \<le> x" "m < x \<Longrightarrow> m < m + 1"
  by uint_arith+

lemma run_snoc: "is_run p (fs @ [f]) \<longleftrightarrow> is_run p fs \<and> fr_min f \<le> run_end p fs + 1 \<and> run_end p fs < fr_max f"
  by (induction fs arbitrary: p) auto

lemma run_end_snoc: "run_end p (fs @ [f]) = fr_max f"
  by (induction fs arbitrary: p) auto

lemma reaches_extend:
  assumes "reaches K m" and "K \<subseteq> K'" and "f \<in> K'" and "fr_min f \<le> m + 1" and "m < fr_max f"
  shows "reaches K' (fr_max f)"
proof -
  obtain fs where fs: "is_run 0 fs" "set fs \<subseteq> K" "m \<le> run_end 0 fs"
    using assms(1) by (auto simp: reaches_def)
  show ?thesis
  proof (cases "fr_max f \<le> run_end 0 fs")
    case True
    then show ?thesis
      using fs assms(2) by (auto simp: reaches_def)
  next
    case False
    then have "fr_min f \<le> run_end 0 fs + 1" "run_end 0 fs < fr_max f"
      using plus_one_mono [OF fs(3)] assms(4) by (auto simp: not_le intro: order_trans)
    then show ?thesis
      using fs assms(2,3) unfolding reaches_def
      by (intro exI [of _ "fs @ [f]"]) (auto simp: run_snoc run_end_snoc)
  qed
qed

section \<open>Tiers\<close>

text \<open>
  \<open>sn\<close> is the newest snapshot and \<open>l1\<close> the end of the cascade: the cascade and the snapshots reach
  \<open>l1\<close> without the raw level, and what is past both is raw.
\<close>

definition cascade :: "file_range set \<Rightarrow> file_range set" where
  "cascade G = {f \<in> G. fr_level f \<noteq> 0}"

definition layered :: "file_range set \<Rightarrow> u64 \<Rightarrow> u64 \<Rightarrow> u64 \<Rightarrow> bool" where
  "layered G sn l1 t \<longleftrightarrow> (sn = 0 \<or> (SNAPSHOT_LEVEL, 1, sn) \<in> G) \<and> reaches (cascade G) l1 \<and>
    (\<forall>x. l1 < x \<and> x \<le> t \<longrightarrow> (0, x, x) \<in> G \<or> x \<le> sn)"

lemma layered_mono: "layered G sn l1 t \<Longrightarrow> G \<subseteq> G' \<Longrightarrow> layered G' sn l1 t"
  unfolding layered_def cascade_def by (auto elim: reaches_mono)

lemma cascade_reaches_max:
  assumes "layered G sn l1 t"
  shows "reaches (cascade G) (max l1 sn)"
proof (cases "l1 < sn")
  case True
  then have "sn \<noteq> 0"
    by auto
  then have "(SNAPSHOT_LEVEL, 1, sn) \<in> cascade G"
    using assms by (simp add: layered_def cascade_def SNAPSHOT_LEVEL_def)
  from reaches_base [OF this] True show ?thesis
    by simp
next
  case False
  then have "max l1 sn = l1"
    by (simp add: max_def not_less)
  then show ?thesis
    using assms by (simp add: layered_def)
qed

lemma raw_next:
  assumes "layered G sn l1 t" and "max l1 sn < x" and "x \<le> t"
  shows "(0, max l1 sn + 1, max l1 sn + 1) \<in> G"
proof -
  let ?x = "max l1 sn + 1"
  have x: "max l1 sn < ?x" "?x \<le> x"
    using plus_one_bound [OF assms(2)] by auto
  then have "l1 < ?x" "\<not> ?x \<le> sn"
    by (simp_all add: not_le)
  moreover have "?x \<le> t"
    using x(2) assms(3) by (rule order_trans)
  ultimately show ?thesis
    using assms(1) unfolding layered_def by blast
qed

lemma layered_reaches:
  assumes "layered G sn l1 t"
  shows "reaches G t"
proof -
  let ?m = "max l1 sn"
  have G: "cascade G \<subseteq> G"
    by (auto simp: cascade_def)
  have upto: "reaches G x" if "?m \<le> x" "x \<le> t" for x
    using that
  proof (induction "unat x - unat ?m" arbitrary: x)
    case 0
    then have "x = ?m"
      by (simp add: word_le_nat_alt word_unat_eq_iff)
    then show ?case
      using reaches_mono [OF cascade_reaches_max [OF assms] G] by simp
  next
    case (Suc n)
    have "?m < x"
      using Suc.hyps(2) Suc.prems(1) by (auto simp: word_less_nat_alt word_le_nat_alt)
    have above: "x \<noteq> 0 \<and> m \<le> x - 1 \<and> x - 1 < x" if "m < x" for m
      using that by (intro conjI; uint_arith)
    have x: "x \<noteq> 0" "?m \<le> x - 1" "x - 1 < x" "x - 1 + 1 = x"
      using above [OF \<open>?m < x\<close>] by auto
    have "n = unat (x - 1) - unat ?m"
      using Suc.hyps(2) x(1) by (simp add: unat_minus_one)
    moreover have "x - 1 \<le> t"
      using x(3) Suc.prems(2) by order
    ultimately have "n = unat (x - 1) - unat ?m" "x - 1 \<le> t"
      by auto
    then have prev: "reaches G (x - 1)"
      using Suc.hyps(1) x(2) by blast
    have "(0, x, x) \<in> G"
      using assms \<open>?m < x\<close> Suc.prems(2) unfolding layered_def by (auto simp: not_le)
    then show ?case
      using reaches_extend [OF prev order_refl, of "(0, x, x)"] x by simp
  qed
  show ?thesis
  proof (cases "?m \<le> t")
    case True
    then show ?thesis
      using upto by simp
  next
    case False
    then have "t \<le> ?m"
      by (meson linear)
    then show ?thesis
      by (rule reaches_le [OF reaches_mono [OF cascade_reaches_max [OF assms] G]])
  qed
qed

section \<open>Uploads\<close>

lemma layered_put_raw:
  assumes "layered G sn l1 t" and "G \<subseteq> G'" and "(0, t + 1, t + 1) \<in> G'" and "t + 1 \<noteq> 0"
  shows "layered G' sn l1 (t + 1)"
proof -
  have "x \<le> t \<or> x = t + 1" if "x \<le> t + 1" for x
    using that assms(4) by uint_arith
  then show ?thesis
    using assms(3) layered_mono [OF assms(1,2)] unfolding layered_def by blast
qed

lemma layered_put_cascade:
  assumes "layered G sn l1 t" and "G \<subseteq> G'" and "f \<in> G'" and "fr_level f \<noteq> 0" and "l1 < fr_max f"
    and "max l1 sn < fr_max f \<Longrightarrow> fr_min f \<le> max l1 sn + 1"
  shows "layered G' sn (fr_max f) t"
proof -
  have sub: "cascade G \<subseteq> cascade G'" "f \<in> cascade G'"
    using assms(2-4) by (auto simp: cascade_def)
  have "reaches (cascade G') (fr_max f)"
  proof (cases "max l1 sn < fr_max f")
    case True
    then show ?thesis
      by (intro reaches_extend [OF cascade_reaches_max [OF assms(1)] sub] assms(6))
  next
    case False
    then have "fr_max f \<le> max l1 sn"
      by (rule leI)
    then show ?thesis
      by (rule reaches_le [OF reaches_mono [OF cascade_reaches_max [OF assms(1)] sub(1)]])
  qed
  moreover have "l1 < x" if "fr_max f < x" for x
    using assms(5) that by (rule less_trans)
  ultimately show ?thesis
    using assms(1,2) unfolding layered_def by blast
qed

lemma layered_put_snapshot:
  assumes "layered G sn l1 t" and "G \<subseteq> G'" and "(SNAPSHOT_LEVEL, 1, mx) \<in> G'"
  shows "layered G' (max sn mx) l1 t"
  using layered_mono [OF assms(1,2)] assms(3) unfolding layered_def by (simp add: max_def) (meson linear order_trans)

section \<open>Deletions\<close>

lemma layered_prune_raw:
  assumes "layered G sn l1 t" and "G' \<subseteq> G" and "\<And>f. f \<in> G - G' \<Longrightarrow> fr_level f = 0 \<and> fr_max f \<le> l1"
  shows "layered G' sn l1 t"
proof -
  have "cascade G' = cascade G"
    using assms(2,3) by (auto simp: cascade_def)
  moreover have "(SNAPSHOT_LEVEL, 1, sn) \<in> G \<Longrightarrow> (SNAPSHOT_LEVEL, 1, sn) \<in> G'"
    using assms(3) [of "(SNAPSHOT_LEVEL, 1, sn)"] by (auto simp: SNAPSHOT_LEVEL_def)
  moreover have "(0, x, x) \<in> G'" if "(0, x, x) \<in> G" "l1 < x" for x
    using that assms(3) [of "(0, x, x)"] by (auto dest: leD)
  ultimately show ?thesis
    using assms(1) unfolding layered_def by metis
qed

text \<open>Below the newest snapshot everything else may go; the cascade may then end earlier.\<close>

lemma layered_prune_below:
  assumes "layered G sn l1 t" and "G' \<subseteq> G"
    and "\<And>f. f \<in> G - G' \<Longrightarrow> fr_max f \<le> sn \<and> f \<noteq> (SNAPSHOT_LEVEL, 1, sn)"
    and "l1' \<le> l1" and "l1' = l1 \<or> l1 \<le> sn" and "sn = 0 \<Longrightarrow> G' = G"
  shows "layered G' sn l1' t"
proof (cases "sn = 0")
  case True
  then have "G' = G" "l1' = l1"
    using assms(4-6) by (auto simp: word_le_0_iff)
  then show ?thesis
    using assms(1) by simp
next
  case False
  have sn: "(SNAPSHOT_LEVEL, 1, sn) \<in> G'"
    using assms(1,3) False unfolding layered_def by blast
  have "reaches (cascade G') l1"
  proof (rule reaches_via_base [where b = "(SNAPSHOT_LEVEL, 1, sn)" and K = "cascade G"])
    show "f \<in> cascade G'" if "f \<in> cascade G" "fr_max (SNAPSHOT_LEVEL, 1, sn) < fr_max f" for f
      using that assms(3) [of f] by (auto simp: cascade_def dest: leD)
  qed (use assms(1) sn False in \<open>auto simp: layered_def cascade_def SNAPSHOT_LEVEL_def\<close>)
  then have "reaches (cascade G') l1'"
    using assms(4) reaches_le by blast
  moreover have "(0, x, x) \<in> G' \<or> x \<le> sn" if x: "l1' < x" "x \<le> t" for x
  proof (rule disjCI)
    assume "\<not> x \<le> sn"
    then have "l1 < x"
      using assms(5) x(1) by auto
    then have "(0, x, x) \<in> G"
      using assms(1) x(2) \<open>\<not> x \<le> sn\<close> unfolding layered_def by blast
    then show "(0, x, x) \<in> G'"
      using assms(3) [of "(0, x, x)"] \<open>\<not> x \<le> sn\<close> by auto
  qed
  ultimately show ?thesis
    using sn unfolding layered_def by blast
qed

end
