(* ===== verification/Replica.thy ===== *)
theory Replica
  imports RestoreProps Tiers Staging
begin

text \<open>
  What the objects of a replica hold: the history up to a TXID. A file for the next TXID extends it,
  and a restore returns it.
\<close>

section \<open>The replica\<close>

text \<open>The objects of the replica, and that together they hold the history up to TXID \<open>t\<close>.\<close>

definition files_of :: "'s replica_client \<Rightarrow> ('s \<Rightarrow> string \<Rightarrow> bytes option) \<Rightarrow> 's \<Rightarrow> file_range set" where
  "files_of cl objs s = {(l, a, b). l \<le> MAX_LEVEL \<and> objs s (ltx_key cl l a b) \<noteq> None}"

definition replica_holds ::
  "'s replica_client \<Rightarrow> ('s \<Rightarrow> string \<Rightarrow> bytes option) \<Rightarrow> (bytes \<Rightarrow> bytes) \<Rightarrow> u32 \<Rightarrow> (u64 \<Rightarrow> bytes) \<Rightarrow> 's \<Rightarrow> u64 \<Rightarrow> bool" where
  "replica_holds cl objs lz4c ps H s t \<longleftrightarrow> history ps H \<and> (\<forall>l \<le> MAX_LEVEL. managed cl objs l s) \<and>
    (\<forall>f \<in> files_of cl objs s. 1 \<le> fr_min f \<and> fr_min f \<le> fr_max f \<and> fr_max f \<le> t \<and>
      (\<exists>h pds. holds_titled cl lz4c ps H s f h pds)) \<and>
    reaches (files_of cl objs s) t"

text \<open>A store that answers: an object that is there can be read.\<close>

definition readable :: "'s object_store \<Rightarrow> ('s \<Rightarrow> string \<Rightarrow> bytes option) \<Rightarrow> bool" where
  "readable st objs \<longleftrightarrow> (\<forall>s k b. objs s k = Some b \<longrightarrow> os_get st k s = Ok b \<and>
    os_get_range st k 0 HEADER_SIZE s = Ok (take HEADER_SIZE b))"

lemma readable_get:
  assumes "readable (cl_store cl) objs" and "objs s (ltx_key cl l a b) = Some c"
  shows "get_ltx cl l a b s = Ok c" and "get_ltx_range cl l a b 0 HEADER_SIZE s = Ok (take HEADER_SIZE c)"
  using assms by (auto simp: readable_def get_ltx_def get_ltx_range_def os_res_def)

text \<open>An object whose bytes are kept is read as before.\<close>

lemma holds_titled_kept:
  assumes "store_ok (cl_store cl) objs" and "readable (cl_store cl) objs"
    and "objs s' (ltx_key cl (fr_level f) (fr_min f) (fr_max f)) = objs s (ltx_key cl (fr_level f) (fr_min f) (fr_max f))"
    and "holds_titled cl lz4c ps H s f h pds"
  shows "holds_titled cl lz4c ps H s' f h pds"
proof -
  obtain c where c: "get_ltx cl (fr_level f) (fr_min f) (fr_max f) s = Ok c" "is_encoding lz4c c h pds"
      "carries ps H f h pds" "h_min_txid h = fr_min f" "h_max_txid h = fr_max f"
    using assms(4) by (auto simp: holds_titled_def holds_file_def)
  have "objs s' (ltx_key cl (fr_level f) (fr_min f) (fr_max f)) = Some c"
    using get_ltx_Ok [OF assms(1) c(1)] assms(3) by simp
  from readable_get [OF assms(2) this] c show ?thesis
    by (simp add: holds_titled_def holds_file_def)
qed

text \<open>The bytes of a file that carries the history over the range it is named by.\<close>

definition carrier :: "(bytes \<Rightarrow> bytes) \<Rightarrow> u32 \<Rightarrow> (u64 \<Rightarrow> bytes) \<Rightarrow> file_range \<Rightarrow> bytes \<Rightarrow> bool" where
  "carrier lz4c ps H f b \<longleftrightarrow> fr_level f \<le> MAX_LEVEL \<and> 1 \<le> fr_min f \<and> fr_min f \<le> fr_max f \<and>
    (\<exists>h pds. is_encoding lz4c b h pds \<and> carries ps H f h pds \<and> h_min_txid h = fr_min f \<and> h_max_txid h = fr_max f)"

definition file_key :: "'s replica_client \<Rightarrow> file_range \<Rightarrow> string" where
  "file_key cl f = ltx_key cl (fr_level f) (fr_min f) (fr_max f)"

lemma file_key_inj:
  assumes "file_key cl f = file_key cl g" and "fr_level f \<le> MAX_LEVEL" and "fr_level g \<le> MAX_LEVEL"
  shows "f = g"
proof -
  have "fr_level f \<le> 9" "fr_level g \<le> 9"
    using assms(2,3) by (simp_all add: MAX_LEVEL_def)
  then show ?thesis
    using ltx_key_level_inj [of cl "fr_level f" "fr_min f" "fr_max f" "fr_level g" "fr_min g" "fr_max g"] assms(1)
    by (simp add: file_key_def prod_eq_iff)
qed

lemma files_of_iff: "f \<in> files_of cl objs s \<longleftrightarrow> fr_level f \<le> MAX_LEVEL \<and> objs s (file_key cl f) \<noteq> None"
  by (cases f) (simp add: files_of_def file_key_def)

text \<open>
  A change of the store that only deletes objects and writes carriers keeps the contents; what is left to
  show is that the files still reach.
\<close>

lemma replica_changed:
  assumes holds: "replica_holds cl objs lz4c ps H s t" and ok: "store_ok (cl_store cl) objs"
    and rd: "readable (cl_store cl) objs" and t: "t \<le> t'"
    and change: "\<And>k. objs s' k = objs s k \<or> objs s' k = None \<or>
      objs s' k = Some b \<and> k = file_key cl f \<and> carrier lz4c ps H f b \<and> fr_max f \<le> t'"
    and reach: "reaches (files_of cl objs s') t'"
  shows "replica_holds cl objs lz4c ps H s' t'"
proof -
  have "managed cl objs l s'" if l: "l \<le> MAX_LEVEL" for l
    unfolding managed_def
  proof (intro allI impI)
    fix k
    assume k: "objs s' k \<noteq> None \<and> prefix (level_dir cl l @ ''/'') k"
    from change [of k] show "\<exists>a b. k = ltx_key cl l a b"
    proof (elim disjE)
      assume "objs s' k = objs s k"
      then show ?thesis
        using holds k l unfolding replica_holds_def managed_def by auto
    next
      assume new: "objs s' k = Some b \<and> k = file_key cl f \<and> carrier lz4c ps H f b \<and> fr_max f \<le> t'"
      then have "fr_level f \<le> 9" "l \<le> 9"
        using l by (simp_all add: carrier_def MAX_LEVEL_def)
      then have "l = fr_level f"
        using level_prefix_inj [of cl l "fr_level f" "fr_min f" "fr_max f"] k new by (auto simp: file_key_def)
      then show ?thesis
        using new by (auto simp: file_key_def)
    qed (use k in auto)
  qed
  moreover have "1 \<le> fr_min g \<and> fr_min g \<le> fr_max g \<and> fr_max g \<le> t' \<and> (\<exists>h pds. holds_titled cl lz4c ps H s' g h pds)"
    if g: "g \<in> files_of cl objs s'" for g
    using change [of "file_key cl g"]
  proof (elim disjE)
    assume same: "objs s' (file_key cl g) = objs s (file_key cl g)"
    then have old: "g \<in> files_of cl objs s"
      using g by (simp add: files_of_iff)
    then obtain h pds where held: "holds_titled cl lz4c ps H s g h pds"
      using holds unfolding replica_holds_def by blast
    have "holds_titled cl lz4c ps H s' g h pds"
      by (rule holds_titled_kept [OF ok rd same [unfolded file_key_def] held])
    moreover have "1 \<le> fr_min g" "fr_min g \<le> fr_max g" "fr_max g \<le> t"
      using holds old unfolding replica_holds_def by blast+
    ultimately show ?thesis
      using t by (blast intro: order_trans)
  next
    assume new: "objs s' (file_key cl g) = Some b \<and> file_key cl g = file_key cl f \<and> carrier lz4c ps H f b \<and> fr_max f \<le> t'"
    then have "g = f"
      using file_key_inj [of cl g f] g by (simp add: files_of_iff carrier_def)
    moreover obtain h pds where "is_encoding lz4c b h pds" "carries ps H f h pds" "h_min_txid h = fr_min f" "h_max_txid h = fr_max f"
      using new by (auto simp: carrier_def)
    moreover have "objs s' (ltx_key cl (fr_level f) (fr_min f) (fr_max f)) = Some b"
      using new unfolding file_key_def by metis
    ultimately have "holds_titled cl lz4c ps H s' g h pds"
      using readable_get [OF rd, of s' "fr_level f" "fr_min f" "fr_max f" b] by (simp add: holds_titled_def holds_file_def)
    then show ?thesis
      using new \<open>g = f\<close> by (auto simp: carrier_def)
  qed (use g in \<open>auto simp: files_of_iff\<close>)
  ultimately show ?thesis
    using holds reach unfolding replica_holds_def by blast
qed

lemma unat_step: "txid \<noteq> 0 \<Longrightarrow> txid - 1 \<le> txid \<and> txid - 1 < txid \<and> 1 \<le> (txid :: u64)"
  by (intro conjI; uint_arith)

lemma replica_extended:
  assumes holds: "replica_holds cl objs lz4c ps H s (txid - 1)" and ok: "store_ok (cl_store cl) objs"
    and rd: "readable (cl_store cl) objs" and txid: "txid \<noteq> 0"
    and new: "objs s' (ltx_key cl LEVEL0 txid txid) = Some b" "is_encoding lz4c b h pds" "carries ps H (LEVEL0, txid, txid) h pds"
      "h_min_txid h = txid" "h_max_txid h = txid"
    and same: "\<And>k. k \<noteq> ltx_key cl LEVEL0 txid txid \<Longrightarrow> objs s' k = objs s k"
  shows "replica_holds cl objs lz4c ps H s' txid"
proof -
  let ?f = "(LEVEL0, txid, txid)"
  note step = unat_step [OF txid]
  have key: "file_key cl ?f = ltx_key cl LEVEL0 txid txid"
    by (simp add: file_key_def)
  have car: "carrier lz4c ps H ?f b"
    using new step by (auto simp: carrier_def LEVEL0_def)
  have sub: "files_of cl objs s \<subseteq> files_of cl objs s'" "?f \<in> files_of cl objs s'"
    using same new(1) key by (auto simp: files_of_iff LEVEL0_def) (metis option.distinct(1))
  have "reaches (files_of cl objs s) (txid - 1)"
    using holds by (simp add: replica_holds_def)
  from reaches_extend [OF this sub] have reach: "reaches (files_of cl objs s') txid"
    using step by simp
  have "objs s' k = objs s k \<or> objs s' k = None \<or>
      objs s' k = Some b \<and> k = file_key cl ?f \<and> carrier lz4c ps H ?f b \<and> fr_max ?f \<le> txid" for k
    using same [of k] new(1) car key by (cases "k = file_key cl ?f") auto
  from replica_changed [OF holds ok rd _ this reach] step show ?thesis
    by blast
qed

lemma replica_restored:
  assumes lz4: "lz4_frame_inverse lz4c lz4d" and holds: "replica_holds cl objs lz4c ps H s t" and t: "t \<noteq> 0"
    and ok: "store_ok (cl_store cl) objs" and listed: "list_all_levels cl s = Ok files"
  shows "restore cl lz4d s = Ok (H t)"
proof -
  obtain fs where fs: "list_all_ltx cl MAX_LEVEL s = Ok fs" "files = map file_triple fs"
    using listed by (auto simp: list_all_levels_def res_simps)
  have "set files = files_of cl objs s"
    using list_all_ltx_run [OF ok _ fs(1)] holds by (auto simp: replica_holds_def fs(2) files_of_def stored_ranges_def)
  then have held: "history ps H" "reaches (set files) t" "\<forall>f \<in> set files. 1 \<le> fr_min f \<and> fr_min f \<le> fr_max f \<and>
      fr_max f \<le> t \<and> (\<exists>h pds. holds_titled cl lz4c ps H s f h pds)"
    using holds by (simp_all add: replica_holds_def)
  have "\<exists>h pds. holds_file cl lz4c ps H s f h pds" if "f \<in> set files" for f
    using bspec [OF held(3) that] by (auto simp: holds_titled_def)
  then have faith: "faithful cl lz4c ps H s files" and proper: "proper_files files"
    and run: "reaches (set files) t" and max: "\<And>f. f \<in> set files \<Longrightarrow> fr_max f \<le> t"
    using held by (auto simp: faithful_def proper_files_def)
  obtain r where r: "is_run 0 r" "set r \<subseteq> set files" "t \<le> run_end 0 r"
    using run by (auto simp: reaches_def)
  then obtain f where f: "f \<in> set files" "fr_min f \<le> 0 + 1"
    using t by (cases r) auto
  then have "fr_min f = 1"
    using proper by (auto simp: proper_files_def intro: order_antisym)
  then obtain plan where plan: "plan_restore files = Ok plan"
    using plan_restore_NoSnapshot [OF proper] f(1) by blast
  note p = plan_restore_Ok [OF plan]
  have "t \<le> run_end 0 plan"
    using p r by (meson order_trans)
  moreover have "run_end 0 plan \<le> t"
    using p max [of "last plan"] run_end_last [of plan 0] by (metis last_in_set subsetD)
  ultimately have "run_end 0 plan = t"
    by simp
  then show ?thesis
    using restore_run [OF lz4 faith plan] listed plan by (simp add: restore_def)
qed

lemma replica_empty:
  assumes "history ps H" and "\<And>k. objs s k = None"
  shows "replica_holds cl objs lz4c ps H s 0"
proof -
  have "reaches {} 0"
    by (auto simp: reaches_def intro: exI [of _ "[]"])
  moreover have "files_of cl objs s = {}"
    using assms(2) by (auto simp: files_of_def)
  ultimately show ?thesis
    using assms by (simp add: replica_holds_def managed_def)
qed

end
