(* ===== verification/SyncRuns.thy ===== *)
theory SyncRuns
  imports SyncCorrect Replica
begin

text \<open>
  What one sync does to the replica and to the position: the run of a build and its upload, as the
  properties of syncing and of checkpoints use it.
\<close>

section \<open>One sync\<close>

lemma sync_cases:
  assumes "sync ho lz4c sy = (Ok out, sy')"
  obtains (skip) "build_next ho lz4c sy = (Ok None, sy')" and "out = Skipped"
  | (upload) f sy1 where "build_next ho lz4c sy = (Ok (Some f), sy1)" and "upload_staged ho f sy1 = (Ok out, sy')"
proof -
  obtain res sy1 where b: "build_next ho lz4c sy = (Ok res, sy1)"
    and u: "(case res of None \<Rightarrow> op_ret Skipped | Some f \<Rightarrow> upload_staged ho f) sy1 = (Ok out, sy')"
    using assms by (auto simp: sync_def op_bind_Ok)
  then show thesis
    using skip upload by (cases res) (auto simp: op_ret_def)
qed

text \<open>Uploading a file that carries the next step extends the replica.\<close>

lemma upload_extends:
  assumes good: "good_store objs sy" and rd: "readable (cl_store (sy_client sy)) objs"
    and holds: "replica_holds (sy_client sy) objs lz4c ps H (sy_store sy) (txid - 1)"
    and up: "upload_staged ho f sy = (Ok out, sy')" and st: "stages lz4c ps H sy txid f"
  shows "replica_holds (sy_client sy) objs lz4c ps H (sy_store sy') txid" and "sy_client sy' = sy_client sy"
    and "sy_pos sy' = sf_new_pos f" and "po_txid (sy_pos sy') = txid"
proof -
  obtain b h pds where b: "map_of (sy_staging sy) (sf_path f) = Some b" "is_encoding lz4c b h pds"
    "carries ps H (LEVEL0, txid, txid) h pds" "h_min_txid h = txid" "h_max_txid h = txid" and f: "txid \<noteq> 0" "sf_min f = txid" "sf_max f = txid" "sf_level f = LEVEL0"
    "po_txid (sf_new_pos f) = txid"
    using st by (auto simp: stages_def staged_here_def)
  note up = upload_staged_Ok [OF good up, unfolded f(2-4) b(1)]
  show "replica_holds (sy_client sy) objs lz4c ps H (sy_store sy') txid"
    by (rule replica_extended [OF holds _ rd f(1) up(1) b(2-5) up(2)]) (use good in \<open>simp_all add: good_store_def\<close>)
  show "sy_client sy' = sy_client sy" "sy_pos sy' = sf_new_pos f" "po_txid (sy_pos sy') = txid"
    using up f(5) by simp_all
qed

lemma sync_extends:
  assumes good: "good_store objs sy" and rd: "readable (cl_store (sy_client sy)) objs"
    and holds: "replica_holds (sy_client sy) objs lz4c ps H (sy_store sy) (txid - 1)"
    and build: "build_next ho lz4c sy = (Ok (Some f), sy1)" and up: "upload_staged ho f sy1 = (Ok out, sy')"
    and st: "stages lz4c ps H sy1 txid f"
  shows "replica_holds (sy_client sy) objs lz4c ps H (sy_store sy') txid" and "sy_client sy' = sy_client sy"
    and "sy_pos sy' = sf_new_pos f" and "po_txid (sy_pos sy') = txid"
proof -
  have same: "sy_client sy1 = sy_client sy" "sy_store sy1 = sy_store sy"
    using keepsD [OF local_build_next build] by (simp_all add: local_step_def)
  have good1: "good_store objs sy1"
    using good same by (simp add: good_store_def)
  note ext = upload_extends [OF good1 _ _ up st, unfolded same, OF rd holds]
  show "replica_holds (sy_client sy) objs lz4c ps H (sy_store sy') txid" "sy_client sy' = sy_client sy"
    "sy_pos sy' = sf_new_pos f" "po_txid (sy_pos sy') = txid"
    by (rule ext)+
qed

text \<open>A WAL holds the frames it yields.\<close>

lemma frames_fit:
  assumes "wal_reader_new wal = Ok r" and "n \<le> length (read_frames r)"
  shows "WAL_HEADER_SIZE + n * frame_size (w_header r) \<le> length wal"
proof (cases n)
  case 0
  then show ?thesis
    using assms(1) by (auto simp: wal_reader_new_def res_simps wal_header_parse_def split: if_splits)
next
  case (Suc k)
  have r: "w_base r = 0" "w_data r = wal" "w_frame_n r = 0"
    using assms(1) by (auto simp: wal_reader_new_def res_simps)
  have k: "k < length (read_frames r)"
    using assms(2) Suc by simp
  then have "frame_at r (read_frames r ! k)"
    by (intro frames_located) (simp_all add: r)
  then show ?thesis
    using frame_offsets [OF k] by (simp add: frame_at_def r Suc frame_size_def)
qed

lemma u64_of_nat: "m < 2 ^ 64 \<Longrightarrow> unat (of_nat m :: u64) = m"
  by (simp add: unsigned_of_nat take_bit_nat_eq_self)

lemma resumes_after:
  assumes wal: "wal_reader_new wal = Ok r" "length wal < 2 ^ 63" and n: "n \<le> length (read_frames r)"
    and pos: "po_wal_offset pos = of_nat (WAL_HEADER_SIZE + n * frame_size (w_header r))"
      "po_salt1 pos = wh_salt1 (w_header r)" "po_salt2 pos = wh_salt2 (w_header r)"
  shows "resumes pos r (length wal) n"
proof -
  let ?off = "WAL_HEADER_SIZE + n * frame_size (w_header r)"
  have fit: "?off \<le> length wal"
    by (rule frames_fit [OF wal(1) n])
  have "unat (of_nat ?off :: u64) = ?off"
    by (rule u64_of_nat, rule le_less_trans [OF fit]) (use wal(2) in simp)
  then show ?thesis
    using fit n by (simp add: resumes_def pos)
qed

text \<open>The last frame of a transaction belongs to the database it commits.\<close>

definition commit_in_range :: "wal_frame list \<Rightarrow> bool" where
  "commit_in_range fs \<longleftrightarrow> committed fs = [] \<or> fr_pgno (last (committed fs)) \<le> fr_commit (last (committed fs))"

text \<open>What the build of a sync stages, from the database it sees.\<close>

lemma first_build_stages:
  fixes ho :: "'w host" and sy :: "('w, 's) syncer"
  assumes run: "build_next ho lz4c sy = (Ok res, sy')" and env: "locked_build ho sy db_bytes wal"
    and wal: "length wal < 2 ^ 63" and pos: "po_txid (sy_pos sy) = 0"
  defines "ps \<equiv> d_page_size (sy_db sy)"
  assumes fs: "wal_frames wal ps fs" "whole ps db_bytes fs" and H: "H 1 = live_image ps db_bytes fs"
    and bound: "lz4_bounded lz4c"
  obtains f where "res = Some f" and "stages lz4c ps H sy' 1 f"
proof -
  obtain f where f: "res = Some f" and pages: "staged_pages lz4c sy' f 1 ps (live_commit ps db_bytes fs)
      (map (\<lambda>p. (p, live_page (unat ps) db_bytes fs p)) (snapshot_list (live_commit ps db_bytes fs) (lock_pgno ps)))"
    using build_next_snapshot [OF run env wal pos fs(1) [unfolded ps_def]] by (auto simp: ps_def)
  show thesis
    by (rule that [OF f], rule staged_pages_carry [OF pages bound]) (use snapshot_carries [of ps db_bytes fs H 1] fs(2) H in blast)
qed

lemma next_build_stages:
  fixes ho :: "'w host" and sy :: "('w, 's) syncer"
  assumes run: "build_next ho lz4c sy = (Ok (Some f), sy')" and env: "locked_build ho sy db_bytes wal"
    and wal: "length wal < 2 ^ 63" "wal_reader_new wal = Ok r" and pos: "po_txid (sy_pos sy) \<noteq> 0"
    and n: "resumes (sy_pos sy) r (length wal) n"
  defines "ps \<equiv> d_page_size (sy_db sy)" and "fs \<equiv> drop n (read_frames r)" and "txid \<equiv> po_txid (sy_pos sy) + 1"
  assumes ps: "wh_page_size (w_header r) = ps" and step: "step_of ps H txid db_bytes (take n (read_frames r)) fs"
    and bound: "lz4_bounded lz4c"
  shows "stages lz4c ps H sy' txid f"
proof -
  have "changed_pages fs \<noteq> []" and pages: "staged_pages lz4c sy' f txid ps (last_commit fs)
      (map (\<lambda>p. (p, the (newest_data fs p))) (changed_pages fs))"
    using build_next_increment [OF run env wal pos n ps [unfolded ps_def], folded ps_def fs_def txid_def] by auto
  then show ?thesis
    using increment_stages [OF pages step _ bound] by blast
qed

lemma first_sync_run:
  fixes ho :: "'w host" and sy :: "('w, 's) syncer"
  assumes run: "sync ho lz4c sy = (Ok out, sy')" and env: "locked_build ho sy db_bytes wal"
    and wal: "length wal < 2 ^ 63" and pos: "po_txid (sy_pos sy) = 0"
    and good: "good_store objs sy" and rd: "readable (cl_store (sy_client sy)) objs"
  defines "ps \<equiv> d_page_size (sy_db sy)"
  assumes fs: "wal_frames wal ps fs" "whole ps db_bytes fs" and H: "H 1 = live_image ps db_bytes fs"
    and bound: "lz4_bounded lz4c"
    and holds: "replica_holds (sy_client sy) objs lz4c ps H (sy_store sy) 0"
  shows "replica_holds (sy_client sy) objs lz4c ps H (sy_store sy') 1 \<and> sy_client sy' = sy_client sy \<and>
    po_txid (sy_pos sy') = 1 \<and>
    (\<forall>r. wal_reader_new wal = Ok r \<and> commit_in_range fs \<longrightarrow> resumes (sy_pos sy') r (length wal) (length (committed fs)))"
  using run
proof (cases rule: sync_cases)
  case skip
  then show ?thesis
    using build_next_snapshot [OF skip(1) env wal pos fs(1) [unfolded ps_def]] by simp
next
  case (upload f sy1)
  have next_pos: "\<And>r. wal_reader_new wal = Ok r \<Longrightarrow> commit_in_range fs \<Longrightarrow>
      po_wal_offset (sf_new_pos f) = of_nat (WAL_HEADER_SIZE + length (committed fs) * frame_size (w_header r)) \<and>
      po_salt1 (sf_new_pos f) = wh_salt1 (w_header r) \<and> po_salt2 (sf_new_pos f) = wh_salt2 (w_header r)"
    using build_next_snapshot [OF upload(1) env wal pos fs(1) [unfolded ps_def]]
    by (auto simp: ps_def commit_in_range_def)
  have st: "stages lz4c ps H sy1 1 f"
    using first_build_stages [OF upload(1) env wal pos _ _ _ bound] fs H by (auto simp: ps_def)
  have "resumes (sy_pos sy') r (length wal) (length (committed fs))" if r: "wal_reader_new wal = Ok r" "commit_in_range fs" for r
  proof -
    have "read_frames r = fs"
      using r(1) fs(1) by (auto simp: wal_frames_def wal_reader_new_def wal_header_parse_def split: if_splits)
    then have "length (committed fs) \<le> length (read_frames r)"
      using committed_take [of fs] by (metis length_take min.cobounded1)
    from resumes_after [OF r(1) wal this] next_pos [OF r] show ?thesis
      using sync_extends(3) [OF good rd _ upload st] holds by simp
  qed
  then show ?thesis
    using sync_extends [OF good rd _ upload st] holds by simp
qed

lemma next_sync_run:
  fixes ho :: "'w host" and sy :: "('w, 's) syncer"
  assumes run: "sync ho lz4c sy = (Ok out, sy')" and env: "locked_build ho sy db_bytes wal"
    and wal: "length wal < 2 ^ 63" "wal_reader_new wal = Ok r" and pos: "po_txid (sy_pos sy) \<noteq> 0"
    and n: "resumes (sy_pos sy) r (length wal) n"
    and good: "good_store objs sy" and rd: "readable (cl_store (sy_client sy)) objs"
  defines "ps \<equiv> d_page_size (sy_db sy)" and "fs \<equiv> drop n (read_frames r)" and "txid \<equiv> po_txid (sy_pos sy) + 1"
  assumes ps: "wh_page_size (w_header r) = ps" and step: "step_of ps H txid db_bytes (take n (read_frames r)) fs"
    and bound: "lz4_bounded lz4c"
    and holds: "replica_holds (sy_client sy) objs lz4c ps H (sy_store sy) (po_txid (sy_pos sy))"
  shows "sy_client sy' = sy_client sy \<and>
    (if changed_pages fs = [] then out = Skipped \<and> sy_store sy' = sy_store sy \<and> sy_pos sy' = sy_pos sy
     else txid \<noteq> 0 \<and> replica_holds (sy_client sy) objs lz4c ps H (sy_store sy') txid \<and> po_txid (sy_pos sy') = txid \<and>
       (commit_in_range fs \<longrightarrow> resumes (sy_pos sy') r (length wal) (n + length (committed fs))))"
  using run
proof (cases rule: sync_cases)
  case skip
  have "changed_pages fs = []"
    using build_next_increment [OF skip(1) env wal pos n ps [unfolded ps_def]] by (simp add: fs_def)
  then show ?thesis
    using skip(2) keepsD [OF local_build_next skip(1)] by (simp add: local_step_def)
next
  case (upload f sy1)
  note built = build_next_increment [OF upload(1) env wal pos n ps [unfolded ps_def], folded ps_def fs_def txid_def]
  have changed: "changed_pages fs \<noteq> []" and next_pos: "commit_in_range fs \<Longrightarrow>
      po_wal_offset (sf_new_pos f) = of_nat (WAL_HEADER_SIZE + (n + length (committed fs)) * frame_size (w_header r)) \<and>
      po_salt1 (sf_new_pos f) = wh_salt1 (w_header r) \<and> po_salt2 (sf_new_pos f) = wh_salt2 (w_header r)"
    using built by (auto simp: commit_in_range_def changed_pages_def)
  have st: "changed_pages fs \<noteq> []" "stages lz4c ps H sy1 txid f"
    using changed next_build_stages [OF upload(1) env wal pos n ps [unfolded ps_def] step [unfolded ps_def txid_def fs_def] bound]
    by (simp_all add: ps_def txid_def)
  have holds': "replica_holds (sy_client sy) objs lz4c ps H (sy_store sy) (txid - 1)"
    using holds by (simp add: txid_def)
  note ext = sync_extends [OF good rd holds' upload st(2)]
  have "n + length (committed fs) \<le> length (read_frames r)"
    using committed_take [of fs] n by (auto simp: fs_def resumes_def)
  moreover have "txid \<noteq> 0"
    using st(2) by (simp add: stages_def)
  ultimately show ?thesis
    using resumes_after [OF wal(2,1)] next_pos ext st(1) by auto
qed

end
