(* ===== verification/SampleSync.thy ===== *)
theory SampleSync
  imports SyncCorrect Replica SampleReplica
begin

text \<open>
  A concrete syncer for the witnesses: a database of two pages whose newest versions are in a WAL of
  one transaction, an in-memory object store, and a host on which no local operation fails.
\<close>

definition sample_wal :: bytes where
  "sample_wal = sample_wal_head @ wal_frames_bytes sample_wal_header
    (wh_checksum1 sample_wal_header, wh_checksum2 sample_wal_header) sample_wal_records"

lemma sample_wal_reader:
  obtains r where "wal_reader_new sample_wal = Ok r" and "w_header r = sample_wal_header"
    and "read_frames r = frames_of 536 0 sample_wal_records"
proof
  let ?r = "\<lparr>w_data = sample_wal, w_base = 0, w_header = sample_wal_header, w_frame_n = 0,
    w_chksum = (wh_checksum1 sample_wal_header, wh_checksum2 sample_wal_header)\<rparr>"
  show "wal_reader_new sample_wal = Ok ?r"
    by (simp add: sample_wal_def wal_reader_new_def wal_header_parse_append sample_wal_facts(1,2))
  show "read_frames ?r = frames_of 536 0 sample_wal_records"
    using read_frames_written [of ?r sample_wal_records "[]"] sample_wal_facts
    by (simp add: unread_def sample_wal_def)
qed simp

definition sample_disk :: "(string \<times> bytes) list" where
  "sample_disk = [(''app.db'', replicate 1024 7), (''app.db-wal'', sample_wal)]"

definition sample_syncer ::
  "position \<Rightarrow> staging_dir \<Rightarrow> (string \<times> bytes) list \<Rightarrow> (sample_world, (string \<times> bytes) list) syncer" where
  "sample_syncer pos staging store =
    \<lparr>sy_db = sample_db sample_disk (Ok [0, 2, 2]), sy_client = sample_client, sy_store = store, sy_pos = pos,
     sy_lock = '''', sy_min_checkpoint_frames = DEFAULT_MIN_CHECKPOINT_FRAMES,
     sy_truncate_frames = DEFAULT_TRUNCATE_FRAMES, sy_resnapshots = 0, sy_staging = staging, sy_scratch = [],
     sy_files = fi_empty\<rparr>"

lemma sample_syncer_fields [simp]:
  "d_page_size (sy_db (sample_syncer pos staging store)) = 512" "sy_client (sample_syncer pos staging store) = sample_client"
  "sy_store (sample_syncer pos staging store) = store" "sy_pos (sample_syncer pos staging store) = pos"
  "sy_staging (sample_syncer pos staging store) = staging" "d_path (sy_db (sample_syncer pos staging store)) = ''app.db''"
  by (simp_all add: sample_syncer_def sample_db_def)

text \<open>What every state of a run on this host has.\<close>

definition sample_state :: "(sample_world, (string \<times> bytes) list) syncer \<Rightarrow> bool" where
  "sample_state sy \<longleftrightarrow> d_path (sy_db sy) = ''app.db'' \<and> d_page_size (sy_db sy) = 512 \<and>
    sw_disk (d_world (sy_db sy)) = sample_disk"

lemma sample_syncer_state: "sample_state (sample_syncer pos staging store)"
  by (simp add: sample_state_def sample_syncer_def sample_db_def)

lemma sample_reads:
  assumes "sample_state sy"
  shows "on_host (ho_read sample_host ''app.db'') sy = (Ok (replicate 1024 7), sy)"
    and "on_host (ho_read sample_host ''app.db-wal'') sy = (Ok sample_wal, sy)"
    and "on_host (ho_len sample_host ''app.db-wal'') sy = (Ok (length sample_wal), sy)"
  using assms by (auto simp: on_host_run sample_host_def sample_state_def sample_disk_def)

lemma sample_fs_op: "on_host (fs_op sample_host) sy = (Ok (), sy)"
  by (simp add: on_host_def on_world_def op_simps fs_op_def sample_host_def)

lemma sample_now_ms: "now_ms sample_host sy = (Ok 0, sy)"
  by (simp add: now_ms_def system_now_def on_host_def on_world_def op_simps op_bind_def sample_host_def)

lemma sample_stage:
  assumes "encode encoder_new (sy\<lparr>sy_staging :=
      AList.update (with_extension_suffix (staged_ltx_path l a b) ''.tmp'') [] (sy_staging sy)\<rparr>) = (Ok enc, s1)"
  shows "\<exists>stg. stage sample_host l a b encode sy = (Ok (staged_ltx_path l a b), s1\<lparr>sy_staging := stg\<rparr>)"
  using assms
  by (simp add: stage_def Let_def op_bind_def sample_fs_op fs_create_def fs_write_def fs_rename_def op_modify_def
      op_ret_def update_conv') (rule exI, rule refl)

lemma sample_wal_frames:
  "wal_frames sample_wal 512 (frames_of 536 0 sample_wal_records)"
  "length sample_wal = 1104"
proof -
  obtain r where r: "wal_reader_new sample_wal = Ok r" "w_header r = sample_wal_header"
      "read_frames r = frames_of 536 0 sample_wal_records"
    by (rule sample_wal_reader)
  have "wh_page_size sample_wal_header = 512"
    by (simp add: sample_wal_header_def split: prod.split)
  moreover have "\<not> length sample_wal < WAL_HEADER_SIZE"
    using sample_wal_facts(1) by (simp add: sample_wal_def)
  ultimately show "wal_frames sample_wal 512 (frames_of 536 0 sample_wal_records)"
    using r unfolding wal_frames_def by auto
  show "length sample_wal = 1104"
    using sample_wal_facts(1,3,5) by (auto simp: sample_wal_def sample_wal_records_def length_wal_frame_bytes frame_size_def)
qed

lemma sample_newest:
  "newest_data (frames_of 536 0 sample_wal_records) = [1 \<mapsto> replicate 512 1, 2 \<mapsto> replicate 512 2]"
  "last_commit (frames_of 536 0 sample_wal_records) = 2"
  by (simp_all add: newest_data_def last_commit_def committed_def fr_is_commit_def sample_wal_records_def)

lemma sample_snapshot_list: "snapshot_list 2 (lock_pgno 512) = [1, 2]"
proof -
  have "[1..<Suc (unat (2 :: u32))] = [1, 2]"
    by (simp add: upt_rec)
  then show ?thesis
    by (simp add: snapshot_list_def)
qed

lemma sample_snapshot:
  fixes sy :: "(sample_world, (string \<times> bytes) list) syncer"
  assumes "sample_state sy" and "po_txid (sy_pos sy) = 0 \<or> po_txid (sy_pos sy) = 1"
  shows "\<exists>f sy'. build_snapshot sample_host lz4c wal_start sample_wal sy = (Ok f, sy')"
proof -
  define txid where "txid = po_txid (sy_pos sy) + 1"
  have txid: "txid = 1 \<or> txid = 2"
    using assms(2) by (auto simp: txid_def)
  let ?sy = sy and ?fs = "frames_of 536 0 sample_wal_records"
  obtain r where r: "wal_reader_new sample_wal = Ok r"
    by (rule sample_wal_reader)
  have at: "unat wal_start = WAL_HEADER_SIZE" by simp
  obtain wh pm where pm: "snapshot_map wal_start sample_wal = Ok (wh, pm)"
    using r sample_wal_frames(2) unfolding snapshot_map_def at wal_reader_at_start
    by (auto simp: wal_reader_new_def res_simps)
  have commit: "pm_commit pm = 2"
    using snapshot_map_data(1) [OF sample_wal_frames(1) pm] sample_newest(2) by simp
  let ?db = "replicate 1024 7 :: bytes"
  have page: "snapshot_page 512 ?db sample_wal pm p = Ok (live_page 512 ?db ?fs p)" if "p \<in> {1, 2}" for p
    using snapshot_page_live [OF sample_wal_frames(1) pm, of p 0 ?db] that commit sample_newest(1) by auto
  have encodes: "\<exists>enc. encode_snapshot lz4c h (snapshot_page 512 ?db sample_wal pm) [1, 2] encoder_new = Ok enc"
    if "h = no_checksum_header now 512 2 txid wal_start n s1 s2" for h now n s1 s2
  proof -
    let ?pds = "map (\<lambda>p. (p, live_page 512 ?db ?fs p)) [1, 2]"
    have "lock_pgno 512 \<noteq> 1 \<and> lock_pgno 512 \<noteq> 2"
      by (simp add: lock_pgno_def PENDING_BYTE_def)
    then have "header_validate h = Ok () \<and> accepts_all h 0 ?pds"
      using that txid by (auto simp: no_checksum_header_def header_validate_def valid_page_sizes header_is_snapshot_def
          accepts_def next_snapshot_pgno_def live_page_def sample_newest checksum_is_zero_def checksum_zero_def)
    then have "encode_file lz4c h ?pds checksum_zero = Ok (file_bytes lz4c h ?pds checksum_zero, file_trailer lz4c h ?pds checksum_zero)"
      by (simp add: encode_file_iff)
    from encode_snapshot_Ok [of "[1, 2]" "snapshot_page 512 ?db sample_wal pm", OF page this] show ?thesis
      by simp
  qed
  obtain salts where salts: "(case wh of None \<Rightarrow> (0, 0) | Some h \<Rightarrow> (wh_salt1 h, wh_salt2 h)) = salts" by blast
  obtain enc where enc: "encode_snapshot lz4c (no_checksum_header 0 512 2 txid wal_start
      (of_nat (pm_end_offset pm - unat wal_start)) (fst salts) (snd salts)) (snapshot_page 512 ?db sample_wal pm) [1, 2]
      encoder_new = Ok enc"
    using encodes [OF refl] by blast
  have rd: "on_host (ho_read sample_host ''app.db'') ?sy = (Ok ?db, ?sy)"
    by (rule sample_reads [OF assms(1)])
  have sy: "d_path (sy_db ?sy) = ''app.db''" "d_page_size (sy_db ?sy) = 512" "po_txid (sy_pos ?sy) + 1 = txid"
    using assms by (simp_all add: sample_state_def txid_def)
  let ?encode = "\<lambda>enc. op_bind (now_ms sample_host) (\<lambda>now. op_of (encode_snapshot lz4c
      (no_checksum_header now 512 2 txid wal_start (of_nat (pm_end_offset pm - unat wal_start)) (fst salts) (snd salts))
      (snapshot_page 512 ?db sample_wal pm) [1, 2] enc))"
  have "?encode encoder_new s = (Ok enc, s)" for s :: "(sample_world, (string \<times> bytes) list) syncer"
    using enc by (simp add: op_bind_def sample_now_ms op_of_def)
  from sample_stage [of ?encode, OF this, of LEVEL0 txid txid ?sy] obtain path sy' where
    "stage sample_host LEVEL0 txid txid ?encode ?sy = (Ok path, sy')"
    by blast
  then show ?thesis
    using pm salts sample_snapshot_list
    by (simp add: build_snapshot_def Let_def op_bind_def op_get_def rd sy commit op_of_def op_ret_def)
qed

lemma sample_header_reader:
  obtains r where "wal_reader_new sample_wal = Ok r" and "w_header r = sample_wal_header"
    and "read_frames r = frames_of 536 0 sample_wal_records" and "wal_header_parse sample_wal = Ok sample_wal_header"
proof -
  obtain r where r: "wal_reader_new sample_wal = Ok r" "w_header r = sample_wal_header"
      "read_frames r = frames_of 536 0 sample_wal_records"
    by (rule sample_wal_reader)
  moreover have "wal_header_parse sample_wal = Ok sample_wal_header"
    using r(1,2) by (auto simp: wal_reader_new_def res_simps)
  ultimately show thesis
    by (rule that)
qed

lemma sample_changed: "changed_pages (frames_of 536 0 sample_wal_records) = [1, 2]"
proof -
  have "fr_pgno ` set (committed (frames_of 536 0 sample_wal_records)) \<inter> {p. p \<le> 2} = {1, 2}"
    by (auto simp: committed_def fr_is_commit_def sample_wal_records_def word_le_nat_alt)
  then show ?thesis
    by (simp add: changed_pages_def sample_newest(2))
qed

lemma sample_incremental:
  fixes sy :: "(sample_world, (string \<times> bytes) list) syncer"
  assumes sy: "sample_state sy" and pos: "po_txid (sy_pos sy) = 1"
  shows "\<exists>f sy'. build_incremental sample_host lz4c wal_start salt1 salt2 n sample_wal_header ''app.db-wal'' sy = (Ok (Some f), sy')"
proof -
  let ?fs = "frames_of 536 0 sample_wal_records" and ?h = sample_wal_header
  obtain r0 where r0: "wal_reader_new sample_wal = Ok r0" "w_header r0 = ?h" "read_frames r0 = ?fs"
    by (rule sample_wal_reader)
  have ps: "wh_page_size ?h = 512"
    by (simp add: sample_wal_header_def split: prod.split)
  have seed: "incremental_seed sample_host ''app.db-wal'' wal_start (of_nat WAL_FRAME_HEADER_SIZE + ucast (512 :: u32)) ?h sy =
      (Ok (wh_checksum1 ?h, wh_checksum2 ?h), sy)"
    by (simp add: incremental_seed_def op_ret_def)
  have tail: "read_tail sample_host ''app.db-wal'' wal_start sy = (Ok (drop 32 sample_wal), sy)"
    using sample_reads(2) [OF sy] by (simp add: read_tail_def op_bind_def op_ret_def)
  obtain r where r: "wal_reader_from_tail ?h (drop 32 sample_wal) 32 (wh_checksum1 ?h, wh_checksum2 ?h) = Ok r"
    by (simp add: wal_reader_from_tail_def)
  obtain r' pm where pm: "wal_page_map r = (r', pm)" by (cases "wal_page_map r")
  have at: "unat wal_start = WAL_HEADER_SIZE + 0 * frame_size (w_header r0)" by simp
  have ps0: "wh_page_size (w_header r0) = 512"
    using ps r0(2) by simp
  obtain w where w: "ho_read sample_host ''app.db-wal'' (d_world (sy_db sy)) = (Ok sample_wal, w)"
    using sample_reads(2) [OF sy] by (auto simp: on_host_run) (metis rmap_err_eq_Ok)
  have "0 \<le> length (read_frames r0)" by simp
  note inc = incremental_reader(1) [OF r0(1) this at ps0 w seed [folded r0(2)]]
  have "read_frames r = drop 0 (read_frames r0) \<and> w_base r = 32 \<and> w_header r = ?h \<and> w_frame_n r = 0"
    using inc [of r] r r0(2) by simp
  then have fs: "read_frames r = ?fs" "w_base r \<le> WAL_HEADER_SIZE + w_frame_n r * frame_size (w_header r)"
    by (simp_all add: r0(3))
  have pages: "pm_pages pm \<noteq> []" "sort (map fst (pm_pages pm)) = [1, 2]" "pm_commit pm = 2"
    using page_map_pgnos [of pm r] pm fs sample_changed wal_page_map_run [of r] sample_newest(2) by auto
  have page: "incremental_page r' pm p = Ok (the (newest_data ?fs p))" if "p \<in> set [1, 2]" for p
    using incremental_page_run [OF pm fs(2), of p] that by (simp add: fs(1) sample_changed)
  have encodes: "\<exists>enc. encode_snapshot lz4c h (incremental_page r' pm) [1, 2] encoder_new = Ok enc"
    if "h = no_checksum_header now 512 2 2 wal_start m salt1 salt2" for h now m
  proof -
    let ?pds = "map (\<lambda>p. (p, the (newest_data ?fs p))) [1, 2]"
    have "lock_pgno 512 \<noteq> 1 \<and> lock_pgno 512 \<noteq> 2"
      by (simp add: lock_pgno_def PENDING_BYTE_def)
    then have "header_validate h = Ok () \<and> accepts_all h 0 ?pds"
      using that by (simp add: no_checksum_header_def header_validate_def valid_page_sizes header_is_snapshot_def
          accepts_def sample_newest)
    then have "encode_file lz4c h ?pds checksum_zero = Ok (file_bytes lz4c h ?pds checksum_zero, file_trailer lz4c h ?pds checksum_zero)"
      by (simp add: encode_file_iff)
    from encode_snapshot_Ok [of "[1, 2]" "incremental_page r' pm", OF page this] show ?thesis
      by simp
  qed
  obtain enc where enc: "encode_snapshot lz4c (no_checksum_header 0 512 2 2 wal_start
      (of_nat (pm_end_offset pm) - wal_start) salt1 salt2) (incremental_page r' pm) [1, 2] encoder_new = Ok enc"
    using encodes [OF refl] by blast
  let ?encode = "\<lambda>enc. op_bind (now_ms sample_host) (\<lambda>now. op_of (encode_snapshot lz4c
      (no_checksum_header now 512 2 2 wal_start (of_nat (pm_end_offset pm) - wal_start) salt1 salt2)
      (incremental_page r' pm) [1, 2] enc))"
  have "?encode encoder_new s = (Ok enc, s)" for s :: "(sample_world, (string \<times> bytes) list) syncer"
    using enc by (simp add: op_bind_def sample_now_ms op_of_def)
  from sample_stage [of ?encode, OF this, of LEVEL0 2 2 sy] obtain path sy' where
    "stage sample_host LEVEL0 2 2 ?encode sy = (Ok path, sy')"
    by blast
  then show ?thesis
    using r seed tail pm pages pos sy
    by (simp add: build_incremental_def Let_def op_bind_def op_get_def op_of_def op_ret_def sample_state_def)
qed

section \<open>A build and an upload\<close>

text \<open>The handle of a state of a run: its flag is right, and a query returns the row.\<close>

definition sample_ready :: "int \<Rightarrow> int \<Rightarrow> (sample_world, (string \<times> bytes) list) syncer \<Rightarrow> bool" where
  "sample_ready b n sy \<longleftrightarrow> sample_state sy \<and> d_locked (sy_db sy) = sw_txn (d_world (sy_db sy)) \<and>
    sw_row (d_world (sy_db sy)) = Ok [b, n, n]"

lemma sample_syncer_ready: "sample_ready 0 2 (sample_syncer pos stg store)"
  using sample_syncer_state by (simp add: sample_ready_def sample_syncer_def sample_db_def)

lemma sample_acquire:
  assumes "sample_ready b n sy"
  obtains d where "acquire_read_lock sample_host (sy_db sy) = (Ok (), d)" and "sample_ready b n (sy\<lparr>sy_db := d\<rparr>)"
proof -
  have "fst (acquire_read_lock sample_host (sy_db sy)) = Ok () \<and>
      sample_ready b n (sy\<lparr>sy_db := snd (acquire_read_lock sample_host (sy_db sy))\<rparr>)"
    using assms by (cases "d_locked (sy_db sy)") (simp_all add: sample_ready_def sample_state_def acquire_read_lock_def
        sample_host_def sample_batch_def op_simps op_bind_def on_world_def row_get_def)
  then show thesis
    by (intro that [of "snd (acquire_read_lock sample_host (sy_db sy))"]) (auto simp: prod_eq_iff)
qed

lemma sample_checkpoint:
  assumes "sample_ready b n sy"
  obtains d where "checkpoint sample_host mode restart_wal (sy_db sy) =
      (Ok \<lparr>cr_busy = (b \<noteq> 0), cr_log_frames = n, cr_checkpointed_frames = n\<rparr>, d)" and "sample_ready b n (sy\<lparr>sy_db := d\<rparr>)"
proof -
  have "fst (checkpoint sample_host mode restart_wal (sy_db sy)) = Ok \<lparr>cr_busy = (b \<noteq> 0), cr_log_frames = n, cr_checkpointed_frames = n\<rparr> \<and>
      sample_ready b n (sy\<lparr>sy_db := snd (checkpoint sample_host mode restart_wal (sy_db sy))\<rparr>)"
    using assms by (cases "d_locked (sy_db sy)") (simp_all add: sample_ready_def sample_state_def checkpoint_def
        acquire_read_lock_def release_read_lock_def sample_host_def sample_batch_def op_simps op_bind_def on_world_def
        row_get_def checkpoint_row_def bump_seq_def bump_sql_def)
  then show thesis
    by (intro that [of "snd (checkpoint sample_host mode restart_wal (sy_db sy))"]) (auto simp: prod_eq_iff)
qed

definition position_one :: position where
  "position_one = \<lparr>po_txid = 1, po_wal_offset = 1000, po_salt1 = 1, po_salt2 = 2, po_synced_to_wal_end = False\<rparr>"

lemma sample_salts: "wh_salt1 sample_wal_header = 11" "wh_salt2 sample_wal_header = 12" "wh_page_size sample_wal_header = 512"
  by (simp_all add: sample_wal_header_def split: prod.split)

lemma sample_build_next:
  assumes ready: "sample_ready b n sy0" and "sy_pos sy0 = position_default \<or> sy_pos sy0 = position_one"
  shows "\<exists>f sy'. build_next sample_host lz4c sy0 = (Ok (Some f), sy')"
proof -
  define pos where "pos = sy_pos sy0"
  obtain d where d: "acquire_read_lock sample_host (sy_db sy0) = (Ok (), d)" "sample_ready b n (sy0\<lparr>sy_db := d\<rparr>)"
    by (rule sample_acquire [OF ready])
  let ?sy = "sy0\<lparr>sy_db := d\<rparr>"
  have sy: "sample_state ?sy" "sy_pos ?sy = pos" "d_path (sy_db ?sy) = ''app.db''"
    using d(2) by (simp_all add: sample_ready_def sample_state_def pos_def)
  have acq: "on_db (acquire_read_lock sample_host) sy0 = (Ok (), ?sy)"
    by (simp add: on_db_def op_on_def op_map_err_def d(1))
  note reads = sample_reads [OF sy(1)]
  have len: "length sample_wal = 1104" "length sample_wal \<ge> WAL_HEADER_SIZE"
    using sample_wal_frames(2) by simp_all
  have parse: "wal_header_parse (take 32 sample_wal) = Ok sample_wal_header"
    by (rule sample_header_reader) (use wal_header_parse_take [OF len(2)] in simp)
  have head: "read_exact_at sample_host ''app.db-wal'' 0 WAL_HEADER_SIZE ?sy = (Ok (take 32 sample_wal), ?sy)"
    using reads(2) len by (simp add: read_exact_at_def op_bind_def op_ret_def)
  have wal: "read_wal_or_empty sample_host ?sy = (Ok sample_wal, ?sy)"
    using reads(2) sy(3) by (simp add: read_wal_or_empty_def op_bind_def op_get_def op_try_def op_ret_def)
  from assms(2) [folded pos_def] show ?thesis
  proof
    assume "pos = position_default"
    then have plan: "sync_plan pos (of_nat 1104) (Some sample_wal_header) = PlanSnapshot wal_start" "po_txid (sy_pos ?sy) = 0"
      using sy(2) by (simp_all add: sync_plan_def position_default_def)
    obtain f sy' where "build_snapshot sample_host lz4c wal_start sample_wal ?sy = (Ok f, sy')"
      using sample_snapshot [OF sy(1)] plan(2) by blast
    then show ?thesis
      using plan reads len parse head wal sy
      by (simp add: build_next_def build_under_lock_def op_bind_def acq op_get_def op_try_def op_of_def op_ret_def Let_def
          cong: plan.case_cong)
  next
    assume "pos = position_one"
    then have plan: "sync_plan pos (of_nat 1104) (Some sample_wal_header) = PlanIncremental wal_start 11 12"
      "po_txid (sy_pos ?sy) = 1"
      using sy(2) by (simp_all add: sync_plan_def position_one_def sample_salts Let_def)
    obtain f sy' where "build_incremental sample_host lz4c wal_start 11 12 (of_nat 1104) sample_wal_header ''app.db-wal'' ?sy =
        (Ok (Some f), sy')"
      using sample_incremental [OF sy(1) plan(2)] by blast
    then show ?thesis
      using plan reads len parse head wal sy
      by (simp add: build_next_def build_under_lock_def op_bind_def acq op_get_def op_try_def op_of_def op_ret_def Let_def
          cong: plan.case_cong)
  qed
qed

lemma sample_locked_build:
  assumes "sample_ready b n sy"
  shows "locked_build sample_host sy (replicate 1024 7) sample_wal"
proof -
  have path: "d_path (sy_db sy) = ''app.db''"
    using assms by (simp add: sample_ready_def sample_state_def)
  have "still sample_host {w. sw_disk w = sample_disk} ''app.db'' (replicate 1024 7)"
    "still sample_host {w. sw_disk w = sample_disk} ''app.db-wal'' sample_wal"
    by (auto simp: still_def sample_host_def sample_disk_def)
  moreover have "sw_disk (d_world d) = sample_disk" if "acquire_read_lock sample_host (sy_db sy) = (Ok (), d)" for d
    by (rule sample_acquire [OF assms]) (use that in \<open>simp add: sample_ready_def sample_state_def\<close>)
  ultimately show ?thesis
    unfolding locked_build_def path by (intro exI [of _ "{w. sw_disk w = sample_disk}"]) simp
qed

lemma sample_upload:
  assumes here: "map_of (sy_staging sy) (sf_path f) = Some b" and cl: "sy_client sy = sample_client"
    and fresh: "map_of (sy_store sy) (ltx_key sample_client (sf_level f) (sf_min f) (sf_max f)) = None"
  shows "\<exists>out sy'. upload_staged sample_host f sy = (Ok out, sy')"
proof -
  have st: "cl_store sample_client = mem_store"
    by (simp add: sample_client_def replica_client_new_def)
  have rd: "fs_read sample_host (sf_path f) sy = (Ok b, sy)"
    using here by (simp add: fs_read_def op_bind_def sample_fs_op)
  then have len: "fs_len sample_host (sf_path f) sy = (Ok (length b), sy)"
    by (simp add: fs_len_def op_bind_def op_ret_def)
  have put: "on_store (put_ltx_cas sample_client (sf_level f) (sf_min f) (sf_max f) b) sy =
      (Ok Created, sy\<lparr>sy_store := (ltx_key sample_client (sf_level f) (sf_min f) (sf_max f), b) # sy_store sy\<rparr>)"
    using fresh by (simp add: on_store_run put_ltx_cas_def st mem_store_def Let_def)
  have "fst (op_bind (fs_len sample_host (sf_path f)) (\<lambda>n. op_ret n) sy) = Ok (length b)"
    by (simp add: len op_bind_def op_ret_def)
  have now: "system_now sample_host s = (Ok 0, s)" for s :: "(sample_world, (string \<times> bytes) list) syncer"
    by (simp add: system_now_def on_host_def on_world_def op_simps sample_host_def)
  have multi: "\<exists>s. on_store (put_ltx_multipart sample_client (sf_level f) (sf_min f) (sf_max f) b) sy = (Ok (), sy\<lparr>sy_store := s\<rparr>)"
    by (simp add: on_store_run put_ltx_multipart_def st mem_store_def os_res_def) (rule exI, rule refl)
  have rm: "\<exists>s'. fs_remove sample_host (sf_path f) (sy\<lparr>sy_store := s\<rparr>) = (Ok (), s')" for s
    using here by (simp add: fs_remove_def op_bind_def sample_fs_op)
  have "\<exists>sy1. upload_ltx_file sample_host (sf_level f) (sf_min f) (sf_max f) (sf_path f) sy = (Ok (), sy1)"
    using multi rm
    by (auto simp: upload_ltx_file_def op_bind_def len op_get_def cl rd put op_ret_def split: prod.split)
  then show ?thesis
    by (auto simp: upload_staged_def op_try_def len Let_def op_bind_def now op_modify_def op_ret_def)
qed

lemma sample_good: "good_store map_of (sample_syncer pos stg store)" "readable (cl_store sample_client) map_of"
proof -
  have st: "cl_store sample_client = mem_store"
    by (simp add: sample_client_def replica_client_new_def)
  have "fault_law mem_store map_of"
    by (auto simp: fault_law_def mem_store_def map_of_filter_key)
  then show "good_store map_of (sample_syncer pos stg store)"
    using sample_client_ok by (simp add: good_store_def sample_syncer_def st)
  show "readable (cl_store sample_client) map_of"
    by (auto simp: readable_def st mem_store_def)
qed

lemma sample_sync:
  assumes "pos = position_default \<or> pos = position_one"
    and "map_of store (ltx_key sample_client LEVEL0 (po_txid pos + 1) (po_txid pos + 1)) = None"
  shows "\<exists>out sy'. sync sample_host lz4c (sample_syncer pos [] store) = (Ok out, sy')"
proof -
  let ?sy = "sample_syncer pos [] store"
  have "\<exists>f sy1. build_next sample_host lz4c ?sy = (Ok (Some f), sy1)"
    by (rule sample_build_next [OF sample_syncer_ready]) (use assms(1) in simp)
  then obtain f sy1 where b: "build_next sample_host lz4c ?sy = (Ok (Some f), sy1)"
    by blast
  have "sy_client sy1 = sample_client" "sy_store sy1 = store"
    using keepsD [OF local_build_next b] by (simp_all add: local_step_def sample_syncer_def)
  moreover have "sf_level f = LEVEL0" "sf_min f = po_txid pos + 1" "sf_max f = po_txid pos + 1"
    "\<exists>c. map_of (sy_staging sy1) (sf_path f) = Some c"
    using build_next_Ok [OF b] build_next_txid [OF b] by (auto simp: staged_here_def sample_syncer_def)
  ultimately obtain out sy' where "upload_staged sample_host f sy1 = (Ok out, sy')"
    using sample_upload [of sy1 f] assms(2) by auto
  then show ?thesis
    using b by (simp add: sync_def op_bind_def)
qed

text \<open>Every operation keeps the host ready.\<close>

definition ready_step :: "(sample_world, (string \<times> bytes) list) syncer \<Rightarrow> (sample_world, (string \<times> bytes) list) syncer \<Rightarrow> bool" where
  "ready_step sy sy' \<longleftrightarrow> (\<forall>b n. sample_ready b n sy \<longrightarrow> sample_ready b n sy')"

lemma ready_same: "sy_db sy' = sy_db sy \<Longrightarrow> ready_step sy sy'"
  by (simp add: ready_step_def sample_ready_def sample_state_def)

lemma ready_host:
  assumes "\<And>w. snd (m w) = w"
  shows "keeps ready_step (on_host m)"
proof (rule keepsI)
  fix r and s s' :: "(sample_world, (string \<times> bytes) list) syncer"
  assume "on_host m s = (r, s')"
  then obtain w where "snd (m (d_world (sy_db s))) = w" "s' = s\<lparr>sy_db := (sy_db s)\<lparr>d_world := w\<rparr>\<rparr>"
    by (auto simp: on_host_run)
  then show "ready_step s s'"
    using assms by (intro ready_same) simp
qed

lemma ready_db:
  assumes "\<And>sy b n. sample_ready b n sy \<Longrightarrow> \<exists>q d. m (sy_db sy) = (q, d) \<and> sample_ready b n (sy\<lparr>sy_db := d\<rparr>)"
  shows "keeps ready_step (on_db m)"
  by (rule keepsI) (use assms in \<open>fastforce simp: on_db_def op_on_def op_map_err_def ready_step_def split: prod.splits\<close>)

interpretation rdy: cycle_order ready_step sample_host
proof
  show "keeps ready_step (on_host (ho_read sample_host path))" "keeps ready_step (on_host (ho_len sample_host path))"
    "keeps ready_step (on_host (fs_op sample_host))" "keeps ready_step (system_now sample_host)" for path
    unfolding system_now_def by (rule ready_host, simp add: sample_host_def fs_op_def)+
  show "keeps ready_step (on_db (acquire_read_lock sample_host))"
    by (rule ready_db) (metis sample_acquire)
  show "keeps ready_step (on_db (checkpoint sample_host mode restart_wal))" for mode restart_wal
    by (rule ready_db) (metis sample_checkpoint)
qed (auto simp: ready_step_def sample_ready_def sample_state_def)

section \<open>The sample's history\<close>

abbreviation sample_frames :: "wal_frame list" where
  "sample_frames \<equiv> frames_of 536 0 sample_wal_records"

abbreviation sample_file :: bytes where
  "sample_file \<equiv> replicate 1024 7"

lemma sample_commit: "live_commit 512 sample_file sample_frames = 2" "live_commit 512 sample_file [] = 2"
  by (simp_all add: live_commit_def sample_newest(2)) (simp add: last_commit_def committed_def)

lemma sample_two: "1 \<le> i \<Longrightarrow> i \<le> unat (2 :: u32) \<Longrightarrow> i = 1 \<or> i = 2"
  by auto

lemma sample_whole: "whole 512 sample_file sample_frames" "whole 512 sample_file []"
proof -
  have "newest_data sample_frames p = Some d \<Longrightarrow> length d = 512" for p d
    by (auto simp: sample_newest(1) split: if_splits)
  then show "whole 512 sample_file sample_frames"
    using sample_two by (auto simp: whole_def sample_commit)
  show "whole 512 sample_file []"
    using sample_two by (auto simp: whole_def sample_commit newest_data_def committed_def)
qed

text \<open>The image before the first transaction of the WAL from TXID 1 on, the one after it from TXID \<open>t\<close> on.\<close>

definition sample_images :: "u64 \<Rightarrow> u64 \<Rightarrow> bytes" where
  "sample_images t0 t = (if t = 0 then [] else if t < t0 then live_image 512 sample_file []
    else live_image 512 sample_file sample_frames)"

lemma live_image_db:
  assumes "whole ps db_bytes fs" and "unat (live_commit ps db_bytes fs) < unat (lock_pgno ps)"
  shows "db_image ps (live_image ps db_bytes fs)"
proof -
  have "length (live_image ps db_bytes fs) = unat (live_commit ps db_bytes fs) * unat ps"
    using concat_chunks [of "map (\<lambda>i. live_page (unat ps) db_bytes fs (of_nat i)) [1..<Suc (unat (live_commit ps db_bytes fs))]"
        "unat ps"] length_live_page [OF assms(1)] by (auto simp: live_image_def simp del: upt_Suc)
  then show ?thesis
    using assms live_image_pages(1) [OF assms(1)] by (simp add: db_image_def)
qed

lemma sample_images_history: "history 512 (sample_images t0)"
proof -
  have "unat (2 :: u32) < unat (lock_pgno 512)"
    by simp
  then show ?thesis
    using live_image_db [OF sample_whole(1)] live_image_db [OF sample_whole(2)]
    by (auto simp: history_def sample_images_def sample_commit db_image_def [of _ "[]"] pages_def)
qed

lemma sample_resumes:
  assumes "wal_reader_new sample_wal = Ok r" and "w_header r = sample_wal_header"
  shows "resumes position_one r (length sample_wal) 0"
  using assms(2) by (simp add: resumes_def position_one_def sample_salts)

lemma sample_staged_length:
  assumes "sy_pos sy = position_default \<or> sy_pos sy = position_one" and ready: "sample_ready busy n sy"
    and build: "build_next sample_host stored sy = (Ok (Some f), sy')"
    and b: "map_of (sy_staging sy') (sf_path f) = Some b"
  shows "0 < length b \<and> length b < 2 ^ 20"
proof -
  let ?sy = sy
  define pos where "pos = sy_pos sy"
  have sy: "d_page_size (sy_db ?sy) = 512" "sy_pos ?sy = pos"
    using ready by (simp_all add: pos_def sample_ready_def sample_state_def)
  note locked = sample_locked_build [OF ready]
  have len: "length sample_wal < 2 ^ 63"
    by (simp add: sample_wal_frames(2))
  obtain txid commit pds where pages: "staged_pages stored sy' f txid 512 commit pds"
    "length pds \<le> 2" "\<forall>pd \<in> set pds. length (snd pd) = 512"
  proof (cases "pos = position_default")
    case True
    then have "po_txid (sy_pos ?sy) = 0"
      using sy by (simp add: position_default_def)
    then have "staged_pages stored sy' f 1 512 2 (map (\<lambda>p. (p, live_page 512 sample_file sample_frames p)) [1, 2])"
      using build_next_snapshot [OF build locked len _ sample_wal_frames(1) [folded sy(1)]] sample_snapshot_list
      by (auto simp: sy sample_commit)
    then show thesis
      by (rule that) (auto simp: live_page_def sample_newest(1))
  next
    case False
    then have pos: "pos = position_one" "po_txid (sy_pos ?sy) \<noteq> 0"
      using assms(1) sy by (auto simp: position_one_def)
    obtain r where r: "wal_reader_new sample_wal = Ok r" "w_header r = sample_wal_header" "read_frames r = sample_frames"
      by (rule sample_wal_reader)
    have "resumes (sy_pos ?sy) r (length sample_wal) 0"
      using sample_resumes [OF r(1,2)] pos sy by simp
    from build_next_increment [OF build locked len r(1) pos(2) this]
    have "staged_pages stored sy' f (po_txid pos + 1) 512 2 (map (\<lambda>p. (p, the (newest_data sample_frames p))) [1, 2])"
      using r sy by (simp add: sample_salts sample_changed sample_newest(2))
    then show thesis
      by (rule that) (auto simp: sample_newest(1))
  qed
  then obtain h t where "encode_file stored h pds checksum_zero = Ok (b, t)"
    using b by (auto simp: staged_pages_def)
  then have "b = file_bytes stored h pds checksum_zero"
    by (rule encode_file_bytes)
  moreover have "length (concat (map (frame stored) pds)) \<le> 518 * length pds"
    using pages(3) by (induction pds) (auto simp: frame_def stored_def)
  ultimately show ?thesis
    using length_file_bytes [of stored h pds checksum_zero] pages(2) by (simp add: file_bytes_def)
qed

lemma sample_lists: "\<exists>files. list_all_levels sample_client s = Ok files"
proof -
  have st: "cl_store sample_client = mem_store"
    by (simp add: sample_client_def replica_client_new_def)
  have "\<exists>ms. os_list mem_store d s = Ok ms" for d
    by (simp add: mem_store_def)
  then have "\<exists>fs. list_ltx sample_client l s = Ok fs" for l
    unfolding list_ltx_def st by (auto simp: res_simps)
  then obtain fs where "\<And>l. list_ltx sample_client l s = Ok (fs l)"
    by metis
  then have "\<exists>fs. list_all_ltx sample_client MAX_LEVEL s = Ok fs"
    unfolding list_all_ltx_def by (simp add: rmapM_Ok_map [where g = fs] del: upt_Suc)
  then show ?thesis
    by (auto simp: list_all_levels_def)
qed

end
