(* ===== verification/SyncProps.thy ===== *)
theory SyncProps
  imports SyncRuns SampleSync
begin

text \<open>
  Replication end to end: a sync that succeeds leaves a replica whose restore is the database as it was
  when the sync read it.
\<close>

text \<open>
  C4: the first sync of a database to an empty replica uploads a snapshot that a restore turns into the
  database as its readers saw it during the sync, the committed frames of the WAL over the file; the
  position is then at TXID 1 and past the committed frames.
\<close>

theorem first_sync_then_restore:
  fixes ho :: "'w host" and sy :: "('w, 's) syncer"
  assumes "lz4_frame_inverse lz4c lz4d" and "lz4_bounded lz4c" and "good_store objs sy" and "readable (cl_store (sy_client sy)) objs"
    and "locked_build ho sy db_bytes wal" and "length wal < 2 ^ 63" and "po_txid (sy_pos sy) = 0"
    and "wal_frames wal (d_page_size (sy_db sy)) fs" and "whole (d_page_size (sy_db sy)) db_bytes fs"
    and "H 1 = live_image (d_page_size (sy_db sy)) db_bytes fs"
    and "replica_holds (sy_client sy) objs lz4c (d_page_size (sy_db sy)) H (sy_store sy) 0"
    and "sync ho lz4c sy = (Ok out, sy')" and "list_all_levels (sy_client sy) (sy_store sy') = Ok files"
  shows "restore (sy_client sy) lz4d (sy_store sy') = Ok (live_image (d_page_size (sy_db sy)) db_bytes fs) \<and>
    replica_holds (sy_client sy) objs lz4c (d_page_size (sy_db sy)) H (sy_store sy') 1 \<and> po_txid (sy_pos sy') = 1 \<and>
    (\<forall>r. wal_reader_new wal = Ok r \<and> commit_in_range fs \<longrightarrow> resumes (sy_pos sy') r (length wal) (length (committed fs)))"
proof -
  note synced = first_sync_run [where H = H, OF assms(12,5,6,7,3,4,8-10,2,11)]
  have "store_ok (cl_store (sy_client sy)) objs"
    using assms(3) by (simp add: good_store_def)
  from replica_restored [OF assms(1) _ _ this assms(13), of "d_page_size (sy_db sy)" H 1] synced show ?thesis
    by (simp add: assms(10))
qed

theorem first_sync_then_restore_witness:
  "\<exists>out sy'. sync sample_host stored (sample_syncer position_default [] []) = (Ok out, sy') \<and>
    restore sample_client stored_dec (sy_store sy') = Ok (live_image 512 sample_file sample_frames) \<and>
    po_txid (sy_pos sy') = 1"
proof -
  let ?sy = "sample_syncer position_default [] []"
  have sy: "d_page_size (sy_db ?sy) = 512" "sy_client ?sy = sample_client" "sy_store ?sy = []" "sy_pos ?sy = position_default"
    by simp_all
  have zero: "po_txid position_default = 0"
    by (simp add: position_default_def)
  obtain out sy' where run: "sync sample_host stored ?sy = (Ok out, sy')"
    using sample_sync [of position_default "[]" stored] by auto
  obtain files where files: "list_all_levels sample_client (sy_store sy') = Ok files"
    using sample_lists by blast
  have "restore (sy_client ?sy) stored_dec (sy_store sy') = Ok (live_image (d_page_size (sy_db ?sy)) sample_file sample_frames) \<and>
    replica_holds (sy_client ?sy) map_of stored (d_page_size (sy_db ?sy)) (sample_images 1) (sy_store sy') 1 \<and>
    po_txid (sy_pos sy') = 1 \<and>
    (\<forall>r. wal_reader_new sample_wal = Ok r \<and> commit_in_range sample_frames \<longrightarrow>
      resumes (sy_pos sy') r (length sample_wal) (length (committed sample_frames)))"
  proof (rule first_sync_then_restore [OF stored_inverse stored_bounded _ _ sample_locked_build [OF sample_syncer_ready] _ _ _ _ _ _ run])
    show "replica_holds (sy_client ?sy) map_of stored (d_page_size (sy_db ?sy)) (sample_images 1) (sy_store ?sy) 0"
      unfolding sy by (rule replica_empty [OF sample_images_history]) simp
  qed (use sample_good sample_wal_frames sample_whole files in \<open>simp_all add: sy zero sample_images_def\<close>)
  with run show ?thesis
    by (auto simp: sy)
qed

text \<open>
  C3: a later sync on a replica that holds the history up to the position uploads what the WAL has
  committed since, or nothing where it has nothing: a restore is then the database as its readers
  see it, the replica holds the history up to the new position, and the position stands where the
  next sync resumes.
\<close>

theorem next_sync_then_restore:
  fixes ho :: "'w host" and sy :: "('w, 's) syncer"
  assumes "lz4_frame_inverse lz4c lz4d" and "lz4_bounded lz4c" and "good_store objs sy" and "readable (cl_store (sy_client sy)) objs"
    and "locked_build ho sy db_bytes wal" and "length wal < 2 ^ 63" and "wal_reader_new wal = Ok r"
    and "po_txid (sy_pos sy) \<noteq> 0" and "resumes (sy_pos sy) r (length wal) n"
    and "wh_page_size (w_header r) = d_page_size (sy_db sy)"
    and "step_of (d_page_size (sy_db sy)) H (po_txid (sy_pos sy) + 1) db_bytes (take n (read_frames r)) (drop n (read_frames r))"
    and "replica_holds (sy_client sy) objs lz4c (d_page_size (sy_db sy)) H (sy_store sy) (po_txid (sy_pos sy))"
    and "sync ho lz4c sy = (Ok out, sy')" and "list_all_levels (sy_client sy) (sy_store sy') = Ok files"
  shows "if changed_pages (drop n (read_frames r)) = []
    then out = Skipped \<and> sy_store sy' = sy_store sy \<and> sy_pos sy' = sy_pos sy
    else restore (sy_client sy) lz4d (sy_store sy') = Ok (live_image (d_page_size (sy_db sy)) db_bytes (read_frames r)) \<and>
      po_txid (sy_pos sy') = po_txid (sy_pos sy) + 1 \<and>
      replica_holds (sy_client sy) objs lz4c (d_page_size (sy_db sy)) H (sy_store sy') (po_txid (sy_pos sy')) \<and>
      (commit_in_range (drop n (read_frames r)) \<longrightarrow>
        resumes (sy_pos sy') r (length wal) (n + length (committed (drop n (read_frames r)))))"
proof -
  note synced = next_sync_run [where H = H, OF assms(13,5-9,3,4,10,11,2,12)]
  have ok: "store_ok (cl_store (sy_client sy)) objs"
    using assms(3) by (simp add: good_store_def)
  have "H (po_txid (sy_pos sy) + 1) = live_image (d_page_size (sy_db sy)) db_bytes (read_frames r)"
    using assms(11) by (simp add: step_of_def)
  then show ?thesis
    using synced replica_restored [OF assms(1) _ _ ok assms(14), of "d_page_size (sy_db sy)" H "po_txid (sy_pos sy) + 1"]
    by auto
qed

theorem next_sync_then_restore_witness:
  "\<exists>store out sy'. sync sample_host stored (sample_syncer position_one [] store) = (Ok out, sy') \<and>
    restore sample_client stored_dec (sy_store sy') = Ok (live_image 512 sample_file sample_frames) \<and>
    po_txid (sy_pos sy') = 2"
proof -
  let ?pds = "map (\<lambda>p. (p, live_page 512 sample_file [] p)) [1, 2]"
  let ?h = "no_checksum_header 0 512 2 1 wal_start 0 0 0"
  let ?b = "file_bytes stored ?h ?pds checksum_zero"
  let ?store = "[(ltx_key sample_client LEVEL0 1 1, ?b)]"
  let ?sy = "sample_syncer position_one [] ?store"
  have sy: "d_page_size (sy_db ?sy) = 512" "sy_client ?sy = sample_client" "sy_store ?sy = ?store" "sy_pos ?sy = position_one"
    by simp_all
  have txid: "po_txid position_one = 1"
    by (simp add: position_one_def)
  have "lock_pgno 512 \<noteq> 1 \<and> lock_pgno 512 \<noteq> 2"
    by (simp add: lock_pgno_def PENDING_BYTE_def)
  then have enc: "is_encoding stored ?b ?h ?pds"
    by (intro sample_encoding) (simp_all add: no_checksum_header_def header_validate_def valid_page_sizes
        header_is_snapshot_def accepts_def next_snapshot_pgno_def live_page_def newest_data_def committed_def page_of_def
        checksum_is_zero_def checksum_zero_def)
  have car: "carries 512 (sample_images 2) (LEVEL0, 1, 1) ?h ?pds"
    using snapshot_carries [OF sample_whole(2), of "sample_images 2" 1 ?h LEVEL0 1] sample_snapshot_list
    by (simp add: sample_images_def sample_commit no_checksum_header_def)
  have empty: "replica_holds sample_client map_of stored 512 (sample_images 2) [] (1 - 1)"
    using replica_empty [OF sample_images_history, where s = "[]" and objs = map_of] by simp
  have holds: "replica_holds sample_client map_of stored 512 (sample_images 2) ?store 1"
    by (rule replica_extended [OF empty sample_client_ok sample_good(2) _ _ enc car]) (simp_all add: no_checksum_header_def)
  have "map_of ?store (ltx_key sample_client LEVEL0 (po_txid position_one + 1) (po_txid position_one + 1)) = None"
    by (simp add: ltx_key_inj txid)
  then obtain out sy' where run: "sync sample_host stored ?sy = (Ok out, sy')"
    using sample_sync [of position_one ?store stored] by blast
  obtain files where files: "list_all_levels sample_client (sy_store sy') = Ok files"
    using sample_lists by blast
  obtain r where r: "wal_reader_new sample_wal = Ok r" "w_header r = sample_wal_header" "read_frames r = sample_frames"
    by (rule sample_wal_reader)
  have logged: "grown_pages_logged 512 sample_file [] sample_frames"
    by (auto simp: grown_pages_logged_def sample_commit sample_newest(2))
  have "if changed_pages (drop 0 (read_frames r)) = []
    then out = Skipped \<and> sy_store sy' = sy_store ?sy \<and> sy_pos sy' = sy_pos ?sy
    else restore (sy_client ?sy) stored_dec (sy_store sy') = Ok (live_image (d_page_size (sy_db ?sy)) sample_file (read_frames r)) \<and>
      po_txid (sy_pos sy') = po_txid (sy_pos ?sy) + 1 \<and>
      replica_holds (sy_client ?sy) map_of stored (d_page_size (sy_db ?sy)) (sample_images 2) (sy_store sy') (po_txid (sy_pos sy')) \<and>
      (commit_in_range (drop 0 (read_frames r)) \<longrightarrow>
        resumes (sy_pos sy') r (length sample_wal) (0 + length (committed (drop 0 (read_frames r)))))"
  proof (rule next_sync_then_restore [OF stored_inverse stored_bounded _ _ sample_locked_build [OF sample_syncer_ready] _ r(1) _ _ _ _ _ run])
    show "resumes (sy_pos ?sy) r (length sample_wal) 0"
      unfolding sy by (rule sample_resumes [OF r(1,2)])
    show "step_of (d_page_size (sy_db ?sy)) (sample_images 2) (po_txid (sy_pos ?sy) + 1) sample_file
        (take 0 (read_frames r)) (drop 0 (read_frames r))"
      using sample_whole logged by (simp add: step_of_def sy txid r(3) sample_images_def committed_def [of "[]"])
    show "replica_holds (sy_client ?sy) map_of stored (d_page_size (sy_db ?sy)) (sample_images 2) (sy_store ?sy) (po_txid (sy_pos ?sy))"
      using holds by (simp add: sy txid)
  qed (use sample_good sample_wal_frames files in \<open>simp_all add: sy txid r(2) sample_salts\<close>)
  moreover have "changed_pages (drop 0 (read_frames r)) \<noteq> []"
    by (simp add: r(3) sample_changed)
  ultimately have "restore sample_client stored_dec (sy_store sy') = Ok (live_image 512 sample_file sample_frames)"
    "po_txid (sy_pos sy') = 1 + 1"
    unfolding sy r(3) txid by (simp_all only: if_False)
  moreover have "1 + 1 = (2 :: u64)" by simp
  ultimately show ?thesis
    using run by (metis (no_types))
qed

end
