(* ===== verification/SyncDurable.thy ===== *)
theory SyncDurable
  imports SyncSafety SampleSync
begin

text \<open>
  The operations of a syncer as a step relation, with restarts between them: a range that has a staged
  file keeps one until the store has an object for it.
\<close>

section \<open>Recovery\<close>

lemma tmp_entry:
  assumes "ends_with name ''.ltx.tmp''"
  shows "(d, name) \<noteq> staged_ltx_path l a b"
proof
  assume "(d, name) = staged_ltx_path l a b"
  then have name: "name = ltx_filename a b"
    by (simp add: staged_ltx_path_def)
  have "last name = CHR ''p''"
  proof -
    obtain zs where "name = zs @ ''.ltx.tmp''"
      using assms unfolding ends_with_def strip_suffix_def
      by (metis append_take_drop_id)
    then show ?thesis by simp
  qed
  moreover have "last name = CHR ''x''"
    by (simp add: name ltx_filename_def)
  ultimately show False by simp
qed

lemma safe_remove_other:
  fixes ho :: "'w host" and objs :: "'s \<Rightarrow> string \<Rightarrow> bytes option"
  assumes "\<And>l a b. path \<noteq> staged_ltx_path l a b"
  shows "keeps (safe_step objs) (fs_remove ho path)"
  unfolding fs_remove_def
proof (rule saf.keeps_bind [OF safe_host], rule keepsI)
  fix x r and s s' :: "('w, 's) syncer"
  assume run: "(case map_of (sy_staging s) path of None \<Rightarrow> (Err (SyncIo NotFound), s)
    | Some _ \<Rightarrow> (Ok (), s\<lparr>sy_staging := AList.delete path (sy_staging s)\<rparr>)) = (r, s')"
  have "durable objs s' x" if "durable objs s x" for x
    using that run assms by (cases x) (auto simp: durable_def delete_conv' split: option.splits; blast)
  moreover have "sy_client s' = sy_client s"
    using run by (auto split: option.splits)
  ultimately show "safe_step objs s s'"
    by (simp add: safe_step_def durable_le_def)
qed

definition named :: "(u32 \<times> u64 \<times> u64 \<times> staged_path) list \<Rightarrow> bool" where
  "named found \<longleftrightarrow> (\<forall>(l, a, b, path) \<in> set found. path_range path = Some (l, a, b))"

lemma safe_entry: "keeps (safe_step objs) (recover_entry ho path)"
proof -
  have rm: "keeps (safe_step objs) (fs_remove ho path)" if "ends_with (snd path) ''.ltx.tmp''"
    by (rule safe_remove_other) (metis prod.collapse tmp_entry [OF that])
  then show ?thesis
    unfolding recover_entry_def by (auto intro!: safe_intros split: option.split)
qed

lemma yields_entry: "yields (\<lambda>found sy. named found) (recover_entry ho path)"
  unfolding recover_entry_def
  by (auto intro!: yields_bind yields_try yields_ret simp: named_def path_range_def split: option.split)

lemma yields_all:
  "(\<And>x. yields (\<lambda>y s. P y) (f x)) \<Longrightarrow> yields (\<lambda>ys s. \<forall>y \<in> set ys. P y) (op_map f xs)"
proof (induction xs)
  case (Cons x xs)
  have "\<forall>y \<in> set ys. P y" if run: "op_map f (x # xs) s = (Ok ys, s')" for ys s s'
  proof -
    obtain y s1 zs where "f x s = (Ok y, s1)" "op_map f xs s1 = (Ok zs, s')" "ys = y # zs"
      using run by (auto simp: op_bind_Ok op_ret_def)
    then show ?thesis
      using yieldsD [OF Cons.prems] yieldsD [OF Cons.IH [OF Cons.prems]] by auto
  qed
  then show ?case
    unfolding yields_def by blast
qed (simp add: yields_ret)

lemma keeps_each_member:
  "(\<And>x. x \<in> set xs \<Longrightarrow> keeps (safe_step objs) (f x)) \<Longrightarrow> keeps (safe_step objs) (op_each f xs)"
  by (induction xs) (auto intro: saf.keeps_bind saf.keeps_pure)

lemma safe_recover: "keeps (safe_step objs) (recover_staging ho)"
proof -
  have upload: "keeps (safe_step objs) (op_each (\<lambda>(level, mn, mx, path). upload_ltx_file ho level mn mx path)
      (sort_key (\<lambda>(level, mn, mx, _). (mn, mx, level)) (concat found)))" if "\<forall>y \<in> set found. named y" for found
    using that by (intro keeps_each_member) (fastforce simp: named_def intro: safe_upload)
  have rest: "keeps (safe_step objs) (op_bind (op_map (recover_entry ho) entries) (\<lambda>found.
      let staged = sort_key (\<lambda>(level, mn, mx, _). (mn, mx, level)) (concat found) in
      op_each (\<lambda>(level, mn, mx, path). upload_ltx_file ho level mn mx path) staged))" for entries
  proof (rule saf_bind_post)
    fix s found s1
    assume "op_map (recover_entry ho) entries s = (Ok found, s1)"
    from yieldsD [OF yields_all [OF yields_entry] this]
    show "keeps (safe_step objs) (let staged = sort_key (\<lambda>(level, mn, mx, _). (mn, mx, level)) (concat found) in
        op_each (\<lambda>(level, mn, mx, path). upload_ltx_file ho level mn mx path) staged)"
      using upload by (simp add: Let_def)
  qed (intro saf.keeps_map safe_entry)
  show ?thesis
    unfolding recover_staging_def
  proof (rule saf.keeps_try [OF safe_host])
    fix r
    show "keeps (safe_step objs) (case r of
        Ok _ \<Rightarrow> op_bind (op_get (\<lambda>sy. map fst (sy_staging sy))) (\<lambda>entries.
          op_bind (op_map (recover_entry ho) entries) (\<lambda>found.
          let staged = sort_key (\<lambda>(level, mn, mx, _). (mn, mx, level)) (concat found) in
          op_each (\<lambda>(level, mn, mx, path). upload_ltx_file ho level mn mx path) staged))
      | Err e \<Rightarrow> if e = SyncIo NotFound then op_ret () else op_fail e
      | Panic \<Rightarrow> op_of Panic)"
      by (cases r) (use rest in \<open>auto intro: saf.keeps_pure saf.keeps_bind\<close>)
  qed
qed

section \<open>Runs\<close>

text \<open>
  A step is one call, whatever it returns, or a restart: the client, the store and the staging
  directory stay, the handle, the position and the index are new.
\<close>

inductive syncer_step :: "'w host \<Rightarrow> (bytes \<Rightarrow> bytes) \<Rightarrow> ('w, 's) syncer \<Rightarrow> ('w, 's) syncer \<Rightarrow> bool"
  for ho :: "'w host" and lz4c :: "bytes \<Rightarrow> bytes" where
  step_sync: "sync ho lz4c sy = (r, sy') \<Longrightarrow> syncer_step ho lz4c sy sy'"
| step_checkpoint_if_needed: "checkpoint_if_needed ho lz4c sy = (r, sy') \<Longrightarrow> syncer_step ho lz4c sy sy'"
| step_checkpoint_now: "checkpoint_now ho lz4c mode sy = (r, sy') \<Longrightarrow> syncer_step ho lz4c sy sy'"
| step_recover: "recover_staging ho sy = (r, sy') \<Longrightarrow> syncer_step ho lz4c sy sy'"
| step_restart: "sy_client sy' = sy_client sy \<Longrightarrow> sy_store sy' = sy_store sy \<Longrightarrow> sy_staging sy' = sy_staging sy \<Longrightarrow>
    syncer_step ho lz4c sy sy'"

lemma safe_syncer_step:
  assumes "syncer_step ho lz4c sy sy'"
  shows "safe_step objs sy sy'"
  using assms
proof cases
  case step_restart
  then show ?thesis by (intro safe_same) simp_all
qed (use safe_sync safe_checkpoints safe_recover in \<open>metis keepsD\<close>)+

lemma safe_run:
  assumes "(syncer_step ho lz4c)\<^sup>*\<^sup>* sy sy'"
  shows "safe_step objs sy sy'"
  using assms
proof (induction rule: rtranclp_induct)
  case base
  show ?case by (rule saf.refl)
next
  case (step sy1 sy2)
  show ?case
    by (rule saf.trans [OF step.IH safe_syncer_step [OF step.hyps(2)]])
qed

text \<open>
  A range that has a staged file, or an object in the store, has one or the other after any run of syncs,
  checkpoints, recoveries and restarts, whatever fails on the way. Its bytes may change: a retry stages a
  new file of the same range over one whose upload failed.
\<close>

lemma staged_range_survives:
  assumes "good_store objs sy" and "(syncer_step ho lz4c)\<^sup>*\<^sup>* sy sy'" and "l \<le> MAX_LEVEL"
    and "map_of (sy_staging sy) (staged_ltx_path l a b) \<noteq> None \<or> objs (sy_store sy) (ltx_key (sy_client sy) l a b) \<noteq> None"
  shows "map_of (sy_staging sy') (staged_ltx_path l a b) \<noteq> None \<or>
    objs (sy_store sy') (ltx_key (sy_client sy) l a b) \<noteq> None"
proof -
  have "durable objs sy (l, a, b)"
    using assms(4) by (simp add: durable_def)
  then have "durable objs sy' (l, a, b)" "sy_client sy' = sy_client sy"
    using safe_run [OF assms(2), of objs] assms(1,3) by (auto simp: safe_step_def durable_le_def)
  then show ?thesis
    by (simp add: durable_def)
qed

end
