(* ===== verification/CheckpointSafety.thy ===== *)
theory CheckpointSafety
  imports SyncRuns SampleSync
begin

text \<open>
  A checkpoint cycle (\<^verbatim>\<open>Syncer::run_checkpoint\<close>): the frames it captured are on disk or in the store
  whatever happens, frames it did not capture are recovered by a snapshot, and what a failed upload
  leaves for the next build.
\<close>

section \<open>Uploads that may fail\<close>

lemma upload_put_any:
  assumes good: "good_store objs sy" and run: "upload_put ho l a b path sz (sy_client sy) sy = (r, sy')"
  shows "sy_client sy' = sy_client sy \<and> sy_staging sy' = sy_staging sy \<and> sy_pos sy' = sy_pos sy \<and>
    (\<forall>k. k \<noteq> ltx_key (sy_client sy) l a b \<longrightarrow> objs (sy_store sy') k = objs (sy_store sy) k)"
proof -
  let ?cl = "sy_client sy"
  let ?k = "ltx_key ?cl l a b"
  have ok: "store_ok (cl_store ?cl) objs" "fault_law (cl_store ?cl) objs"
    using good by (simp_all add: good_store_def)
  obtain r1 sy1 where rd: "fs_read ho path sy = (r1, sy1)" by (cases "fs_read ho path sy")
  note same = fs_read_same [OF rd]
  show ?thesis
  proof (cases r1)
    case (Ok c)
    show ?thesis
    proof (cases "sz \<ge> MULTIPART_THRESHOLD")
      case True
      then obtain q s where put: "put_ltx_multipart ?cl l a b c (sy_store sy) = (q, s)" and sy': "sy' = sy1\<lparr>sy_store := s\<rparr>"
        using run rd same Ok by (auto simp: upload_put_def op_bind_def on_store_run split: prod.splits)
      from put obtain q' where "os_put_parts (cl_store ?cl) ?k (multipart_parts MULTIPART_CHUNK c) (sy_store sy) = (q', s)"
        by (auto simp: put_ltx_multipart_def split: prod.splits)
      then have "\<forall>k. k \<noteq> ?k \<longrightarrow> objs s k = objs (sy_store sy) k"
        using ok(2) unfolding fault_law_def by blast
      then show ?thesis
        using same sy' by simp
    next
      case False
      obtain q s where put: "put_ltx_cas ?cl l a b c (sy_store sy) = (q, s)"
        by (cases "put_ltx_cas ?cl l a b c (sy_store sy)")
      then have "on_store (put_ltx_cas ?cl l a b c) sy1 = (rmap_err SyncStorage q, sy1\<lparr>sy_store := s\<rparr>)"
        using same by (simp add: on_store_run)
      then have "sy' = sy1\<lparr>sy_store := s\<rparr>"
        using run rd Ok False
        by (cases q) (auto simp: upload_put_def op_bind_def op_fail_def op_ret_def split: put_outcome.splits)
      then show ?thesis
        using put_ltx_cas_run [OF ok(1) put] same by simp
    qed
  qed (use run rd same in \<open>auto simp: upload_put_def op_bind_def split: if_splits\<close>)
qed

lemma fs_len_same:
  assumes "fs_len ho path sy = (r, sy')"
  shows "sy_client sy' = sy_client sy" and "sy_store sy' = sy_store sy" and "sy_staging sy' = sy_staging sy"
    and "sy_pos sy' = sy_pos sy" and "sy_files sy' = sy_files sy"
proof -
  have "sy_client sy' = sy_client sy \<and> sy_store sy' = sy_store sy \<and> sy_staging sy' = sy_staging sy \<and>
      sy_pos sy' = sy_pos sy \<and> sy_files sy' = sy_files sy"
    using assms unfolding fs_len_def by (auto elim!: op_bind_cases dest!: fs_read_same simp: op_ret_def)
  then show "sy_client sy' = sy_client sy" and "sy_store sy' = sy_store sy" and "sy_staging sy' = sy_staging sy"
    and "sy_pos sy' = sy_pos sy" and "sy_files sy' = sy_files sy"
    by simp_all
qed

text \<open>An upload that fails leaves its file staged, or the object already in the store.\<close>

lemma upload_file_any:
  assumes good: "good_store objs sy" and b: "map_of (sy_staging sy) path = Some c"
    and run: "upload_ltx_file ho l a b path sy = (r, sy')"
  shows "sy_client sy' = sy_client sy \<and> sy_pos sy' = sy_pos sy \<and>
    (\<forall>k. k \<noteq> ltx_key (sy_client sy) l a b \<longrightarrow> objs (sy_store sy') k = objs (sy_store sy) k) \<and>
    (objs (sy_store sy') (ltx_key (sy_client sy) l a b) = Some c \<or>
      map_of (sy_staging sy') path = Some c \<and> (\<forall>x. r \<noteq> Ok x))"
proof -
  from run [unfolded upload_ltx_file_def upload_put_def [symmetric]] show ?thesis
  proof (cases rule: op_bind_cases)
    case (step n sy1)
    note same = fs_len_same [OF step(1)]
    have good1: "good_store objs sy1"
      using good same by (simp add: good_store_def)
    have "op_bind (upload_put ho l a b path n (sy_client sy1)) (\<lambda>_. fs_remove ho path) sy1 = (r, sy')"
      using step(2) by (simp add: op_bind_def [of "op_get sy_client"] op_get_def)
    then show ?thesis
    proof (cases rule: op_bind_cases)
      case (step u sy2)
      have put_Ok: "upload_put ho l a b path n (sy_client sy1) sy1 = (Ok (), sy2)"
        using step(1) by simp
      note put = upload_put_content [OF good1]
      show ?thesis
        using put [OF put_Ok] fs_remove_same [OF step(2)] upload_put_any [OF good1 step(1)] same b
        by auto
    next
      case (err e)
      then show ?thesis
        using upload_put_any [OF good1 err(1)] same b by auto
    next
      case panic
      then show ?thesis
        using upload_put_any [OF good1 panic(1)] same b by auto
    qed
  qed (use b in \<open>simp_all add: fs_len_same\<close>)
qed

lemma upload_staged_any:
  assumes good: "good_store objs sy" and b: "map_of (sy_staging sy) (sf_path f) = Some c"
    and run: "upload_staged ho f sy = (r, sy')"
  defines "k \<equiv> ltx_key (sy_client sy) (sf_level f) (sf_min f) (sf_max f)"
  shows "sy_client sy' = sy_client sy \<and>
    (\<forall>k'. k' \<noteq> k \<longrightarrow> objs (sy_store sy') k' = objs (sy_store sy) k') \<and>
    (objs (sy_store sy') k = Some c \<or> map_of (sy_staging sy') (sf_path f) = Some c \<and> (\<forall>x. r \<noteq> Ok x)) \<and>
    (sy_pos sy' = (case r of Ok _ \<Rightarrow> sf_new_pos f | _ \<Rightarrow> sy_pos sy))"
proof -
  obtain r1 sy1 where len: "fs_len ho (sf_path f) sy = (r1, sy1)" by (cases "fs_len ho (sf_path f) sy")
  note same = fs_len_same [OF len]
  have good1: "good_store objs sy1" and b1: "map_of (sy_staging sy1) (sf_path f) = Some c"
    using good b same by (simp_all add: good_store_def)
  show ?thesis
  proof (cases "r1 = Panic")
    case True
    then show ?thesis
      using run len same b by (auto simp: upload_staged_def op_try_def)
  next
    case False
    define sz where "sz = (case r1 of Ok n \<Rightarrow> n | _ \<Rightarrow> 0)"
    have "op_bind (upload_ltx_file ho (sf_level f) (sf_min f) (sf_max f) (sf_path f)) (\<lambda>_.
      op_bind (system_now ho) (\<lambda>now.
      op_bind (op_modify (\<lambda>sy. sy\<lparr>sy_files := fi_insert \<lparr>li_level = sf_level f, li_min = sf_min f, li_max = sf_max f,
        li_size = sz, li_created = Some now\<rparr> (sy_files sy), sy_pos := sf_new_pos f\<rparr>)) (\<lambda>_.
      op_ret (sf_outcome f)))) sy1 = (r, sy')"
      using run len False by (cases r1) (auto simp: upload_staged_def op_try_def Let_def sz_def)
    then show ?thesis
    proof (cases rule: op_bind_cases)
      case (step u sy2)
      obtain t w where now: "system_now ho sy2 = (Ok t, sy2\<lparr>sy_db := (sy_db sy2)\<lparr>d_world := w\<rparr>\<rparr>)"
        by (cases "ho_now ho (d_world (sy_db sy2))") (auto simp: system_now_def on_host_run)
      have "sy_client sy' = sy_client sy2" "sy_store sy' = sy_store sy2" "sy_pos sy' = sf_new_pos f" "r = Ok (sf_outcome f)"
        using step(2) now by (auto simp: op_bind_def op_modify_def op_ret_def)
      then show ?thesis
        using upload_file_any [OF good1 b1 step(1)] same by (auto simp: k_def)
    next
      case (err e)
      then show ?thesis
        using upload_file_any [OF good1 b1 err(1)] same by (auto simp: k_def)
    next
      case panic
      then show ?thesis
        using upload_file_any [OF good1 b1 panic(1)] same by (auto simp: k_def)
    qed
  qed
qed

section \<open>A checkpoint cycle\<close>

lemma on_db_same: "on_db m sy = (r, sy') \<Longrightarrow> \<exists>d. sy' = sy\<lparr>sy_db := d\<rparr>"
  by (auto simp: on_db_def op_on_def split: prod.splits)

lemma snapshot_now_Ok:
  fixes ho :: "'w host" and sy :: "('w, 's) syncer"
  assumes "build_snapshot_now ho lz4c sy = (Ok f, sy')"
  shows "staged_here sy' f" and "sf_min f = po_txid (sy_pos sy) + 1" and "sf_max f = sf_min f"
    and "po_txid (sf_new_pos f) = sf_min f"
proof -
  have snap: "yields numbered (build_snapshot ho lz4c off wal :: ('w, 's, staged_file) sync_op)" for off wal
    unfolding build_snapshot_def Let_def case_prod_beta
    by ((rule yields_numbered loc.keeps_encode yields_bind)+) (simp_all add: numbered_def)
  show "staged_here sy' f"
    using assms by (auto simp: build_snapshot_now_def op_bind_Ok dest: yieldsD [OF yields_snapshot])
  have "numbered f sy'"
    using assms by (auto simp: build_snapshot_now_def op_bind_Ok dest: yieldsD [OF snap])
  moreover have "sy_pos sy' = sy_pos sy"
    using keepsD [OF local_snapshot_now assms] by (simp add: local_step_def)
  ultimately show "sf_min f = po_txid (sy_pos sy) + 1" "sf_max f = sf_min f" "po_txid (sf_new_pos f) = sf_min f"
    by (simp_all add: numbered_def)
qed

text \<open>The catch-up snapshot of a checkpoint that folded more than it captured.\<close>

definition catch_up_snapshot :: "'w host \<Rightarrow> (bytes \<Rightarrow> bytes) \<Rightarrow> ('w, 's, unit) sync_op" where
  "catch_up_snapshot ho lz4c = op_bind (build_snapshot_now ho lz4c) (\<lambda>snap.
     op_bind (upload_staged ho snap) (\<lambda>_. op_modify (\<lambda>sy. sy\<lparr>sy_resnapshots := sy_resnapshots sy + 1\<rparr>)))"

lemma ltx_key_l0_inj: "ltx_key cl LEVEL0 a b = ltx_key cl LEVEL0 c d \<longleftrightarrow> (a, b) = (c, d)"
  using ltx_key_level_inj [of cl LEVEL0 a b LEVEL0 c d] by (auto simp: LEVEL0_def)

lemma catch_up_snapshot_other:
  assumes good: "good_store objs sy" and run: "catch_up_snapshot ho lz4c sy = (r, sy')"
    and txid: "txid \<noteq> po_txid (sy_pos sy) + 1"
  shows "objs (sy_store sy') (ltx_key (sy_client sy) LEVEL0 txid txid) = objs (sy_store sy) (ltx_key (sy_client sy) LEVEL0 txid txid)"
  using run unfolding catch_up_snapshot_def
proof (cases rule: op_bind_cases)
  case (step f sy1)
  note f = snapshot_now_Ok [OF step(1)]
  have same: "sy_client sy1 = sy_client sy" "sy_store sy1 = sy_store sy"
    using keepsD [OF local_snapshot_now step(1)] by (simp_all add: local_step_def)
  have good1: "good_store objs sy1"
    using good same by (simp add: good_store_def)
  obtain c where c: "map_of (sy_staging sy1) (sf_path f) = Some c" "sf_level f = LEVEL0"
    using f(1) by (auto simp: staged_here_def)
  have other: "ltx_key (sy_client sy) LEVEL0 txid txid \<noteq> ltx_key (sy_client sy1) (sf_level f) (sf_min f) (sf_max f)"
    using f(2,3) txid same c(2) by (auto simp: ltx_key_l0_inj)
  from step(2) show ?thesis
  proof (cases rule: op_bind_cases)
    case (step out sy2)
    then show ?thesis
      using upload_staged_any [OF good1 c(1) step(1)] other same by (auto simp: op_modify_def)
  next
    case (err e)
    then show ?thesis
      using upload_staged_any [OF good1 c(1) err(1)] other same by auto
  next
    case panic
    then show ?thesis
      using upload_staged_any [OF good1 c(1) panic(1)] other same by auto
  qed
next
  case (err e)
  then show ?thesis
    using keepsD [OF local_snapshot_now err(1)] by (simp add: local_step_def)
next
  case panic
  then show ?thesis
    using keepsD [OF local_snapshot_now panic(1)] by (simp add: local_step_def)
qed

lemma after_build_cases:
  assumes "after_build ho lz4c mode restart_wal staged sy = (r, sy')"
  obtains (checkpoint_failed) r0 where "on_db (checkpoint ho mode restart_wal) sy = (r0, sy')" and "\<forall>x. r \<noteq> Ok x"
  | (upload_failed) res sy1 r1 f where "on_db (checkpoint ho mode restart_wal) sy = (Ok res, sy1)"
      and "staged = Some f" and "upload_staged ho f sy1 = (r1, sy')" and "\<forall>x. r1 \<noteq> Ok x" and "\<forall>x. r \<noteq> Ok x"
  | (uploaded) res sy1 sy2 where "on_db (checkpoint ho mode restart_wal) sy = (Ok res, sy1)"
      and "case staged of None \<Rightarrow> sy2 = sy1 | Some f \<Rightarrow> upload_staged ho f sy1 = (Ok (sf_outcome f), sy2)"
      and "if of_int (cr_checkpointed_frames res) > frames_below (d_page_size (sy_db sy))
          (case staged of Some s \<Rightarrow> po_wal_offset (sf_new_pos s) | None \<Rightarrow> po_wal_offset (sy_pos sy))
        then op_bind (catch_up_snapshot ho lz4c) (\<lambda>_. op_ret (mode, res)) sy2 = (r, sy')
        else r = Ok (mode, res) \<and> sy' = sy2"
proof -
  define over where "over res \<longleftrightarrow> of_int (cr_checkpointed_frames res) > frames_below (d_page_size (sy_db sy))
          (case staged of Some s \<Rightarrow> po_wal_offset (sf_new_pos s) | None \<Rightarrow> po_wal_offset (sy_pos sy))" for res :: checkpoint_result
  have run: "op_bind (on_db (checkpoint ho mode restart_wal)) (\<lambda>res.
      op_bind (case staged of Some s \<Rightarrow> op_bind (upload_staged ho s) (\<lambda>_. op_ret ()) | None \<Rightarrow> op_ret ()) (\<lambda>_.
      op_bind (if over res then catch_up_snapshot ho lz4c else op_ret ()) (\<lambda>_. op_ret (mode, res)))) sy = (r, sy')"
    using assms unfolding catch_up_snapshot_def
    by (simp add: after_build_def op_bind_def [of "op_get _"] op_get_def Let_def over_def)
  have last: "if over res then op_bind (catch_up_snapshot ho lz4c) (\<lambda>_. op_ret (mode, res)) sy2 = (r, sy')
      else r = Ok (mode, res) \<and> sy' = sy2"
    if "op_bind (if over res then catch_up_snapshot ho lz4c else op_ret ()) (\<lambda>_. op_ret (mode, res)) sy2 = (r, sy')" for res sy2
    using that by (auto simp: op_bind_def [of "op_ret ()"] op_ret_def split: if_splits)
  have outcome: "out = sf_outcome f" if "upload_staged ho f s = (Ok out, s')" for f s out s'
    using that by (auto simp: upload_staged_def op_try_def Let_def op_bind_Ok op_ret_def split: prod.splits result.splits)
  from run show thesis
  proof (cases rule: op_bind_cases)
    case (step res sy1)
    show thesis
    proof (cases staged)
      case None
      then have "op_bind (if over res then catch_up_snapshot ho lz4c else op_ret ()) (\<lambda>_. op_ret (mode, res)) sy1 = (r, sy')"
        using step(2) by (simp add: op_bind_def [of "op_ret ()"] op_ret_def)
      from uploaded [OF step(1), of sy1] last [OF this] None show thesis
        by (simp add: over_def)
    next
      case (Some f)
      obtain r1 sy2 where up: "upload_staged ho f sy1 = (r1, sy2)" by (cases "upload_staged ho f sy1")
      show thesis
      proof (cases r1)
        case (Ok out)
        then have "op_bind (if over res then catch_up_snapshot ho lz4c else op_ret ()) (\<lambda>_. op_ret (mode, res)) sy2 = (r, sy')"
          using step(2) Some up by (simp add: op_bind_def [of "op_bind _ _"] op_bind_def [of "upload_staged _ _"] op_ret_def)
        from uploaded [OF step(1), of sy2] last [OF this] Some up Ok outcome [of f sy1 out sy2] show thesis
          by (simp add: over_def)
      qed (use upload_failed [OF step(1) Some] step(2) Some up in \<open>auto simp: op_bind_def\<close>)
    qed
  qed (use checkpoint_failed in auto)
qed

lemma checkpoint_keeps_captured_run:
  assumes "good_store objs sy" and "build_next ho lz4c sy = (Ok (Some f), sy1)"
    and "map_of (sy_staging sy1) (sf_path f) = Some b" and "run_checkpoint ho lz4c mode restart_wal sy = (r, sy')"
  shows "objs (sy_store sy') (ltx_key (sy_client sy) (sf_level f) (sf_min f) (sf_max f)) = Some b \<or>
    map_of (sy_staging sy') (sf_path f) = Some b \<and> sy_pos sy' = sy_pos sy \<and> (\<forall>x. r \<noteq> Ok x)"
proof -
  have after: "after_build ho lz4c mode restart_wal (Some f) sy1 = (r, sy')"
    using assms(2,4) by (simp add: run_checkpoint_alt op_bind_def)
  have f: "staged_here sy1 f" "sf_min f = po_txid (sy_pos sy) + 1" "sf_max f = sf_min f" "po_txid (sf_new_pos f) = sf_min f"
    using build_next_Ok [OF assms(2)] build_next_txid [OF assms(2)] by auto
  have same: "sy_client sy1 = sy_client sy" "sy_pos sy1 = sy_pos sy" "good_store objs sy1"
    using keepsD [OF local_build_next assms(2)] assms(1) by (simp_all add: local_step_def good_store_def)
  from after show ?thesis
  proof (cases rule: after_build_cases)
    case (checkpoint_failed r0)
    then show ?thesis
      using on_db_same [OF checkpoint_failed(1)] assms(3) same by auto
  next
    case (upload_failed res sy2 r1 g)
    obtain d where d: "sy2 = sy1\<lparr>sy_db := d\<rparr>"
      using on_db_same [OF upload_failed(1)] by blast
    then have sy2: "good_store objs sy2" "map_of (sy_staging sy2) (sf_path f) = Some b"
      using same assms(3) by (simp_all add: good_store_def)
    show ?thesis
      using upload_staged_any [OF sy2, of ho r1 sy'] upload_failed(2-5) same by (cases r1) (auto simp: d)
  next
    case (uploaded res sy2 sy3)
    obtain d where d: "sy2 = sy1\<lparr>sy_db := d\<rparr>"
      using on_db_same [OF uploaded(1)] by blast
    then have sy2: "good_store objs sy2" "map_of (sy_staging sy2) (sf_path f) = Some b"
      using same assms(3) by (simp_all add: good_store_def)
    have up: "upload_staged ho f sy2 = (Ok (sf_outcome f), sy3)"
      using uploaded(2) by simp
    note stored = upload_staged_any [OF sy2 up]
    have sy3: "objs (sy_store sy3) (ltx_key (sy_client sy) LEVEL0 (sf_min f) (sf_min f)) = Some b"
      "sy_client sy3 = sy_client sy" "po_txid (sy_pos sy3) = sf_min f" "good_store objs sy3"
      using stored same f sy2(1) by (auto simp: d staged_here_def good_store_def)
    have "objs (sy_store sy') (ltx_key (sy_client sy) LEVEL0 (sf_min f) (sf_min f)) = Some b"
    proof (cases "sy' = sy3")
      case False
      then have "op_bind (catch_up_snapshot ho lz4c) (\<lambda>_. op_ret (mode, res)) sy3 = (r, sy')"
        using uploaded(3) by (auto split: if_splits)
      then obtain r' where "catch_up_snapshot ho lz4c sy3 = (r', sy')"
        by (cases rule: op_bind_cases) (auto simp: op_ret_def)
      from catch_up_snapshot_other [OF sy3(4) this, of "sf_min f"] sy3 show ?thesis
        by simp
    qed (use sy3 in simp)
    then show ?thesis
      using f by (simp add: staged_here_def)
  qed
qed

text \<open>
  C10: once a checkpoint cycle has staged the frames it captured, their file is durable for good: whatever
  the checkpoint, the upload or the catch-up snapshot do, it ends stored under its key, or staged
  unchanged with the cycle reporting the failure.
\<close>

theorem checkpoint_keeps_captured_frames:
  assumes "good_store objs sy" and "build_next ho lz4c sy = (Ok (Some f), sy1)"
    and "map_of (sy_staging sy1) (sf_path f) = Some b" and "run_checkpoint ho lz4c mode restart_wal sy = (r, sy')"
  shows "objs (sy_store sy') (ltx_key (sy_client sy) (sf_level f) (sf_min f) (sf_max f)) = Some b \<or>
    map_of (sy_staging sy') (sf_path f) = Some b \<and> sy_pos sy' = sy_pos sy \<and> (\<forall>x. r \<noteq> Ok x)"
  by (rule checkpoint_keeps_captured_run [OF assms])

theorem checkpoint_keeps_captured_frames_witness:
  "\<exists>f sy1 b r sy'. build_next sample_host stored (sample_syncer position_default [] []) = (Ok (Some f), sy1) \<and>
    run_checkpoint sample_host stored Passive True (sample_syncer position_default [] []) = (r, sy') \<and>
    (map_of (sy_store sy') (ltx_key sample_client LEVEL0 1 1) = Some b \<or>
      map_of (sy_staging sy') (staged_ltx_path LEVEL0 1 1) = Some b)"
proof -
  let ?sy = "sample_syncer position_default [] []"
  have "\<exists>f sy1. build_next sample_host stored ?sy = (Ok (Some f), sy1)"
    by (rule sample_build_next [OF sample_syncer_ready]) simp
  then obtain f sy1 where b: "build_next sample_host stored ?sy = (Ok (Some f), sy1)"
    by blast
  have f: "staged_here sy1 f" "sf_min f = 1" "sf_max f = 1"
    using build_next_Ok [OF b] build_next_txid [OF b] by (auto simp: position_default_def)
  then obtain c where c: "map_of (sy_staging sy1) (sf_path f) = Some c"
    by (auto simp: staged_here_def)
  obtain r sy' where run: "run_checkpoint sample_host stored Passive True ?sy = (r, sy')"
    by (cases "run_checkpoint sample_host stored Passive True ?sy")
  show ?thesis
    using checkpoint_keeps_captured_frames [OF sample_good(1) b c run] b run f by (auto simp: staged_here_def)
qed

section \<open>After a failed upload\<close>

text \<open>
  C12: when a checkpoint cycle could not upload the frames it staged, their file is staged, but the position
  has not moved: if the checkpoint restarted the WAL, the next build gives its file the same name and the
  pages of the new WAL only. The staged file is replaced by one without the frames that were
  checkpointed, which no file then holds.
\<close>

theorem retry_overwrites_staged_frames:
  fixes ho :: "'w host" and sy sy2 :: "('w, 's) syncer"
  assumes "good_store objs sy" and "build_next ho lz4c sy = (Ok (Some f), sy1)"
    and "map_of (sy_staging sy1) (sf_path f) = Some b" and "run_checkpoint ho lz4c mode restart_wal sy = (r, sy2)"
    and "objs (sy_store sy2) (ltx_key (sy_client sy) (sf_level f) (sf_min f) (sf_max f)) \<noteq> Some b"
    and "locked_build ho sy2 db_bytes wal" and "length wal < 2 ^ 63" and "wal_reader_new wal = Ok rd"
    and "wh_page_size (w_header rd) = d_page_size (sy_db sy2)" and "po_txid (sy_pos sy) \<noteq> 0"
    and "(wh_salt1 (w_header rd), wh_salt2 (w_header rd)) \<noteq> (po_salt1 (sy_pos sy), po_salt2 (sy_pos sy))"
    and "build_next ho lz4c sy2 = (Ok (Some f'), sy3)"
  shows "map_of (sy_staging sy2) (sf_path f) = Some b \<and> sf_path f' = sf_path f \<and>
    staged_pages lz4c sy3 f' (sf_min f) (d_page_size (sy_db sy2)) (last_commit (read_frames rd))
      (map (\<lambda>p. (p, the (newest_data (read_frames rd) p))) (changed_pages (read_frames rd)))"
proof -
  have kept: "map_of (sy_staging sy2) (sf_path f) = Some b" "sy_pos sy2 = sy_pos sy"
    using checkpoint_keeps_captured_run [OF assms(1-4)] assms(5) by auto
  have f: "staged_here sy1 f" "sf_min f = po_txid (sy_pos sy) + 1" "sf_max f = sf_min f"
    using build_next_Ok [OF assms(2)] build_next_txid [OF assms(2)] by auto
  have pos: "po_txid (sy_pos sy2) \<noteq> 0" and start: "resumes (sy_pos sy2) rd (length wal) 0"
    using assms(10,11) kept(2) by (auto simp: resumes_def)
  have pages: "staged_pages lz4c sy3 f' (sf_min f) (d_page_size (sy_db sy2)) (last_commit (read_frames rd))
      (map (\<lambda>p. (p, the (newest_data (read_frames rd) p))) (changed_pages (read_frames rd)))"
    using build_next_increment [OF assms(12,6,7,8) pos start assms(9)] kept(2) f(2) by simp
  then have "sf_path f' = sf_path f"
    using f by (auto simp: staged_pages_def staged_here_def)
  with kept pages show ?thesis
    by simp
qed

lemma sample_upload_conflict:
  assumes here: "map_of (sy_staging sy) (sf_path f) = Some b" and cl: "sy_client sy = sample_client"
    and other: "map_of (sy_store sy) (ltx_key sample_client (sf_level f) (sf_min f) (sf_max f)) = Some c" "c \<noteq> b"
    and small: "length b < MULTIPART_THRESHOLD"
  shows "upload_staged sample_host f sy = (Err (Equivocation (sf_max f)), sy)"
proof -
  have st: "cl_store sample_client = mem_store"
    by (simp add: sample_client_def replica_client_new_def)
  have rd: "fs_read sample_host (sf_path f) sy = (Ok b, sy)"
    using here by (simp add: fs_read_def op_bind_def sample_fs_op)
  then have len: "fs_len sample_host (sf_path f) sy = (Ok (length b), sy)"
    by (simp add: fs_len_def op_bind_def op_ret_def)
  have put: "on_store (put_ltx_cas sample_client (sf_level f) (sf_min f) (sf_max f) b) sy = (Ok Conflict, sy)"
    using other by (simp add: on_store_run put_ltx_cas_def st mem_store_def Let_def os_res_def)
  have "upload_ltx_file sample_host (sf_level f) (sf_min f) (sf_max f) (sf_path f) sy = (Err (Equivocation (sf_max f)), sy)"
    using small by (simp add: upload_ltx_file_def op_bind_def len op_get_def cl rd put op_fail_def)
  then show ?thesis
    by (simp add: upload_staged_def op_try_def len Let_def op_bind_def)
qed

theorem retry_overwrites_staged_frames_witness:
  "\<exists>store f sy1 b r sy2 f' sy3. build_next sample_host stored (sample_syncer position_one [] store) = (Ok (Some f), sy1) \<and>
    run_checkpoint sample_host stored Passive True (sample_syncer position_one [] store) = (r, sy2) \<and>
    build_next sample_host stored sy2 = (Ok (Some f'), sy3) \<and>
    map_of (sy_staging sy2) (sf_path f) = Some b \<and> sf_path f' = sf_path f \<and>
    staged_pages stored sy3 f' 2 512 2 [(1, replicate 512 1), (2, replicate 512 2)]"
proof -
  let ?store = "[(ltx_key sample_client LEVEL0 2 2, [])]"
  let ?sy = "sample_syncer position_one [] ?store"
  have build: "\<exists>f sy1. build_next sample_host stored sy = (Ok (Some f), sy1)" if "sample_ready 0 2 sy" "sy_pos sy = position_one" for sy
    by (rule sample_build_next [OF that(1)]) (simp add: that(2))
  have "\<exists>f sy1. build_next sample_host stored ?sy = (Ok (Some f), sy1)"
    by (rule build [OF sample_syncer_ready]) simp
  then obtain f sy1 where b: "build_next sample_host stored ?sy = (Ok (Some f), sy1)"
    by blast
  have f: "staged_here sy1 f" "sf_min f = 2" "sf_max f = 2" "sf_level f = LEVEL0"
    using build_next_Ok [OF b] build_next_txid [OF b] by (auto simp: position_one_def staged_here_def)
  then obtain c where c: "map_of (sy_staging sy1) (sf_path f) = Some c"
    by (auto simp: staged_here_def)
  have same: "sy_client sy1 = sample_client" "sy_store sy1 = ?store" "sy_pos sy1 = position_one"
    using keepsD [OF local_build_next b] by (simp_all add: local_step_def)
  have ready1: "sample_ready 0 2 sy1"
    using keepsD [OF rdy.keeps_build_next b] sample_syncer_ready by (simp add: ready_step_def)
  have small: "c \<noteq> []" "length c < MULTIPART_THRESHOLD"
    using sample_staged_length [OF _ sample_syncer_ready b c] by (auto simp: MULTIPART_THRESHOLD_def)
  obtain r sy2 where run: "run_checkpoint sample_host stored Passive True ?sy = (r, sy2)"
    by (cases "run_checkpoint sample_host stored Passive True ?sy")
  have "sample_ready 0 2 sy2"
    using keepsD [OF rdy.keeps_run_checkpoint run] sample_syncer_ready by (simp add: ready_step_def)
  obtain d where d: "checkpoint sample_host Passive True (sy_db sy1) =
      (Ok \<lparr>cr_busy = False, cr_log_frames = 2, cr_checkpointed_frames = 2\<rparr>, d)"
    using sample_checkpoint [OF ready1, of Passive True] by auto
  have ck: "on_db (checkpoint sample_host Passive True) sy1 =
      (Ok \<lparr>cr_busy = False, cr_log_frames = 2, cr_checkpointed_frames = 2\<rparr>, sy1\<lparr>sy_db := d\<rparr>)"
    by (simp add: on_db_def op_on_def op_map_err_def d)
  have "upload_staged sample_host f (sy1\<lparr>sy_db := d\<rparr>) = (Err (Equivocation 2), sy1\<lparr>sy_db := d\<rparr>)"
    using sample_upload_conflict [of "sy1\<lparr>sy_db := d\<rparr>" f c "[]"] c same small f by simp
  then have sy2: "sy2 = sy1\<lparr>sy_db := d\<rparr>"
    using run by (simp add: run_checkpoint_alt op_bind_def b after_build_def op_get_def ck Let_def)
  obtain f' sy3 where b': "build_next sample_host stored sy2 = (Ok (Some f'), sy3)"
    using build [OF \<open>sample_ready 0 2 sy2\<close>] sy2 same by auto
  obtain rd where rd: "wal_reader_new sample_wal = Ok rd" "w_header rd = sample_wal_header" "read_frames rd = sample_frames"
    by (rule sample_wal_reader)
  have ps: "d_page_size (sy_db sy2) = 512"
    using \<open>sample_ready 0 2 sy2\<close> by (simp add: sample_ready_def sample_state_def)
  have "map_of (sy_staging sy2) (sf_path f) = Some c \<and> sf_path f' = sf_path f \<and>
    staged_pages stored sy3 f' (sf_min f) (d_page_size (sy_db sy2)) (last_commit (read_frames rd))
      (map (\<lambda>p. (p, the (newest_data (read_frames rd) p))) (changed_pages (read_frames rd)))"
    by (rule retry_overwrites_staged_frames [OF sample_good(1) b c run _ sample_locked_build [OF \<open>sample_ready 0 2 sy2\<close>] _ rd(1) _ _ _ b'])
      (use small same ps in \<open>simp_all add: sy2 f sample_wal_frames(2) rd(2) sample_salts position_one_def\<close>)
  then have "map_of (sy_staging sy2) (sf_path f) = Some c \<and> sf_path f' = sf_path f \<and>
    staged_pages stored sy3 f' 2 512 2 [(1, replicate 512 1), (2, replicate 512 2)]"
    by (simp add: f ps rd(3) sample_newest sample_changed)
  with b run b' show ?thesis
    by blast
qed

end
