(* ===== verification/Reopening.thy ===== *)
theory Reopening
  imports SyncDurable CheckpointSafety
begin

text \<open>
  Opening a syncer over what an earlier run left staged (\<^verbatim>\<open>Syncer::open\<close>, \<^verbatim>\<open>recover_staging\<close>): each staged
  file reaches the object store byte for byte, in the order of the TXIDs, through any number of
  attempts that fail on the way.
\<close>

section \<open>Uploading one staged file\<close>

lemma fs_remove_cases:
  assumes "fs_remove ho p sy = (r, sy')"
  shows "r = Ok () \<and> sy_staging sy' = AList.delete p (sy_staging sy) \<or> r \<noteq> Ok () \<and> sy_staging sy' = sy_staging sy"
  using assms unfolding fs_remove_def
proof (cases rule: op_bind_cases)
  case (step x sy1)
  then have "sy_staging sy1 = sy_staging sy"
    by (auto simp: on_host_run)
  with step(2) show ?thesis
    by (auto split: option.splits)
qed (auto simp: on_host_run)

lemma fs_len_missing:
  assumes "map_of (sy_staging sy) p = None" and "fs_len ho p sy = (r, sy')"
  shows "\<forall>n. r \<noteq> Ok n"
  using assms by (auto simp: fs_len_def op_bind_Ok dest!: fs_read_same)

lemma upload_moves:
  assumes good: "good_store objs sy" and run: "upload_ltx_file ho l a b p sy = (r, sy')"
  shows "r = Ok () \<and> sy_staging sy' = AList.delete p (sy_staging sy) \<or> r \<noteq> Ok () \<and> sy_staging sy' = sy_staging sy"
    and "sy_client sy' = sy_client sy"
    and "k \<noteq> ltx_key (sy_client sy) l a b \<Longrightarrow> objs (sy_store sy') k = objs (sy_store sy) k"
    and "map_of (sy_staging sy) p = None \<Longrightarrow> sy_store sy' = sy_store sy \<and> r \<noteq> Ok ()"
    and "r = Ok () \<Longrightarrow> objs (sy_store sy') (ltx_key (sy_client sy) l a b) = map_of (sy_staging sy) p"
proof -
  let ?k = "ltx_key (sy_client sy) l a b"
  have "(r = Ok () \<and> sy_staging sy' = AList.delete p (sy_staging sy) \<or> r \<noteq> Ok () \<and> sy_staging sy' = sy_staging sy)
    \<and> sy_client sy' = sy_client sy \<and> (k \<noteq> ?k \<longrightarrow> objs (sy_store sy') k = objs (sy_store sy) k)
    \<and> (map_of (sy_staging sy) p = None \<longrightarrow> sy_store sy' = sy_store sy \<and> r \<noteq> Ok ())
    \<and> (r = Ok () \<longrightarrow> objs (sy_store sy') ?k = map_of (sy_staging sy) p)"
    using run [unfolded upload_ltx_file_def upload_put_def [symmetric]]
  proof (cases rule: op_bind_cases)
    case (step n sy1)
    note same = fs_len_same [OF step(1)]
    have there: "map_of (sy_staging sy) p \<noteq> None"
      using fs_len_missing [OF _ step(1)] by auto
    have good1: "good_store objs sy1"
      using good same by (simp add: good_store_def)
    have "op_bind (upload_put ho l a b p n (sy_client sy1)) (\<lambda>_. fs_remove ho p) sy1 = (r, sy')"
      using step(2) by (simp add: op_bind_def [of "op_get sy_client"] op_get_def)
    then show ?thesis
    proof (cases rule: op_bind_cases)
      case (step u sy2)
      note kept = upload_put_any [OF good1 step(1)] fs_remove_same [OF step(2)] fs_remove_cases [OF step(2)]
      have "objs (sy_store sy2) ?k = map_of (sy_staging sy1) p"
        using upload_put_content [OF good1, of ho l a b p n sy2] step(1) same by simp
      then show ?thesis
        using kept same there by auto
    next
      case (err e)
      then show ?thesis
        using upload_put_any [OF good1 err(1)] same there by auto
    next
      case panic
      then show ?thesis
        using upload_put_any [OF good1 panic(1)] same there by auto
    qed
  qed (simp_all add: fs_len_same)
  then show "r = Ok () \<and> sy_staging sy' = AList.delete p (sy_staging sy) \<or> r \<noteq> Ok () \<and> sy_staging sy' = sy_staging sy"
    and "sy_client sy' = sy_client sy"
    and "k \<noteq> ltx_key (sy_client sy) l a b \<Longrightarrow> objs (sy_store sy') k = objs (sy_store sy) k"
    and "map_of (sy_staging sy) p = None \<Longrightarrow> sy_store sy' = sy_store sy \<and> r \<noteq> Ok ()"
    and "r = Ok () \<Longrightarrow> objs (sy_store sy') (ltx_key (sy_client sy) l a b) = map_of (sy_staging sy) p"
    by blast+
qed

section \<open>Uploading them in order\<close>

text \<open>
  Every staged file whose path reads as a TXID range is at the path the syncer gives that range.
\<close>

definition canonical :: "staging_dir \<Rightarrow> bool" where
  "canonical staging \<longleftrightarrow> list_all (\<lambda>(path, _). case path_range path of None \<Rightarrow> True
     | Some (l, a, b) \<Rightarrow> path = staged_ltx_path l a b \<and> l \<le> MAX_LEVEL) staging"

lemma canonicalD:
  assumes "canonical staging" and "path \<in> fst ` set staging" and "path_range path = Some (l, a, b)"
  shows "path = staged_ltx_path l a b \<and> l \<le> MAX_LEVEL"
proof -
  obtain d where "(path, d) \<in> set staging"
    using assms(2) by (metis imageE prod.collapse)
  from bspec [OF assms(1) [unfolded canonical_def list_all_iff] this] show ?thesis
    unfolding prod.case assms(3) option.case .
qed

lemma canonical_mono: "canonical staging \<Longrightarrow> set staging' \<subseteq> set staging \<Longrightarrow> canonical staging'"
  unfolding canonical_def list_all_iff by (rule ballI, erule bspec, erule subsetD)

lemma staged_path_inj:
  assumes "staged_ltx_path l a b = staged_ltx_path l' a' b'" and "l \<le> MAX_LEVEL" and "l' \<le> MAX_LEVEL"
  shows "(l, a, b) = (l', a', b')"
  using path_range_staged [OF assms(2), of a b] path_range_staged [OF assms(3), of a' b']
  unfolding assms(1) by (metis option.inject)

lemma key_inj:
  assumes "ltx_key cl l a b = ltx_key cl l' a' b'" and "l \<le> MAX_LEVEL" and "l' \<le> MAX_LEVEL"
  shows "(l, a, b) = (l', a', b')"
  using ltx_key_level_inj [OF assms(1) assms(2,3) [unfolded MAX_LEVEL_def]] by simp

text \<open>\<open>c\<close> is still staged for the range, or it is what the store holds for it.\<close>

definition held :: "('s \<Rightarrow> string \<Rightarrow> bytes option) \<Rightarrow> 's replica_client \<Rightarrow> bytes \<Rightarrow> u32 \<times> u64 \<times> u64 \<Rightarrow> 's \<Rightarrow> staging_dir \<Rightarrow> bool" where
  "held objs cl c x s staging \<longleftrightarrow> (case x of (l, a, b) \<Rightarrow>
     map_of staging (staged_ltx_path l a b) = Some c \<or>
     map_of staging (staged_ltx_path l a b) = None \<and> objs s (ltx_key cl l a b) = Some c)"

type_synonym found = "u32 \<times> u64 \<times> u64 \<times> staged_path"

abbreviation uploads :: "'w host \<Rightarrow> found list \<Rightarrow> ('w, 's, unit) sync_op" where
  "uploads ho \<equiv> op_each (\<lambda>(level, mn, mx, path). upload_ltx_file ho level mn mx path)"

definition own_paths :: "found list \<Rightarrow> bool" where
  "own_paths xs \<longleftrightarrow> (\<forall>(l, a, b, path) \<in> set xs. path = staged_ltx_path l a b \<and> l \<le> MAX_LEVEL)"

text \<open>What one upload and a run of them do to the range \<open>x\<close> and to everything else.\<close>

definition moved :: "('s \<Rightarrow> string \<Rightarrow> bytes option) \<Rightarrow> bytes \<Rightarrow> u32 \<times> u64 \<times> u64 \<Rightarrow> ('w, 's) syncer \<Rightarrow> ('w, 's) syncer \<Rightarrow> bool" where
  "moved objs c x sy sy' \<longleftrightarrow> sy_client sy' = sy_client sy \<and> set (sy_staging sy') \<subseteq> set (sy_staging sy) \<and>
    (held objs (sy_client sy) c x (sy_store sy) (sy_staging sy) \<longrightarrow>
      held objs (sy_client sy) c x (sy_store sy') (sy_staging sy')) \<and>
    (\<forall>p. map_of (sy_staging sy) p = None \<longrightarrow> map_of (sy_staging sy') p = None)"

interpretation mov: state_order "moved objs c x" for objs c x
  by unfold_locales (auto simp: moved_def)

lemma moved_local:
  "sy_client sy' = sy_client sy \<Longrightarrow> sy_store sy' = sy_store sy \<Longrightarrow> sy_staging sy' = sy_staging sy \<Longrightarrow> moved objs c x sy sy'"
  by (simp add: moved_def)

lemma moved_gone: "moved objs c x sy sy' \<Longrightarrow> map_of (sy_staging sy) p = None \<Longrightarrow> map_of (sy_staging sy') p = None"
  unfolding moved_def by blast

lemma map_of_delete: "map_of (AList.delete p stg) q = (if q = p then None else map_of stg q)"
  by (simp add: delete_conv')

lemma set_delete: "set (AList.delete p stg) \<subseteq> set stg"
  by (auto simp: AList.delete_eq)

lemma upload_moved:
  assumes good: "good_store objs sy" and run: "upload_ltx_file ho l a b (staged_ltx_path l a b) sy = (r, sy')"
    and l: "l \<le> MAX_LEVEL" "fst x \<le> MAX_LEVEL"
  shows "moved objs c x sy sy'"
proof -
  obtain l' a' b' where x: "x = (l', a', b')" by (cases x)
  let ?p = "staged_ltx_path l a b" and ?q = "staged_ltx_path l' a' b'"
  note up = upload_moves [OF good run]
  have "held objs (sy_client sy) c x (sy_store sy') (sy_staging sy')"
    if h: "held objs (sy_client sy) c x (sy_store sy) (sy_staging sy)"
  proof (cases "(l, a, b) = (l', a', b')")
    case True
    then show ?thesis
      using h up(1,4,5) by (auto simp: held_def x map_of_delete)
  next
    case False
    then have "?q \<noteq> ?p" "ltx_key (sy_client sy) l' a' b' \<noteq> ltx_key (sy_client sy) l a b"
      using staged_path_inj [of l a b l' a' b'] key_inj [of _ l a b l' a' b'] l x by (metis fst_conv)+
    then show ?thesis
      using h up(1) up(3) [of "ltx_key (sy_client sy) l' a' b'"] by (auto simp: held_def x map_of_delete)
  qed
  moreover have "set (sy_staging sy') \<subseteq> set (sy_staging sy)"
    using up(1) set_delete [of "staged_ltx_path l a b" "sy_staging sy"] by auto
  ultimately show ?thesis
    using up(1,2) by (auto simp: moved_def map_of_delete)
qed

lemma uploads_moved:
  assumes "good_store objs sy" and "uploads ho xs sy = (r, sy')" and "own_paths xs" and "fst x \<le> MAX_LEVEL"
  shows "moved objs c x sy sy'"
  using assms
proof (induction xs arbitrary: sy)
  case (Cons y ys)
  obtain l a b where y: "y = (l, a, b, staged_ltx_path l a b)" "l \<le> MAX_LEVEL" and ys: "own_paths ys"
    using Cons.prems(3) by (cases y) (auto simp: own_paths_def)
  have "op_bind (upload_ltx_file ho l a b (staged_ltx_path l a b)) (\<lambda>_. uploads ho ys) sy = (r, sy')"
    using Cons.prems(2) y(1) by simp
  then show ?case
  proof (cases rule: op_bind_cases)
    case (step u sy1)
    have 1: "moved objs c x sy sy1"
      by (rule upload_moved [OF Cons.prems(1) step(1) y(2) Cons.prems(4)])
    then have "good_store objs sy1"
      using Cons.prems(1) by (simp add: good_store_def moved_def)
    from mov.trans [OF 1 Cons.IH [OF this step(2) ys Cons.prems(4)]] show ?thesis .
  next
    case err
    show ?thesis by (rule upload_moved [OF Cons.prems(1) err(1) y(2) Cons.prems(4)])
  next
    case panic
    show ?thesis by (rule upload_moved [OF Cons.prems(1) panic(1) y(2) Cons.prems(4)])
  qed
qed (simp add: op_ret_def mov.refl)

text \<open>
  A file is gone from staging when the run returns, or once it has touched the object of a later range:
  the uploads are in order.
\<close>

abbreviation (input) upload_order :: "found \<Rightarrow> u64 \<times> u64 \<times> u32" where
  "upload_order \<equiv> \<lambda>(level, mn, mx, _). (mn, mx, level)"

lemma uploads_order:
  assumes "good_store objs sy" and "uploads ho xs sy = (r, sy')" and "own_paths xs" and "sorted (map upload_order xs)"
    and "(l, a, b, p) \<in> set xs" and "l' \<le> MAX_LEVEL" and "(a, b, l) < (a', b', l')"
    and "r = Ok () \<or> objs (sy_store sy') (ltx_key (sy_client sy) l' a' b') \<noteq> objs (sy_store sy) (ltx_key (sy_client sy) l' a' b')"
  shows "map_of (sy_staging sy') p = None"
  using assms(1-5,8)
proof (induction xs arbitrary: sy)
  case (Cons y ys)
  let ?k = "ltx_key (sy_client sy) l' a' b'"
  obtain m e f where y: "y = (m, e, f, staged_ltx_path m e f)" "m \<le> MAX_LEVEL" and ys: "own_paths ys"
    using Cons.prems(3) by (cases y) (auto simp: own_paths_def)
  have le: "(e, f, m) \<le> (a, b, l)"
    using Cons.prems(4,5) y(1) by (force simp: Ball_def)
  then have "(m, e, f) \<noteq> (l', a', b')"
    using assms(7) by auto
  then have other: "?k \<noteq> ltx_key (sy_client sy) m e f"
    using key_inj [of "sy_client sy" l' a' b' m e f] y(2) assms(6) by metis
  have "op_bind (upload_ltx_file ho m e f (staged_ltx_path m e f)) (\<lambda>_. uploads ho ys) sy = (r, sy')"
    using Cons.prems(2) y(1) by simp
  then show ?case
  proof (cases rule: op_bind_cases)
    case (step u sy1)
    note up = upload_moves [OF Cons.prems(1) step(1)]
    have good1: "good_store objs sy1"
      using Cons.prems(1) up(2) up(3) by (simp add: good_store_def)
    show ?thesis
    proof (cases "(l, a, b, p) \<in> set ys")
      case True
      have "sorted (map upload_order ys)"
        using Cons.prems(4) by simp
      from Cons.IH [OF good1 step(2) ys this True] show ?thesis
        using Cons.prems(6) up(2) up(3) [OF other] by simp
    next
      case False
      then have "map_of (sy_staging sy1) p = None"
        using Cons.prems(5) y(1) up(1) by (auto simp: map_of_delete)
      moreover have "moved objs [] (l', a', b') sy1 sy'"
        by (rule uploads_moved [OF good1 step(2) ys]) (simp add: assms(6))
      ultimately show ?thesis
        by (simp add: moved_gone)
    qed
  next
    case (err e)
    then show ?thesis
      using Cons.prems(6) upload_moves(3) [OF Cons.prems(1) err(1) other] by simp
  next
    case panic
    then show ?thesis
      using Cons.prems(6) upload_moves(3) [OF Cons.prems(1) panic(1) other] by simp
  qed
qed simp

lemma uploads_gone:
  assumes "good_store objs sy" and "uploads ho xs sy = (Ok (), sy')" and "own_paths xs" and "(l, a, b, p) \<in> set xs"
  shows "map_of (sy_staging sy') p = None"
  using assms
proof (induction xs arbitrary: sy)
  case (Cons y ys)
  obtain m e f where y: "y = (m, e, f, staged_ltx_path m e f)" "m \<le> MAX_LEVEL" and ys: "own_paths ys"
    using Cons.prems(3) by (cases y) (auto simp: own_paths_def)
  obtain sy1 where step: "upload_ltx_file ho m e f (staged_ltx_path m e f) sy = (Ok (), sy1)" "uploads ho ys sy1 = (Ok (), sy')"
    using Cons.prems(2) y(1) by (auto simp: op_bind_Ok)
  note up = upload_moves [OF Cons.prems(1) step(1)]
  have good1: "good_store objs sy1"
    using Cons.prems(1) up(2) by (simp add: good_store_def)
  have rest: "moved objs [] (0, 0, 0) sy1 sy'"
    by (rule uploads_moved [OF good1 step(2) ys]) simp
  show ?case
  proof (cases "(l, a, b, p) \<in> set ys")
    case True
    then show ?thesis
      by (rule Cons.IH [OF good1 step(2) ys])
  next
    case False
    then have "map_of (sy_staging sy1) p = None"
      using Cons.prems(4) y(1) up(1) by (auto simp: map_of_delete)
    then show ?thesis
      by (rule moved_gone [OF rest])
  qed
qed simp

section \<open>Listing the directory\<close>

lemma op_map_member:
  "op_map f xs s = (Ok ys, s') \<Longrightarrow> x \<in> set xs \<Longrightarrow> \<exists>y \<in> set ys. \<exists>s1 s2. f x s1 = (Ok y, s2)"
  by (induction xs arbitrary: s ys) (auto simp: op_bind_Ok op_ret_def, blast+)

lemma op_map_from:
  "op_map f xs s = (Ok ys, s') \<Longrightarrow> y \<in> set ys \<Longrightarrow> \<exists>x \<in> set xs. \<exists>s1 s2. f x s1 = (Ok y, s2)"
  by (induction xs arbitrary: s ys) (auto simp: op_bind_Ok op_ret_def, blast+)

lemma op_try_ret: "op_try m (\<lambda>_. op_ret z) s = (Ok y, s') \<Longrightarrow> y = z"
  by (auto simp: op_try_def op_ret_def split: prod.splits result.splits)

lemma recover_entry_finds:
  assumes "recover_entry ho q sy = (Ok xs, sy')"
  shows "(l, a, b, p) \<in> set xs \<longleftrightarrow> p = q \<and> path_range q = Some (l, a, b) \<and> \<not> ends_with (snd q) ''.ltx.tmp''"
  using assms unfolding recover_entry_def path_range_def
  by (auto simp: op_ret_def op_bind_Ok split: option.splits if_splits prod.splits dest!: op_try_ret)

lemma moved_host: "keeps (moved objs c x) (on_host m)" "keeps (moved objs c x) (on_db m')"
  unfolding on_host_def on_db_def by (rule mov.keeps_on, rule moved_local; simp)+

lemma recover_entry_moved: "keeps (moved objs c x) (recover_entry ho q)"
proof -
  have "moved objs c x sy sy'" if run: "fs_remove ho q sy = (r, sy')" and tmp: "ends_with (snd q) ''.ltx.tmp''" for sy sy' r
  proof -
    obtain l a b where x: "x = (l, a, b)" by (cases x)
    have "staged_ltx_path l a b \<noteq> q"
      using tmp_entry [OF tmp, of "fst q" l a b] by auto
    then show ?thesis
      using fs_remove_same [OF run] fs_remove_cases [OF run] set_delete [of q "sy_staging sy"] by (auto simp: moved_def held_def x map_of_delete)
  qed
  then have "keeps (moved objs c x) (fs_remove ho q)" if "ends_with (snd q) ''.ltx.tmp''"
    using that by (blast intro: keepsI)
  then show ?thesis
    unfolding recover_entry_def
    by (auto intro!: mov.keeps_bind mov.keeps_try mov.keeps_pure moved_host split: option.split)
qed

text \<open>Listing changes no object.\<close>

definition same_store :: "('w, 's) syncer \<Rightarrow> ('w, 's) syncer \<Rightarrow> bool" where
  "same_store sy sy' \<longleftrightarrow> sy_store sy' = sy_store sy"

interpretation sto: staging_order same_store ho for ho
  by unfold_locales (auto simp: same_store_def system_now_def on_host_run keeps_def split: prod.splits)

lemma recover_entry_store: "keeps same_store (recover_entry ho q)"
  unfolding recover_entry_def
  by (auto intro!: sto.keeps_bind sto.keeps_try sto.keeps_pure sto.host_fs sto.keeps_fs split: option.split)

section \<open>Recovery\<close>

text \<open>A directory that is there is never reported missing.\<close>

definition listed :: "'w host \<Rightarrow> bool" where
  "listed ho \<longleftrightarrow> (\<forall>w. fst (ho_fault ho w) \<noteq> Some NotFound)"

lemma recover_found:
  fixes ho :: "'w host" and sy sy1 sy2 :: "('w, 's) syncer"
  assumes found: "op_map (recover_entry ho) (map fst (sy_staging sy)) sy1 = (Ok found, sy2)"
    and can: "canonical (sy_staging sy)"
  defines "xs \<equiv> sort_key upload_order (concat found)"
  shows "own_paths xs" and "sorted (map upload_order xs)"
    and "l \<le> MAX_LEVEL \<Longrightarrow> map_of (sy_staging sy) (staged_ltx_path l a b) \<noteq> None \<Longrightarrow> (l, a, b, staged_ltx_path l a b) \<in> set xs"
proof -
  have "p = staged_ltx_path l a b \<and> l \<le> MAX_LEVEL" if mem: "(l, a, b, p) \<in> set xs" for l a b p
  proof -
    obtain ys where ys: "ys \<in> set found" "(l, a, b, p) \<in> set ys"
      using mem by (auto simp: xs_def)
    from op_map_from [OF found ys(1)] obtain q and s1 s2 :: "('w, 's) syncer" where q: "q \<in> set (map fst (sy_staging sy))"
      "recover_entry ho q s1 = (Ok ys, s2)"
      by blast
    have "p = q" "path_range q = Some (l, a, b)"
      using recover_entry_finds [OF q(2)] ys(2) by blast+
    then show ?thesis
      using canonicalD [OF can, of q l a b] q(1) by simp
  qed
  then show "own_paths xs"
    unfolding own_paths_def by blast
  show "sorted (map upload_order xs)"
    unfolding xs_def by (rule sorted_sort_key)
  assume l: "l \<le> MAX_LEVEL" and "map_of (sy_staging sy) (staged_ltx_path l a b) \<noteq> None"
  then have "staged_ltx_path l a b \<in> set (map fst (sy_staging sy))"
    by (auto dest!: map_of_SomeD intro: rev_image_eqI)
  from op_map_member [OF found this] obtain ys and s1 s2 :: "('w, 's) syncer" where ys: "ys \<in> set found"
    "recover_entry ho (staged_ltx_path l a b) s1 = (Ok ys, s2)"
    by blast
  have "\<not> ends_with (snd (staged_ltx_path l a b)) ''.ltx.tmp''"
    using tmp_entry [of "snd (staged_ltx_path l a b)" "fst (staged_ltx_path l a b)" l a b] by auto
  then have "(l, a, b, staged_ltx_path l a b) \<in> set ys"
    using recover_entry_finds [OF ys(2)] path_range_staged [OF l] by blast
  then show "(l, a, b, staged_ltx_path l a b) \<in> set xs"
    using ys(1) by (auto simp: xs_def)
qed

text \<open>Recovery stops before it touches an object, or it is a run of uploads in order.\<close>

lemma recover_cases:
  fixes ho :: "'w host" and sy :: "('w, 's) syncer"
  assumes can: "canonical (sy_staging sy)" and ho: "listed ho" and run: "recover_staging ho sy = (r, sy')"
  obtains (stopped) "r \<noteq> Ok ()" and "sy_store sy' = sy_store sy" and "\<And>objs c x. moved objs c x sy sy'"
  | (uploading) xs sy1 where "uploads ho xs sy1 = (r, sy')" and "own_paths xs" and "sorted (map upload_order xs)"
      and "\<And>l a b. l \<le> MAX_LEVEL \<Longrightarrow> map_of (sy_staging sy) (staged_ltx_path l a b) \<noteq> None \<Longrightarrow>
        (l, a, b, staged_ltx_path l a b) \<in> set xs"
      and "sy_store sy1 = sy_store sy" and "\<And>objs c x. moved objs c x sy sy1"
proof -
  obtain r0 sy0 where fs: "on_host (fs_op ho) sy = (r0, sy0)" by (cases "on_host (fs_op ho) sy")
  have same: "sy_client sy0 = sy_client sy" "sy_store sy0 = sy_store sy" "sy_staging sy0 = sy_staging sy"
    using fs by (auto simp: on_host_run)
  have listing: "sy_store sy2 = sy_store sy" "moved objs c x sy sy2"
    if "op_map (recover_entry ho) es sy0 = (q, sy2)" for es q sy2 objs c x
    using keepsD [OF mov.keeps_map [OF recover_entry_moved] that] keepsD [OF sto.keeps_map [OF recover_entry_store] that]
    by (simp_all add: moved_def same_store_def same)
  show thesis
  proof (cases r0)
    case (Ok x)
    have "op_bind (op_map (recover_entry ho) (map fst (sy_staging sy0))) (\<lambda>found.
        uploads ho (sort_key upload_order (concat found))) sy0 = (r, sy')"
      using run fs Ok by (simp add: recover_staging_def op_try_def op_bind_def [of "op_get _"] op_get_def Let_def)
    then show thesis
    proof (cases rule: op_bind_cases)
      case (step ys sy1)
      from recover_found [OF step(1) can [folded same(3)]] show thesis
        using uploading [OF step(2)] listing [OF step(1)] same(3) by simp
    qed (use listing stopped in blast)+
  next
    case (Err e)
    have "fst (ho_fault ho w) = Some NotFound" if "fs_op ho w = (q, w')" "Err (SyncIo NotFound) = rmap_err SyncIo q" for q w w'
      using that by (cases q) (auto simp: fs_op_def split: prod.splits option.splits)
    then have "e \<noteq> SyncIo NotFound"
      using ho fs Err unfolding listed_def on_host_run by blast
    then have "r \<noteq> Ok ()" "sy' = sy0"
      using run fs Err by (auto simp: recover_staging_def op_try_def op_fail_def)
    then show thesis
      using stopped same moved_local by blast
  next
    case Panic
    then have "r \<noteq> Ok ()" "sy' = sy0"
      using run fs by (auto simp: recover_staging_def op_try_def)
    then show thesis
      using stopped same moved_local by blast
  qed
qed

lemma recover_delivers:
  assumes good: "good_store objs sy" and can: "canonical (sy_staging sy)" and ho: "listed ho"
    and l: "l \<le> MAX_LEVEL" and run: "recover_staging ho sy = (r, sy')"
  shows "moved objs c (l, a, b) sy sy'"
    and "r = Ok () \<Longrightarrow> map_of (sy_staging sy') (staged_ltx_path l a b) = None"
    and "l' \<le> MAX_LEVEL \<Longrightarrow> (a, b, l) < (a', b', l') \<Longrightarrow>
        objs (sy_store sy') (ltx_key (sy_client sy) l' a' b') \<noteq> objs (sy_store sy) (ltx_key (sy_client sy) l' a' b') \<Longrightarrow>
      map_of (sy_staging sy') (staged_ltx_path l a b) = None"
proof -
  let ?p = "staged_ltx_path l a b" and ?k = "ltx_key (sy_client sy) l' a' b'"
  have "moved objs c (l, a, b) sy sy' \<and> (r = Ok () \<longrightarrow> map_of (sy_staging sy') ?p = None) \<and>
    (l' \<le> MAX_LEVEL \<and> (a, b, l) < (a', b', l') \<and> objs (sy_store sy') ?k \<noteq> objs (sy_store sy) ?k \<longrightarrow>
      map_of (sy_staging sy') ?p = None)"
    using can ho run
  proof (cases rule: recover_cases)
    case stopped
    then show ?thesis by simp
  next
    case (uploading xs sy1)
    have client: "sy_client sy1 = sy_client sy"
      using uploading(6) by (simp add: moved_def)
    have good1: "good_store objs sy1"
      using good client by (simp add: good_store_def)
    have all: "moved objs c (l, a, b) sy sy'"
      using mov.trans [OF uploading(6) uploads_moved [OF good1 uploading(1,2)]] l by simp
    show ?thesis
    proof (cases "map_of (sy_staging sy) ?p = None")
      case True
      then show ?thesis
        using all moved_gone [OF all] by blast
    next
      case False
      note mem = uploading(4) [OF l False]
      show ?thesis
        using all uploads_gone [OF good1 _ uploading(2) mem] uploading(1,5) client
          uploads_order [OF good1 uploading(1,2,3) mem, of l' a' b'] by auto
    qed
  qed
  then show "moved objs c (l, a, b) sy sy'"
    and "r = Ok () \<Longrightarrow> map_of (sy_staging sy') ?p = None"
    and "l' \<le> MAX_LEVEL \<Longrightarrow> (a, b, l) < (a', b', l') \<Longrightarrow> objs (sy_store sy') ?k \<noteq> objs (sy_store sy) ?k \<Longrightarrow>
      map_of (sy_staging sy') ?p = None"
    by blast+
qed

section \<open>Opening\<close>

text \<open>Apart from recovery, opening touches neither the store nor the staged files.\<close>

definition settled :: "('w, 's) syncer \<Rightarrow> ('w, 's) syncer \<Rightarrow> bool" where
  "settled sy sy' \<longleftrightarrow> sy_client sy' = sy_client sy \<and> sy_store sy' = sy_store sy \<and> sy_staging sy' = sy_staging sy"

interpretation stl: state_order settled
  by unfold_locales (auto simp: settled_def)

lemma open_recovers:
  assumes "syncer_open ho db cl s staging = (r, sy)"
  obtains (locked_out) "\<forall>lk. fst (process_lock_acquire ho (d_path db) (d_world db)) \<noteq> Ok lk"
      and "r \<noteq> Ok ()" and "sy_store sy = s" and "sy_staging sy = staging"
  | (recovered) sy0 r1 sy1 where "sy_client sy0 = cl" and "sy_store sy0 = s" and "sy_staging sy0 = staging"
      and "recover_staging ho sy0 = (r1, sy1)" and "settled sy1 sy" and "r = Ok () \<Longrightarrow> r1 = Ok ()"
proof -
  let ?lock = "op_on sy_db (\<lambda>d sy. sy\<lparr>sy_db := d\<rparr>) (op_map_err SyncLock (on_world (process_lock_acquire ho (d_path db))))"
  have lock: "keeps settled ?lock"
    by (rule stl.keeps_on) (simp add: settled_def)
  have rest: "keeps settled (op_bind (on_store (\<lambda>s. (list_all_ltx cl MAX_LEVEL s, s))) (\<lambda>listed.
    let files = foldl (\<lambda>fi f. fi_insert f fi) fi_empty listed in
    op_bind (\<lambda>sy. (derive_position cl (sy_store sy) files, sy)) (\<lambda>pos.
    op_bind (on_db (acquire_read_lock ho)) (\<lambda>_.
    op_modify (\<lambda>sy. sy\<lparr>sy_pos := pos, sy_files := files\<rparr>)))))"
    unfolding Let_def on_store_def on_db_def
    by (intro stl.keeps_bind stl.keeps_modify stl.keeps_on)
      (auto simp: settled_def keeps_def op_map_err_def)
  from assms [unfolded syncer_open_def] show thesis
  proof (cases rule: op_bind_cases)
    case (step lk sy2)
    note l = keepsD [OF lock step(1)]
    from step(2) show thesis
    proof (cases rule: op_bind_cases)
      case (step u sy3)
      have at: "sy_client sy3 = cl" "sy_store sy3 = s" "sy_staging sy3 = staging"
        using step(1) l by (auto simp: op_modify_def settled_def)
      from step(2) show thesis
      proof (cases rule: op_bind_cases)
        case (err e)
        then show thesis
          using recovered [OF at err(1)] by (simp add: stl.refl)
      next
        case panic
        then show thesis
          using recovered [OF at panic(1)] by (simp add: stl.refl)
      next
        case (step v sy4)
        then show thesis
          using recovered [OF at step(1) keepsD [OF rest step(2)]] by simp
      qed
    qed (auto simp: op_modify_def)
  next
    case (err e)
    have "\<forall>lk. fst (process_lock_acquire ho (d_path db) (d_world db)) \<noteq> Ok lk"
      using err(1) by (auto simp: op_on_def op_map_err_def on_world_def split: prod.splits)
    then show thesis
      using locked_out keepsD [OF lock err(1)] err(2) by (simp add: settled_def)
  next
    case panic
    have "\<forall>lk. fst (process_lock_acquire ho (d_path db) (d_world db)) \<noteq> Ok lk"
      using panic(1) by (auto simp: op_on_def op_map_err_def on_world_def split: prod.splits)
    then show thesis
      using locked_out keepsD [OF lock panic(1)] panic(2) by (simp add: settled_def)
  qed
qed

text \<open>One attempt at opening, whatever it returns, over what the attempts before left.\<close>

inductive open_attempt :: "'w host \<Rightarrow> 's replica_client \<Rightarrow> 's \<times> staging_dir \<Rightarrow> 's \<times> staging_dir \<Rightarrow> bool"
  for ho :: "'w host" and cl :: "'s replica_client" where
  attempt: "syncer_open ho db cl s staging = (r, sy) \<Longrightarrow> open_attempt ho cl (s, staging) (sy_store sy, sy_staging sy)"

inductive_cases open_attemptE: "open_attempt ho cl (s, staging) (s', staging')"

lemma open_delivers:
  assumes store: "store_ok (cl_store cl) objs" "fault_law (cl_store cl) objs" and can: "canonical staging" and ho: "listed ho"
    and l: "l \<le> MAX_LEVEL" and held: "held objs cl c (l, a, b) s staging"
    and run: "syncer_open ho db cl s staging = (r, sy)"
  shows "canonical (sy_staging sy)" and "held objs cl c (l, a, b) (sy_store sy) (sy_staging sy)"
    and "map_of staging p = None \<Longrightarrow> map_of (sy_staging sy) p = None"
    and "r = Ok () \<Longrightarrow> map_of (sy_staging sy) (staged_ltx_path l a b) = None"
    and "l' \<le> MAX_LEVEL \<Longrightarrow> (a, b, l) < (a', b', l') \<Longrightarrow> objs (sy_store sy) (ltx_key cl l' a' b') \<noteq> objs s (ltx_key cl l' a' b') \<Longrightarrow>
      map_of (sy_staging sy) (staged_ltx_path l a b) = None"
proof -
  have "canonical (sy_staging sy) \<and> held objs cl c (l, a, b) (sy_store sy) (sy_staging sy) \<and>
    (map_of staging p = None \<longrightarrow> map_of (sy_staging sy) p = None) \<and>
    (r = Ok () \<or> l' \<le> MAX_LEVEL \<and> (a, b, l) < (a', b', l') \<and>
        objs (sy_store sy) (ltx_key cl l' a' b') \<noteq> objs s (ltx_key cl l' a' b') \<longrightarrow>
      map_of (sy_staging sy) (staged_ltx_path l a b) = None)"
    using run
  proof (cases rule: open_recovers)
    case locked_out
    then show ?thesis using can held by simp
  next
    case (recovered sy0 r1 sy1)
    have good: "good_store objs sy0" and can0: "canonical (sy_staging sy0)"
      using store can recovered(1,3) by (simp_all add: good_store_def)
    note del = recover_delivers [OF good can0 ho l recovered(4)]
    have all: "moved objs c (l, a, b) sy0 sy1"
      by (rule del(1))
    then have "canonical (sy_staging sy1)" "held objs cl c (l, a, b) (sy_store sy1) (sy_staging sy1)"
      using canonical_mono [OF can0] held recovered(1-3) by (simp_all add: moved_def)
    then show ?thesis
      using moved_gone [OF all, of p] del(2) [of a b] del(3) [where a = a and b = b and l' = l' and a' = a' and b' = b'] recovered(1-3,5,6) by (auto simp: settled_def)
  qed
  then show "canonical (sy_staging sy)" and "held objs cl c (l, a, b) (sy_store sy) (sy_staging sy)"
    and "map_of staging p = None \<Longrightarrow> map_of (sy_staging sy) p = None"
    and "r = Ok () \<Longrightarrow> map_of (sy_staging sy) (staged_ltx_path l a b) = None"
    and "l' \<le> MAX_LEVEL \<Longrightarrow> (a, b, l) < (a', b', l') \<Longrightarrow> objs (sy_store sy) (ltx_key cl l' a' b') \<noteq> objs s (ltx_key cl l' a' b') \<Longrightarrow>
      map_of (sy_staging sy) (staged_ltx_path l a b) = None"
    by blast+
qed

section \<open>A directory with two files\<close>

text \<open>Two files that an earlier run left, in the order the directory lists them.\<close>

definition left_over :: staging_dir where
  "left_over = [(staged_ltx_path LEVEL0 2 2, header_encode (sample_header 2 2 1)),
    (staged_ltx_path LEVEL0 1 1, header_encode (sample_header 1 1 1))]"

lemma level0_range [simp]: "path_range (staged_ltx_path LEVEL0 a b) = Some (LEVEL0, a, b)"
  by (rule path_range_staged) (simp add: LEVEL0_def)

lemma level0_path_eq [simp]: "staged_ltx_path LEVEL0 a b = staged_ltx_path LEVEL0 c d \<longleftrightarrow> (a, b) = (c, d)"
  using staged_path_inj [of LEVEL0 a b LEVEL0 c d] by (auto simp: LEVEL0_def)

lemma sample_recover_entry:
  "recover_entry sample_host (staged_ltx_path LEVEL0 a b) sy = (Ok [(LEVEL0, a, b, staged_ltx_path LEVEL0 a b)], sy)"
proof -
  have "\<not> ends_with (snd (staged_ltx_path LEVEL0 a b)) ''.ltx.tmp''"
    using tmp_entry [of "snd (staged_ltx_path LEVEL0 a b)" "fst (staged_ltx_path LEVEL0 a b)" LEVEL0 a b] by auto
  then show ?thesis
    using level_name [of LEVEL0]
    by (simp add: recover_entry_def op_bind_def sample_fs_op op_ret_def staged_ltx_path_def parse_filename LEVEL0_def)
qed

lemma sample_deliver:
  assumes "map_of (sy_staging sy) p = Some b" and "sy_client sy = sample_client"
    and "map_of (sy_store sy) (ltx_key sample_client l mn mx) = None" and "length b < MULTIPART_THRESHOLD"
  shows "upload_ltx_file sample_host l mn mx p sy = (Ok (), sy\<lparr>sy_store := (ltx_key sample_client l mn mx, b) # sy_store sy,
    sy_staging := AList.delete p (sy_staging sy)\<rparr>)"
proof -
  have st: "cl_store sample_client = mem_store"
    by (simp add: sample_client_def replica_client_new_def)
  have rd: "fs_read sample_host p sy = (Ok b, sy)"
    using assms(1) by (simp add: fs_read_def op_bind_def sample_fs_op)
  then have len: "fs_len sample_host p sy = (Ok (length b), sy)"
    by (simp add: fs_len_def op_bind_def op_ret_def)
  let ?sy = "sy\<lparr>sy_store := (ltx_key sample_client l mn mx, b) # sy_store sy\<rparr>"
  have put: "on_store (put_ltx_cas sample_client l mn mx b) sy = (Ok Created, ?sy)"
    using assms(3) by (simp add: on_store_run put_ltx_cas_def st mem_store_def Let_def)
  have "fs_remove sample_host p ?sy = (Ok (), ?sy\<lparr>sy_staging := AList.delete p (sy_staging sy)\<rparr>)"
    using assms(1) by (simp add: fs_remove_def op_bind_def sample_fs_op)
  then show ?thesis
    using assms(4) by (simp add: upload_ltx_file_def op_bind_def len op_get_def assms(2) rd put op_ret_def)
qed

lemma sample_recover:
  assumes "sy_client sy = sample_client" and "sy_store sy = []" and "sy_staging sy = left_over"
  shows "\<exists>sy'. recover_staging sample_host sy = (Ok (), sy') \<and> sy_staging sy' = []"
proof -
  have small: "length (header_encode h) < MULTIPART_THRESHOLD" for h
    by (simp add: MULTIPART_THRESHOLD_def)
  have keys: "ltx_key sample_client LEVEL0 1 1 \<noteq> ltx_key sample_client LEVEL0 2 2"
    by (simp add: ltx_key_l0_inj)
  have order: "sort_key upload_order [(LEVEL0, 2, 2, p), (LEVEL0, 1, 1, q)] = [(LEVEL0, 1, 1, q), (LEVEL0, 2, 2, p)]" for p q :: staged_path
    by (simp add: word_le_nat_alt)
  show ?thesis
    using assms small keys
    by (simp add: recover_staging_def op_try_def sample_fs_op op_bind_def [of "op_get _"] op_get_def left_over_def
        op_bind_def sample_recover_entry op_ret_def Let_def sample_deliver delete_conv' AList.delete_eq)
qed

lemma sample_open:
  "\<exists>r sy. syncer_open sample_host (sample_db [] (Ok [0, 2, 2])) sample_client [] left_over = (r, sy) \<and> sy_staging sy = []"
proof -
  let ?db = "sample_db [] (Ok [0, 2, 2])"
  obtain r sy where run: "syncer_open sample_host ?db sample_client [] left_over = (r, sy)"
    by (cases "syncer_open sample_host ?db sample_client [] left_over")
  from run show ?thesis
  proof (cases rule: open_recovers)
    case locked_out
    then show ?thesis
      by (simp add: process_lock_acquire_def Let_def op_bind_def op_map_err_def fs_op_def sample_host_def)
  next
    case (recovered sy0 r1 sy1)
    then show ?thesis
      using sample_recover [of sy0] run by (auto simp: settled_def)
  qed
qed

section \<open>The property\<close>

text \<open>
  C9: where the staging directory holds only files the syncer named and is never reported missing, any number of
  attempts at opening, whatever they return, leaves each staged file staged with the same bytes, or the store
  holds those bytes under the key of its range. Nothing of a later range reaches the store before it. Once opening
  succeeds the store holds the bytes and the file is no longer staged.
\<close>

theorem reopening_delivers_staged_files:
  assumes "store_ok (cl_store cl) objs" and "fault_law (cl_store cl) objs" and "listed ho"
    and "canonical staging" and "l \<le> MAX_LEVEL" and "map_of staging (staged_ltx_path l a b) = Some c"
    and "(open_attempt ho cl)\<^sup>*\<^sup>* (s, staging) (s1, staging1)"
  shows "(map_of staging1 (staged_ltx_path l a b) = Some c \<or>
      map_of staging1 (staged_ltx_path l a b) = None \<and> objs s1 (ltx_key cl l a b) = Some c) \<and>
    (\<forall>l' a' b'. l' \<le> MAX_LEVEL \<and> (a, b, l) < (a', b', l') \<and> objs s1 (ltx_key cl l' a' b') \<noteq> objs s (ltx_key cl l' a' b') \<longrightarrow>
      objs s1 (ltx_key cl l a b) = Some c) \<and>
    (\<forall>db sy. syncer_open ho db cl s1 staging1 = (Ok (), sy) \<longrightarrow>
      map_of (sy_staging sy) (staged_ltx_path l a b) = None \<and> objs (sy_store sy) (ltx_key cl l a b) = Some c)"
proof -
  let ?p = "staged_ltx_path l a b"
  define inv where "inv = (\<lambda>(s1, staging1). canonical staging1 \<and> held objs cl c (l, a, b) s1 staging1 \<and>
    (\<forall>l' a' b'. l' \<le> MAX_LEVEL \<and> (a, b, l) < (a', b', l') \<and> objs s1 (ltx_key cl l' a' b') \<noteq> objs s (ltx_key cl l' a' b') \<longrightarrow>
      map_of staging1 ?p = None))"
  have "inv (s1, staging1)"
    using assms(7)
  proof (induction rule: rtranclp_induct)
    case base
    show ?case using assms(4,6) by (simp add: inv_def held_def)
  next
    case (step x y)
    obtain s2 st2 where x: "x = (s2, st2)" by (cases x)
    from step.hyps(2) [unfolded x] obtain db r sy where run: "syncer_open ho db cl s2 st2 = (r, sy)"
      and y: "y = (sy_store sy, sy_staging sy)"
      by cases auto
    have i: "canonical st2" "held objs cl c (l, a, b) s2 st2"
      using step.IH by (simp_all add: inv_def x)
    note del = open_delivers [OF assms(1,2) i(1) assms(3,5) i(2) run]
    have "map_of (sy_staging sy) ?p = None"
      if "l' \<le> MAX_LEVEL" "(a, b, l) < (a', b', l')" "objs (sy_store sy) (ltx_key cl l' a' b') \<noteq> objs s (ltx_key cl l' a' b')" for l' a' b'
      using del(3) [of ?p] del(5) [OF that(1,2)] that step.IH by (fastforce simp: inv_def x)
    then show ?case
      using del(1,2) unfolding inv_def y prod.case by blast
  qed
  then have i: "canonical staging1" "held objs cl c (l, a, b) s1 staging1"
    "\<And>l' a' b'. l' \<le> MAX_LEVEL \<Longrightarrow> (a, b, l) < (a', b', l') \<Longrightarrow>
      objs s1 (ltx_key cl l' a' b') \<noteq> objs s (ltx_key cl l' a' b') \<Longrightarrow> map_of staging1 ?p = None"
    by (auto simp: inv_def)
  note del = open_delivers [OF assms(1,2) i(1) assms(3,5) i(2)]
  show ?thesis
    using i(2,3) del(2,4) by (fastforce simp: held_def)
qed

theorem reopening_delivers_staged_files_witness:
  "\<exists>r sy. syncer_open sample_host (sample_db [] (Ok [0, 2, 2])) sample_client [] left_over = (r, sy) \<and>
    sy_staging sy = [] \<and>
    map_of (sy_store sy) (ltx_key sample_client LEVEL0 1 1) = Some (header_encode (sample_header 1 1 1)) \<and>
    map_of (sy_store sy) (ltx_key sample_client LEVEL0 2 2) = Some (header_encode (sample_header 2 2 1))"
proof -
  obtain r sy where run: "syncer_open sample_host (sample_db [] (Ok [0, 2, 2])) sample_client [] left_over = (r, sy)"
    and gone: "sy_staging sy = []"
    using sample_open by blast
  have laws: "store_ok (cl_store sample_client) map_of" "fault_law (cl_store sample_client) map_of"
    using sample_good(1) [of position_default "[]" "[]"] by (simp_all add: good_store_def)
  have low: "LEVEL0 \<le> MAX_LEVEL"
    by (simp add: LEVEL0_def)
  have setting: "listed sample_host" "canonical left_over" "LEVEL0 \<le> MAX_LEVEL"
    using low by (simp_all add: listed_def sample_host_def canonical_def left_over_def)
  have there: "map_of left_over (staged_ltx_path LEVEL0 1 1) = Some (header_encode (sample_header 1 1 1))"
    "map_of left_over (staged_ltx_path LEVEL0 2 2) = Some (header_encode (sample_header 2 2 1))"
    by (simp_all add: left_over_def)
  have "(open_attempt sample_host sample_client)\<^sup>*\<^sup>* ([], left_over) (sy_store sy, sy_staging sy)"
    using run by (blast intro: attempt)
  note all = reopening_delivers_staged_files [OF laws setting _ this]
  show ?thesis
    using run gone all [OF there(1)] all [OF there(2)] by auto
qed

end
