(* ===== verification/MarkerFile.thy ===== *)
theory MarkerFile
  imports RestoreApply Staging
begin

text \<open>
  The position marker on the disk (\<^verbatim>\<open>marker_path\<close>, \<^verbatim>\<open>read_marker\<close> and \<^verbatim>\<open>write_marker\<close> of
  \<^verbatim>\<open>src/sync/restore.rs\<close>): the calls that write it, on a file system that loses at a crash what was not
  synced. The rest of the development has the marker as one effect; here is why it may. The JSON encoder
  and decoder are parameters.
\<close>

section \<open>A file system that can crash\<close>

text \<open>
  A directory entry names an inode. \<open>fs_entry\<close> is the directory as the running process sees it and
  \<open>fs_stable\<close> as the last sync of the directory left it; \<open>fs_clean\<close> are the inodes whose data is on the disk, and
  \<open>fs_dir_stable\<close> says whether the directory's own entry in its parent is.
\<close>

record fs =
  fs_entry :: "string \<Rightarrow> nat option"
  fs_stable :: "string \<Rightarrow> nat option"
  fs_data :: "nat \<Rightarrow> bytes"
  fs_clean :: "nat set"
  fs_dir_stable :: bool
  fs_next :: nat

datatype fs_call = MakeDirs string | CreateAt string | WriteAll string bytes | SyncFile string | RenameTo string string
  | SyncDir string

text \<open>
  \<^verbatim>\<open>File::create\<close> truncates the inode its name has, or gives the name a new one; \<^verbatim>\<open>write_all\<close> and \<^verbatim>\<open>sync_all\<close> work
  on the inode, and \<^verbatim>\<open>rename\<close> on the entries. One directory holds all the names; a \<open>MakeDirs\<close> that makes it does
  not put its entry on the disk, and no call does.
\<close>

fun fs_step :: "fs_call \<Rightarrow> fs \<Rightarrow> fs" where
  "fs_step (MakeDirs _) s = s"
| "fs_step (CreateAt p) s =
    (case fs_entry s p of
       Some i \<Rightarrow> s\<lparr>fs_data := (fs_data s)(i := []), fs_clean := fs_clean s - {i}\<rparr>
     | None \<Rightarrow> s\<lparr>fs_entry := (fs_entry s)(p \<mapsto> fs_next s), fs_data := (fs_data s)(fs_next s := []),
         fs_clean := fs_clean s - {fs_next s}, fs_next := fs_next s + 1\<rparr>)"
| "fs_step (WriteAll p b) s =
    (case fs_entry s p of
       Some i \<Rightarrow> s\<lparr>fs_data := (fs_data s)(i := fs_data s i @ b), fs_clean := fs_clean s - {i}\<rparr>
     | None \<Rightarrow> s)"
| "fs_step (SyncFile p) s =
    (case fs_entry s p of Some i \<Rightarrow> s\<lparr>fs_clean := insert i (fs_clean s)\<rparr> | None \<Rightarrow> s)"
| "fs_step (RenameTo p q) s =
    (case fs_entry s p of Some i \<Rightarrow> s\<lparr>fs_entry := (fs_entry s)(p := None, q \<mapsto> i)\<rparr> | None \<Rightarrow> s)"
| "fs_step (SyncDir _) s = s\<lparr>fs_stable := fs_entry s\<rparr>"

definition fs_calls :: "fs_call list \<Rightarrow> fs \<Rightarrow> fs" where
  "fs_calls cs s = fold fs_step cs s"

text \<open>
  After a crash each name is what it was or what the last sync of the directory made it, and a file that was
  not synced holds anything; a directory whose own entry was not on the disk may be gone with all of it. What was
  not a crash, a process that stops, is the case where nothing is lost.
\<close>

definition crash :: "fs \<Rightarrow> fs \<Rightarrow> bool" where
  "crash s s' \<longleftrightarrow> ((\<forall>p. fs_entry s' p = fs_entry s p \<or> fs_entry s' p = fs_stable s p) \<or>
      \<not> fs_dir_stable s \<and> (\<forall>p. fs_entry s' p = None)) \<and>
    (\<forall>i \<in> fs_clean s. fs_data s' i = fs_data s i)"

lemma crash_refl: "crash s s"
  by (simp add: crash_def)

text \<open>A sync of the directory only takes crashes away.\<close>

lemma crash_unsynced: "crash (fs_step (SyncDir d) s) s' \<Longrightarrow> crash s s'"
  by (auto simp: crash_def)

section \<open>The marker\<close>

definition marker_path :: "string \<Rightarrow> string" where
  "marker_path db_path = path_join (litestream_dir db_path) ''RESTORED''"

text \<open>Whatever keeps the marker from being read, or parsed, is no marker.\<close>

definition read_marker :: "(bytes \<Rightarrow> marker option) \<Rightarrow> string \<Rightarrow> fs \<Rightarrow> marker option" where
  "read_marker from_json db_path s = Option.bind (map_option (fs_data s) (fs_entry s (marker_path db_path))) from_json"

text \<open>
  The calls of \<^verbatim>\<open>write_marker\<close>. The first call to fail among the first five ends it; a failure to sync the
  directory is ignored.
\<close>

definition marker_calls :: "(marker \<Rightarrow> bytes) \<Rightarrow> string \<Rightarrow> marker \<Rightarrow> fs_call list" where
  "marker_calls to_json db_path m =
    (let final_path = marker_path db_path; dir = litestream_dir db_path; tmp = final_path @ ''.tmp'' in
     [MakeDirs dir, CreateAt tmp, WriteAll tmp (to_json m), SyncFile tmp, RenameTo tmp final_path, SyncDir dir])"

definition write_marker ::
  "(marker \<Rightarrow> bytes) \<Rightarrow> string \<Rightarrow> marker \<Rightarrow> (fs_call \<Rightarrow> bool) \<Rightarrow> fs_call list \<times> (unit, sync_error) result" where
  "write_marker to_json db_path m fails =
    (let calls = marker_calls to_json db_path m; before = butlast calls; done = takeWhile (Not \<circ> fails) before in
     if length done < length before then (done, Err (SyncIo IoOther))
     else if fails (last calls) then (before, Ok ()) else (calls, Ok ()))"

section \<open>Why one effect\<close>

text \<open>The marker is on the disk, in a file of its own; or there is none, as where the directory is new.\<close>

definition settled :: "string \<Rightarrow> fs \<Rightarrow> bool" where
  "settled db_path s \<longleftrightarrow> fs_stable s (marker_path db_path) = fs_entry s (marker_path db_path) \<and>
    (\<forall>i. fs_entry s (marker_path db_path) = Some i \<longrightarrow> i \<in> fs_clean s \<and> fs_dir_stable s) \<and>
    (\<forall>p q i. fs_entry s p = Some i \<and> fs_entry s q = Some i \<longrightarrow> p = q) \<and>
    (\<forall>p i. fs_entry s p = Some i \<longrightarrow> i < fs_next s)"

text \<open>Before the rename the marker is the old one, whatever a crash does to the file that is being written.\<close>

definition untouched :: "string \<Rightarrow> fs \<Rightarrow> fs \<Rightarrow> bool" where
  "untouched db_path s s' \<longleftrightarrow> settled db_path s' \<and>
    fs_entry s' (marker_path db_path) = fs_entry s (marker_path db_path) \<and> fs_dir_stable s' = fs_dir_stable s \<and>
    (\<forall>i. fs_entry s (marker_path db_path) = Some i \<longrightarrow> fs_data s' i = fs_data s i)"

lemma untouched_crash:
  assumes "untouched db_path s s1" and "crash s1 s'"
  shows "read_marker from_json db_path s' = read_marker from_json db_path s"
proof -
  let ?f = "marker_path db_path"
  have "fs_entry s' ?f = fs_entry s ?f"
    using assms unfolding untouched_def settled_def crash_def by (metis option.exhaust)
  moreover have "fs_data s' i = fs_data s i" if "fs_entry s ?f = Some i" for i
    using assms that unfolding untouched_def settled_def crash_def by metis
  ultimately show ?thesis
    by (cases "fs_entry s ?f") (simp_all add: read_marker_def)
qed

lemma untouched_refl: "settled db_path s \<Longrightarrow> untouched db_path s s"
  by (simp add: untouched_def)

text \<open>A call on another name leaves the marker untouched.\<close>

lemma untouched_call:
  assumes "untouched db_path s s1" and "p \<noteq> marker_path db_path"
    and "c \<in> {MakeDirs d, CreateAt p, WriteAll p b, SyncFile p}"
  shows "untouched db_path s (fs_step c s1)"
proof (cases "c = CreateAt p \<and> fs_entry s1 p = None")
  case True
  have "fs_entry s1 q \<noteq> Some (fs_next s1)" for q
    using assms(1) unfolding untouched_def settled_def by (metis less_irrefl)
  moreover have "i < fs_next s1" if "fs_entry s1 q = Some i" for q i
    using assms(1) that unfolding untouched_def settled_def by blast
  ultimately show ?thesis
    using assms(1,2) True by (auto simp: untouched_def settled_def less_Suc_eq split: if_splits)
next
  case False
  then show ?thesis
    using assms by (auto simp: untouched_def settled_def split: option.splits)
qed

lemma untouched_calls:
  assumes "untouched db_path s s1" and "p \<noteq> marker_path db_path"
    and "set cs \<subseteq> {MakeDirs d, CreateAt p, WriteAll p b, SyncFile p}"
  shows "untouched db_path s (fs_calls cs s1)"
  using assms(1,3)
proof (induction cs arbitrary: s1)
  case (Cons c cs)
  have "untouched db_path s (fs_step c s1)"
    by (rule untouched_call [OF Cons.prems(1) assms(2), where d = d and b = b]) (use Cons.prems(2) in simp)
  from Cons.IH [OF this] Cons.prems(2) show ?case
    by (simp add: fs_calls_def)
qed (simp add: fs_calls_def)

text \<open>The file that was written is whole before it is renamed, and then it is the marker.\<close>

lemma written:
  fixes s :: fs
  assumes "settled db_path s"
  obtains j where "fs_entry (fs_calls [MakeDirs d, CreateAt p, WriteAll p b, SyncFile p] s) p = Some j"
    and "fs_data (fs_calls [MakeDirs d, CreateAt p, WriteAll p b, SyncFile p] s) j = b"
    and "j \<in> fs_clean (fs_calls [MakeDirs d, CreateAt p, WriteAll p b, SyncFile p] s)"
  using assms by (cases "fs_entry s p") (auto simp: fs_calls_def)

lemma renamed:
  assumes un: "untouched db_path s s1" and tmp: "p \<noteq> marker_path db_path" "fs_entry s1 p = Some j"
    and whole: "fs_data s1 j = to_json m" "j \<in> fs_clean s1" and json: "from_json (to_json m) = Some m"
  defines "s2 \<equiv> fs_step (RenameTo p (marker_path db_path)) s1"
  shows "read_marker from_json db_path s2 = Some m"
    and "crash s2 s' \<Longrightarrow> read_marker from_json db_path s' \<in> {read_marker from_json db_path s, Some m}"
    and "fs_dir_stable s \<Longrightarrow> settled db_path (fs_step (SyncDir d) s2)"
    and "read_marker from_json db_path (fs_step (SyncDir d) s2) = Some m"
    and "fs_dir_stable s \<Longrightarrow> crash (fs_step (SyncDir d) s2) s' \<Longrightarrow> read_marker from_json db_path s' = Some m"
proof -
  let ?f = "marker_path db_path"
  have s2: "fs_entry s2 ?f = Some j" "fs_stable s2 ?f = fs_entry s ?f" "fs_data s2 = fs_data s1" "fs_clean s2 = fs_clean s1"
      "fs_dir_stable s2 = fs_dir_stable s"
    using un by (simp_all add: s2_def tmp untouched_def settled_def)
  show new: "read_marker from_json db_path s2 = Some m" and "read_marker from_json db_path (fs_step (SyncDir d) s2) = Some m"
    by (simp_all add: read_marker_def s2 whole json)
  show "settled db_path (fs_step (SyncDir d) s2)" if "fs_dir_stable s"
    using that un tmp whole(2) by (auto simp: s2_def untouched_def settled_def split: if_splits)
  have kept: "fs_data s' j = to_json m" if "crash s2 s'" for s'
    using that whole by (simp add: crash_def s2)
  show "read_marker from_json db_path s' \<in> {read_marker from_json db_path s, Some m}" if c: "crash s2 s'"
  proof (cases "fs_entry s' ?f = Some j")
    case True
    then show ?thesis
      by (simp add: read_marker_def kept [OF c] json)
  next
    case False
    then have old: "fs_entry s' ?f = fs_entry s ?f"
      using c s2(1,2,5) un unfolding crash_def untouched_def settled_def by (metis option.exhaust)
    have "fs_data s' i = fs_data s i" if "fs_entry s ?f = Some i" for i
      using un c that unfolding untouched_def settled_def crash_def s2 by metis
    then show ?thesis
      using old by (cases "fs_entry s ?f") (simp_all add: read_marker_def)
  qed
  show "read_marker from_json db_path s' = Some m" if dir: "fs_dir_stable s" and c: "crash (fs_step (SyncDir d) s2) s'"
  proof -
    have "fs_entry s' ?f = Some j" "fs_data s' j = to_json m"
      using c whole dir by (auto simp: crash_def s2)
    then show ?thesis
      by (simp add: read_marker_def json)
  qed
qed

lemma marker_prefix:
  assumes st: "settled db_path s" and json: "from_json (to_json m) = Some m"
  defines "after \<equiv> \<lambda>n. fs_calls (take n (marker_calls to_json db_path m)) s"
  shows "n \<le> 4 \<Longrightarrow> untouched db_path s (after n)"
    and "n > 4 \<Longrightarrow> read_marker from_json db_path (after n) = Some m"
    and "crash (after n) s' \<Longrightarrow> read_marker from_json db_path s' \<in> {read_marker from_json db_path s, Some m}"
    and "n > 5 \<Longrightarrow> fs_dir_stable s \<Longrightarrow> settled db_path (after n)"
    and "n > 5 \<Longrightarrow> fs_dir_stable s \<Longrightarrow> crash (after n) s' \<Longrightarrow> read_marker from_json db_path s' = Some m"
proof -
  let ?dir = "litestream_dir db_path" and ?tmp = "marker_path db_path @ ''.tmp''"
  let ?pre = "[MakeDirs ?dir, CreateAt ?tmp, WriteAll ?tmp (to_json m), SyncFile ?tmp]"
  let ?rename = "RenameTo ?tmp (marker_path db_path)"
  have calls: "marker_calls to_json db_path m = ?pre @ [?rename, SyncDir ?dir]"
    by (simp add: marker_calls_def Let_def)
  have tmp: "?tmp \<noteq> marker_path db_path"
    by simp
  have un: "untouched db_path s (fs_calls (take k ?pre) s)" for k
    by (rule untouched_calls [OF untouched_refl [OF st] tmp]) (rule subset_trans [OF set_take_subset], simp)
  show early: "n \<le> 4 \<Longrightarrow> untouched db_path s (after n)" for n
    using un [of n] unfolding after_def calls take_append by simp
  obtain j where j: "fs_entry (fs_calls ?pre s) ?tmp = Some j" "fs_data (fs_calls ?pre s) j = to_json m"
    "j \<in> fs_clean (fs_calls ?pre s)"
    by (rule written [OF st])
  have "untouched db_path s (fs_calls ?pre s)"
    using un [of 4] by simp
  note ren = renamed [where from_json = from_json and to_json = to_json, OF this tmp j json]
  have five: "after 5 = fs_step ?rename (fs_calls ?pre s)"
    by (simp add: after_def calls fs_calls_def)
  have late: "after n = fs_step (SyncDir ?dir) (fs_step ?rename (fs_calls ?pre s))" if "n > 5" for n
    using that by (simp add: after_def calls fs_calls_def)
  have cases: "n \<le> 4 \<or> n = 5 \<or> n > 5"
    by linarith
  show "n > 4 \<Longrightarrow> read_marker from_json db_path (after n) = Some m"
    using cases ren(1,4) five late by fastforce
  show "crash (after n) s' \<Longrightarrow> read_marker from_json db_path s' \<in> {read_marker from_json db_path s, Some m}"
    using cases
  proof (elim disjE)
    assume "crash (after n) s'" "n \<le> 4"
    then show ?thesis
      using untouched_crash [OF early] by blast
  next
    assume "crash (after n) s'" "n = 5"
    then show ?thesis
      using ren(2) [of s'] five by simp
  next
    assume "crash (after n) s'" "n > 5"
    then have "crash (fs_step (SyncDir ?dir) (fs_step ?rename (fs_calls ?pre s))) s'"
      by (simp only: late)
    then have "crash (fs_step ?rename (fs_calls ?pre s)) s'"
      by (rule crash_unsynced)
    then show ?thesis
      by (rule ren(2))
  qed
  show "settled db_path (after n)" if "n > 5" "fs_dir_stable s"
    unfolding late [OF that(1)] by (rule ren(3) [OF that(2)])
  show "read_marker from_json db_path s' = Some m" if "n > 5" "fs_dir_stable s" "crash (after n) s'"
    using that(3) unfolding late [OF that(1)] by (rule ren(5) [OF that(2)])
qed

text \<open>What it did is a prefix of the calls, the whole of it up to the rename where it succeeds.\<close>

lemma write_marker_prefix:
  assumes "write_marker to_json db_path m fails = (calls, r)"
  obtains n where "calls = take n (marker_calls to_json db_path m)" and "n \<le> 6"
    and "if r = Ok () then n = (if fails (SyncDir (litestream_dir db_path)) then 5 else 6) else n \<le> 4"
proof -
  let ?all = "marker_calls to_json db_path m"
  let ?ok = "takeWhile (Not \<circ> fails) (butlast ?all)"
  have all: "length ?all = 6" "last ?all = SyncDir (litestream_dir db_path)"
    by (simp_all add: marker_calls_def Let_def)
  have ok: "?ok = take (length ?ok) (butlast ?all)"
    by (metis append_eq_conv_conj takeWhile_dropWhile_id)
  have short: "take k (butlast xs) = take k xs" if "k < length (butlast xs)" for k and xs :: "fs_call list"
    using that by (simp add: butlast_conv_take)
  show thesis
  proof (cases "length ?ok < length (butlast ?all)")
    case True
    then have "calls = ?ok" "r = Err (SyncIo IoOther)"
      using assms by (auto simp: write_marker_def Let_def)
    moreover have "?ok = take (length ?ok) ?all"
      by (rule trans [OF ok short [OF True]])
    ultimately show ?thesis
      using True all(1) by (intro that [of "length ?ok"]) auto
  next
    case False
    then have "r = Ok ()" and "calls = (if fails (last ?all) then butlast ?all else ?all)"
      using assms by (auto simp: write_marker_def Let_def split: if_splits)
    then show ?thesis
      using all by (intro that [of "if fails (last ?all) then 5 else 6"]) (auto simp: butlast_conv_take)
  qed
qed

text \<open>
  C7: writing the marker is one step: whichever of its calls fails and wherever a crash cuts it, the next run reads
  the marker as it was or the new one, never a torn or a missing one; a failure leaves the old one, a return the new
  one, and once the directory is synced no crash takes it back, unless the call made the directory itself.
\<close>

theorem write_marker_atomic:
  assumes "from_json (to_json m) = Some m" and "settled db_path s" and "write_marker to_json db_path m fails = (calls, r)"
  shows "(\<forall>k s'. crash (fs_calls (take k calls) s) s' \<longrightarrow>
      read_marker from_json db_path s' \<in> {read_marker from_json db_path s, Some m}) \<and>
    read_marker from_json db_path (fs_calls calls s) = (if r = Ok () then Some m else read_marker from_json db_path s) \<and>
    (r \<noteq> Ok () \<or> \<not> fails (SyncDir (litestream_dir db_path)) \<and> fs_dir_stable s \<longrightarrow> settled db_path (fs_calls calls s) \<and>
      (\<forall>s'. crash (fs_calls calls s) s' \<longrightarrow>
        read_marker from_json db_path s' = read_marker from_json db_path (fs_calls calls s)))"
proof -
  obtain n where n: "calls = take n (marker_calls to_json db_path m)" "n \<le> 6"
    "if r = Ok () then n = (if fails (SyncDir (litestream_dir db_path)) then 5 else 6) else n \<le> 4"
    by (rule write_marker_prefix [OF assms(3)])
  note prefix = marker_prefix [where from_json = from_json and to_json = to_json, OF assms(2,1)]
  have "read_marker from_json db_path s' \<in> {read_marker from_json db_path s, Some m}"
    if "crash (fs_calls (take k calls) s) s'" for k s'
    using that prefix(3) by (simp add: n(1))
  moreover have "settled db_path (fs_calls calls s)" and "read_marker from_json db_path (fs_calls calls s) = read_marker from_json db_path s"
    and "crash (fs_calls calls s) s' \<Longrightarrow> read_marker from_json db_path s' = read_marker from_json db_path s"
    if "r \<noteq> Ok ()" for s'
    using prefix(1) [of n] n(3) that untouched_crash [of db_path s "fs_calls calls s"] crash_refl
    by (auto simp: n(1) untouched_def)
  moreover have "read_marker from_json db_path (fs_calls calls s) = Some m" if "r = Ok ()"
    using prefix(2) [of n] n(3) that by (simp add: n(1) split: if_splits)
  moreover have "settled db_path (fs_calls calls s)" and "crash (fs_calls calls s) s' \<Longrightarrow> read_marker from_json db_path s' = Some m"
    if "r = Ok ()" "\<not> fails (SyncDir (litestream_dir db_path))" "fs_dir_stable s" for s'
    using prefix(4,5) [of n] n(3) that by (simp_all add: n(1))
  ultimately show ?thesis
    by (cases "r = Ok ()") auto
qed

theorem write_marker_atomic_witness:
  "\<exists>s calls r. read_marker (\<lambda>b. if b = [1] then Some (Clean 1 512 2 1024) else None) ''app.db'' s = None \<and>
    write_marker (\<lambda>_. [1]) ''app.db'' (Clean 1 512 2 1024) (\<lambda>_. False) = (calls, r) \<and>
    read_marker (\<lambda>b. if b = [1] then Some (Clean 1 512 2 1024) else None) ''app.db'' (fs_calls calls s) = Some (Clean 1 512 2 1024)"
proof -
  let ?s = "\<lparr>fs_entry = \<lambda>_. None, fs_stable = \<lambda>_. None, fs_data = \<lambda>_. [], fs_clean = {}, fs_dir_stable = False, fs_next = 0\<rparr>"
  let ?from = "\<lambda>b :: bytes. if b = [1] then Some (Clean 1 512 2 1024) else None"
  obtain calls r where run: "write_marker (\<lambda>_. [1]) ''app.db'' (Clean 1 512 2 1024) (\<lambda>_. False) = (calls, r)"
    by fastforce
  then have "r = Ok ()"
    by (auto simp: write_marker_def marker_calls_def Let_def)
  moreover have "settled ''app.db'' ?s"
    by (simp add: settled_def)
  ultimately show ?thesis
    using write_marker_atomic [where from_json = ?from, OF _ _ run, of ?s] run
    by (intro exI [of _ ?s] exI [of _ calls] exI [of _ r]) (simp add: read_marker_def)
qed

text \<open>
  Where the sync of the directory fails, the call returns as if the marker were on the disk, and a crash can bring
  the old marker back.
\<close>

lemma unsynced_marker_reverts:
  assumes "settled db_path s" and "\<And>c. fails c \<longleftrightarrow> c = SyncDir (litestream_dir db_path)"
    and "write_marker to_json db_path m fails = (calls, r)"
  shows "r = Ok () \<and> (\<exists>s'. crash (fs_calls calls s) s' \<and> read_marker from_json db_path s' = read_marker from_json db_path s)"
proof -
  have r: "r = Ok ()" and calls: "calls = take 5 (marker_calls to_json db_path m)"
    using assms(3) by (auto simp: write_marker_def marker_calls_def Let_def assms(2))
  let ?s = "fs_calls calls s" and ?f = "marker_path db_path"
  let ?reverted = "?s\<lparr>fs_entry := fs_stable ?s\<rparr>"
  have "untouched db_path s (fs_calls (take 4 (marker_calls to_json db_path m)) s)"
    using untouched_calls [OF untouched_refl [OF assms(1)], of "?f @ ''.tmp''"] by (auto simp: marker_calls_def Let_def)
  moreover have "fs_stable ?s = fs_stable (fs_calls (take 4 (marker_calls to_json db_path m)) s)"
      "fs_data ?s = fs_data (fs_calls (take 4 (marker_calls to_json db_path m)) s)"
    by (simp_all add: calls marker_calls_def Let_def fs_calls_def split: option.splits)
  ultimately have "read_marker from_json db_path ?reverted = read_marker from_json db_path s"
    by (cases "fs_entry s ?f") (auto simp: read_marker_def untouched_def settled_def)
  moreover have "crash ?s ?reverted"
    by (simp add: crash_def)
  ultimately show ?thesis
    using r by blast
qed

end
