(* ===== verification/Maintenance.thy ===== *)
theory Maintenance
  imports Staging Compactor Retention
begin

text \<open>
  Maintaining the replica (\<^verbatim>\<open>src/sync/mod.rs\<close>): compaction of the raw level into a base, the
  level-to-level cascade, snapshots from the replica's own files, and retention. All plan on the local
  file index; \<open>sy_scratch\<close> holds the merge outputs under the compaction directory.
\<close>

section \<open>Merge outputs\<close>

record compaction_info =
  ci_min :: u64
  ci_max :: u64
  ci_inputs :: nat
  ci_pruned :: nat

definition compaction_temp :: "'w host \<Rightarrow> u32 \<Rightarrow> u64 \<Rightarrow> u64 \<Rightarrow> ('w, 's, string) sync_op" where
  "compaction_temp ho level mn mx =
    op_bind (on_host (fs_op ho)) (\<lambda>_.
    op_ret (pad_hex 4 (unat level) @ ''-'' @ ltx_filename mn mx))"

text \<open>\<^verbatim>\<open>File::create\<close>, then the merge writes the file; an error of the merge leaves it behind.\<close>

definition write_scratch :: "'w host \<Rightarrow> string \<Rightarrow> (bytes, ltx_error) result \<Rightarrow> ('w, 's, unit) sync_op" where
  "write_scratch ho tmp merged =
    op_bind (on_host (fs_op ho)) (\<lambda>_.
    op_bind (op_modify (\<lambda>sy. sy\<lparr>sy_scratch := AList.update tmp [] (sy_scratch sy)\<rparr>)) (\<lambda>_.
    op_bind (op_of (of_ltx merged)) (\<lambda>b.
    op_bind (on_host (fs_op ho)) (\<lambda>_.
    op_modify (\<lambda>sy. sy\<lparr>sy_scratch := AList.update tmp b (sy_scratch sy)\<rparr>)))))"

definition read_scratch :: "'w host \<Rightarrow> string \<Rightarrow> ('w, 's, bytes) sync_op" where
  "read_scratch ho tmp = op_bind (on_host (fs_op ho)) (\<lambda>_ sy.
    (case map_of (sy_scratch sy) tmp of None \<Rightarrow> (Err (SyncIo NotFound), sy) | Some b \<Rightarrow> (Ok b, sy)))"

definition remove_scratch :: "'w host \<Rightarrow> string \<Rightarrow> ('w, 's, unit) sync_op" where
  "remove_scratch ho tmp = op_bind (on_host (fs_op ho)) (\<lambda>_.
    op_modify (\<lambda>sy. sy\<lparr>sy_scratch := AList.delete tmp (sy_scratch sy)\<rparr>))"

text \<open>The outcome of the upload is kept while the file is removed.\<close>

definition upload_merged :: "'w host \<Rightarrow> u32 \<Rightarrow> u64 \<Rightarrow> u64 \<Rightarrow> string \<Rightarrow> ('w, 's, unit) sync_op" where
  "upload_merged ho level mn mx tmp =
    op_bind (op_bind (read_scratch ho tmp) (\<lambda>b. op_ret (length b))) (\<lambda>sz.
    op_bind (op_get sy_client) (\<lambda>cl.
    op_bind
      (if sz \<ge> MULTIPART_THRESHOLD then op_ret None
       else op_bind (read_scratch ho tmp) (\<lambda>b. op_ret (Some b))) (\<lambda>small.
    op_try
      (case small of
         None \<Rightarrow> op_bind (read_scratch ho tmp) (\<lambda>b. on_store (put_ltx_multipart cl level mn mx b))
       | Some b \<Rightarrow> on_store (put_ltx cl level mn mx b)) (\<lambda>uploaded.
    op_try (remove_scratch ho tmp) (\<lambda>_.
    op_bind (op_of uploaded) (\<lambda>_.
    op_bind (system_now ho) (\<lambda>now.
    op_modify (\<lambda>sy. sy\<lparr>sy_files := fi_insert \<lparr>li_level = level, li_min = mn, li_max = mx, li_size = sz,
      li_created = Some now\<rparr> (sy_files sy)\<rparr>))))))))"

definition compact_and_upload ::
  "'w host \<Rightarrow> (bytes \<Rightarrow> bytes) \<Rightarrow> lz4_dec \<Rightarrow> u32 \<Rightarrow> u64 \<Rightarrow> u64 \<Rightarrow> bytes list \<Rightarrow> ('w, 's, unit) sync_op" where
  "compact_and_upload ho lz4c lz4d level mn mx refs =
    op_bind (compaction_temp ho level mn mx) (\<lambda>tmp.
    op_bind (write_scratch ho tmp (rmap fst (compact_to_writer lz4c lz4d refs))) (\<lambda>_.
    upload_merged ho level mn mx tmp))"

definition download :: "file_range \<Rightarrow> ('w, 's, bytes) sync_op" where
  "download f = (case f of (level, mn, mx) \<Rightarrow>
    op_bind (op_get sy_client) (\<lambda>cl. on_store (\<lambda>s. (get_ltx cl level mn mx s, s))))"

definition delete_file :: "file_range \<Rightarrow> ('w, 's, unit) sync_op" where
  "delete_file f = (case f of (level, mn, mx) \<Rightarrow>
    op_bind (op_get sy_client) (\<lambda>cl.
    op_bind (on_store (delete_ltx cl level mn mx)) (\<lambda>_.
    op_modify (\<lambda>sy. sy\<lparr>sy_files := fi_remove level mn mx (sy_files sy)\<rparr>))))"

section \<open>Compaction\<close>

definition syncer_compact ::
  "'w host \<Rightarrow> (bytes \<Rightarrow> bytes) \<Rightarrow> lz4_dec \<Rightarrow> ('w, 's, compaction_info option) sync_op" where
  "syncer_compact ho lz4c lz4d =
    op_bind (op_get (\<lambda>sy. (fi_list LEVEL0 (sy_files sy), fi_list SNAPSHOT_LEVEL (sy_files sy)))) (\<lambda>(l0, l1).
    let base = find (\<lambda>f. li_min f = 1) l1;
        base_max = (case base of None \<Rightarrow> 0 | Some f \<Rightarrow> li_max f);
        new_l0 = filter (\<lambda>f. li_min f > base_max) l0 in
    if length new_l0 < 2 then op_ret None else
    let to_merge = butlast new_l0; new_max = li_max (last to_merge);
        old_base = (case base of None \<Rightarrow> [] | Some b \<Rightarrow> [(SNAPSHOT_LEVEL, li_min b, li_max b)]);
        merged = map (\<lambda>f. (LEVEL0, li_min f, li_max f)) to_merge in
    op_bind (op_map download (old_base @ merged)) (\<lambda>refs.
    op_bind (compact_and_upload ho lz4c lz4d SNAPSHOT_LEVEL 1 new_max refs) (\<lambda>_.
    op_bind (op_each delete_file (old_base @ merged)) (\<lambda>_.
    op_ret (Some \<lparr>ci_min = 1, ci_max = new_max, ci_inputs = length refs,
      ci_pruned = length (old_base @ merged)\<rparr>)))))"

definition max_txid_of :: "ltx_file_info list \<Rightarrow> u64" where
  "max_txid_of files = fold max (map li_max files) 0"

definition compact_level ::
  "'w host \<Rightarrow> (bytes \<Rightarrow> bytes) \<Rightarrow> lz4_dec \<Rightarrow> u32 \<Rightarrow> ('w, 's, compaction_info option) sync_op" where
  "compact_level ho lz4c lz4d dst_level =
    (if dst_level = 0 \<or> dst_level \<ge> SNAPSHOT_LEVEL then
       op_fail (InvalidCompactionLevels (''cannot compact into level '' @ dec_digits (unat dst_level) @
         ''; use snapshot() for the snapshot level''))
     else
     let src_level = dst_level - 1 in
     op_bind (op_get sy_files) (\<lambda>files.
     let dst_max = max_txid_of (fi_list dst_level files);
         src = sort_key (\<lambda>f. (li_min f, li_max f)) (filter (\<lambda>f. li_min f > dst_max) (fi_list src_level files)) in
     if src = [] then op_ret None else
     let min_txid = li_min (hd src); max_txid = li_max (last src) in
     op_bind (op_map download (map (\<lambda>f. (src_level, li_min f, li_max f)) src)) (\<lambda>refs.
     op_bind (compact_and_upload ho lz4c lz4d dst_level min_txid max_txid refs) (\<lambda>_.
     op_ret (Some \<lparr>ci_min = min_txid, ci_max = max_txid, ci_inputs = length refs, ci_pruned = 0\<rparr>)))))"

definition snapshot_header :: "header \<Rightarrow> u64 \<Rightarrow> u64 \<Rightarrow> header" where
  "snapshot_header newest_h max_txid timestamp =
    \<lparr>h_flags = HEADER_FLAG_NO_CHECKSUM, h_page_size = h_page_size newest_h, h_commit = h_commit newest_h,
     h_min_txid = 1, h_max_txid = max_txid, h_timestamp = timestamp, h_pre_apply_checksum = checksum_zero,
     h_wal_offset = 0, h_wal_size = 0, h_wal_salt1 = 0, h_wal_salt2 = 0, h_node_id = 0\<rparr>"

definition syncer_snapshot ::
  "'w host \<Rightarrow> (bytes \<Rightarrow> bytes) \<Rightarrow> lz4_dec \<Rightarrow> ('w, 's, compaction_info option) sync_op" where
  "syncer_snapshot ho lz4c lz4d =
    op_bind (op_get (\<lambda>sy. (fi_all_levels (sy_files sy), fi_list SNAPSHOT_LEVEL (sy_files sy)))) (\<lambda>(files, snaps).
    case max_last fr_max files of
      None \<Rightarrow> op_ret None
    | Some newest_file \<Rightarrow>
       (let max_txid = fr_max newest_file in
        if list_ex (\<lambda>f. li_min f = 1 \<and> li_max f = max_txid) snaps then op_ret None else
        op_bind (op_of (plan_restore files)) (\<lambda>plan.
        op_bind (op_map download plan) (\<lambda>refs.
        op_bind (if refs = [] then op_of Panic else op_of (of_ltx (header_decode (last refs)))) (\<lambda>newest_h.
        op_bind (now_ms ho) (\<lambda>now.
        op_bind (compaction_temp ho SNAPSHOT_LEVEL 1 max_txid) (\<lambda>tmp.
        op_bind (write_scratch ho tmp (rmap fst (merge_to_writer lz4c lz4d refs (snapshot_header newest_h max_txid now)))) (\<lambda>_.
        op_bind (upload_merged ho SNAPSHOT_LEVEL 1 max_txid tmp) (\<lambda>_.
        op_ret (Some \<lparr>ci_min = 1, ci_max = max_txid, ci_inputs = length plan, ci_pruned = 0\<rparr>))))))))))"

section \<open>Retention\<close>

definition info_range :: "ltx_file_info \<Rightarrow> file_range" where
  "info_range f = (li_level f, li_min f, li_max f)"

definition enforce_retention_by_txid :: "u32 \<Rightarrow> u64 \<Rightarrow> ('w, 's, nat) sync_op" where
  "enforce_retention_by_txid level txid =
    op_bind (op_get (\<lambda>sy. fi_list level (sy_files sy))) (\<lambda>files.
    let deleted = below_txid files txid in
    op_bind (op_each delete_file (map info_range deleted)) (\<lambda>_. op_ret (length deleted)))"

text \<open>\<^verbatim>\<open>now.checked_sub(retention).unwrap_or(now)\<close>; representable times only (see \<open>Level\<close>).\<close>

definition retention_cutoff :: "instant \<Rightarrow> duration \<Rightarrow> instant" where
  "retention_cutoff now retention = now - int retention"

definition enforce_snapshot_retention :: "instant \<Rightarrow> duration \<Rightarrow> u32 \<Rightarrow> ('w, 's, u64) sync_op" where
  "enforce_snapshot_retention now retention max_lv =
    op_bind (op_get (\<lambda>sy. fi_list SNAPSHOT_LEVEL (sy_files sy))) (\<lambda>snaps.
    case snapshot_expired snaps (retention_cutoff now retention) of (deleted, lowest) \<Rightarrow>
    op_bind (op_each delete_file (map info_range deleted)) (\<lambda>_.
    op_bind
      (if lowest > 0 then
         op_each (\<lambda>level. op_bind (enforce_retention_by_txid level lowest) (\<lambda>_. op_ret ()))
           (map of_nat [0..<Suc (unat max_lv)])
       else op_ret ())
      (\<lambda>_. op_ret lowest)))"

definition enforce_l0_retention :: "instant \<Rightarrow> duration \<Rightarrow> ('w, 's, nat) sync_op" where
  "enforce_l0_retention now retention =
    (if retention = 0 then op_ret 0 else
     op_bind (op_get (\<lambda>sy. (max_txid_of (fi_list 1 (sy_files sy)), fi_list LEVEL0 (sy_files sy)))) (\<lambda>(max_l1, files).
     let deleted = l0_expired files max_l1 (retention_cutoff now retention) in
     op_bind (op_each delete_file (map info_range deleted)) (\<lambda>_. op_ret (length deleted))))"

end
