(* ===== verification/Driver.thy ===== *)
theory Driver
  imports WalSync Maintenance
begin

text \<open>
  The scheduler (\<^verbatim>\<open>src/sync/driver.rs\<close>): one tick syncs, checkpoints, and runs the compactions, the
  snapshot and the retention checks whose window has begun since they last ran.
\<close>

section \<open>State\<close>

definition DEFAULT_SNAPSHOT_INTERVAL :: duration where
  "DEFAULT_SNAPSHOT_INTERVAL = secs (24 * 60 * 60)"
definition DEFAULT_SNAPSHOT_RETENTION :: duration where
  "DEFAULT_SNAPSHOT_RETENTION = secs (24 * 60 * 60)"
definition DEFAULT_L0_RETENTION :: duration where
  "DEFAULT_L0_RETENTION = secs (5 * 60)"
definition DEFAULT_L0_RETENTION_CHECK_INTERVAL :: duration where
  "DEFAULT_L0_RETENTION_CHECK_INTERVAL = secs 15"
definition DEFAULT_CHECKPOINT_INTERVAL :: duration where
  "DEFAULT_CHECKPOINT_INTERVAL = secs 60"

record tick_report =
  tr_synced :: sync_outcome
  tr_checkpoint :: "(checkpoint_mode \<times> checkpoint_result) option"
  tr_compactions :: "(u32 \<times> compaction_info) list"
  tr_snapshot :: "compaction_info option"
  tr_l0_pruned :: nat
  tr_resnapshot_fired :: bool
  tr_staged_backlog_bytes :: nat

record ('w, 's) driver =
  dr_syncer :: "('w, 's) syncer"
  dr_levels :: compaction_levels
  dr_snapshot_interval :: duration
  dr_snapshot_retention :: duration
  dr_l0_retention :: duration
  dr_l0_retention_interval :: duration
  dr_checkpoint_interval :: duration
  dr_compaction_boundary :: "instant list"
  dr_snapshot_boundary :: instant
  dr_l0_boundary :: instant
  dr_checkpoint_at :: instant
  dr_synced_since :: bool
  dr_prev_resnapshots :: u64

definition driver_new :: "('w, 's) syncer \<Rightarrow> compaction_levels \<Rightarrow> ('w, 's) driver" where
  "driver_new syncer levels =
    \<lparr>dr_syncer = syncer, dr_levels = levels, dr_snapshot_interval = DEFAULT_SNAPSHOT_INTERVAL,
     dr_snapshot_retention = DEFAULT_SNAPSHOT_RETENTION, dr_l0_retention = DEFAULT_L0_RETENTION,
     dr_l0_retention_interval = DEFAULT_L0_RETENTION_CHECK_INTERVAL,
     dr_checkpoint_interval = DEFAULT_CHECKPOINT_INTERVAL,
     dr_compaction_boundary = replicate (unat (max_level levels) + 1) 0, dr_snapshot_boundary = 0,
     dr_l0_boundary = 0, dr_checkpoint_at = 0, dr_synced_since = False, dr_prev_resnapshots = 0\<rparr>"

definition with_checkpoint_interval :: "duration \<Rightarrow> ('w, 's) driver \<Rightarrow> ('w, 's) driver" where
  "with_checkpoint_interval d dr = dr\<lparr>dr_checkpoint_interval := d\<rparr>"
definition with_snapshot_interval :: "duration \<Rightarrow> ('w, 's) driver \<Rightarrow> ('w, 's) driver" where
  "with_snapshot_interval d dr = dr\<lparr>dr_snapshot_interval := d\<rparr>"
definition with_snapshot_retention :: "duration \<Rightarrow> ('w, 's) driver \<Rightarrow> ('w, 's) driver" where
  "with_snapshot_retention d dr = dr\<lparr>dr_snapshot_retention := d\<rparr>"
definition with_l0_retention :: "duration \<Rightarrow> ('w, 's) driver \<Rightarrow> ('w, 's) driver" where
  "with_l0_retention d dr = dr\<lparr>dr_l0_retention := d\<rparr>"
definition with_l0_retention_interval :: "duration \<Rightarrow> ('w, 's) driver \<Rightarrow> ('w, 's) driver" where
  "with_l0_retention_interval d dr = dr\<lparr>dr_l0_retention_interval := d\<rparr>"

section \<open>One tick\<close>

type_synonym ('w, 's, 'a) driver_op = "(('w, 's) driver, 'a, sync_error) op"

definition on_syncer :: "('w, 's, 'a) sync_op \<Rightarrow> ('w, 's, 'a) driver_op" where
  "on_syncer = op_on dr_syncer (\<lambda>sy dr. dr\<lparr>dr_syncer := sy\<rparr>)"

definition driver_flush ::
  "'w host \<Rightarrow> (bytes \<Rightarrow> bytes) \<Rightarrow> ('w, 's) driver \<Rightarrow> ((u32, sync_error) result \<times> ('w, 's) driver) option" where
  "driver_flush ho lz4c dr =
    map_option (\<lambda>(r, sy). (r, dr\<lparr>dr_syncer := sy\<rparr>)) (flush ho lz4c (dr_syncer dr))"

text \<open>The time-based checkpoint: \<^verbatim>\<open>duration_since\<close> is an error when the clock went back.\<close>

definition checkpoint_due :: "instant \<Rightarrow> nat \<Rightarrow> ('w, 's) driver \<Rightarrow> bool" where
  "checkpoint_due now frames dr \<longleftrightarrow> dr_checkpoint_interval dr \<noteq> 0 \<and> dr_synced_since dr \<and> frames > 0 \<and>
    now \<ge> dr_checkpoint_at dr \<and> now - dr_checkpoint_at dr \<ge> int (dr_checkpoint_interval dr)"

definition timed_checkpoint ::
  "'w host \<Rightarrow> (bytes \<Rightarrow> bytes) \<Rightarrow> instant \<Rightarrow> (checkpoint_mode \<times> checkpoint_result) option
    \<Rightarrow> ('w, 's, (checkpoint_mode \<times> checkpoint_result) option) driver_op" where
  "timed_checkpoint ho lz4c now ckpt =
    (case ckpt of
       Some c \<Rightarrow> op_ret (Some c)
     | None \<Rightarrow>
        op_bind (op_get (\<lambda>dr. dr_checkpoint_interval dr \<noteq> 0 \<and> dr_synced_since dr)) (\<lambda>wanted.
        if \<not> wanted then op_ret None else
        op_bind (on_syncer (op_on sy_db (\<lambda>d sy. sy\<lparr>sy_db := d\<rparr>) (wal_frame_count ho))) (\<lambda>frames.
        op_bind (op_get (checkpoint_due now frames)) (\<lambda>due.
        if due then op_bind (on_syncer (checkpoint_now ho lz4c Passive)) (\<lambda>c. op_ret (Some c))
        else op_ret None))))"

text \<open>The compactions of one level; \<^verbatim>\<open>last_compaction_boundary[..]\<close> panics out of range.\<close>

definition tick_level ::
  "'w host \<Rightarrow> (bytes \<Rightarrow> bytes) \<Rightarrow> lz4_dec \<Rightarrow> instant \<Rightarrow> compaction_level
    \<Rightarrow> ('w, 's, (u32 \<times> compaction_info) list) driver_op" where
  "tick_level ho lz4c lz4d now lvl =
    (if cv_level lvl = 0 then op_ret [] else
     let boundary = level_prev_compaction_at lvl now; i = unat (cv_level lvl) in
     op_bind (op_get dr_compaction_boundary) (\<lambda>bs.
     if i \<ge> length bs then op_of Panic
     else if boundary > bs ! i then
       op_bind (op_modify (\<lambda>dr. dr\<lparr>dr_compaction_boundary := (dr_compaction_boundary dr)[i := boundary]\<rparr>)) (\<lambda>_.
       op_bind (on_syncer (compact_level ho lz4c lz4d (cv_level lvl))) (\<lambda>info.
       op_ret (case info of None \<Rightarrow> [] | Some c \<Rightarrow> [(cv_level lvl, c)])))
     else op_ret []))"

definition tick_snapshot ::
  "'w host \<Rightarrow> (bytes \<Rightarrow> bytes) \<Rightarrow> lz4_dec \<Rightarrow> instant \<Rightarrow> ('w, 's, compaction_info option) driver_op" where
  "tick_snapshot ho lz4c lz4d now =
    op_bind (op_get (\<lambda>dr. dr)) (\<lambda>dr.
    if dr_snapshot_interval dr = 0 then op_ret None else
    let boundary = interval_boundary now (dr_snapshot_interval dr) in
    if boundary > dr_snapshot_boundary dr then
      op_bind (op_modify (\<lambda>dr. dr\<lparr>dr_snapshot_boundary := boundary\<rparr>)) (\<lambda>_.
      op_bind (on_syncer (syncer_snapshot ho lz4c lz4d)) (\<lambda>snap.
      op_bind (on_syncer (enforce_snapshot_retention now (dr_snapshot_retention dr) (max_level (dr_levels dr)))) (\<lambda>_.
      op_ret snap)))
    else op_ret None)"

definition tick_l0 :: "instant \<Rightarrow> ('w, 's, nat) driver_op" where
  "tick_l0 now =
    op_bind (op_get (\<lambda>dr. dr)) (\<lambda>dr.
    if dr_l0_retention dr = 0 \<or> dr_l0_retention_interval dr = 0 then op_ret 0 else
    let boundary = interval_boundary now (dr_l0_retention_interval dr) in
    if boundary > dr_l0_boundary dr then
      op_bind (op_modify (\<lambda>dr. dr\<lparr>dr_l0_boundary := boundary\<rparr>)) (\<lambda>_.
      on_syncer (enforce_l0_retention now (dr_l0_retention dr)))
    else op_ret 0)"

definition tick :: "'w host \<Rightarrow> (bytes \<Rightarrow> bytes) \<Rightarrow> lz4_dec \<Rightarrow> instant \<Rightarrow> ('w, 's, tick_report) driver_op" where
  "tick ho lz4c lz4d now =
    op_bind (on_syncer (sync ho lz4c)) (\<lambda>synced.
    op_bind (op_modify (\<lambda>dr. if synced \<noteq> Skipped then dr\<lparr>dr_synced_since := True\<rparr> else dr)) (\<lambda>_.
    op_bind (op_bind (on_syncer (checkpoint_if_needed ho lz4c)) (timed_checkpoint ho lz4c now)) (\<lambda>ckpt.
    op_bind (op_modify (\<lambda>dr. if ckpt \<noteq> None then dr\<lparr>dr_checkpoint_at := now, dr_synced_since := False\<rparr> else dr)) (\<lambda>_.
    op_bind (op_get dr_levels) (\<lambda>levels.
    op_bind (op_map (tick_level ho lz4c lz4d now) levels) (\<lambda>compactions.
    op_bind (tick_snapshot ho lz4c lz4d now) (\<lambda>snap.
    op_bind (tick_l0 now) (\<lambda>pruned.
    op_bind (op_get (\<lambda>dr. (sy_resnapshots (dr_syncer dr), dr_prev_resnapshots dr))) (\<lambda>(count, prev_count).
    op_bind (op_modify (\<lambda>dr. dr\<lparr>dr_prev_resnapshots := count\<rparr>)) (\<lambda>_.
    op_bind (op_get (\<lambda>dr. staged_backlog_bytes (sy_staging (dr_syncer dr)))) (\<lambda>backlog.
    op_ret \<lparr>tr_synced = synced, tr_checkpoint = ckpt, tr_compactions = concat compactions, tr_snapshot = snap,
      tr_l0_pruned = pruned, tr_resnapshot_fired = (count > prev_count), tr_staged_backlog_bytes = backlog\<rparr>)))))))))))"

end
