(* ===== verification/Cli.thy ===== *)
theory Cli
  imports Driver RestoreApply
begin

text \<open>
  The command-line program (\<^verbatim>\<open>src/bin/literstream.rs\<close>): where a replica is, the restore command and the loop of
  the replication daemon. Parsing the arguments is clap's, building a store the cloud libraries' and parsing an
  RFC 3339 datetime jiff's: they are parameters. What the program prints is a value; an \<^verbatim>\<open>expect\<close> that fails is a panic,
  so no error value is left.
\<close>

section \<open>The replica\<close>

text \<open>
  A store from its parts; None where building it fails, which the program answers with a panic. \<open>be_s3\<close> takes the
  endpoint, region, bucket, access key and secret.
\<close>

record 's backends =
  be_gcs :: "string \<Rightarrow> 's object_store option"
  be_s3 :: "string \<Rightarrow> string \<Rightarrow> string \<Rightarrow> string \<Rightarrow> string \<Rightarrow> 's object_store option"
  be_dir :: "string \<Rightarrow> 's object_store option"
  be_env :: "string \<Rightarrow> string option"

definition strip_start :: "string \<Rightarrow> string \<Rightarrow> string option" where
  "strip_start s start = (if prefix start s then Some (drop (length start) s) else None)"

definition expect :: "'a option \<Rightarrow> ('a, unit) result" where
  "expect x = (case x of None \<Rightarrow> Panic | Some v \<Rightarrow> Ok v)"

definition expect_ok :: "('a, 'e) result \<Rightarrow> ('a, unit) result" where
  "expect_ok r = (case r of Ok v \<Rightarrow> Ok v | _ \<Rightarrow> Panic)"

definition replica_client_of :: "'s backends \<Rightarrow> string \<Rightarrow> ('s replica_client, unit) result" where
  "replica_client_of be replica =
    (case strip_start replica ''gs://'' of
       Some rest \<Rightarrow>
        (case (case split_once rest CHR ''/'' of None \<Rightarrow> (rest, '''') | Some parts \<Rightarrow> parts) of (bucket, pre) \<Rightarrow>
         if bucket = '''' then Panic
         else rbind (expect (be_gcs be bucket)) (\<lambda>gcs. Ok (replica_client_new gcs pre)))
     | None \<Rightarrow>
    (case strip_start replica ''s3://'' of
       Some pre \<Rightarrow>
        rbind (expect (be_env be ''LITESTREAM_S3_ENDPOINT'')) (\<lambda>endpoint.
        rbind (expect (be_env be ''LITESTREAM_S3_REGION'')) (\<lambda>region.
        rbind (expect (be_env be ''LITESTREAM_S3_BUCKET'')) (\<lambda>bucket.
        rbind (expect (be_env be ''LITESTREAM_S3_ACCESS_KEY'')) (\<lambda>key.
        rbind (expect (be_env be ''LITESTREAM_S3_SECRET'')) (\<lambda>secret.
        rbind (expect (be_s3 be endpoint region bucket key secret)) (\<lambda>s3. Ok (replica_client_new s3 pre)))))))
     | None \<Rightarrow> rbind (expect (be_dir be replica)) (\<lambda>store. Ok (replica_client_new store ''''))))"

section \<open>Restore\<close>

text \<open>\<^verbatim>\<open>str::parse::<i64>\<close>: an optional sign, at least one digit, in range.\<close>

definition digit_value :: "char \<Rightarrow> nat option" where
  "digit_value c = (let n = of_char c :: nat in if 48 \<le> n \<and> n \<le> 57 then Some (n - 48) else None)"

fun decimal_from :: "nat \<Rightarrow> string \<Rightarrow> nat option" where
  "decimal_from acc [] = Some acc"
| "decimal_from acc (c # cs) = (case digit_value c of None \<Rightarrow> None | Some d \<Rightarrow> decimal_from (acc * 10 + d) cs)"

definition parse_i64 :: "string \<Rightarrow> int option" where
  "parse_i64 s =
    (let negative = (s \<noteq> [] \<and> hd s = CHR ''-''); digits = (if s \<noteq> [] \<and> hd s \<in> {CHR ''-'', CHR ''+''} then tl s else s) in
     if digits = [] then None else
     (case decimal_from 0 digits of None \<Rightarrow> None
      | Some n \<Rightarrow>
         let v = (if negative then - int n else int n) in
         if - (2 ^ 63) \<le> v \<and> v < 2 ^ 63 then Some v else None))"

definition parse_timestamp_ms :: "(string \<Rightarrow> int option) \<Rightarrow> string \<Rightarrow> (int, unit) result" where
  "parse_timestamp_ms rfc3339 s = (case parse_i64 s of Some ms \<Rightarrow> Ok ms | None \<Rightarrow> expect (rfc3339 s))"

datatype restore_report = CaughtUp catch_up_result | WroteImage nat u64 | WroteLatest u64

text \<open>\<^verbatim>\<open>std::fs::write\<close> and the report of a point-in-time restore.\<close>

definition write_image :: "(bytes \<times> u64, sync_error) result \<Rightarrow> effect list \<times> (restore_report, unit) result" where
  "write_image r =
    (case r of Ok (img, txid) \<Rightarrow> ([CreateFile, WriteAt 0 img], Ok (WroteImage (length img) txid)) | _ \<Rightarrow> ([], Panic))"

definition restore_cmd ::
  "'s backends \<Rightarrow> lz4_dec \<Rightarrow> (string \<Rightarrow> int option) \<Rightarrow> u64 option \<Rightarrow> string option \<Rightarrow> bool \<Rightarrow> string \<Rightarrow> local_db \<Rightarrow> 's
    \<Rightarrow> effect list \<times> (restore_report, unit) result" where
  "restore_cmd be lz4d rfc3339 txid timestamp incremental replica l s =
    (case replica_client_of be replica of
       Ok client \<Rightarrow>
        if incremental then
          (case catch_up client lz4d l s of (effs, r) \<Rightarrow> (effs, rmap CaughtUp (expect_ok r)))
        else
          (case (txid, timestamp) of
             (Some t, _) \<Rightarrow> write_image (restore_to_txid client lz4d t s)
           | (None, Some ts) \<Rightarrow>
              (case parse_timestamp_ms rfc3339 ts of
                 Ok ms \<Rightarrow> write_image (restore_to_timestamp client lz4d (of_int ms) s)
               | _ \<Rightarrow> ([], Panic))
           | (None, None) \<Rightarrow>
              (case restore_to_path client lz4d s of (effs, r) \<Rightarrow> (effs, rmap WroteLatest (expect_ok r))))
     | Err e \<Rightarrow> ([], Err e) | Panic \<Rightarrow> ([], Panic))"

section \<open>Replicate\<close>

text \<open>
  The events of the loop: the ticker fires, or the user stops the program. A tick that fails is logged and the loop
  goes on; the loop ends with a flush. \<open>exited\<close> tells whether it has, None that the flush never returns.
\<close>

datatype daemon_event = Tick instant | CtrlC

datatype daemon_log = TickError sync_error | FlushError sync_error

fun replicate_loop ::
  "'w host \<Rightarrow> (bytes \<Rightarrow> bytes) \<Rightarrow> lz4_dec \<Rightarrow> daemon_event list \<Rightarrow> ('w, 's) driver
    \<Rightarrow> ((daemon_log list \<times> bool, unit) result \<times> ('w, 's) driver) option" where
  "replicate_loop ho lz4c lz4d [] dr = Some (Ok ([], False), dr)"
| "replicate_loop ho lz4c lz4d (Tick now # events) dr =
    (case tick ho lz4c lz4d now dr of (r, dr') \<Rightarrow>
     (case r of
        Panic \<Rightarrow> Some (Panic, dr')
      | Ok _ \<Rightarrow> replicate_loop ho lz4c lz4d events dr'
      | Err e \<Rightarrow> map_option (\<lambda>(r, d). (rmap (\<lambda>(log, exited). (TickError e # log, exited)) r, d))
          (replicate_loop ho lz4c lz4d events dr')))"
| "replicate_loop ho lz4c lz4d (CtrlC # events) dr =
    (case driver_flush ho lz4c dr of
       None \<Rightarrow> None
     | Some (r, dr') \<Rightarrow> Some (case r of Ok _ \<Rightarrow> Ok ([], True) | Err e \<Rightarrow> Ok ([FlushError e], True) | Panic \<Rightarrow> Panic, dr'))"

definition replicate_cmd ::
  "'s backends \<Rightarrow> 'w host \<Rightarrow> (bytes \<Rightarrow> bytes) \<Rightarrow> lz4_dec \<Rightarrow> string \<Rightarrow> string \<Rightarrow> daemon_event list \<Rightarrow> staging_dir \<Rightarrow> 's \<Rightarrow> 'w
    \<Rightarrow> (daemon_log list \<times> bool \<times> ('w, 's) driver, unit) result option" where
  "replicate_cmd be ho lz4c lz4d db_path replica events staging s w =
    (case replica_client_of be replica of
       Ok client \<Rightarrow>
        (case db_open ho db_path w of
           (Ok db, w') \<Rightarrow>
            (case syncer_open ho db client s staging of
               (Ok (), sy) \<Rightarrow>
                map_option (\<lambda>(r, dr). rmap (\<lambda>(log, exited). (log, exited, dr)) r)
                  (replicate_loop ho lz4c lz4d events (driver_new sy default_levels))
             | _ \<Rightarrow> Some Panic)
         | _ \<Rightarrow> Some Panic)
     | Err e \<Rightarrow> Some (Err e) | Panic \<Rightarrow> Some Panic)"

end
