(* ===== verification/Upkeep.thy ===== *)
theory Upkeep
  imports SyncRuns Maintenance
begin

text \<open>
  Maintenance keeps a replica restorable: what one call of a compaction, a snapshot or a retention rule
  does to the store and to the index, whatever it returns, and that every TXID stays reachable.
\<close>

section \<open>Local steps\<close>

text \<open>Steps that change the handle only; \<open>local_step\<close> says of more that they touch neither the replica nor the index.\<close>

definition calm :: "('w, 's) syncer \<Rightarrow> ('w, 's) syncer \<Rightarrow> bool" where
  "calm sy sy' \<longleftrightarrow> (\<exists>d. sy' = sy\<lparr>sy_db := d\<rparr>)"

interpretation clm: state_order calm
proof
  fix s s' s'' :: "('w, 's) syncer"
  show "calm s s"
    unfolding calm_def by (rule exI [of _ "sy_db s"]) simp
  assume "calm s s'" "calm s' s''"
  then show "calm s s''"
    by (auto simp: calm_def)
qed

lemma calm_idle: "calm sy sy' \<Longrightarrow> local_step sy sy'"
  by (auto simp: calm_def local_step_def)

lemma calm_scratch: "calm sy sy' \<Longrightarrow> sy_scratch sy' = sy_scratch sy"
  by (auto simp: calm_def)

lemma calm_host: "keeps calm (on_host m)"
  by (auto simp: keeps_def calm_def on_host_run)

lemma calm_read_scratch: "keeps calm (read_scratch ho tmp)"
  unfolding read_scratch_def
  by (intro clm.keeps_bind calm_host) (auto simp: keeps_def clm.refl split: option.splits)

lemma calm_now: "keeps calm (system_now ho)" "keeps calm (now_ms ho)"
  unfolding now_ms_def system_now_def by (intro clm.keeps_intros calm_host)+

lemma calm_temp: "keeps calm (compaction_temp ho l a b)"
  unfolding compaction_temp_def by (intro clm.keeps_intros calm_host)

lemma calm_download: "keeps calm (download f)"
proof -
  have "keeps calm (on_store (\<lambda>s. (get_ltx cl l a b s, s)))" for cl l a b
    by (rule keepsI) (auto simp: on_store_run intro: clm.refl)
  then show ?thesis
    unfolding download_def by (cases f) (auto intro!: clm.keeps_intros)
qed

lemma keeps_idle: "keeps calm m \<Longrightarrow> keeps local_step m"
  unfolding keeps_def using calm_idle by blast

lemma write_scratch_run:
  fixes ho :: "'w host" and sy :: "('w, 's) syncer"
  assumes "write_scratch ho tmp merged sy = (r, sy')"
  shows "local_step sy sy'" and "r = Ok () \<Longrightarrow> \<exists>b. merged = Ok b \<and> map_of (sy_scratch sy') tmp = Some b"
proof -
  have "keeps local_step (op_modify (\<lambda>sy. sy\<lparr>sy_scratch := f (sy_scratch sy)\<rparr>) :: ('w, 's, unit) sync_op)" for f
    by (rule loc.keeps_modify) (simp add: local_step_def)
  then have "keeps local_step (write_scratch ho tmp merged :: ('w, 's, unit) sync_op)"
    unfolding write_scratch_def by (intro loc.keeps_bind loc.keeps_pure keeps_idle [OF calm_host])
  then show "local_step sy sy'"
    using assms by (rule keepsD)
  show "\<exists>b. merged = Ok b \<and> map_of (sy_scratch sy') tmp = Some b" if "r = Ok ()"
    using assms that
    by (cases merged) (auto simp: write_scratch_def op_bind_Ok op_modify_def op_of_def of_ltx_def update_conv' res_simps)
qed

lemma read_scratch_Ok:
  assumes "read_scratch ho tmp sy = (Ok b', sy')" and "map_of (sy_scratch sy) tmp = Some b"
  shows "b' = b"
proof -
  obtain x sy1 where io: "on_host (fs_op ho) sy = (Ok x, sy1)"
    and rd: "(case map_of (sy_scratch sy1) tmp of None \<Rightarrow> (Err (SyncIo NotFound), sy1) | Some b \<Rightarrow> (Ok b, sy1)) = (Ok b', sy')"
    using assms(1) by (auto simp: read_scratch_def op_bind_Ok)
  have "sy_scratch sy1 = sy_scratch sy"
    using calm_scratch [OF keepsD [OF calm_host io]] .
  then show ?thesis
    using rd assms(2) by simp
qed

section \<open>Uploads\<close>

text \<open>
  An upload of a file: the store may have its bytes, and the index names the file only if the store has it.
\<close>

definition puts ::
  "('s \<Rightarrow> string \<Rightarrow> bytes option) \<Rightarrow> file_range \<Rightarrow> bytes \<Rightarrow> ('w, 's) syncer \<Rightarrow> ('w, 's) syncer \<Rightarrow> bool" where
  "puts objs f b sy sy' \<longleftrightarrow> sy_client sy' = sy_client sy \<and>
    (\<forall>k. objs (sy_store sy') k = objs (sy_store sy) k \<or> k = file_key (sy_client sy) f \<and> objs (sy_store sy') k = Some b) \<and>
    (sy_files sy' = sy_files sy \<or>
     objs (sy_store sy') (file_key (sy_client sy) f) = Some b \<and> names f (sy_files sy) (sy_files sy'))"

lemma puts_idle: "puts objs f b sy sy1 \<Longrightarrow> local_step sy1 sy2 \<Longrightarrow> puts objs f b sy sy2"
  by (simp add: puts_def local_step_def)

lemma idle_puts: "local_step sy sy1 \<Longrightarrow> puts objs f b sy1 sy2 \<Longrightarrow> puts objs f b sy sy2"
  by (simp add: puts_def local_step_def)

lemma puts_nothing: "local_step sy sy' \<Longrightarrow> puts objs f b sy sy'"
  by (simp add: puts_def local_step_def)

text \<open>The call that puts the bytes.\<close>

lemma puts_call:
  assumes good: "good_store objs sy"
    and run: "on_store (put_ltx (sy_client sy) l a c b) sy = (r, sy') \<or> on_store (put_ltx_multipart (sy_client sy) l a c b) sy = (r, sy')"
  shows "puts objs (l, a, c) b sy sy'" and "r = Ok () \<Longrightarrow> objs (sy_store sy') (file_key (sy_client sy) (l, a, c)) = Some b"
    and "sy_files sy' = sy_files sy"
proof -
  let ?k = "ltx_key (sy_client sy) l a c"
  have ok: "store_ok (cl_store (sy_client sy)) objs" and law: "fault_law (cl_store (sy_client sy)) objs"
    using good by (simp_all add: good_store_def)
  have concat: "concat (multipart_parts MULTIPART_CHUNK b) = b"
    by (rule concat_multipart_parts) (simp add: MULTIPART_CHUNK_def)
  obtain q s where s: "sy' = sy\<lparr>sy_store := s\<rparr>" "r = rmap_err SyncStorage q"
    and put: "(\<forall>k'. k' \<noteq> ?k \<longrightarrow> objs s k' = objs (sy_store sy) k') \<and> objs s ?k \<in> {objs (sy_store sy) ?k, Some b} \<and>
      (q = Ok () \<longrightarrow> objs s ?k = Some b)"
  proof -
    obtain q s where q: "put_ltx (sy_client sy) l a c b (sy_store sy) = (q, s) \<or>
        put_ltx_multipart (sy_client sy) l a c b (sy_store sy) = (q, s)" "r = rmap_err SyncStorage q" "sy' = sy\<lparr>sy_store := s\<rparr>"
      using run by (auto simp: on_store_run)
    have "(\<forall>k'. k' \<noteq> ?k \<longrightarrow> objs s k' = objs (sy_store sy) k') \<and> objs s ?k \<in> {objs (sy_store sy) ?k, Some b}"
    proof -
      consider q' where "os_put (cl_store (sy_client sy)) ?k b (sy_store sy) = (q', s)"
        | q' where "os_put_parts (cl_store (sy_client sy)) ?k (multipart_parts MULTIPART_CHUNK b) (sy_store sy) = (q', s)"
        using q(1) by (auto simp: put_ltx_def put_ltx_multipart_def split: prod.splits)
      then show ?thesis
      proof cases
        case 1
        then show ?thesis
          using law unfolding fault_law_def by blast
      next
        case 2
        then have "(\<forall>k'. k' \<noteq> ?k \<longrightarrow> objs s k' = objs (sy_store sy) k') \<and>
            objs s ?k \<in> {objs (sy_store sy) ?k, Some (concat (multipart_parts MULTIPART_CHUNK b))}"
          using law unfolding fault_law_def by blast
        then show ?thesis
          unfolding concat .
      qed
    qed
    moreover have "q = Ok () \<longrightarrow> objs s ?k = Some b"
      using q(1) put_ltx_Ok [OF ok] put_ltx_multipart_Ok [OF ok] by fastforce
    ultimately show thesis
      using that q by blast
  qed
  have "objs s k = objs (sy_store sy) k \<or> k = ?k \<and> objs s k = Some b" for k
    using put by (cases "k = ?k") auto
  then show "puts objs (l, a, c) b sy sy'"
    by (simp add: puts_def file_key_def s(1))
  show "sy_files sy' = sy_files sy"
    by (simp add: s(1))
  show "objs (sy_store sy') (file_key (sy_client sy) (l, a, c)) = Some b" if "r = Ok ()"
    using put that s(2) by (cases q) (auto simp: file_key_def s(1))
qed

text \<open>The upload of a merge output, whatever it returns.\<close>

definition put_merged ::
  "'w host \<Rightarrow> file_range \<Rightarrow> string \<Rightarrow> 's replica_client \<Rightarrow> bytes option \<Rightarrow> ('w, 's, unit) sync_op" where
  "put_merged ho f tmp cl small = (case small of
      None \<Rightarrow> op_bind (read_scratch ho tmp) (\<lambda>b. on_store (put_ltx_multipart cl (fr_level f) (fr_min f) (fr_max f) b))
    | Some b \<Rightarrow> on_store (put_ltx cl (fr_level f) (fr_min f) (fr_max f) b))"

definition record_merged ::
  "'w host \<Rightarrow> file_range \<Rightarrow> string \<Rightarrow> nat \<Rightarrow> (unit, sync_error) result \<Rightarrow> ('w, 's, unit) sync_op" where
  "record_merged ho f tmp sz uploaded = op_try (remove_scratch ho tmp) (\<lambda>_. op_bind (op_of uploaded) (\<lambda>_.
    op_bind (system_now ho) (\<lambda>now. op_modify (\<lambda>sy. sy\<lparr>sy_files := fi_insert \<lparr>li_level = fr_level f,
      li_min = fr_min f, li_max = fr_max f, li_size = sz, li_created = Some now\<rparr> (sy_files sy)\<rparr>))))"

lemma put_merged_run:
  assumes good: "good_store objs sy" and b: "map_of (sy_scratch sy) tmp = Some b" and small: "small = None \<or> small = Some b"
    and run: "put_merged ho f tmp (sy_client sy) small sy = (q, sy')"
  shows "puts objs f b sy sy' \<and> (q = Ok () \<longrightarrow> objs (sy_store sy') (file_key (sy_client sy) f) = Some b) \<and> sy_files sy' = sy_files sy"
proof (cases small)
  case None
  have go: "op_bind (read_scratch ho tmp)
      (\<lambda>b. on_store (put_ltx_multipart (sy_client sy) (fr_level f) (fr_min f) (fr_max f) b)) sy = (q, sy')"
    using run None by (simp add: put_merged_def)
  have rd: "local_step sy s1" if "read_scratch ho tmp sy = (v, s1)" for v s1
    using calm_idle [OF keepsD [OF calm_read_scratch that]] .
  from go show ?thesis
  proof (cases rule: op_bind_cases)
    case (step x s1)
    have s1: "sy_client s1 = sy_client sy" "sy_files s1 = sy_files sy" "good_store objs s1"
      using rd [OF step(1)] good by (simp_all add: local_step_def good_store_def)
    have put: "on_store (put_ltx_multipart (sy_client s1) (fr_level f) (fr_min f) (fr_max f) b) s1 = (q, sy')"
      using step(2) read_scratch_Ok [OF step(1) b] s1(1) by simp
    note p = puts_call [OF s1(3) disjI2 [OF put]]
    show ?thesis
      using p s1(1,2) idle_puts [OF rd [OF step(1)], of objs f b sy'] by simp
  qed (use puts_nothing [OF rd] rd in \<open>auto simp: local_step_def\<close>)
next
  case (Some c)
  then have "on_store (put_ltx (sy_client sy) (fr_level f) (fr_min f) (fr_max f) b) sy = (q, sy')"
    using run small by (simp add: put_merged_def)
  from puts_call [OF good disjI1 [OF this]] show ?thesis
    by simp
qed

lemma record_merged_run:
  fixes ho :: "'w host" and sy :: "('w, 's) syncer"
  assumes "record_merged ho f tmp sz uploaded sy = (r, sy')"
  shows "sy_client sy' = sy_client sy \<and> sy_store sy' = sy_store sy \<and> sy_pos sy' = sy_pos sy \<and>
    (r \<noteq> Ok () \<and> sy_files sy' = sy_files sy \<or>
     uploaded = Ok () \<and> names f (sy_files sy) (sy_files sy'))"
proof -
  let ?ins = "\<lambda>now sy. sy\<lparr>sy_files := fi_insert \<lparr>li_level = fr_level f, li_min = fr_min f, li_max = fr_max f,
    li_size = sz, li_created = Some now\<rparr> (sy_files sy)\<rparr>"
  have rm: "keeps local_step (remove_scratch ho tmp :: ('w, 's, unit) sync_op)"
    unfolding remove_scratch_def by (intro loc.keeps_bind keeps_idle [OF calm_host] loc.keeps_modify) (simp add: local_step_def)
  obtain q s1 where q: "remove_scratch ho tmp sy = (q, s1)" by (cases "remove_scratch ho tmp sy :: (unit, sync_error) result \<times> _")
  then have s1: "local_step sy s1"
    by (rule keepsD [OF rm])
  have rest: "?thesis" if go: "op_bind (op_of uploaded) (\<lambda>_. op_bind (system_now ho) (\<lambda>now. op_modify (?ins now))) s1 = (r, sy')"
  proof -
    obtain n s2 where n: "system_now ho s1 = (n, s2)" by (cases "system_now ho s1 :: (instant, sync_error) result \<times> _")
    have "local_step s1 s2"
      by (rule keepsD [OF keeps_idle [OF calm_now(1)] n])
    then show ?thesis
      using go n s1 by (cases uploaded; cases n) (auto simp: op_bind_def op_of_def op_modify_def local_step_def names_insert [of "fr_level f" "fr_min f" "fr_max f", simplified])
  qed
  show ?thesis
    using assms q rest s1 by (cases q) (auto simp: record_merged_def op_try_def local_step_def)
qed

lemma upload_merged_alt:
  "upload_merged ho (fr_level f) (fr_min f) (fr_max f) tmp =
    op_bind (op_bind (read_scratch ho tmp) (\<lambda>b. op_ret (length b))) (\<lambda>sz.
    op_bind (op_get sy_client) (\<lambda>cl.
    op_bind (if sz \<ge> MULTIPART_THRESHOLD then op_ret None else op_bind (read_scratch ho tmp) (\<lambda>b. op_ret (Some b))) (\<lambda>small.
    op_try (put_merged ho f tmp cl small) (record_merged ho f tmp sz))))"
  by (simp add: upload_merged_def put_merged_def record_merged_def [abs_def])

lemma upload_merged_run:
  fixes ho :: "'w host" and sy :: "('w, 's) syncer"
  assumes good: "good_store objs sy" and b: "map_of (sy_scratch sy) tmp = Some b"
    and run: "upload_merged ho (fr_level f) (fr_min f) (fr_max f) tmp sy = (r, sy')"
  shows "puts objs f b sy sy' \<and> (r = Ok () \<longrightarrow> names f (sy_files sy) (sy_files sy'))"
proof -
  have early: ?thesis if "calm sy sy'" "r \<noteq> Ok ()"
    using that puts_nothing [OF calm_idle [OF that(1)], of objs f b] by blast
  have put: ?thesis if calm: "calm sy s1" and small: "small = None \<or> small = Some b"
    and go: "op_try (put_merged ho f tmp (sy_client s1) small) (record_merged ho f tmp sz) s1 = (r, sy')" for s1 small sz
  proof -
    have s1: "local_step sy s1" "map_of (sy_scratch s1) tmp = Some b"
      using calm_idle [OF calm] calm_scratch [OF calm] b by simp_all
    then have good1: "good_store objs s1" and cl: "sy_client s1 = sy_client sy" "sy_files s1 = sy_files sy"
      using good by (simp_all add: local_step_def good_store_def)
    obtain q s2 where q: "put_merged ho f tmp (sy_client s1) small s1 = (q, s2)"
      by (cases "put_merged ho f tmp (sy_client s1) small s1")
    note p = put_merged_run [OF good1 s1(2) small q]
    have p2: "puts objs f b sy s2"
      using idle_puts [OF s1(1)] p by blast
    show ?thesis
    proof (cases "q = Panic")
      case True
      then show ?thesis
        using go q p2 by (auto simp: op_try_def)
    next
      case False
      then have "record_merged ho f tmp sz q s2 = (r, sy')"
        using go q by (cases q) (auto simp: op_try_def)
      from record_merged_run [OF this] p p2 cl show ?thesis
        unfolding puts_def by fastforce
    qed
  qed
  have len: "keeps calm (op_bind (read_scratch ho tmp) (\<lambda>b. op_ret (g b)) :: ('w, 's, 'x) sync_op)" for g :: "bytes \<Rightarrow> 'x"
    by (intro clm.keeps_intros calm_read_scratch)
  from run [unfolded upload_merged_alt] show ?thesis
  proof (cases rule: op_bind_cases)
    case (step sz s1)
    note c1 = keepsD [OF len step(1)]
    let ?small = "if sz \<ge> MULTIPART_THRESHOLD then op_ret None else op_bind (read_scratch ho tmp) (\<lambda>b. op_ret (Some b))"
    have small_calm: "keeps calm (?small :: ('w, 's, bytes option) sync_op)"
      using len [of Some] by (simp add: clm.keeps_pure)
    have "op_bind ?small (\<lambda>small. op_try (put_merged ho f tmp (sy_client s1) small) (record_merged ho f tmp sz)) s1 = (r, sy')"
      using step(2) by (simp add: op_bind_def [of "op_get sy_client"] op_get_def)
    then show ?thesis
    proof (cases rule: op_bind_cases)
      case (step small s2)
      have small: "small = None \<or> small = Some b"
        using step(1) read_scratch_Ok [of ho tmp s1 _ _ b] calm_scratch [OF c1] \<open>map_of _ tmp = Some b\<close>
        by (auto simp: op_bind_Ok op_ret_def split: if_splits)
      have c2: "calm s1 s2"
        by (rule keepsD [OF small_calm step(1)])
      then have cl: "sy_client s2 = sy_client s1"
        using calm_idle by (auto simp: local_step_def)
      show ?thesis
        by (rule put [OF clm.trans [OF c1 c2] small step(2) [folded cl]])
    qed (use early clm.trans [OF c1 keepsD [OF small_calm]] in \<open>blast+\<close>)
  qed (use early keepsD [OF len] in auto)
qed

text \<open>A merge written to the compaction directory and uploaded.\<close>

lemma merge_and_upload:
  fixes ho :: "'w host" and sy :: "('w, 's) syncer"
  assumes good: "good_store objs sy"
    and run: "op_bind (compaction_temp ho (fr_level f) (fr_min f) (fr_max f)) (\<lambda>tmp.
      op_bind (write_scratch ho tmp merged) (\<lambda>_. upload_merged ho (fr_level f) (fr_min f) (fr_max f) tmp)) sy = (r, sy')"
  shows "local_step sy sy' \<and> r \<noteq> Ok () \<or>
    (\<exists>b. merged = Ok b \<and> puts objs f b sy sy' \<and> (r = Ok () \<longrightarrow> names f (sy_files sy) (sy_files sy')))"
  using run
proof (cases rule: op_bind_cases)
  case (step tmp s1)
  have s1: "local_step sy s1"
    using calm_idle [OF keepsD [OF calm_temp step(1)]] .
  from step(2) show ?thesis
  proof (cases rule: op_bind_cases)
    case (step x s2)
    note w = write_scratch_run [OF step(1)]
    obtain b where b: "merged = Ok b" "map_of (sy_scratch s2) tmp = Some b"
      using w(2) by auto
    have s2: "local_step sy s2"
      using loc.trans [OF s1 w(1)] .
    then have good2: "good_store objs s2" and files: "sy_files s2 = sy_files sy"
      using good by (simp_all add: local_step_def good_store_def)
    from upload_merged_run [OF good2 b(2) step(2), unfolded files] show ?thesis
      using idle_puts [OF s2] b(1) by blast
  qed (use loc.trans [OF s1 write_scratch_run(1)] in \<open>blast+\<close>)
qed (use calm_idle [OF keepsD [OF calm_temp]] in \<open>auto\<close>)

lemma compact_and_upload_run:
  assumes "good_store objs sy"
    and "compact_and_upload ho lz4c lz4d (fr_level f) (fr_min f) (fr_max f) refs sy = (r, sy')"
  shows "local_step sy sy' \<and> r \<noteq> Ok () \<or> (\<exists>b t. compact_to_writer lz4c lz4d refs = Ok (b, t) \<and>
    puts objs f b sy sy' \<and> (r = Ok () \<longrightarrow> names f (sy_files sy) (sy_files sy')))"
  using merge_and_upload [OF assms(1) assms(2) [unfolded compact_and_upload_def]] by (auto simp: res_simps)

text \<open>Downloads read the files they name.\<close>

lemma download_run:
  assumes "op_map download fs sy = (Ok refs, sy')"
  shows "sy' = sy" and "file_bytes_of (sy_client sy) (sy_store sy) fs refs"
proof -
  have one: "s' = s \<and> get_ltx (sy_client s) (fr_level f) (fr_min f) (fr_max f) (sy_store s) = Ok b"
    if "download f s = (Ok b, s')" for f b and s s' :: "('a, 'b) syncer"
  proof -
    obtain l mn mx where f: "f = (l, mn, mx)" by (cases f)
    have "on_store (\<lambda>st. (get_ltx (sy_client s) l mn mx st, st)) s = (Ok b, s')"
      using that by (simp add: download_def f op_bind_def op_get_def)
    then show ?thesis
      by (auto simp: on_store_run f Ok_rmap_err)
  qed
  have "sy' = sy \<and> file_bytes_of (sy_client sy) (sy_store sy) fs refs"
    using assms
  proof (induction fs arbitrary: refs sy sy')
    case (Cons f fs)
    obtain b s1 bs where run: "download f sy = (Ok b, s1)" "op_map download fs s1 = (Ok bs, sy')" "refs = b # bs"
      using Cons.prems by (auto simp: op_bind_Ok op_ret_def)
    then show ?case
      using one [OF run(1)] Cons.IH [OF run(2)] by (simp add: file_bytes_of_def)
  qed (auto simp: op_ret_def file_bytes_of_def)
  then show "sy' = sy" "file_bytes_of (sy_client sy) (sy_store sy) fs refs"
    by blast+
qed

section \<open>Deletions\<close>

text \<open>Deleting files: each may be gone from the index, and only if the call got that far, and from the store.\<close>

definition prunes ::
  "('s \<Rightarrow> string \<Rightarrow> bytes option) \<Rightarrow> file_range set \<Rightarrow> ('w, 's) syncer \<Rightarrow> ('w, 's) syncer \<Rightarrow> bool" where
  "prunes objs D sy sy' \<longleftrightarrow> sy_client sy' = sy_client sy \<and>
    (\<forall>k. objs (sy_store sy') k = objs (sy_store sy) k \<or>
      objs (sy_store sy') k = None \<and> k \<in> file_key (sy_client sy) ` D) \<and>
    (fi_valid (sy_files sy) \<longrightarrow> fi_valid (sy_files sy') \<and>
      (\<forall>f. fi_lookup (sy_files sy') f = fi_lookup (sy_files sy) f \<or> fi_lookup (sy_files sy') f = None \<and> f \<in> D))"

interpretation prn: state_order "prunes objs D" for objs D
proof
  fix s s' s'' :: "('b, 'a) syncer"
  show "prunes objs D s s"
    by (simp add: prunes_def)
  assume "prunes objs D s s'" "prunes objs D s' s''"
  then show "prunes objs D s s''"
    unfolding prunes_def by (metis)
qed

lemma prunes_mono: "prunes objs D sy sy' \<Longrightarrow> D \<subseteq> D' \<Longrightarrow> prunes objs D' sy sy'"
  unfolding prunes_def by blast

lemma idle_prunes: "local_step sy sy' \<Longrightarrow> prunes objs D sy sy'"
  by (simp add: prunes_def local_step_def)

lemma delete_file_run:
  assumes good: "good_store objs sy" and run: "delete_file f sy = (r, sy')"
  shows "prunes objs {f} sy sy'"
proof -
  obtain l mn mx where f: "f = (l, mn, mx)" by (cases f)
  let ?k = "ltx_key (sy_client sy) l mn mx"
  obtain q s1 where q: "on_store (delete_ltx (sy_client sy) l mn mx) sy = (q, s1)"
    by (cases "on_store (delete_ltx (sy_client sy) l mn mx) sy")
  obtain q' s where s: "delete_ltx (sy_client sy) l mn mx (sy_store sy) = (q', s)" "s1 = sy\<lparr>sy_store := s\<rparr>"
    using q by (auto simp: on_store_run)
  obtain q'' where "os_delete (cl_store (sy_client sy)) ?k (sy_store sy) = (q'', s)"
    using s(1) by (auto simp: delete_ltx_def split: prod.splits)
  then have objs: "(\<forall>k'. k' \<noteq> ?k \<longrightarrow> objs s k' = objs (sy_store sy) k') \<and> objs s ?k \<in> {objs (sy_store sy) ?k, None}"
    using good unfolding good_store_def fault_law_def by blast
  have keys: "objs s k = objs (sy_store sy) k \<or> objs s k = None \<and> k \<in> file_key (sy_client sy) ` {f}" for k
    using objs by (cases "k = ?k") (auto simp: f file_key_def)
  have "sy' = s1 \<or> sy' = s1\<lparr>sy_files := fi_remove l mn mx (sy_files s1)\<rparr>"
    using run q by (cases q) (auto simp: delete_file_def f op_bind_def op_get_def op_modify_def)
  moreover have "prunes objs {f} sy s1"
    using keys by (simp add: prunes_def s(2))
  moreover have "prunes objs {f} s1 (s1\<lparr>sy_files := fi_remove l mn mx (sy_files s1)\<rparr>)"
    by (auto simp: prunes_def f fi_remove_valid fi_lookup_remove)
  ultimately show ?thesis
    using prn.trans by blast
qed

lemma prunes_good: "prunes objs D sy sy' \<Longrightarrow> good_store objs sy \<Longrightarrow> good_store objs sy'"
  by (simp add: prunes_def good_store_def)

lemma delete_files_run:
  assumes "good_store objs sy" and "op_each delete_file fs sy = (r, sy')" and "set fs \<subseteq> D"
  shows "prunes objs D sy sy'"
  using assms
proof (induction fs arbitrary: sy)
  case Nil
  then show ?case by (simp add: op_ret_def prn.refl)
next
  case (Cons f fs)
  have one: "prunes objs D sy s1" if "delete_file f sy = (q, s1)" for q s1
    using prunes_mono [OF delete_file_run [OF Cons.prems(1) that]] Cons.prems(3) by simp
  from Cons.prems(2) have "op_bind (delete_file f) (\<lambda>_. op_each delete_file fs) sy = (r, sy')"
    by simp
  then show ?case
  proof (cases rule: op_bind_cases)
    case (step x s1)
    show ?thesis
      by (rule prn.trans [OF one [OF step(1)] Cons.IH [OF prunes_good [OF one [OF step(1)] Cons.prems(1)] step(2)]])
        (use Cons.prems(3) in simp)
  qed (use one in auto)
qed

end
