(* ===== verification/Tiered.thy ===== *)
theory Tiered
  imports Upkeep
begin

text \<open>
  Replicas that maintenance can rely on: the index names proper files, and the files that are both in the
  index and in the store are layered. Each kind of upload and deletion keeps this.
\<close>

section \<open>The index of a tiered replica\<close>

definition frontier :: "u32 \<Rightarrow> file_index \<Rightarrow> u64" where
  "frontier l fi = max_txid_of (fi_list l fi)"

lemma max_txid_of_Max: "max_txid_of xs = Max (insert 0 (li_max ` set xs))"
  by (simp add: max_txid_of_def Max.set_eq_fold [symmetric] del: Max_insert)

lemma listed_ranges:
  assumes "fi_valid fi"
  shows "info_key ` set (fi_list l fi) = {f \<in> dom (fi_lookup fi). fr_level f = l}"
proof -
  have "f \<in> info_key ` set (fi_list l fi)" if f: "f \<in> dom (fi_lookup fi)" "fr_level f = l" for f
  proof -
    obtain i where i: "fi_lookup fi f = Some i"
      using f(1) by auto
    then have "info_key i = f"
      using assms unfolding fi_valid_def by blast
    then show ?thesis
      using i f(2) set_fi_list [OF assms, of i l] by (force simp: info_key_def)
  qed
  moreover have "info_key i \<in> dom (fi_lookup fi) \<and> fr_level (info_key i) = l" if "i \<in> set (fi_list l fi)" for i
    using that set_fi_list [OF assms, of i l] by (auto simp: info_key_def)
  ultimately show ?thesis
    by blast
qed

lemma frontier_Max:
  assumes "fi_valid fi"
  shows "frontier l fi = Max (insert 0 (fr_max ` {f \<in> dom (fi_lookup fi). fr_level f = l}))"
    and "finite {f \<in> dom (fi_lookup fi). fr_level f = l}"
proof -
  show "finite {f \<in> dom (fi_lookup fi). fr_level f = l}"
    unfolding listed_ranges [OF assms, symmetric] by simp
  have "li_max ` set (fi_list l fi) = fr_max ` {f \<in> dom (fi_lookup fi). fr_level f = l}"
    unfolding listed_ranges [OF assms, symmetric] by (auto simp: info_key_def image_image)
  then show "frontier l fi = Max (insert 0 (fr_max ` {f \<in> dom (fi_lookup fi). fr_level f = l}))"
    by (simp add: frontier_def max_txid_of_Max del: Max_insert)
qed

lemma frontier_ge: "fi_valid fi \<Longrightarrow> f \<in> dom (fi_lookup fi) \<Longrightarrow> fr_max f \<le> frontier (fr_level f) fi"
  unfolding frontier_Max(1) by (rule Max_ge) (simp_all add: frontier_Max(2))

lemma frontier_in:
  assumes "fi_valid fi" and "frontier l fi \<noteq> 0"
  obtains mn where "(l, mn, frontier l fi) \<in> dom (fi_lookup fi)"
proof -
  have "frontier l fi \<in> insert 0 (fr_max ` {f \<in> dom (fi_lookup fi). fr_level f = l})"
    unfolding frontier_Max(1) [OF assms(1)] by (rule Max_in) (simp_all add: frontier_Max(2) [OF assms(1)])
  then have "frontier l fi \<in> fr_max ` {f \<in> dom (fi_lookup fi). fr_level f = l}"
    using assms(2) by simp
  then obtain f where "f \<in> dom (fi_lookup fi)" "fr_level f = l" "fr_max f = frontier l fi"
    by (elim imageE CollectE conjE) (rule that, simp_all)
  moreover have "f = (fr_level f, fr_min f, fr_max f)"
    by simp
  ultimately show thesis
    using that [of "fr_min f"] by simp
qed

lemma frontier_mono:
  assumes "fi_valid fi" and "fi_valid fi'"
    and "\<And>f. f \<in> dom (fi_lookup fi') \<Longrightarrow> fr_level f = l \<Longrightarrow> f \<in> dom (fi_lookup fi)"
  shows "frontier l fi' \<le> frontier l fi"
proof (cases "frontier l fi' = 0")
  case False
  from frontier_in [OF assms(2) this] obtain mn where "(l, mn, frontier l fi') \<in> dom (fi_lookup fi')" .
  from frontier_ge [OF assms(1) assms(3) [OF this]] show ?thesis by simp
qed simp

lemma frontier_names:
  assumes "fi_valid fi" and "names f fi fi'"
  shows "fi_valid fi'" and "dom (fi_lookup fi') = insert f (dom (fi_lookup fi))"
    and "frontier l fi' = (if fr_level f = l then max (frontier l fi) (fr_max f) else frontier l fi)"
proof -
  show v: "fi_valid fi'" and dom: "dom (fi_lookup fi') = insert f (dom (fi_lookup fi))"
    using assms by (auto simp: names_def fi_insert_valid fi_lookup_insert split: if_splits)
  have "{g \<in> dom (fi_lookup fi'). fr_level g = l} =
      (if fr_level f = l then insert f {g \<in> dom (fi_lookup fi). fr_level g = l} else {g \<in> dom (fi_lookup fi). fr_level g = l})"
    unfolding dom by auto
  then show "frontier l fi' = (if fr_level f = l then max (frontier l fi) (fr_max f) else frontier l fi)"
    using frontier_Max [OF v, of l] frontier_Max [OF assms(1), of l]
    by (simp add: insert_commute [of 0] del: Max_insert) (simp add: max.commute)
qed

section \<open>Tiered replicas\<close>

text \<open>
  The replica holds the history up to \<open>t\<close>; the index names proper files, snapshots from TXID 1 and raw
  files of one TXID; and the files that are both there and known are layered.
\<close>

definition known :: "('s \<Rightarrow> string \<Rightarrow> bytes option) \<Rightarrow> ('w, 's) syncer \<Rightarrow> file_range set" where
  "known objs sy = dom (fi_lookup (sy_files sy)) \<inter> files_of (sy_client sy) objs (sy_store sy)"

definition proper_index :: "file_index \<Rightarrow> u64 \<Rightarrow> bool" where
  "proper_index fi t \<longleftrightarrow> fi_valid fi \<and> (\<forall>f \<in> dom (fi_lookup fi). fr_level f \<le> MAX_LEVEL \<and> 1 \<le> fr_min f \<and>
    fr_min f \<le> fr_max f \<and> fr_max f \<le> t \<and> (fr_level f = SNAPSHOT_LEVEL \<longrightarrow> fr_min f = 1) \<and>
    (fr_level f = LEVEL0 \<longrightarrow> fr_min f = fr_max f))"

lemma proper_indexD:
  "proper_index fi t \<Longrightarrow> f \<in> dom (fi_lookup fi) \<Longrightarrow> fr_level f \<le> MAX_LEVEL \<and> 1 \<le> fr_min f \<and>
    fr_min f \<le> fr_max f \<and> fr_max f \<le> t \<and> (fr_level f = SNAPSHOT_LEVEL \<longrightarrow> fr_min f = 1) \<and>
    (fr_level f = LEVEL0 \<longrightarrow> fr_min f = fr_max f)"
  unfolding proper_index_def by blast

definition tiered ::
  "('s \<Rightarrow> string \<Rightarrow> bytes option) \<Rightarrow> (bytes \<Rightarrow> bytes) \<Rightarrow> u32 \<Rightarrow> (u64 \<Rightarrow> bytes) \<Rightarrow> ('w, 's) syncer \<Rightarrow> u64 \<Rightarrow> bool" where
  "tiered objs lz4c ps H sy t \<longleftrightarrow> replica_holds (sy_client sy) objs lz4c ps H (sy_store sy) t \<and>
    proper_index (sy_files sy) t \<and>
    layered (known objs sy) (frontier SNAPSHOT_LEVEL (sy_files sy)) (frontier 1 (sy_files sy)) t"

lemma tiered_idle: "tiered objs lz4c ps H sy t \<Longrightarrow> local_step sy sy' \<Longrightarrow> tiered objs lz4c ps H sy' t"
  by (simp add: tiered_def local_step_def known_def)

lemma puts_files:
  assumes "puts objs f b sy sy'" and "fr_level f \<le> MAX_LEVEL"
  shows "files_of (sy_client sy) objs (sy_store sy) \<subseteq> files_of (sy_client sy) objs (sy_store sy')"
    and "sy_files sy' \<noteq> sy_files sy \<Longrightarrow> f \<in> files_of (sy_client sy) objs (sy_store sy')"
proof -
  have kept: "objs (sy_store sy') k = objs (sy_store sy) k \<or> objs (sy_store sy') k = Some b" for k
    using assms(1) unfolding puts_def by blast
  have "objs (sy_store sy') (file_key (sy_client sy) g) \<noteq> None" if "objs (sy_store sy) (file_key (sy_client sy) g) \<noteq> None" for g
    using kept [of "file_key (sy_client sy) g"] that by auto
  then show "files_of (sy_client sy) objs (sy_store sy) \<subseteq> files_of (sy_client sy) objs (sy_store sy')"
    unfolding subset_iff files_of_iff by blast
  show "f \<in> files_of (sy_client sy) objs (sy_store sy')" if "sy_files sy' \<noteq> sy_files sy"
    using that assms unfolding puts_def files_of_iff by auto
qed

text \<open>An upload of a file the index may then name; what is left to show is the layers.\<close>

lemma tiered_puts:
  assumes tier: "tiered objs lz4c ps H sy t" and good: "good_store objs sy" and rd: "readable (cl_store (sy_client sy)) objs"
    and put: "puts objs f b sy sy'" and car: "carrier lz4c ps H f b" and t: "t \<le> t'" "fr_max f \<le> t'"
    and named: "fr_level f = SNAPSHOT_LEVEL \<Longrightarrow> fr_min f = 1" "fr_level f = LEVEL0 \<Longrightarrow> fr_min f = fr_max f"
    and layers: "known objs sy \<subseteq> known objs sy' \<Longrightarrow> 
      (sy_files sy' = sy_files sy \<or> fi_valid (sy_files sy) \<and> names f (sy_files sy) (sy_files sy') \<and> f \<in> known objs sy') \<Longrightarrow>
      layered (known objs sy') (frontier SNAPSHOT_LEVEL (sy_files sy')) (frontier 1 (sy_files sy')) t'"
  shows "tiered objs lz4c ps H sy' t'"
proof -
  let ?fi = "sy_files sy" and ?fi' = "sy_files sy'"
  have cl: "sy_client sy' = sy_client sy" and level: "fr_level f \<le> MAX_LEVEL"
    using put car by (simp_all add: puts_def carrier_def)
  note sub = puts_files [OF put level]
  have index: "proper_index ?fi t" and v: "fi_valid ?fi"
    using tier by (simp_all add: tiered_def proper_index_def)
  have old: "fr_level g \<le> MAX_LEVEL \<and> 1 \<le> fr_min g \<and> fr_min g \<le> fr_max g \<and> fr_max g \<le> t' \<and>
      (fr_level g = SNAPSHOT_LEVEL \<longrightarrow> fr_min g = 1) \<and> (fr_level g = LEVEL0 \<longrightarrow> fr_min g = fr_max g)"
    if "g \<in> dom (fi_lookup ?fi)" for g
    using index that t(1) order_trans unfolding proper_index_def by blast
  have "proper_index ?fi' t' \<and> known objs sy \<subseteq> known objs sy' \<and> (?fi' = ?fi \<or> names f ?fi ?fi' \<and> f \<in> known objs sy')"
  proof (cases "?fi' = ?fi")
    case True
    then show ?thesis
      using v old sub(1) unfolding proper_index_def known_def cl by auto
  next
    case False
    then have new: "names f ?fi ?fi'"
      using put by (auto simp: puts_def)
    note n = frontier_names [OF v new]
    have "proper_index ?fi' t'"
      unfolding proper_index_def n(2) using n(1) old named car t(2) by (auto simp: carrier_def)
    then show ?thesis
      using new sub(1) sub(2) [OF False] unfolding known_def cl n(2) by auto
  qed
  then have index': "proper_index ?fi' t'" and known: "known objs sy \<subseteq> known objs sy'"
    and new: "?fi' = ?fi \<or> fi_valid ?fi \<and> names f ?fi ?fi' \<and> f \<in> known objs sy'"
    using v by blast+
  have lay: "layered (known objs sy') (frontier SNAPSHOT_LEVEL ?fi') (frontier 1 ?fi') t'"
    by (rule layers [OF known new])
  have reach: "reaches (files_of (sy_client sy) objs (sy_store sy')) t'"
    by (rule reaches_mono [OF layered_reaches [OF lay]]) (auto simp: known_def cl)
  have "objs (sy_store sy') k = objs (sy_store sy) k \<or> objs (sy_store sy') k = None \<or>
      objs (sy_store sy') k = Some b \<and> k = file_key (sy_client sy) f \<and> carrier lz4c ps H f b \<and> fr_max f \<le> t'" for k
    using put car t(2) unfolding puts_def by blast
  from replica_changed [OF _ _ rd t(1) this reach] have "replica_holds (sy_client sy) objs lz4c ps H (sy_store sy') t'"
    using tier good by (simp add: tiered_def good_store_def)
  then show ?thesis
    using lay index' by (simp add: tiered_def cl)
qed

text \<open>The uploads of maintenance: a snapshot, a window of the first cascade level, and one further up.\<close>

lemma tiered_put_snapshot:
  assumes "tiered objs lz4c ps H sy t" and "good_store objs sy" and "readable (cl_store (sy_client sy)) objs"
    and "puts objs (SNAPSHOT_LEVEL, 1, mx) b sy sy'" and "carrier lz4c ps H (SNAPSHOT_LEVEL, 1, mx) b" and "mx \<le> t"
  shows "tiered objs lz4c ps H sy' t"
proof (rule tiered_puts [OF assms(1-5) order_refl])
  assume known: "known objs sy \<subseteq> known objs sy'" and new: "sy_files sy' = sy_files sy \<or> fi_valid (sy_files sy) \<and>
    names (SNAPSHOT_LEVEL, 1, mx) (sy_files sy) (sy_files sy') \<and> (SNAPSHOT_LEVEL, 1, mx) \<in> known objs sy'"
  have lay: "layered (known objs sy) (frontier SNAPSHOT_LEVEL (sy_files sy)) (frontier 1 (sy_files sy)) t"
    using assms(1) by (simp add: tiered_def)
  from new show "layered (known objs sy') (frontier SNAPSHOT_LEVEL (sy_files sy')) (frontier 1 (sy_files sy')) t"
  proof (elim disjE conjE)
    assume "sy_files sy' = sy_files sy"
    then show ?thesis
      using layered_mono [OF lay known] by simp
  next
    assume n: "fi_valid (sy_files sy)" "names (SNAPSHOT_LEVEL, 1, mx) (sy_files sy) (sy_files sy')" "(SNAPSHOT_LEVEL, 1, mx) \<in> known objs sy'"
    show ?thesis
      using layered_put_snapshot [OF lay known n(3)] frontier_names(3) [OF n(1,2)] by (simp add: SNAPSHOT_LEVEL_def)
  qed
qed (use assms(6) in \<open>simp_all add: SNAPSHOT_LEVEL_def LEVEL0_def\<close>)

lemma tiered_put_cascade:
  assumes "tiered objs lz4c ps H sy t" and "good_store objs sy" and "readable (cl_store (sy_client sy)) objs"
    and "puts objs f b sy sy'" and "carrier lz4c ps H f b" and "fr_max f \<le> t"
    and level: "fr_level f \<noteq> LEVEL0" "fr_level f \<noteq> SNAPSHOT_LEVEL"
    and fits: "fr_level f = 1 \<Longrightarrow> frontier 1 (sy_files sy) < fr_max f \<and>
      (max (frontier 1 (sy_files sy)) (frontier SNAPSHOT_LEVEL (sy_files sy)) < fr_max f \<longrightarrow>
        fr_min f \<le> max (frontier 1 (sy_files sy)) (frontier SNAPSHOT_LEVEL (sy_files sy)) + 1)"
  shows "tiered objs lz4c ps H sy' t"
proof (rule tiered_puts [OF assms(1-5) order_refl assms(6)])
  assume known: "known objs sy \<subseteq> known objs sy'" and new: "sy_files sy' = sy_files sy \<or> fi_valid (sy_files sy) \<and>
    names f (sy_files sy) (sy_files sy') \<and> f \<in> known objs sy'"
  have lay: "layered (known objs sy) (frontier SNAPSHOT_LEVEL (sy_files sy)) (frontier 1 (sy_files sy)) t"
    using assms(1) by (simp add: tiered_def)
  from new show "layered (known objs sy') (frontier SNAPSHOT_LEVEL (sy_files sy')) (frontier 1 (sy_files sy')) t"
  proof (elim disjE conjE)
    assume "sy_files sy' = sy_files sy"
    then show ?thesis
      using layered_mono [OF lay known] by simp
  next
    assume n: "fi_valid (sy_files sy)" "names f (sy_files sy) (sy_files sy')" "f \<in> known objs sy'"
    show ?thesis
    proof (cases "fr_level f = 1")
      case True
      note nx = fits [OF True]
      have "frontier 1 (sy_files sy') = fr_max f"
        using frontier_names(3) [OF n(1,2), of 1] True nx by (simp add: max_absorb2 less_imp_le)
      then show ?thesis
        using layered_put_cascade [OF lay known n(3)] nx frontier_names(3) [OF n(1,2), of SNAPSHOT_LEVEL] True level
        by (simp add: SNAPSHOT_LEVEL_def)
    next
      case False
      then show ?thesis
        using layered_mono [OF lay known] frontier_names(3) [OF n(1,2)] level by simp
    qed
  qed
qed (use level in auto)

text \<open>The upload of the next raw file.\<close>

lemma tiered_put_raw:
  assumes "tiered objs lz4c ps H sy t" and "good_store objs sy" and "readable (cl_store (sy_client sy)) objs"
    and "puts objs (LEVEL0, t + 1, t + 1) b sy sy'" and "carrier lz4c ps H (LEVEL0, t + 1, t + 1) b"
    and named: "names (LEVEL0, t + 1, t + 1) (sy_files sy) (sy_files sy')"
      "objs (sy_store sy') (file_key (sy_client sy) (LEVEL0, t + 1, t + 1)) \<noteq> None"
  shows "tiered objs lz4c ps H sy' (t + 1)"
proof (rule tiered_puts [OF assms(1-5)])
  let ?f = "(LEVEL0, t + 1, t + 1)"
  have t: "t + 1 \<noteq> 0"
    using assms(5) by (auto simp: carrier_def)
  then show "t \<le> t + 1"
    by uint_arith
  assume known: "known objs sy \<subseteq> known objs sy'"
  have lay: "layered (known objs sy) (frontier SNAPSHOT_LEVEL (sy_files sy)) (frontier 1 (sy_files sy)) t"
    and v: "fi_valid (sy_files sy)"
    using assms(1) by (simp_all add: tiered_def proper_index_def)
  note n = frontier_names [OF v named(1)]
  have "?f \<in> known objs sy'"
    using n(2) named(2) assms(4) by (simp add: known_def files_of_iff puts_def LEVEL0_def)
  then show "layered (known objs sy') (frontier SNAPSHOT_LEVEL (sy_files sy')) (frontier 1 (sy_files sy')) (t + 1)"
    using layered_put_raw [OF lay known _ t] n(3) by (simp add: LEVEL0_def SNAPSHOT_LEVEL_def)
qed (simp_all add: LEVEL0_def SNAPSHOT_LEVEL_def)

text \<open>
  Deletions: of raw files the cascade has taken in, or of anything up to the newest snapshot but that.
\<close>

definition spare :: "file_index \<Rightarrow> file_range set \<Rightarrow> bool" where
  "spare fi D \<longleftrightarrow> D \<subseteq> dom (fi_lookup fi) \<and>
    ((\<forall>f \<in> D. fr_level f = LEVEL0 \<and> fr_max f \<le> frontier 1 fi) \<or>
     (\<forall>f \<in> D. fr_max f \<le> frontier SNAPSHOT_LEVEL fi \<and> f \<noteq> (SNAPSHOT_LEVEL, 1, frontier SNAPSHOT_LEVEL fi)))"

lemma prunes_known:
  assumes prune: "prunes objs D sy sy'" and index: "proper_index (sy_files sy) t" and D: "D \<subseteq> dom (fi_lookup (sy_files sy))"
  shows "proper_index (sy_files sy') t" and "dom (fi_lookup (sy_files sy')) \<subseteq> dom (fi_lookup (sy_files sy))"
    and "dom (fi_lookup (sy_files sy)) - dom (fi_lookup (sy_files sy')) \<subseteq> D"
    and "known objs sy' \<subseteq> known objs sy" and "known objs sy - known objs sy' \<subseteq> D"
proof -
  have v: "fi_valid (sy_files sy)"
    using index by (simp add: proper_index_def)
  have v': "fi_valid (sy_files sy')" and look: "\<And>f. fi_lookup (sy_files sy') f = fi_lookup (sy_files sy) f \<or>
      fi_lookup (sy_files sy') f = None \<and> f \<in> D"
    using prune v unfolding prunes_def by blast+
  show sub: "dom (fi_lookup (sy_files sy')) \<subseteq> dom (fi_lookup (sy_files sy))"
    using look by (metis domIff subsetI)
  show gone: "dom (fi_lookup (sy_files sy)) - dom (fi_lookup (sy_files sy')) \<subseteq> D"
    using look by (metis DiffE domIff subsetI)
  show "proper_index (sy_files sy') t"
    using index v' sub unfolding proper_index_def by blast
  have cl: "sy_client sy' = sy_client sy"
    using prune by (simp add: prunes_def)
  have keys: "objs (sy_store sy') k = objs (sy_store sy) k \<or> objs (sy_store sy') k = None \<and> k \<in> file_key (sy_client sy) ` D" for k
    using prune unfolding prunes_def by blast
  have "files_of (sy_client sy) objs (sy_store sy') \<subseteq> files_of (sy_client sy) objs (sy_store sy)"
    unfolding subset_iff files_of_iff using keys by metis
  then show "known objs sy' \<subseteq> known objs sy"
    using sub unfolding known_def cl by blast
  have "f \<in> D" if f: "f \<in> files_of (sy_client sy) objs (sy_store sy)" "f \<notin> files_of (sy_client sy) objs (sy_store sy')" for f
  proof -
    have "file_key (sy_client sy) f \<in> file_key (sy_client sy) ` D" and level: "fr_level f \<le> MAX_LEVEL"
      using f keys [of "file_key (sy_client sy) f"] unfolding files_of_iff by auto
    then obtain g where g: "g \<in> D" "file_key (sy_client sy) f = file_key (sy_client sy) g"
      by blast
    have "fr_level g \<le> MAX_LEVEL"
      using g(1) D index unfolding proper_index_def by blast
    then show ?thesis
      using file_key_inj [OF g(2) level] g(1) by simp
  qed
  then show "known objs sy - known objs sy' \<subseteq> D"
    using gone unfolding known_def cl by blast
qed

lemma tiered_prunes:
  assumes tier: "tiered objs lz4c ps H sy t" and good: "good_store objs sy" and rd: "readable (cl_store (sy_client sy)) objs"
    and prune: "prunes objs D sy sy'" and spare: "spare (sy_files sy) D"
  shows "tiered objs lz4c ps H sy' t \<and> frontier SNAPSHOT_LEVEL (sy_files sy') = frontier SNAPSHOT_LEVEL (sy_files sy)"
proof -
  let ?fi = "sy_files sy" and ?fi' = "sy_files sy'"
  let ?sn = "frontier SNAPSHOT_LEVEL ?fi" and ?l1 = "frontier 1 ?fi"
  have index: "proper_index ?fi t" and lay: "layered (known objs sy) ?sn ?l1 t" and D: "D \<subseteq> dom (fi_lookup ?fi)"
    using tier spare by (simp_all add: tiered_def spare_def)
  note k = prunes_known [OF prune index D]
  have v: "fi_valid ?fi" "fi_valid ?fi'"
    using index k(1) by (simp_all add: proper_index_def)
  have le: "frontier l ?fi' \<le> frontier l ?fi" for l
    by (rule frontier_mono [OF v]) (use k(2) in blast)
  have stays: "frontier l ?fi' = frontier l ?fi" if "\<And>mn. (l, mn, frontier l ?fi) \<in> dom (fi_lookup ?fi) \<Longrightarrow> (l, mn, frontier l ?fi) \<notin> D" for l
  proof (cases "frontier l ?fi = 0")
    case False
    from frontier_in [OF v(1) this] obtain mn where mn: "(l, mn, frontier l ?fi) \<in> dom (fi_lookup ?fi)" .
    then have "(l, mn, frontier l ?fi) \<in> dom (fi_lookup ?fi')"
      using that [OF mn] k(3) by blast
    from frontier_ge [OF v(2) this] le [of l] show ?thesis
      by simp
  qed (use le [of l] in simp)
  have "?sn = frontier SNAPSHOT_LEVEL ?fi' \<and> layered (known objs sy') ?sn (frontier 1 ?fi') t"
    using spare unfolding spare_def
  proof (elim conjE disjE)
    assume raw: "\<forall>f \<in> D. fr_level f = LEVEL0 \<and> fr_max f \<le> ?l1"
    have "(l, mn, x) \<notin> D" if "l \<noteq> LEVEL0" for l mn x
      using raw that by auto
    then have "frontier SNAPSHOT_LEVEL ?fi' = ?sn" "frontier 1 ?fi' = ?l1"
      by (simp_all add: stays LEVEL0_def SNAPSHOT_LEVEL_def)
    moreover have "layered (known objs sy') ?sn ?l1 t"
      by (rule layered_prune_raw [OF lay k(4)]) (use raw k(5) in \<open>auto simp: LEVEL0_def\<close>)
    ultimately show ?thesis
      by simp
  next
    assume below: "\<forall>f \<in> D. fr_max f \<le> ?sn \<and> f \<noteq> (SNAPSHOT_LEVEL, 1, ?sn)"
    have "mn = 1" if "(SNAPSHOT_LEVEL, mn, ?sn) \<in> dom (fi_lookup ?fi)" for mn
      using proper_indexD [OF index that] by simp
    then have sn: "frontier SNAPSHOT_LEVEL ?fi' = ?sn"
      using below by (intro stays) blast
    have nonempty: "1 \<le> fr_max f" if "f \<in> D" for f
      using that D index unfolding proper_index_def by (blast intro: order_trans)
    have "layered (known objs sy') ?sn (frontier 1 ?fi') t"
    proof (rule layered_prune_below [OF lay k(4) _ le])
      show "frontier 1 ?fi' = ?l1 \<or> ?l1 \<le> ?sn"
      proof (rule disjCI)
        assume "\<not> ?l1 \<le> ?sn"
        then have "(1, mn, ?l1) \<notin> D" for mn
          using below by (metis fst_conv snd_conv)
        then show "frontier 1 ?fi' = ?l1"
          by (rule stays)
      qed
      show "known objs sy' = known objs sy" if "?sn = 0"
      proof -
        have "D = {}"
          using below nonempty that by fastforce
        then show ?thesis
          using k(4,5) by blast
      qed
    qed (use below k(5) in blast)
    then show ?thesis
      using sn by simp
  qed
  then have sn: "frontier SNAPSHOT_LEVEL ?fi' = ?sn" and "layered (known objs sy') ?sn (frontier 1 ?fi') t"
    by auto
  then have lay': "layered (known objs sy') (frontier SNAPSHOT_LEVEL ?fi') (frontier 1 ?fi') t"
    by simp
  have cl: "sy_client sy' = sy_client sy"
    using prune by (simp add: prunes_def)
  have reach: "reaches (files_of (sy_client sy) objs (sy_store sy')) t"
    by (rule reaches_mono [OF layered_reaches [OF lay']]) (auto simp: known_def cl)
  have "objs (sy_store sy') k = objs (sy_store sy) k \<or> objs (sy_store sy') k = None \<or> objs (sy_store sy') k = Some b \<and>
      k = file_key (sy_client sy) f \<and> carrier lz4c ps H f b \<and> fr_max f \<le> t" for k b f
    using prune unfolding prunes_def by blast
  from replica_changed [OF _ _ rd order_refl this reach] have "replica_holds (sy_client sy) objs lz4c ps H (sy_store sy') t"
    using tier good by (simp add: tiered_def good_store_def)
  then show ?thesis
    using lay' k(1) sn by (simp add: tiered_def cl)
qed

end
