(* ===== verification/UpkeepRuns.thy ===== *)
theory UpkeepRuns
  imports Tiered
begin

text \<open>
  The maintenance operations on a tiered replica, whatever they return, and their runs: the replica stays
  tiered.
\<close>

section \<open>Compaction and snapshots\<close>

lemma downloaded:
  assumes tier: "tiered objs lz4c ps H sy t" and good: "good_store objs sy"
    and bytes: "file_bytes_of (sy_client sy) (sy_store sy) fs refs" and fs: "set fs \<subseteq> dom (fi_lookup (sy_files sy))"
  obtains Hd P where "\<And>f. f \<in> set fs \<Longrightarrow> holds_titled (sy_client sy) lz4c ps H (sy_store sy) f (Hd f) (P f)"
proof -
  have "\<exists>h pds. holds_titled (sy_client sy) lz4c ps H (sy_store sy) f h pds" if f: "f \<in> set fs" for f
  proof -
    obtain i where "i < length fs" "fs ! i = f"
      using f by (auto simp: in_set_conv_nth)
    then have get: "get_ltx (sy_client sy) (fr_level f) (fr_min f) (fr_max f) (sy_store sy) = Ok (refs ! i)"
      using bytes by (auto simp: file_bytes_of_def list_all2_conv_all_nth)
    have "fr_level f \<le> MAX_LEVEL"
      using proper_indexD [of "sy_files sy" t f] tier fs f by (auto simp: tiered_def)
    moreover have "store_ok (cl_store (sy_client sy)) objs"
      using good by (simp add: good_store_def)
    from get_ltx_Ok [OF this get] have "objs (sy_store sy) (file_key (sy_client sy) f) \<noteq> None"
      by (simp add: file_key_def)
    ultimately have "f \<in> files_of (sy_client sy) objs (sy_store sy)"
      by (simp add: files_of_iff)
    then show ?thesis
      using tier by (simp add: tiered_def replica_holds_def)
  qed
  then show thesis
    using that by metis
qed

lemma hd_sort_key_le: "x \<in> set xs \<Longrightarrow> f (hd (sort_key f xs)) \<le> f x"
proof -
  assume x: "x \<in> set xs"
  then obtain y ys where ys: "sort_key f xs = y # ys"
    by (metis list.set_cases set_sort)
  then have "sorted (f y # map f ys)"
    by (metis list.simps(9) sorted_sort_key)
  moreover have "x \<in> set (y # ys)"
    using x ys by (metis set_sort)
  ultimately show ?thesis
    using ys by auto
qed

lemma lead_le: "p - 1 < q \<Longrightarrow> p \<noteq> 0 \<Longrightarrow> p \<le> (q :: u64)"
  by uint_arith

text \<open>The files of a level, as the index lists them.\<close>

lemma listed_in: "fi_valid fi \<Longrightarrow> i \<in> set (fi_list l fi) \<Longrightarrow> (l, li_min i, li_max i) \<in> dom (fi_lookup fi)"
  using set_fi_list [of fi i l] by (auto simp: info_key_def)

lemma listed_of:
  assumes "fi_valid fi" and "(l, a, b) \<in> dom (fi_lookup fi)"
  obtains i where "i \<in> set (fi_list l fi)" and "li_min i = a" and "li_max i = b"
proof -
  have "(l, a, b) \<in> info_key ` set (fi_list l fi)"
    unfolding listed_ranges [OF assms(1)] using assms(2) by simp
  then show thesis
    using that by (auto simp: info_key_def)
qed

lemma tiered_compact_level:
  fixes ho :: "'w host" and sy :: "('w, 's) syncer"
  assumes lz4: "lz4_frame_inverse lz4c lz4d" and bound: "lz4_bounded lz4c"
    and tier: "tiered objs lz4c ps H sy t" and good: "good_store objs sy" and rd: "readable (cl_store (sy_client sy)) objs"
    and run: "compact_level ho lz4c lz4d dst sy = (r, sy')"
  shows "tiered objs lz4c ps H sy' t"
proof (cases "dst = 0 \<or> SNAPSHOT_LEVEL \<le> dst")
  case True
  then show ?thesis
    using run tier by (auto simp: compact_level_def op_fail_def)
next
  case False
  let ?fi = "sy_files sy" and ?key = "\<lambda>f. (li_min f, li_max f)"
  define src where "src = sort_key ?key (filter (\<lambda>f. li_min f > frontier dst ?fi) (fi_list (dst - 1) ?fi))"
  let ?fs = "map (\<lambda>f. (dst - 1, li_min f, li_max f)) src"
  let ?f = "(dst, li_min (hd src), li_max (last src))"
  let ?info = "\<lambda>refs. Some \<lparr>ci_min = li_min (hd src), ci_max = li_max (last src), ci_inputs = length refs, ci_pruned = 0\<rparr>"
  have index: "proper_index ?fi t" and v: "fi_valid ?fi"
    using tier by (simp_all add: tiered_def proper_index_def)
  have go: "(if src = [] then op_ret None else op_bind (op_map download ?fs) (\<lambda>refs.
      op_bind (compact_and_upload ho lz4c lz4d dst (li_min (hd src)) (li_max (last src)) refs) (\<lambda>_. op_ret (?info refs)))) sy = (r, sy')"
    using run False unfolding compact_level_def Let_def src_def frontier_def
    by (simp add: op_bind_def [of "op_get sy_files"] op_get_def not_le split del: if_split)
  show ?thesis
  proof (cases "src = []")
    case True
    then show ?thesis
      using go tier by (simp add: op_ret_def)
  next
    case ne: False
    have in_src: "i \<in> set src \<longleftrightarrow> i \<in> set (fi_list (dst - 1) ?fi) \<and> frontier dst ?fi < li_min i" for i
      by (auto simp: src_def)
    have fs_dom: "set ?fs \<subseteq> dom (fi_lookup ?fi)"
      using in_src listed_in [OF v] by auto
    have idle_dl: "local_step sy s1" if "op_map download ?fs sy = (q, s1)" for q s1
      by (rule keepsD [OF loc.keeps_map that]) (rule keeps_idle [OF calm_download])
    from go ne have "op_bind (op_map download ?fs) (\<lambda>refs.
      op_bind (compact_and_upload ho lz4c lz4d dst (li_min (hd src)) (li_max (last src)) refs) (\<lambda>_. op_ret (?info refs))) sy = (r, sy')"
      by simp
    then show ?thesis
    proof (cases rule: op_bind_cases)
      case (step refs s1)
      note dl = download_run [OF step(1)]
      obtain q where up: "compact_and_upload ho lz4c lz4d (fr_level ?f) (fr_min ?f) (fr_max ?f) refs sy = (q, sy')"
        using step(2) dl(1) by (cases rule: op_bind_cases) (auto simp: op_ret_def)
      from compact_and_upload_run [OF good up] consider "local_step sy sy'"
        | b t0 where "compact_to_writer lz4c lz4d refs = Ok (b, t0)" "puts objs ?f b sy sy'"
        by blast
      then show ?thesis
      proof cases
        case 1
        then show ?thesis
          by (rule tiered_idle [OF tier])
      next
        case 2
        obtain Hd P where held: "\<And>f. f \<in> set ?fs \<Longrightarrow> holds_titled (sy_client sy) lz4c ps H (sy_store sy) f (Hd f) (P f)"
          using downloaded [OF tier good dl(2) fs_dom] by blast
        have hd_last: "hd ?fs = (dst - 1, li_min (hd src), li_max (hd src))" "last ?fs = (dst - 1, li_min (last src), li_max (last src))"
          using ne by (simp_all add: hd_map last_map)
        have first: "1 \<le> li_min (hd src)" "li_min (hd src) \<le> li_max (hd src)" "li_max (last src) \<le> t"
          using proper_indexD [OF index, of "hd ?fs"] proper_indexD [OF index, of "last ?fs"] fs_dom ne hd_last
          by (metis (no_types, lifting) fst_conv snd_conv hd_in_set last_in_set list.map_disc_iff subsetD)+
        have nz: "li_min (hd src) \<noteq> 0"
          using first(1) by auto
        note run = compaction_carries(1) [OF lz4 bound dl(2) _ held _ _ 2(1), unfolded hd_last, simplified, OF ne nz first(2)]
        note merged = compaction_carries(2) [where l = dst, OF lz4 bound dl(2) _ held _ _ 2(1), unfolded hd_last, simplified,
            OF ne nz first(2)]
        have "li_min (hd src) - 1 < li_max (last src)"
          using is_run_above [OF run, of "last ?fs"] ne hd_last by simp
        then have order: "li_min (hd src) \<le> li_max (last src)"
          using nz by (rule lead_le)
        have car: "carrier lz4c ps H ?f b"
          using merged first(1) order False by (simp add: carrier_def SNAPSHOT_LEVEL_def MAX_LEVEL_def not_le less_imp_le)
        show ?thesis
        proof (rule tiered_put_cascade [OF tier good rd 2(2) car])
          show "fr_max ?f \<le> t" "fr_level ?f \<noteq> LEVEL0" "fr_level ?f \<noteq> SNAPSHOT_LEVEL"
            using first(3) False by (auto simp: LEVEL0_def)
          assume "fr_level ?f = 1"
          then have dst: "dst = 1" by simp
          have "frontier 1 ?fi < li_min (hd src)"
            using in_src [of "hd src"] ne dst by simp
          moreover have "li_min (hd src) \<le> m + 1" if m: "m = max (frontier 1 ?fi) (frontier SNAPSHOT_LEVEL ?fi)" "m < li_max (last src)" for m
          proof -
            have "layered (known objs sy) (frontier SNAPSHOT_LEVEL ?fi) (frontier 1 ?fi) t"
              using tier by (simp add: tiered_def)
            from raw_next [OF this m(2) [unfolded m(1)] first(3)] have "(0, m + 1, m + 1) \<in> dom (fi_lookup ?fi)"
              by (simp add: known_def m(1))
            then obtain i where i: "i \<in> set (fi_list 0 ?fi)" "li_min i = m + 1"
              using listed_of [OF v] by metis
            have "frontier 1 ?fi < m + 1"
              using plus_one_bound(2) [OF m(2)] m(1) by (simp add: max_def split: if_splits)
            then have "?key (hd src) \<le> ?key i"
              unfolding src_def by (intro hd_sort_key_le) (use i dst in simp)
            then show ?thesis
              using i(2) by auto
          qed
          ultimately show "frontier 1 ?fi < fr_max ?f \<and>
              (max (frontier 1 ?fi) (frontier SNAPSHOT_LEVEL ?fi) < fr_max ?f \<longrightarrow>
                fr_min ?f \<le> max (frontier 1 ?fi) (frontier SNAPSHOT_LEVEL ?fi) + 1)"
            using order by (auto intro: less_le_trans)
        qed
      qed
    qed (use idle_dl tiered_idle [OF tier] in \<open>blast+\<close>)
  qed
qed

lemma op_bind_assoc: "op_bind (op_bind m f) g = op_bind m (\<lambda>x. op_bind (f x) g)"
  by (rule ext) (simp add: op_bind_def split: prod.splits result.splits)

lemma op_bind_ret_state: "op_bind m (\<lambda>_. op_ret y) s = (r, s') \<Longrightarrow> \<exists>q. m s = (q, s')"
  by (auto simp: op_ret_def elim!: op_bind_cases)

lemma snapshot_carrier:
  assumes lz4: "lz4_frame_inverse lz4c lz4d" and bound: "lz4_bounded lz4c"
    and run: "is_run 0 plan" "plan \<noteq> []" and refs: "file_bytes_of cl s plan refs"
    and held: "\<And>f. f \<in> set plan \<Longrightarrow> holds_titled cl lz4c ps H s f (Hd f) (P f)"
    and out: "merge_to_writer lz4c lz4d refs (snapshot_header (Hd (last plan)) (fr_max (last plan)) now) = Ok (b, t0)"
  shows "carrier lz4c ps H (SNAPSHOT_LEVEL, 1, fr_max (last plan)) b"
proof -
  let ?h = "snapshot_header (Hd (last plan)) (fr_max (last plan)) now" and ?srcs = "map (\<lambda>f. (Hd f, P f)) plan"
  let ?pds = "merged_pages (h_commit ?h) (map P plan)"
  have files: "holds_file cl lz4c ps H s f (Hd f) (P f)" if "f \<in> set plan" for f
    using held [OF that] by (simp add: holds_titled_def)
  have ps: "h_page_size (Hd f) = ps" if "f \<in> set plan" for f
    using holds_file_facts(5) [OF files [OF that]] .
  have h: "h_page_size ?h = ps" "h_commit ?h = h_commit (Hd (last plan))" "h_min_txid ?h = 1" "h_max_txid ?h = fr_max (last plan)"
    using ps [OF last_in_set [OF run(2)]] by (simp_all add: snapshot_header_def)
  have "merge_inputs lz4c (h_page_size ?h) refs ?srcs"
    using file_bytes_encodings [OF refs files] ps h(1) unfolding merge_inputs_def encodings_def
    by (auto simp: list_all2_conv_all_nth)
  from merge_to_writer_run [OF lz4 this] out have "encode_file lz4c ?h ?pds checksum_zero = Ok (b, t0)"
    by (simp add: comp_def)
  then have enc: "is_encoding lz4c b ?h ?pds"
    by (rule encoded_is_encoding [OF bound])
  have "carries ps H (SNAPSHOT_LEVEL, 1, fr_max (last plan)) ?h ?pds"
    by (rule merged_carries [OF _ run(2) _ files h(1,2)]) (use run(1) in simp_all)
  moreover have "1 \<le> fr_max (last plan)"
    using is_run_above [OF run(1) last_in_set [OF run(2)]] by (simp add: word_gt_0 word_le_nat_alt Suc_le_eq unat_gt_0)
  ultimately show ?thesis
    using enc h(3,4) by (auto simp: carrier_def SNAPSHOT_LEVEL_def MAX_LEVEL_def)
qed

text \<open>The plan over the files of the index ends at \<open>t\<close>, the newest TXID there is.\<close>

lemma index_plan:
  assumes tier: "tiered objs lz4c ps H sy t" and plan: "plan_restore (fi_all_levels (sy_files sy)) = Ok plan"
  shows "set plan \<subseteq> dom (fi_lookup (sy_files sy))" and "is_run 0 plan" and "plan \<noteq> []" and "fr_max (last plan) = t"
proof -
  let ?fi = "sy_files sy"
  have index: "proper_index ?fi t" and v: "fi_valid ?fi"
    and lay: "layered (known objs sy) (frontier SNAPSHOT_LEVEL ?fi) (frontier 1 ?fi) t"
    using tier by (simp_all add: tiered_def proper_index_def)
  note p = plan_restore_Ok [OF plan, unfolded set_fi_all_levels [OF v]]
  show dom: "set plan \<subseteq> dom (fi_lookup ?fi)" and run: "is_run 0 plan" and ne: "plan \<noteq> []"
    using p by simp_all
  obtain r where r: "is_run 0 r" "set r \<subseteq> known objs sy" "t \<le> run_end 0 r"
    using layered_reaches [OF lay] by (auto simp: reaches_def)
  then have "run_end 0 r \<le> run_end 0 plan"
    using p by (auto simp: known_def)
  then have "t \<le> fr_max (last plan)"
    using r(3) run_end_last [OF ne, of 0] by (simp add: order_trans)
  moreover have "fr_max (last plan) \<le> t"
    using proper_indexD [OF index] dom last_in_set [OF ne] by blast
  ultimately show "fr_max (last plan) = t"
    by simp
qed

lemma tiered_snapshot:
  fixes ho :: "'w host" and sy :: "('w, 's) syncer"
  assumes lz4: "lz4_frame_inverse lz4c lz4d" and bound: "lz4_bounded lz4c"
    and tier: "tiered objs lz4c ps H sy t" and good: "good_store objs sy" and rd: "readable (cl_store (sy_client sy)) objs"
    and run: "syncer_snapshot ho lz4c lz4d sy = (r, sy')"
  shows "tiered objs lz4c ps H sy' t"
proof -
  let ?fi = "sy_files sy"
  have index: "proper_index ?fi t" and v: "fi_valid ?fi"
    using tier by (simp_all add: tiered_def proper_index_def)
  have early: ?thesis if "local_step sy sy'"
    by (rule tiered_idle [OF tier that])
  show ?thesis
  proof (cases "max_last fr_max (fi_all_levels ?fi)")
    case None
    then show ?thesis
      using run tier by (simp add: syncer_snapshot_def op_bind_def op_get_def op_ret_def)
  next
    case (Some newest_file)
    let ?mx = "fr_max newest_file"
    let ?header = "\<lambda>refs. if refs = [] then op_of Panic else op_of (of_ltx (header_decode (last refs)))"
    let ?put_snapshot = "\<lambda>refs newest_h now. op_bind (compaction_temp ho SNAPSHOT_LEVEL 1 ?mx) (\<lambda>tmp.
      op_bind (write_scratch ho tmp (rmap fst (merge_to_writer lz4c lz4d refs (snapshot_header newest_h ?mx now)))) (\<lambda>_.
      upload_merged ho SNAPSHOT_LEVEL 1 ?mx tmp))"
    let ?info = "\<lambda>plan. Some \<lparr>ci_min = 1, ci_max = ?mx, ci_inputs = length plan, ci_pruned = 0\<rparr>"
    have go: "(if list_ex (\<lambda>f. li_min f = 1 \<and> li_max f = ?mx) (fi_list SNAPSHOT_LEVEL ?fi) then op_ret None else
        op_bind (op_of (plan_restore (fi_all_levels ?fi))) (\<lambda>plan. op_bind (op_map download plan) (\<lambda>refs.
        op_bind (?header refs) (\<lambda>newest_h. op_bind (now_ms ho) (\<lambda>now.
        op_bind (?put_snapshot refs newest_h now) (\<lambda>_. op_ret (?info plan))))))) sy = (r, sy')"
      using run Some unfolding syncer_snapshot_def Let_def op_bind_assoc
      by (simp add: op_bind_def [of "op_get _"] op_get_def split del: if_split)
    show ?thesis
    proof (cases "list_ex (\<lambda>f. li_min f = 1 \<and> li_max f = ?mx) (fi_list SNAPSHOT_LEVEL ?fi)")
      case True
      then show ?thesis
        using go tier by (simp add: op_ret_def)
    next
      case False
      from go [unfolded if_not_P [OF False]] show ?thesis
      proof (cases rule: op_bind_cases)
        case plan: (step plan s0)
        have p: "plan_restore (fi_all_levels ?fi) = Ok plan" "s0 = sy"
          using plan(1) by (auto simp: op_of_def)
        note p_facts = index_plan [OF tier p(1)]
        have mx: "?mx = t"
        proof -
          note newest = max_last_Some [OF Some, unfolded set_fi_all_levels [OF v]]
          have "last plan \<in> dom (fi_lookup ?fi)"
            using p_facts(1,3) by (meson last_in_set subsetD)
          then have "t \<le> ?mx"
            using newest p_facts(4) by auto
          moreover have "?mx \<le> t"
            using proper_indexD [OF index, of newest_file] newest by blast
          ultimately show ?thesis
            by simp
        qed
        have idle_dl: "local_step sy s1" if "op_map download plan sy = (q, s1)" for q s1
          by (rule keepsD [OF loc.keeps_map that]) (rule keeps_idle [OF calm_download])
        from plan(2) [unfolded p(2)] show ?thesis
        proof (cases rule: op_bind_cases)
          case dl: (step refs s1)
          note dl' = download_run [OF dl(1)]
          obtain Hd P where held: "\<And>f. f \<in> set plan \<Longrightarrow> holds_titled (sy_client sy) lz4c ps H (sy_store sy) f (Hd f) (P f)"
            using downloaded [OF tier good dl'(2) p_facts(1)] by blast
          from dl(2) [unfolded dl'(1)] show ?thesis
          proof (cases rule: op_bind_cases)
            case hdr: (step newest_h s2)
            have s2: "s2 = sy" and dec: "refs \<noteq> []" "header_decode (last refs) = Ok newest_h"
              using hdr(1) by (auto simp: op_of_def of_ltx_def res_simps split: if_splits)
            have newest_h: "newest_h = Hd (last plan)"
            proof -
              have enc: "encodings lz4c refs (map (\<lambda>f. (Hd f, P f)) plan)"
                by (rule file_bytes_encodings [OF dl'(2), where ps = ps and H = H]) (use held in \<open>simp add: holds_titled_def\<close>)
              have "length refs = length plan"
                using dl'(2) by (auto simp: file_bytes_of_def dest: list_all2_lengthD)
              then have "is_encoding lz4c (last refs) (Hd (last plan)) (P (last plan))"
                using enc dec(1) p_facts(3) by (simp add: encodings_def list_all2_conv_all_nth last_conv_nth)
              from is_encoding_facts(1) [OF this] dec(2) show ?thesis
                by simp
            qed
            from hdr(2) [unfolded s2] show ?thesis
            proof (cases rule: op_bind_cases)
              case now: (step now s3)
              have s3: "local_step sy s3"
                using calm_idle [OF keepsD [OF calm_now(2) now(1)]] .
              let ?f = "(SNAPSHOT_LEVEL, 1, ?mx)"
              obtain q where w: "?put_snapshot refs newest_h now s3 = (q, sy')"
                using op_bind_ret_state [OF now(2)] by blast
              have good3: "good_store objs s3"
                using good s3 by (simp add: local_step_def good_store_def)
              from merge_and_upload [OF good3, of ho ?f, simplified, OF w]
              consider "local_step s3 sy'" | b where "rmap fst (merge_to_writer lz4c lz4d refs (snapshot_header newest_h ?mx now)) = Ok b"
                  "puts objs ?f b s3 sy'"
                by auto
              then show ?thesis
              proof cases
                case 1
                then show ?thesis
                  using early loc.trans [OF s3] by blast
              next
                case 2
                then obtain t0 where "merge_to_writer lz4c lz4d refs (snapshot_header (Hd (last plan)) (fr_max (last plan)) now) = Ok (b, t0)"
                  by (auto simp: newest_h mx p_facts(4) res_simps)
                from snapshot_carrier [OF lz4 bound p_facts(2,3) dl'(2) held this]
                have "carrier lz4c ps H ?f b"
                  by (simp add: mx p_facts(4))
                then show ?thesis
                  by (rule tiered_put_snapshot [OF tier good rd idle_puts [OF s3 2(2)]]) (simp add: mx)
              qed
            qed (use early calm_idle [OF keepsD [OF calm_now(2)]] in \<open>blast+\<close>)
          qed (use early loc.refl in \<open>auto simp: op_of_def split: if_splits\<close>)
        qed (use early idle_dl in \<open>blast+\<close>)
      qed (use early loc.refl in \<open>auto simp: op_of_def\<close>)
    qed
  qed
qed

section \<open>Retention\<close>

lemma info_range_key: "info_range = info_key"
  by (rule ext) (simp add: info_range_def info_key_def)

lemma keep_newest_subset: "set (keep_newest files ds) \<subseteq> set ds"
  by (auto simp: keep_newest_def dest: in_set_butlastD)

lemma l0_expired_subset: "f \<in> set (l0_expired files m cutoff) \<Longrightarrow> f \<in> set files \<and> li_max f \<le> m"
  by (auto simp: l0_expired_def l0_scan_result dest!: subsetD [OF keep_newest_subset] set_takeWhileD split: if_splits)

text \<open>Deleting spare files.\<close>

lemma tiered_delete:
  assumes "tiered objs lz4c ps H sy t" and "good_store objs sy" and "readable (cl_store (sy_client sy)) objs"
    and "op_each delete_file fs sy = (r, sy')" and "spare (sy_files sy) (set fs)"
  shows "tiered objs lz4c ps H sy' t \<and> frontier SNAPSHOT_LEVEL (sy_files sy') = frontier SNAPSHOT_LEVEL (sy_files sy) \<and>
    sy_client sy' = sy_client sy"
  using tiered_prunes [OF assms(1-3) delete_files_run [OF assms(2,4) order_refl] assms(5)]
    delete_files_run [OF assms(2,4) order_refl] by (simp add: prunes_def)

lemma tiered_l0_retention:
  assumes tier: "tiered objs lz4c ps H sy t" and good: "good_store objs sy" and rd: "readable (cl_store (sy_client sy)) objs"
    and run: "enforce_l0_retention now retention sy = (r, sy')"
  shows "tiered objs lz4c ps H sy' t"
proof (cases "retention = 0")
  case True
  then show ?thesis
    using run tier by (simp add: enforce_l0_retention_def op_ret_def)
next
  case False
  let ?fi = "sy_files sy"
  let ?ds = "l0_expired (fi_list LEVEL0 ?fi) (frontier 1 ?fi) (retention_cutoff now retention)"
  have v: "fi_valid ?fi"
    using tier by (simp add: tiered_def proper_index_def)
  have "op_bind (op_each delete_file (map info_range ?ds)) (\<lambda>_. op_ret (length ?ds)) sy = (r, sy')"
    using run False by (simp add: enforce_l0_retention_def Let_def frontier_def op_bind_def [of "op_get _"] op_get_def)
  from op_bind_ret_state [OF this] obtain q where q: "op_each delete_file (map info_range ?ds) sy = (q, sy')" ..
  have "spare ?fi (set (map info_range ?ds))"
    using l0_expired_subset [of _ "fi_list LEVEL0 ?fi" "frontier 1 ?fi" "retention_cutoff now retention"] listed_in [OF v]
      set_fi_list [OF v, of _ LEVEL0]
    unfolding spare_def by (force simp: info_range_def)
  from tiered_delete [OF tier good rd q this] show ?thesis
    by blast
qed

text \<open>What retention keeps.\<close>

definition holding ::
  "('s \<Rightarrow> string \<Rightarrow> bytes option) \<Rightarrow> (bytes \<Rightarrow> bytes) \<Rightarrow> u32 \<Rightarrow> (u64 \<Rightarrow> bytes) \<Rightarrow> u64 \<Rightarrow> u64 \<Rightarrow> ('w, 's) syncer \<Rightarrow> bool" where
  "holding objs lz4c ps H t sn sy \<longleftrightarrow> tiered objs lz4c ps H sy t \<and> good_store objs sy \<and>
    readable (cl_store (sy_client sy)) objs \<and> frontier SNAPSHOT_LEVEL (sy_files sy) = sn"

lemma holding_delete:
  "holding objs lz4c ps H t sn sy \<Longrightarrow> op_each delete_file fs sy = (r, sy') \<Longrightarrow> spare (sy_files sy) (set fs) \<Longrightarrow>
    holding objs lz4c ps H t sn sy'"
  using tiered_delete [of objs lz4c ps H sy t fs r sy'] by (auto simp: holding_def good_store_def)

lemma op_each_inv:
  "(\<And>x s r s'. I s \<Longrightarrow> f x s = (r, s') \<Longrightarrow> I s') \<Longrightarrow> I s \<Longrightarrow> op_each f xs s = (r, s') \<Longrightarrow> I s'"
proof (induction xs arbitrary: s)
  case (Cons x xs)
  from Cons.prems(3) have "op_bind (f x) (\<lambda>_. op_each f xs) s = (r, s')"
    by simp
  then show ?case
    by (cases rule: op_bind_cases) (use Cons in blast)+
qed (simp add: op_ret_def)

lemma holding_by_txid:
  assumes hold: "holding objs lz4c ps H t sn sy" and txid: "txid \<le> sn" and run: "enforce_retention_by_txid level txid sy = (r, sy')"
  shows "holding objs lz4c ps H t sn sy'"
proof -
  let ?fi = "sy_files sy" and ?ds = "below_txid (fi_list level (sy_files sy)) txid"
  have v: "fi_valid ?fi" and sn: "frontier SNAPSHOT_LEVEL ?fi = sn"
    using hold by (simp_all add: holding_def tiered_def proper_index_def)
  have "op_bind (op_each delete_file (map info_range ?ds)) (\<lambda>_. op_ret (length ?ds)) sy = (r, sy')"
    using run by (simp add: enforce_retention_by_txid_def Let_def op_bind_def [of "op_get _"] op_get_def)
  from op_bind_ret_state [OF this] obtain q where q: "op_each delete_file (map info_range ?ds) sy = (q, sy')" ..
  have sub: "set ?ds \<subseteq> {f \<in> set (fi_list level ?fi). li_max f < txid}"
    using keep_newest_subset [of "fi_list level ?fi" "filter (\<lambda>f. li_max f < txid) (fi_list level ?fi)"] by (auto simp: below_txid_def)
  have one: "info_range f \<in> dom (fi_lookup ?fi) \<and> li_max f < sn" if "f \<in> set ?ds" for f
    using sub that listed_in [OF v, of f level] set_fi_list [OF v, of f level] less_le_trans [OF _ txid] by (auto simp: info_range_def)
  have "spare ?fi (set (map info_range ?ds))"
    unfolding spare_def sn using one by (fastforce simp: info_range_def)
  then show ?thesis
    by (rule holding_delete [OF hold q])
qed

lemma last_newest:
  assumes v: "fi_valid fi" and first: "\<And>f. f \<in> set (fi_list l fi) \<Longrightarrow> li_min f = 1" and f: "f \<in> set (fi_list l fi)"
  shows "li_max f \<le> li_max (last (fi_list l fi))"
proof -
  have "sorted (map (\<lambda>i. (li_min i, li_max i)) (fi_list l fi))"
    using fi_list_keys [OF v] by blast
  moreover obtain i where i: "i < length (fi_list l fi)" "f = fi_list l fi ! i"
    using f by (auto simp: in_set_conv_nth)
  ultimately have "(li_min f, li_max f) \<le> (li_min (last (fi_list l fi)), li_max (last (fi_list l fi)))"
    using sorted_iff_nth_mono [of "map (\<lambda>i. (li_min i, li_max i)) (fi_list l fi)"]
    by (cases "fi_list l fi = []") (auto simp: last_conv_nth)
  moreover have "last (fi_list l fi) \<in> set (fi_list l fi)"
    using f by (cases "fi_list l fi") auto
  ultimately show ?thesis
    using first [OF f] first by (simp add: less_eq_prod_def)
qed

lemma holding_snapshot_retention:
  fixes sy :: "('w, 's) syncer"
  assumes hold: "holding objs lz4c ps H t sn sy" and run: "enforce_snapshot_retention now retention max_lv sy = (r, sy')"
  shows "holding objs lz4c ps H t sn sy'"
proof -
  let ?fi = "sy_files sy" and ?snaps = "fi_list SNAPSHOT_LEVEL (sy_files sy)" and ?cut = "retention_cutoff now retention"
  obtain ds lowest where ds: "snapshot_expired ?snaps ?cut = (ds, lowest)" by (cases "snapshot_expired ?snaps ?cut")
  have v: "fi_valid ?fi" and index: "proper_index ?fi t" and sn: "frontier SNAPSHOT_LEVEL ?fi = sn"
    using hold by (simp_all add: holding_def tiered_def proper_index_def)
  have listed: "(SNAPSHOT_LEVEL, 1, li_max f) \<in> dom (fi_lookup ?fi) \<and> li_level f = SNAPSHOT_LEVEL \<and> li_min f = 1 \<and>
      li_max f \<noteq> 0 \<and> li_max f \<le> sn" if "f \<in> set ?snaps" for f
  proof -
    have f: "(SNAPSHOT_LEVEL, li_min f, li_max f) \<in> dom (fi_lookup ?fi)"
      by (rule listed_in [OF v that])
    moreover have "li_min f = 1" "li_max f \<noteq> 0" "li_max f \<le> sn"
      using proper_indexD [OF index f] frontier_ge [OF v f] sn by auto
    moreover have "li_level f = SNAPSHOT_LEVEL"
      using set_fi_list [OF v, of f SNAPSHOT_LEVEL] that by blast
    ultimately show ?thesis
      by simp
  qed
  have "distinct (map (\<lambda>i. (li_min i, li_max i)) ?snaps)"
    using fi_list_keys [OF v] by blast
  then have keys: "inj_on (\<lambda>i. (li_min i, li_max i)) (set ?snaps)" and dist: "distinct ?snaps"
    by (simp_all add: distinct_map)
  have fold: "ds = keep_newest ?snaps (filter (\<lambda>f. expired f ?cut) ?snaps)"
    "lowest = snd (foldl (snapshot_expired_step ?cut) ([], 0) ?snaps)"
    using ds snapshot_fold [of ?cut "([], 0)" ?snaps] by (simp_all add: snapshot_expired_def case_prod_beta)
  have set_ds: "set ds = {f \<in> set ?snaps. expired f ?cut} - {last ?snaps}"
    unfolding fold(1) by (rule set_keep_newest_filter [OF dist])
  have spare: "spare ?fi (set (map info_range ds))"
  proof -
    have "info_range f \<in> dom (fi_lookup ?fi) \<and> li_max f \<le> sn \<and> info_range f \<noteq> (SNAPSHOT_LEVEL, 1, sn)" if "f \<in> set ds" for f
    proof -
      have f: "f \<in> set ?snaps" "f \<noteq> last ?snaps"
        using that set_ds by blast+
      have l: "last ?snaps \<in> set ?snaps"
        using f(1) by (cases ?snaps) auto
      have "li_max f \<noteq> sn"
      proof
        assume "li_max f = sn"
        then have "li_max (last ?snaps) = li_max f"
          using last_newest [OF v, of SNAPSHOT_LEVEL f] f(1) listed listed [OF l] by (auto intro: antisym)
        then show False
          using inj_onD [OF keys, of f "last ?snaps"] f l listed [OF f(1)] listed [OF l] by simp
      qed
      then show ?thesis
        using listed [OF f(1)] by (simp add: info_range_def)
    qed
    then show ?thesis
      unfolding spare_def sn by (fastforce simp: info_range_def)
  qed
  have "min_retained ?cut 0 ?snaps lowest"
    using snapshot_min [of ?snaps ?cut "([], 0)"] listed unfolding fold(2) by simp
  then have lowest: "lowest \<le> sn"
    using listed unfolding min_retained_def by fastforce
  let ?each = "op_each (\<lambda>level. op_bind (enforce_retention_by_txid level lowest) (\<lambda>_. op_ret ())) (map of_nat [0..<Suc (unat max_lv)])"
  have go: "op_bind (op_each delete_file (map info_range ds)) (\<lambda>_. op_bind (if lowest > 0 then ?each else op_ret ()) (\<lambda>_. op_ret lowest))
      sy = (r, sy')"
    using run ds by (simp add: enforce_snapshot_retention_def op_bind_def [of "op_get _"] op_get_def)
  have levels: "holding objs lz4c ps H t sn s'" if "holding objs lz4c ps H t sn s" "?each s = (q, s')" for s s' :: "('w, 's) syncer" and q
  proof (rule op_each_inv [where I = "holding objs lz4c ps H t sn", OF _ that])
    fix x q and s s' :: "('w, 's) syncer"
    assume h: "holding objs lz4c ps H t sn s" and one: "op_bind (enforce_retention_by_txid x lowest) (\<lambda>_. op_ret ()) s = (q, s')"
    from op_bind_ret_state [OF one] obtain q' where "enforce_retention_by_txid x lowest s = (q', s')" ..
    then show "holding objs lz4c ps H t sn s'"
      by (rule holding_by_txid [OF h lowest])
  qed
  from go show ?thesis
  proof (cases rule: op_bind_cases)
    case (step x s1)
    note h1 = holding_delete [OF hold step(1) spare]
    from op_bind_ret_state [OF step(2)] obtain q where "(if lowest > 0 then ?each else op_ret ()) s1 = (q, sy')" ..
    then show ?thesis
      using levels [OF h1] h1 by (auto simp: op_ret_def split: if_splits)
  qed (use holding_delete [OF hold _ spare] in \<open>blast+\<close>)
qed

section \<open>Compaction into a base\<close>

lemma is_run_bounded: "is_run p fs \<Longrightarrow> f \<in> set fs \<Longrightarrow> fr_max f \<le> run_end p fs"
proof (induction fs arbitrary: p)
  case (Cons g gs)
  show ?case
  proof (cases "f \<in> set gs")
    case True
    then show ?thesis
      using Cons by simp
  next
    case False
    then have "f = g"
      using Cons.prems(2) by simp
    then show ?thesis
      using is_run_above [of "fr_max g" gs "last gs"] Cons.prems(1) run_end_last [of gs "fr_max g"]
      by (cases "gs = []") (auto intro: less_imp_le)
  qed
qed simp

text \<open>
  The base that \<open>compact\<close> builds starts at TXID 1 when there is a base to extend or the oldest raw file does.
\<close>

definition rooted :: "file_index \<Rightarrow> bool" where
  "rooted fi \<longleftrightarrow> fi_list SNAPSHOT_LEVEL fi \<noteq> [] \<or> (\<exists>f \<in> set (fi_list LEVEL0 fi). li_min f = 1)"

text \<open>The files a compaction merges, oldest first, ending at the newest raw file but one.\<close>

definition merge_run :: "file_index \<Rightarrow> file_range list" where
  "merge_run fi =
    (let base = find (\<lambda>f. li_min f = 1) (fi_list SNAPSHOT_LEVEL fi);
         new_l0 = filter (\<lambda>f. li_min f > (case base of None \<Rightarrow> 0 | Some f \<Rightarrow> li_max f)) (fi_list LEVEL0 fi)
     in (case base of None \<Rightarrow> [] | Some b \<Rightarrow> [(SNAPSHOT_LEVEL, li_min b, li_max b)]) @
        map (\<lambda>f. (LEVEL0, li_min f, li_max f)) (butlast new_l0))"

lemma merge_run_facts:
  assumes index: "proper_index fi t" and root: "rooted fi"
  defines "base \<equiv> find (\<lambda>f. li_min f = 1) (fi_list SNAPSHOT_LEVEL fi)"
  defines "new_l0 \<equiv> filter (\<lambda>f. li_min f > (case base of None \<Rightarrow> 0 | Some f \<Rightarrow> li_max f)) (fi_list LEVEL0 fi)"
  assumes len: "\<not> length new_l0 < 2"
  shows "set (merge_run fi) \<subseteq> dom (fi_lookup fi)" and "merge_run fi \<noteq> []"
    and "fr_min (hd (merge_run fi)) = 1" and "fr_max (last (merge_run fi)) = li_max (last (butlast new_l0))"
    and "f \<in> set (merge_run fi) \<Longrightarrow> fr_level f = SNAPSHOT_LEVEL \<Longrightarrow> fr_max f < fr_max (last (merge_run fi))"
proof -
  have v: "fi_valid fi"
    using index by (simp add: proper_index_def)
  have ne: "butlast new_l0 \<noteq> []"
    using len by (cases new_l0) auto
  have raw: "i \<in> set (fi_list LEVEL0 fi) \<and> li_min i > (case base of None \<Rightarrow> 0 | Some f \<Rightarrow> li_max f)"
    if "i \<in> set (butlast new_l0)" for i
    using in_set_butlastD [OF that] by (simp add: new_l0_def)
  have base: "b \<in> set (fi_list SNAPSHOT_LEVEL fi) \<and> li_min b = 1" if "base = Some b" for b
    using that by (auto simp: base_def find_Some_iff)
  have plan: "merge_run fi = (case base of None \<Rightarrow> [] | Some b \<Rightarrow> [(SNAPSHOT_LEVEL, li_min b, li_max b)]) @
      map (\<lambda>f. (LEVEL0, li_min f, li_max f)) (butlast new_l0)"
    by (simp add: merge_run_def Let_def base_def new_l0_def)
  show dom: "set (merge_run fi) \<subseteq> dom (fi_lookup fi)"
  proof -
    have "(LEVEL0, li_min i, li_max i) \<in> dom (fi_lookup fi)" if "i \<in> set (butlast new_l0)" for i
      using listed_in [OF v] raw [OF that] by blast
    moreover have "(SNAPSHOT_LEVEL, li_min b, li_max b) \<in> dom (fi_lookup fi)" if "base = Some b" for b
      using listed_in [OF v] base [OF that] by blast
    ultimately show ?thesis
      unfolding plan by (cases base) (simp_all add: image_subset_iff)
  qed
  show "merge_run fi \<noteq> []" and last: "fr_max (last (merge_run fi)) = li_max (last (butlast new_l0))"
    using ne by (simp_all add: plan last_map)
  show "fr_min (hd (merge_run fi)) = 1"
  proof (cases base)
    case None
    have "fi_list SNAPSHOT_LEVEL fi = []"
    proof (rule ccontr)
      assume "fi_list SNAPSHOT_LEVEL fi \<noteq> []"
      then have f: "hd (fi_list SNAPSHOT_LEVEL fi) \<in> set (fi_list SNAPSHOT_LEVEL fi)"
        by simp
      then have "li_min (hd (fi_list SNAPSHOT_LEVEL fi)) = 1"
        using proper_indexD [OF index listed_in [OF v f]] by simp
      then show False
        using None f by (auto simp: base_def find_None_iff)
    qed
    then obtain i where i: "i \<in> set (fi_list LEVEL0 fi)" "li_min i = 1"
      using root by (auto simp: rooted_def)
    have low: "1 \<le> li_min j" if "j \<in> set (fi_list LEVEL0 fi)" for j
      using proper_indexD [OF index listed_in [OF v that]] by auto
    have "new_l0 = filter (\<lambda>f. True) (fi_list LEVEL0 fi)"
      unfolding new_l0_def using less_le_trans [OF _ low, of 0] None by (intro filter_cong) auto
    then have all: "new_l0 = fi_list LEVEL0 fi"
      by simp
    have "sorted (map (\<lambda>i. (li_min i, li_max i)) (fi_list LEVEL0 fi))"
      using fi_list_keys [OF v] by blast
    moreover have hd_eq: "hd (butlast new_l0) = hd new_l0"
      using ne by (cases new_l0) (auto split: if_splits)
    ultimately have "li_min (hd (butlast new_l0)) \<le> li_min i"
      using i(1) all by (cases "fi_list LEVEL0 fi") (auto simp: less_eq_prod_def)
    moreover have "hd (butlast new_l0) \<in> set (fi_list LEVEL0 fi)"
      using raw [OF hd_in_set [OF ne]] by blast
    ultimately have "li_min (hd (butlast new_l0)) = 1"
      using i(2) low by (simp add: antisym)
    then show ?thesis
      using ne by (simp add: plan None hd_map)
  qed (use base in \<open>simp add: plan\<close>)
  show "fr_max f < fr_max (last (merge_run fi))" if f: "f \<in> set (merge_run fi)" "fr_level f = SNAPSHOT_LEVEL"
  proof -
    let ?l = "last (butlast new_l0)"
    obtain b where b: "base = Some b" "f = (SNAPSHOT_LEVEL, li_min b, li_max b)"
      using f by (auto simp: plan LEVEL0_def SNAPSHOT_LEVEL_def split: option.splits)
    have l: "?l \<in> set (fi_list LEVEL0 fi)" "li_max b < li_min ?l"
      using raw [OF last_in_set [OF ne]] b(1) by simp_all
    have "li_min ?l \<le> li_max ?l"
      using proper_indexD [OF index listed_in [OF v l(1)]] by simp
    then show ?thesis
      using l(2) b(2) last by (simp add: less_le_trans)
  qed
qed

lemma tiered_compact:
  fixes ho :: "'w host" and sy :: "('w, 's) syncer"
  assumes lz4: "lz4_frame_inverse lz4c lz4d" and bound: "lz4_bounded lz4c"
    and tier: "tiered objs lz4c ps H sy t" and good: "good_store objs sy" and rd: "readable (cl_store (sy_client sy)) objs"
    and root: "rooted (sy_files sy)" and run: "syncer_compact ho lz4c lz4d sy = (r, sy')"
  shows "tiered objs lz4c ps H sy' t"
proof -
  let ?fi = "sy_files sy" and ?fs = "merge_run (sy_files sy)"
  define base where "base = find (\<lambda>f. li_min f = 1) (fi_list SNAPSHOT_LEVEL ?fi)"
  define new_l0 where "new_l0 = filter (\<lambda>f. li_min f > (case base of None \<Rightarrow> 0 | Some f \<Rightarrow> li_max f)) (fi_list LEVEL0 ?fi)"
  let ?mx = "li_max (last (butlast new_l0))" and ?f = "(SNAPSHOT_LEVEL, 1, li_max (last (butlast new_l0)))"
  have index: "proper_index ?fi t" and v: "fi_valid ?fi"
    using tier by (simp_all add: tiered_def proper_index_def)
  have fs: "(case base of None \<Rightarrow> [] | Some b \<Rightarrow> [(SNAPSHOT_LEVEL, li_min b, li_max b)]) @
      map (\<lambda>f. (LEVEL0, li_min f, li_max f)) (butlast new_l0) = ?fs"
    by (simp add: merge_run_def Let_def base_def new_l0_def)
  have go: "(if length new_l0 < 2 then op_ret None else
      op_bind (op_map download ?fs) (\<lambda>refs. op_bind (compact_and_upload ho lz4c lz4d SNAPSHOT_LEVEL 1 ?mx refs) (\<lambda>_.
      op_bind (op_each delete_file ?fs) (\<lambda>_. op_ret (Some \<lparr>ci_min = 1, ci_max = ?mx, ci_inputs = length refs,
        ci_pruned = length ?fs\<rparr>))))) sy = (r, sy')"
    using run unfolding syncer_compact_def Let_def fs [symmetric] new_l0_def base_def
    by (simp add: op_bind_def [of "op_get _"] op_get_def split del: if_split)
  show ?thesis
  proof (cases "length new_l0 < 2")
    case True
    then show ?thesis
      using go tier by (simp add: op_ret_def)
  next
    case False
    note facts = merge_run_facts [OF index root, folded base_def, folded new_l0_def, OF False]
    have idle_dl: "local_step sy s1" if "op_map download ?fs sy = (q, s1)" for q s1
      by (rule keepsD [OF loc.keeps_map that]) (rule keeps_idle [OF calm_download])
    from go [unfolded if_not_P [OF False]] show ?thesis
    proof (cases rule: op_bind_cases)
      case dl: (step refs s1)
      note dl' = download_run [OF dl(1)]
      obtain Hd P where held: "\<And>f. f \<in> set ?fs \<Longrightarrow> holds_titled (sy_client sy) lz4c ps H (sy_store sy) f (Hd f) (P f)"
        using downloaded [OF tier good dl'(2) facts(1)] by blast
      have up: "tiered objs lz4c ps H s2 t \<and> sy_client s2 = sy_client sy \<and> (q = Ok () \<longrightarrow> names ?f ?fi (sy_files s2) \<and> is_run 0 ?fs)"
        if up: "compact_and_upload ho lz4c lz4d SNAPSHOT_LEVEL 1 ?mx refs sy = (q, s2)" for q s2
      proof -
        from compact_and_upload_run [OF good, of ho lz4c lz4d ?f refs q s2] up
        consider "local_step sy s2" "q \<noteq> Ok ()"
          | b t0 where "compact_to_writer lz4c lz4d refs = Ok (b, t0)" "puts objs ?f b sy s2" "q = Ok () \<longrightarrow> names ?f ?fi (sy_files s2)"
          by auto
        then show ?thesis
        proof cases
          case 1
          then show ?thesis
            using tiered_idle [OF tier] by (simp add: local_step_def)
        next
          case 2
          have hd_dom: "hd ?fs \<in> dom (fi_lookup ?fi)" "last ?fs \<in> dom (fi_lookup ?fi)"
            using facts(1,2) by (meson hd_in_set last_in_set subsetD)+
          have "fr_min (hd ?fs) \<noteq> 0" "fr_min (hd ?fs) \<le> fr_max (hd ?fs)"
            using facts(3) proper_indexD [OF index hd_dom(1)] by auto
          note c = compaction_carries(1) [OF lz4 bound dl'(2) facts(2) held this 2(1), unfolded facts(3,4)]
            compaction_carries(2) [where l = SNAPSHOT_LEVEL, OF lz4 bound dl'(2) facts(2) held this 2(1), unfolded facts(3,4)]
          have "1 \<le> ?mx" "?mx \<le> t"
            using proper_indexD [OF index hd_dom(2)] facts(4) by (auto intro: order_trans)
          then have "carrier lz4c ps H ?f b"
            using c(2) by (simp add: carrier_def SNAPSHOT_LEVEL_def MAX_LEVEL_def)
          from tiered_put_snapshot [OF tier good rd 2(2) this \<open>?mx \<le> t\<close>] show ?thesis
            using 2(2,3) c(1) by (simp add: puts_def)
        qed
      qed
      from dl(2) [unfolded dl'(1)] show ?thesis
      proof (cases rule: op_bind_cases)
        case cu: (step x s2)
        from up [OF cu(1)] have tier2: "tiered objs lz4c ps H s2 t" and cl: "sy_client s2 = sy_client sy"
          and named: "names ?f ?fi (sy_files s2)" and is_run: "is_run 0 ?fs"
          by simp_all
        from op_bind_ret_state [OF cu(2)] obtain q where del: "op_each delete_file ?fs s2 = (q, sy')" ..
        note n = frontier_names [OF v named]
        have sn: "?mx \<le> frontier SNAPSHOT_LEVEL (sy_files s2)"
          using n(3) [of SNAPSHOT_LEVEL] by simp
        have "f \<in> dom (fi_lookup (sy_files s2)) \<and> fr_max f \<le> frontier SNAPSHOT_LEVEL (sy_files s2) \<and>
            f \<noteq> (SNAPSHOT_LEVEL, 1, frontier SNAPSHOT_LEVEL (sy_files s2))" if f: "f \<in> set ?fs" for f
        proof -
          have "fr_max f \<le> ?mx"
            using is_run_bounded [OF is_run f] run_end_last [OF facts(2), of 0] facts(4) by simp
          moreover have "fr_max f < ?mx" if "fr_level f = SNAPSHOT_LEVEL"
            using facts(5) [OF f that] facts(4) by simp
          ultimately show ?thesis
            using sn f facts(1) n(2) by (auto dest: order_trans leD)
        qed
        then have "spare (sy_files s2) (set ?fs)"
          unfolding spare_def by blast
        from tiered_delete [OF tier2 _ _ del this] show ?thesis
          using good rd cl by (simp add: good_store_def)
      qed (use up in \<open>blast+\<close>)
    qed (use idle_dl tiered_idle [OF tier] in \<open>blast+\<close>)
  qed
qed

section \<open>What maintenance leaves alone\<close>

definition apart :: "('w, 's) syncer \<Rightarrow> ('w, 's) syncer \<Rightarrow> bool" where
  "apart sy sy' \<longleftrightarrow> sy_client sy' = sy_client sy \<and> sy_pos sy' = sy_pos sy \<and> sy_staging sy' = sy_staging sy"

interpretation apt: state_order apart
  by unfold_locales (auto simp: apart_def)

lemma apart_parts: "keeps apart (on_host m)" "keeps apart (on_store n)" "keeps apart (read_scratch ho tmp)"
  "keeps apart (system_now ho)" "keeps apart (now_ms ho)" "keeps apart (compaction_temp ho l a b)" "keeps apart (download f)"
proof -
  show host: "keeps apart (on_host m)" and store: "keeps apart (on_store n)" for m n
    by (auto simp: keeps_def apart_def on_host_run on_store_run)
  show "keeps apart (system_now ho)" "keeps apart (now_ms ho)" "keeps apart (compaction_temp ho l a b)"
    unfolding system_now_def now_ms_def compaction_temp_def by (intro apt.keeps_intros host)+
  show "keeps apart (read_scratch ho tmp)"
    unfolding read_scratch_def
    by (intro apt.keeps_bind host) (auto simp: keeps_def apt.refl split: option.splits)
  show "keeps apart (download f)"
    unfolding download_def by (cases f) (auto intro!: apt.keeps_intros store)
qed

lemma apart_delete: "keeps apart (delete_file f)"
  unfolding delete_file_def by (cases f) (auto intro!: apt.keeps_intros apart_parts simp: apart_def)

lemma apart_upload: "keeps apart (upload_merged ho l a b tmp)"
  unfolding upload_merged_def remove_scratch_def
  by (intro apt.keeps_intros apart_parts) (auto intro!: apt.keeps_intros apart_parts simp: apart_def split: option.split)

lemma apart_write: "keeps apart (write_scratch ho tmp m)"
  unfolding write_scratch_def by (intro apt.keeps_intros apart_parts) (auto simp: apart_def)

lemma apart_compact_and_upload: "keeps apart (compact_and_upload ho lz4c lz4d l a b refs)"
  unfolding compact_and_upload_def by (intro apt.keeps_intros apart_parts apart_upload apart_write)

lemmas apart_intros = apt.keeps_intros apart_parts apart_delete apart_upload apart_write apart_compact_and_upload

lemma apart_by_txid: "keeps apart (enforce_retention_by_txid level txid)"
  unfolding enforce_retention_by_txid_def Let_def by (intro apart_intros)

lemma apart_if: "keeps apart m \<Longrightarrow> keeps apart n \<Longrightarrow> keeps apart (if c then m else n)"
  by simp

lemma apart_operations: "keeps apart (syncer_compact ho lz4c lz4d)" "keeps apart (compact_level ho lz4c lz4d dst)"
  "keeps apart (syncer_snapshot ho lz4c lz4d)" "keeps apart (enforce_snapshot_retention now retention max_lv)"
  "keeps apart (enforce_l0_retention now retention)"
  unfolding syncer_compact_def compact_level_def syncer_snapshot_def enforce_snapshot_retention_def enforce_l0_retention_def Let_def
  by (auto intro!: apart_intros apart_by_txid apart_if split: option.split prod.split)

section \<open>Runs of maintenance\<close>

text \<open>
  A step is one maintenance call, whatever it returns. \<open>compact\<close> is taken where its base starts at TXID 1.
\<close>

inductive upkeep_step :: "'w host \<Rightarrow> (bytes \<Rightarrow> bytes) \<Rightarrow> lz4_dec \<Rightarrow> ('w, 's) syncer \<Rightarrow> ('w, 's) syncer \<Rightarrow> bool"
  for ho lz4c lz4d where
  compact: "rooted (sy_files sy) \<Longrightarrow> syncer_compact ho lz4c lz4d sy = (r, sy') \<Longrightarrow> upkeep_step ho lz4c lz4d sy sy'"
| level: "compact_level ho lz4c lz4d dst sy = (r, sy') \<Longrightarrow> upkeep_step ho lz4c lz4d sy sy'"
| snapshot: "syncer_snapshot ho lz4c lz4d sy = (r, sy') \<Longrightarrow> upkeep_step ho lz4c lz4d sy sy'"
| snapshot_retention: "enforce_snapshot_retention now retention max_lv sy = (r, sy') \<Longrightarrow> upkeep_step ho lz4c lz4d sy sy'"
| l0_retention: "enforce_l0_retention now retention sy = (r, sy') \<Longrightarrow> upkeep_step ho lz4c lz4d sy sy'"

lemma upkeep_apart: "upkeep_step ho lz4c lz4d sy sy' \<Longrightarrow> apart sy sy'"
  by (induction rule: upkeep_step.induct) (blast dest: keepsD [OF apart_operations(1)] keepsD [OF apart_operations(2)]
      keepsD [OF apart_operations(3)] keepsD [OF apart_operations(4)] keepsD [OF apart_operations(5)])+

lemma upkeep_tiered:
  assumes "lz4_frame_inverse lz4c lz4d" and "lz4_bounded lz4c" and "upkeep_step ho lz4c lz4d sy sy'"
    and "tiered objs lz4c ps H sy t" and "good_store objs sy" and "readable (cl_store (sy_client sy)) objs"
  shows "tiered objs lz4c ps H sy' t"
  using assms(3-6)
proof (cases rule: upkeep_step.cases)
  case (snapshot_retention now retention max_lv r)
  have "holding objs lz4c ps H t (frontier SNAPSHOT_LEVEL (sy_files sy)) sy"
    using assms(4-6) by (simp add: holding_def)
  from holding_snapshot_retention [OF this snapshot_retention(1)] show ?thesis
    by (simp add: holding_def)
next
  case (compact r)
  then show ?thesis
    by (intro tiered_compact [OF assms(1,2,4-6)])
next
  case (level dst r)
  then show ?thesis
    by (intro tiered_compact_level [OF assms(1,2,4-6)])
next
  case (snapshot r)
  then show ?thesis
    by (intro tiered_snapshot [OF assms(1,2,4-6)])
next
  case (l0_retention now retention r)
  then show ?thesis
    by (intro tiered_l0_retention [OF assms(4-6)])
qed

lemma upkeep_runs:
  assumes "lz4_frame_inverse lz4c lz4d" and "lz4_bounded lz4c" and "(upkeep_step ho lz4c lz4d)\<^sup>*\<^sup>* sy sy'"
    and "tiered objs lz4c ps H sy t" and "good_store objs sy" and "readable (cl_store (sy_client sy)) objs"
  shows "tiered objs lz4c ps H sy' t \<and> apart sy sy'"
  using assms(3)
proof (induction rule: rtranclp_induct)
  case base
  then show ?case
    using assms(4) apt.refl by blast
next
  case (step sy1 sy2)
  have "sy_client sy1 = sy_client sy"
    using step.IH by (simp add: apart_def)
  then have "good_store objs sy1" "readable (cl_store (sy_client sy1)) objs"
    using assms(5,6) by (simp_all add: good_store_def)
  then show ?case
    using upkeep_tiered [OF assms(1,2) step.hyps(2)] upkeep_apart [OF step.hyps(2)] step.IH apt.trans by blast
qed

end
