(* ===== verification/Overfold.thy ===== *)
theory Overfold
  imports CheckpointSafety
begin

text \<open>
  The catch-up snapshot of a checkpoint cycle: whether frames that another connection committed between the capture
  and the checkpoint are in the replica when the cycle succeeds. They are in every mode but one: a TRUNCATE checkpoint
  reports no frames, so the cycle does not notice them.
\<close>

section \<open>After an over-fold\<close>

text \<open>The handle's file and page size, and the number of catch-up snapshots.\<close>

definition same_file :: "('w, 's) syncer \<Rightarrow> ('w, 's) syncer \<Rightarrow> bool" where
  "same_file sy sy' \<longleftrightarrow> d_path (sy_db sy') = d_path (sy_db sy) \<and> d_page_size (sy_db sy') = d_page_size (sy_db sy)"

lemma checkpoint_fields:
  assumes "checkpoint ho mode restart_wal d = (r, d')"
  shows "d_path d' = d_path d \<and> d_page_size d' = d_page_size d"
proof -
  have batch: "d_path d2 = d_path d1 \<and> d_page_size d2 = d_page_size d1" if "on_world m d1 = (q, d2)" for m q and d1 d2 :: "'a db"
    using that by (auto simp: on_world_run)
  have release: "d_path d2 = d_path d1 \<and> d_page_size d2 = d_page_size d1" if "release_read_lock ho d1 = (q, d2)" for q d1 d2
    using that by (auto simp: release_read_lock_def op_modify_def split: if_splits elim!: op_bind_cases dest!: batch)
  have acquire: "d_path d2 = d_path d1 \<and> d_page_size d2 = d_page_size d1" if "acquire_read_lock ho d1 = (q, d2)" for q d1 d2
    using acquire_fields [OF that] .
  show ?thesis
    using assms by (auto simp: checkpoint_def Let_def bump_seq_def op_ret_def op_of_def split: if_splits
        elim!: op_bind_cases dest!: batch release acquire)
qed

interpretation sam: cycle_order same_file ho for ho
proof
  fix s s' s'' :: "('w, 's) syncer"
  show "same_file s s" by (simp add: same_file_def)
  assume "same_file s s'" "same_file s' s''"
  then show "same_file s s''" by (simp add: same_file_def)
qed (auto simp: same_file_def system_now_def on_host_run on_db_def op_on_def op_map_err_def keeps_def
    dest: acquire_fields checkpoint_fields split: prod.splits)

definition same_count :: "('w, 's) syncer \<Rightarrow> ('w, 's) syncer \<Rightarrow> bool" where
  "same_count sy sy' \<longleftrightarrow> sy_resnapshots sy' = sy_resnapshots sy"

interpretation cnt: building_order same_count ho for ho
  by unfold_locales (auto simp: same_count_def system_now_def on_host_run on_db_def op_on_def keeps_def split: prod.splits)

interpretation cnt: uploading_order same_count ho for ho
  by unfold_locales (auto simp: same_count_def)

text \<open>
  \<open>W\<close> are the states of the world from the end of the checkpoint to the catch-up snapshot: the files do not
  change in them and local file operations stay in them.
\<close>

definition quiet :: "'w host \<Rightarrow> 'w set \<Rightarrow> bool" where
  "quiet ho W \<longleftrightarrow> (\<forall>w \<in> W. snd (fs_op ho w) \<in> W \<and> snd (ho_now ho w) \<in> W)"

definition stays :: "'w set \<Rightarrow> ('w, 's) syncer \<Rightarrow> ('w, 's) syncer \<Rightarrow> bool" where
  "stays W sy sy' \<longleftrightarrow> (d_world (sy_db sy) \<in> W \<longrightarrow> d_world (sy_db sy') \<in> W)"

lemma stays_uploading:
  assumes "quiet ho W"
  shows "uploading_order (stays W) ho"
proof
  show "keeps (stays W) (on_host (fs_op ho))" "keeps (stays W) (system_now ho)"
    using assms by (auto simp: keeps_def stays_def quiet_def system_now_def on_host_run split: prod.splits)
qed (auto simp: stays_def)

definition live_pages :: "u32 \<Rightarrow> bytes \<Rightarrow> wal_frame list \<Rightarrow> (u32 \<times> bytes) list" where
  "live_pages ps db_bytes fs = map (\<lambda>p. (p, live_page (unat ps) db_bytes fs p))
    (snapshot_list (live_commit ps db_bytes fs) (lock_pgno ps))"

lemma snapshot_now_stages:
  fixes ho :: "'w host" and sy :: "('w, 's) syncer"
  assumes run: "build_snapshot_now ho lz4c sy = (Ok f, sy')" and world: "d_world (sy_db sy) \<in> W"
    and W: "still ho W (d_path (sy_db sy)) db_bytes" "still ho W (d_path (sy_db sy) @ ''-wal'') wal"
  defines "ps \<equiv> d_page_size (sy_db sy)" and "txid \<equiv> po_txid (sy_pos sy) + 1"
  assumes fs: "wal_frames wal ps fs" "whole ps db_bytes fs" and H: "H txid = live_image ps db_bytes fs"
    and bound: "lz4_bounded lz4c"
  shows "stages lz4c ps H sy' txid f"
proof -
  have sy: "reading W sy sy"
    unfolding reading_def by (rule exI [of _ "sy_db sy"]) (simp add: world)
  obtain sy1 where sy1: "on_host (ho_read ho (d_path (sy_db sy) @ ''-wal'')) sy = (Ok wal, sy1)" "reading W sy sy1"
    by (rule reading_run [OF sy W(2)])
  then have f: "build_snapshot ho lz4c wal_start wal sy1 = (Ok f, sy')"
    using run by (simp add: build_snapshot_now_def read_wal_or_empty_def op_bind_def op_get_def op_try_def op_ret_def)
  obtain d where d: "sy1 = sy\<lparr>sy_db := d\<rparr>" "d_path d = d_path (sy_db sy)" "d_page_size d = ps" "d_world d \<in> W"
    using sy1(2) by (auto simp: reading_def ps_def)
  obtain w where w: "ho_read ho (d_path (sy_db sy1)) (d_world (sy_db sy1)) = (Ok db_bytes, w)"
    using W(1) d by (auto simp: still_def)
  have pages: "staged_pages lz4c sy' f txid ps (live_commit ps db_bytes fs) (live_pages ps db_bytes fs)"
    using build_snapshot_pages [OF f w, of fs] fs d by (simp add: live_pages_def txid_def)
  show ?thesis
    by (rule staged_pages_carry [OF pages bound])
      (use snapshot_carries [OF fs(2), of H txid] H in \<open>auto simp: live_pages_def\<close>)
qed

lemma uploaded_state:
  fixes ho :: "'w host" and sy :: "('w, 's) syncer"
  assumes up: "case staged of None \<Rightarrow> sy' = sy | Some f \<Rightarrow> upload_staged ho f sy = (Ok (sf_outcome f), sy')"
    and good: "good_store objs sy" and rd: "readable (cl_store (sy_client sy)) objs"
    and holds: "replica_holds (sy_client sy) objs lz4c ps H (sy_store sy) t" "po_txid (sy_pos sy) = t"
    and st: "\<And>f. staged = Some f \<Longrightarrow> stages lz4c ps H sy (t + 1) f"
    and W: "quiet ho W" "d_world (sy_db sy) \<in> W"
  shows "sy_client sy' = sy_client sy \<and>
    replica_holds (sy_client sy) objs lz4c ps H (sy_store sy') (if staged = None then t else t + 1) \<and>
    po_txid (sy_pos sy') = (if staged = None then t else t + 1) \<and> sy_resnapshots sy' = sy_resnapshots sy \<and>
    same_file sy sy' \<and> d_world (sy_db sy') \<in> W"
proof (cases staged)
  case None
  then show ?thesis
    using up holds W by (simp add: same_file_def)
next
  case (Some f)
  then have run: "upload_staged ho f sy = (Ok (sf_outcome f), sy')"
    using up by simp
  have "replica_holds (sy_client sy) objs lz4c ps H (sy_store sy) (t + 1 - 1)"
    using holds by simp
  note ext = upload_extends [OF good rd this run st [OF Some]]
  show ?thesis
    using ext Some keepsD [OF cnt.keeps_upload_staged run] keepsD [OF sam.keeps_upload_staged run] W(2)
      keepsD [OF uploading_order.keeps_upload_staged [OF stays_uploading [OF W(1)]] run]
    by (simp add: same_count_def stays_def)
qed

section \<open>What a checkpoint reports\<close>

lemma frames_below_bound: "frames_below page_size off < of_int (- 1)"
proof -
  let ?f = "of_nat WAL_FRAME_HEADER_SIZE + ucast page_size :: u64"
  have ps: "unat (ucast page_size :: u64) < 2 ^ 32"
    using unsigned_less [of page_size, where 'a = nat] by (simp add: unat_ucast_up)
  have "unat ?f = 24 + unat (ucast page_size :: u64)"
    using ps by (simp add: unat_word_ariths)
  then have "unat ?f \<ge> 24" by simp
  then have "unat x div unat ?f \<le> unat x div 24" for x :: u64
    by (intro div_le_mono2) simp_all
  moreover have "unat x div 24 < 2 ^ 64 - 1" for x :: u64
    using unsigned_less [of x, where 'a = nat] by simp
  ultimately have "unat (x div ?f) < 2 ^ 64 - 1" for x :: u64
    unfolding unat_div_distrib using order_le_less_trans by blast
  moreover have "unat (- 1 :: u64) = 2 ^ 64 - 1"
    by (simp add: unsigned_minus_1_eq_mask mask_eq_exp_minus_1)
  ultimately have "x div ?f < - 1" for x :: u64
    unfolding word_less_nat_alt by metis
  then show ?thesis
    unfolding frames_below_def Let_def of_int_minus of_int_1 .
qed

text \<open>
  The row SQLite documents for a checkpoint that put \<open>k\<close> frames of the log into the database file: its third column
  is \<open>k\<close>, but 0 for a TRUNCATE checkpoint that was not busy, because the log is empty then.
\<close>

definition documented_report :: "checkpoint_mode \<Rightarrow> int list \<Rightarrow> nat \<Rightarrow> bool" where
  "documented_report mode row k \<longleftrightarrow> k < 2 ^ 63 \<and> row ! 2 = (if mode = Truncate \<and> row ! 0 = 0 then 0 else int k)"

text \<open>The pragma of a checkpoint from the handle \<open>d\<close> folds \<open>k\<close> frames and says so as documented.\<close>

definition checkpoint_folds :: "'w host \<Rightarrow> checkpoint_mode \<Rightarrow> 'w db \<Rightarrow> nat \<Rightarrow> bool" where
  "checkpoint_folds ho mode d k \<longleftrightarrow> (\<exists>d0 row w. (if d_locked d then release_read_lock ho else op_ret ()) d = (Ok (), d0) \<and>
    ho_query_row ho (checkpoint_sql mode) (d_world d0) = (Ok row, w) \<and> documented_report mode row k)"

lemma checkpoint_reports:
  assumes "checkpoint ho mode restart_wal d = (Ok res, d')" and "checkpoint_folds ho mode d k"
  shows "k < 2 ^ 63" and "cr_checkpointed_frames res = (if mode = Truncate \<and> \<not> cr_busy res then 0 else int k)"
proof -
  obtain d0 row w where rel: "(if d_locked d then release_read_lock ho else op_ret ()) d = (Ok (), d0)"
    and query: "ho_query_row ho (checkpoint_sql mode) (d_world d0) = (Ok row, w)" and doc: "documented_report mode row k"
    using assms(2) unfolding checkpoint_folds_def by blast
  have "on_world (ho_query_row ho (checkpoint_sql mode)) d0 = (Ok row, d0\<lparr>d_world := w\<rparr>)"
    using query by (simp add: on_world_run)
  then have "checkpoint_row row = Ok res"
    using assms(1) rel by (auto simp: checkpoint_def Let_def op_bind_def op_of_def op_ret_def split: result.splits prod.splits)
  then have "cr_busy res \<longleftrightarrow> row ! 0 \<noteq> 0" "cr_checkpointed_frames res = row ! 2"
    by (auto simp: checkpoint_row_def row_get_def res_simps split: if_splits)
  then show "k < 2 ^ 63" and "cr_checkpointed_frames res = (if mode = Truncate \<and> \<not> cr_busy res then 0 else int k)"
    using doc by (simp_all add: documented_report_def)
qed

lemma more_frames:
  fixes n :: u64
  assumes "unat n < k" and "k < 2 ^ 63"
  shows "n < of_int (int k)"
proof -
  have "unat (of_nat k :: u64) = k"
    using assms(2) by (simp add: unsigned_of_nat take_bit_nat_eq_self)
  then show ?thesis
    using assms(1) by (simp add: word_less_nat_alt)
qed

section \<open>Noticed or not\<close>

lemma cycle_checkpoint:
  assumes "build_next ho lz4c sy = (Ok staged, sy1)" and "run_checkpoint ho lz4c mode restart_wal sy = (Ok (m, res), sy')"
  obtains d where "checkpoint ho mode restart_wal (sy_db sy1) = (Ok res, d)"
proof -
  have "after_build ho lz4c mode restart_wal staged sy1 = (Ok (m, res), sy')"
    using assms by (simp add: run_checkpoint_alt op_bind_def)
  then obtain sy2 where "on_db (checkpoint ho mode restart_wal) sy1 = (Ok res, sy2)"
    by (cases rule: after_build_cases) (auto simp: op_bind_Ok op_ret_def split: if_splits)
  then show thesis
    using that by (auto simp: on_db_def op_on_def op_map_err_def Ok_rmap_err split: prod.splits)
qed

text \<open>A cycle whose checkpoint reports no more frames than it captured uploads what it captured.\<close>

lemma unnoticed_cycle:
  fixes ho :: "'w host" and sy :: "('w, 's) syncer"
  assumes "lz4_frame_inverse lz4c lz4d" and "good_store objs sy" and "readable (cl_store (sy_client sy)) objs"
    and "build_next ho lz4c sy = (Ok staged, sy1)" and "run_checkpoint ho lz4c mode restart_wal sy = (Ok (m, res), sy')"
    and "\<not> frames_below (d_page_size (sy_db sy)) (case staged of Some s \<Rightarrow> po_wal_offset (sf_new_pos s)
      | None \<Rightarrow> po_wal_offset (sy_pos sy)) < of_int (cr_checkpointed_frames res)"
    and "\<And>d. checkpoint ho mode restart_wal (sy_db sy1) = (Ok res, d) \<Longrightarrow> d_world d \<in> W" and "quiet ho W"
    and "replica_holds (sy_client sy) objs lz4c (d_page_size (sy_db sy)) H (sy_store sy) (po_txid (sy_pos sy))"
    and "\<And>f. staged = Some f \<Longrightarrow> stages lz4c (d_page_size (sy_db sy)) H sy1 (po_txid (sy_pos sy) + 1) f"
    and "captured = po_txid (sy_pos sy) + (if staged = None then 0 else 1)" and "captured \<noteq> 0"
    and "list_all_levels (sy_client sy) (sy_store sy') = Ok files"
  shows "m = mode \<and> sy_resnapshots sy' = sy_resnapshots sy \<and> po_txid (sy_pos sy') = captured \<and>
    restore (sy_client sy) lz4d (sy_store sy') = Ok (H captured)"
proof -
  let ?ps = "d_page_size (sy_db sy)" and ?t0 = "po_txid (sy_pos sy)"
  have sy1: "sy_client sy1 = sy_client sy" "sy_store sy1 = sy_store sy" "sy_pos sy1 = sy_pos sy"
    "d_page_size (sy_db sy1) = ?ps" "sy_resnapshots sy1 = sy_resnapshots sy"
    using keepsD [OF local_build_next assms(4)] keepsD [OF sam.keeps_build_next assms(4)]
      keepsD [OF cnt.keeps_build_next assms(4)] by (simp_all add: local_step_def same_file_def same_count_def)
  have "after_build ho lz4c mode restart_wal staged sy1 = (Ok (m, res), sy')"
    using assms(4,5) by (simp add: run_checkpoint_alt op_bind_def)
  then obtain sy2 where ck: "on_db (checkpoint ho mode restart_wal) sy1 = (Ok res, sy2)" and m: "m = mode"
    and up: "case staged of None \<Rightarrow> sy' = sy2 | Some f \<Rightarrow> upload_staged ho f sy2 = (Ok (sf_outcome f), sy')"
    using assms(6) by (cases rule: after_build_cases) (auto simp: sy1 op_bind_Ok op_ret_def cong: option.case_cong split: if_splits)
  obtain d where d: "checkpoint ho mode restart_wal (sy_db sy1) = (Ok res, d)" "sy2 = sy1\<lparr>sy_db := d\<rparr>"
    using ck by (auto simp: on_db_def op_on_def op_map_err_def Ok_rmap_err split: prod.splits)
  have good2: "good_store objs sy2"
    using assms(2) sy1 d by (simp add: good_store_def)
  have staging: "sy_staging sy2 = sy_staging sy1"
    by (simp add: d(2))
  have st2: "stages lz4c ?ps H sy2 (?t0 + 1) g" if "staged = Some g" for g
    using assms(10) [OF that] unfolding stages_def staged_here_def staging .
  have "sy_client sy' = sy_client sy" and holds: "replica_holds (sy_client sy) objs lz4c ?ps H (sy_store sy') captured"
    and "po_txid (sy_pos sy') = captured" "sy_resnapshots sy' = sy_resnapshots sy"
    using uploaded_state [OF up good2 _ _ _ st2 assms(8)] assms(3,9,11) assms(7) [OF d(1)] sy1 d(2) by (auto split: if_splits)
  then show ?thesis
    using replica_restored [OF assms(1) holds _ _ assms(13)] assms(2,12) m by (simp add: good_store_def)
qed

text \<open>A cycle whose checkpoint reports more frames than it captured.\<close>

lemma reported_overfold:
  fixes ho :: "'w host" and sy :: "('w, 's) syncer"
  assumes "lz4_frame_inverse lz4c lz4d" and "good_store objs sy" and "readable (cl_store (sy_client sy)) objs"
    and "build_next ho lz4c sy = (Ok staged, sy1)" and "run_checkpoint ho lz4c mode restart_wal sy = (Ok (m, res), sy')"
    and "frames_below (d_page_size (sy_db sy)) (case staged of Some s \<Rightarrow> po_wal_offset (sf_new_pos s)
      | None \<Rightarrow> po_wal_offset (sy_pos sy)) < of_int (cr_checkpointed_frames res)"
    and "\<And>d. checkpoint ho mode restart_wal (sy_db sy1) = (Ok res, d) \<Longrightarrow> d_world d \<in> W" and "quiet ho W"
    and "still ho W (d_path (sy_db sy)) db_bytes" and "still ho W (d_path (sy_db sy) @ ''-wal'') wal"
    and "wal_frames wal (d_page_size (sy_db sy)) fs" and "whole (d_page_size (sy_db sy)) db_bytes fs"
    and "lz4_bounded lz4c"
    and "replica_holds (sy_client sy) objs lz4c (d_page_size (sy_db sy)) H (sy_store sy) (po_txid (sy_pos sy))"
    and "\<And>f. staged = Some f \<Longrightarrow> stages lz4c (d_page_size (sy_db sy)) H sy1 (po_txid (sy_pos sy) + 1) f"
    and "txid = po_txid (sy_pos sy) + (if staged = None then 1 else 2)"
    and "H txid = live_image (d_page_size (sy_db sy)) db_bytes fs"
    and "list_all_levels (sy_client sy) (sy_store sy') = Ok files"
  shows "m = mode \<and> sy_resnapshots sy' = sy_resnapshots sy + 1 \<and> po_txid (sy_pos sy') = txid \<and>
    replica_holds (sy_client sy) objs lz4c (d_page_size (sy_db sy)) H (sy_store sy') txid \<and>
    restore (sy_client sy) lz4d (sy_store sy') = Ok (live_image (d_page_size (sy_db sy)) db_bytes fs)"
proof -
  let ?ps = "d_page_size (sy_db sy)" and ?t0 = "po_txid (sy_pos sy)"
  have sy1: "sy_client sy1 = sy_client sy" "sy_store sy1 = sy_store sy" "sy_pos sy1 = sy_pos sy"
    "d_page_size (sy_db sy1) = ?ps" "d_path (sy_db sy1) = d_path (sy_db sy)" "sy_resnapshots sy1 = sy_resnapshots sy"
    using keepsD [OF local_build_next assms(4)] keepsD [OF sam.keeps_build_next assms(4)]
      keepsD [OF cnt.keeps_build_next assms(4)] by (simp_all add: local_step_def same_file_def same_count_def)
  have "after_build ho lz4c mode restart_wal staged sy1 = (Ok (m, res), sy')"
    using assms(4,5) by (simp add: run_checkpoint_alt op_bind_def)
  then obtain sy2 sy3 where ck: "on_db (checkpoint ho mode restart_wal) sy1 = (Ok res, sy2)" and m: "m = mode"
    and up: "case staged of None \<Rightarrow> sy3 = sy2 | Some f \<Rightarrow> upload_staged ho f sy2 = (Ok (sf_outcome f), sy3)"
    and catch_up: "catch_up_snapshot ho lz4c sy3 = (Ok (), sy')"
    using assms(6) by (cases rule: after_build_cases) (auto simp: sy1 op_bind_Ok op_ret_def cong: option.case_cong split: if_splits)
  obtain d where d: "checkpoint ho mode restart_wal (sy_db sy1) = (Ok res, d)" "sy2 = sy1\<lparr>sy_db := d\<rparr>"
    using ck by (auto simp: on_db_def op_on_def op_map_err_def Ok_rmap_err split: prod.splits)
  note fields = checkpoint_fields [OF d(1)]
  have good2: "good_store objs sy2"
    using assms(2) sy1 d by (simp add: good_store_def)
  have staging: "sy_staging sy2 = sy_staging sy1"
    by (simp add: d(2))
  have st2: "stages lz4c ?ps H sy2 (?t0 + 1) g" if "staged = Some g" for g
    using assms(15) [OF that] unfolding stages_def staged_here_def staging .
  define t where "t = (if staged = None then ?t0 else ?t0 + 1)"
  have sy3: "sy_client sy3 = sy_client sy" "replica_holds (sy_client sy) objs lz4c ?ps H (sy_store sy3) t"
      "po_txid (sy_pos sy3) = t" "sy_resnapshots sy3 = sy_resnapshots sy" "same_file sy2 sy3" "d_world (sy_db sy3) \<in> W"
    using uploaded_state [OF up good2 _ _ _ st2 assms(8)] assms(3,14) assms(7) [OF d(1)] sy1 d(2) by (simp_all add: t_def)
  obtain f sy4 out sy5 where snap: "build_snapshot_now ho lz4c sy3 = (Ok f, sy4)" "upload_staged ho f sy4 = (Ok out, sy5)"
    "sy' = sy5\<lparr>sy_resnapshots := sy_resnapshots sy5 + 1\<rparr>"
    using catch_up by (auto simp: catch_up_snapshot_def op_bind_Ok op_modify_def)
  have sy3d: "d_path (sy_db sy3) = d_path (sy_db sy)" "d_page_size (sy_db sy3) = ?ps"
    using sy3(5) sy1 d fields by (simp_all add: same_file_def)
  have txid: "t + 1 = txid"
    using assms(16) by (simp add: t_def)
  have st: "stages lz4c ?ps H sy4 txid f"
    using snapshot_now_stages [OF snap(1) sy3(6), of db_bytes wal fs H] assms(9-13,17) sy3 sy3d txid by simp
  have sy4: "sy_client sy4 = sy_client sy" "sy_store sy4 = sy_store sy3" "sy_resnapshots sy4 = sy_resnapshots sy"
    using keepsD [OF local_snapshot_now snap(1)] keepsD [OF cnt.keeps_build_snapshot_now snap(1)] sy3
    by (simp_all add: local_step_def same_count_def)
  have good4: "good_store objs sy4"
    using assms(2) sy4 by (simp add: good_store_def)
  have holds3: "replica_holds (sy_client sy4) objs lz4c ?ps H (sy_store sy4) (txid - 1)"
    using sy3(2) sy4 txid by (metis add_diff_cancel_right')
  note ext = upload_extends [OF good4 _ holds3 snap(2) st]
  have count: "sy_resnapshots sy5 = sy_resnapshots sy"
    using keepsD [OF cnt.keeps_upload_staged snap(2)] sy4 by (simp add: same_count_def)
  have holds': "replica_holds (sy_client sy) objs lz4c ?ps H (sy_store sy') txid" "po_txid (sy_pos sy') = txid"
    using ext assms(3) sy4 snap(3) by simp_all
  have "txid \<noteq> 0"
    using st by (simp add: stages_def)
  then show ?thesis
    using replica_restored [OF assms(1) holds'(1) _ _ assms(18)] assms(2,17) holds' m count snap(3)
    by (simp add: good_store_def)
qed


text \<open>A checkpoint of the sample that folds another number of frames than the two in the WAL.\<close>

definition sample_folding :: "int \<Rightarrow> int \<Rightarrow> (sample_world, (string \<times> bytes) list) syncer" where
  "sample_folding busy n = (sample_syncer position_default [] [])\<lparr>sy_db := sample_db sample_disk (Ok [busy, n, n])\<rparr>"

lemma sample_folding_fields: "sy_pos (sample_folding busy n) = position_default" "sy_client (sample_folding busy n) = sample_client"
  "sy_store (sample_folding busy n) = []" "d_page_size (sy_db (sample_folding busy n)) = 512"
  "d_path (sy_db (sample_folding busy n)) = ''app.db''" "sample_ready busy n (sample_folding busy n)"
  "sy_resnapshots (sample_folding busy n) = 0" "good_store map_of (sample_folding busy n)"
  using sample_good(1) [of position_default "[]" "[]"]
  by (simp_all add: sample_folding_def sample_db_def sample_ready_def sample_state_def good_store_def) (simp add: sample_syncer_def)

lemma sample_first_build:
  assumes "build_next sample_host stored (sample_folding busy n) = (Ok (Some f), sy1)"
  shows "staged_pages stored sy1 f 1 512 2 (live_pages 512 sample_file sample_frames)"
    and "frames_below 512 (po_wal_offset (sf_new_pos f)) = 2"
proof -
  let ?sy = "sample_folding busy n"
  obtain r where r: "wal_reader_new sample_wal = Ok r" "w_header r = sample_wal_header" "read_frames r = sample_frames"
    by (rule sample_wal_reader)
  have len: "length sample_wal < 2 ^ 63"
    by (simp add: sample_wal_frames(2))
  have pos: "po_txid (sy_pos ?sy) = 0"
    by (simp add: sample_folding_fields position_default_def)
  have frames: "wal_frames sample_wal (d_page_size (sy_db ?sy)) sample_frames"
    using sample_wal_frames(1) by (simp add: sample_folding_fields)
  have last: "committed sample_frames = sample_frames" "fr_pgno (last sample_frames) \<le> fr_commit (last sample_frames)"
    by (simp_all add: committed_def fr_is_commit_def sample_wal_records_def)
  note b = build_next_snapshot [OF assms sample_locked_build [OF sample_folding_fields(6)] len pos frames]
  show "staged_pages stored sy1 f 1 512 2 (live_pages 512 sample_file sample_frames)"
    using b by (simp add: sample_folding_fields sample_commit live_pages_def)
  have "length sample_frames = 2" "frame_size sample_wal_header = 536"
    by (simp_all add: sample_wal_records_def frame_size_def sample_salts)
  then have "po_wal_offset (sf_new_pos f) = of_nat (32 + 2 * 536)"
    using b r last by simp
  then show "frames_below 512 (po_wal_offset (sf_new_pos f)) = 2"
    by (simp add: frames_below_def)
qed

lemma sample_first_stages:
  assumes "build_next sample_host stored (sample_folding busy n) = (Ok (Some f), sy1)"
  shows "stages stored 512 (sample_images 1) sy1 1 f"
proof -
  show ?thesis
    by (rule staged_pages_carry [OF sample_first_build(1) [OF assms] stored_bounded])
      (use snapshot_carries [OF sample_whole(1), of "sample_images 1" 1] in \<open>auto simp: sample_images_def live_pages_def sample_commit\<close>)
qed

lemma sample_cycle:
  assumes "n = 3 \<or> n = -1"
  obtains f sy1 sy' where "build_next sample_host stored (sample_folding busy n) = (Ok (Some f), sy1)"
    and "run_checkpoint sample_host stored Passive True (sample_folding busy n) =
      (Ok (Passive, \<lparr>cr_busy = (busy \<noteq> 0), cr_log_frames = n, cr_checkpointed_frames = n\<rparr>), sy')"
    and "frames_below 512 (po_wal_offset (sf_new_pos f)) < of_int n"
proof -
  let ?sy = "sample_folding busy n" and ?res = "\<lparr>cr_busy = (busy \<noteq> 0), cr_log_frames = n, cr_checkpointed_frames = n\<rparr>"
  have "\<exists>f sy1. build_next sample_host stored ?sy = (Ok (Some f), sy1)"
    by (rule sample_build_next [OF sample_folding_fields(6)]) (simp add: sample_folding_fields)
  then obtain f sy1 where b: "build_next sample_host stored ?sy = (Ok (Some f), sy1)"
    by blast
  note first = sample_first_build [OF b]
  have over: "frames_below 512 (po_wal_offset (sf_new_pos f)) < of_int n"
    using assms first(2) by auto
  have sy1: "sy_client sy1 = sample_client" "sy_store sy1 = []" "sample_ready busy n sy1"
    using keepsD [OF local_build_next b] keepsD [OF rdy.keeps_build_next b]
    by (simp_all add: local_step_def ready_step_def sample_folding_fields)
  obtain c where f: "map_of (sy_staging sy1) (sf_path f) = Some c" "sf_min f = 1" "sf_max f = 1" "sf_level f = LEVEL0"
    using first(1) by (auto simp: staged_pages_def staged_here_def)
  obtain d where d: "checkpoint sample_host Passive True (sy_db sy1) = (Ok ?res, d)" "sample_ready busy n (sy1\<lparr>sy_db := d\<rparr>)"
    by (rule sample_checkpoint [OF sy1(3)])
  let ?sy2 = "sy1\<lparr>sy_db := d\<rparr>"
  obtain out sy3 where up: "upload_staged sample_host f ?sy2 = (Ok out, sy3)"
    using sample_upload [of ?sy2 f c] f sy1 by auto
  have good2: "good_store map_of ?sy2"
    using sample_folding_fields(8) [of busy n] sy1 by (simp add: good_store_def sample_folding_fields)
  note up_Ok = upload_staged_Ok [OF good2 up]
  have "po_txid (sf_new_pos f) = 1"
    using first(1) by (simp add: staged_pages_def)
  then have sy3: "sample_ready busy n sy3" "sy_client sy3 = sample_client" "po_txid (sy_pos sy3) = 1"
    using keepsD [OF rdy.keeps_upload_staged up] d(2) up_Ok sy1 by (simp_all add: ready_step_def)
  have fresh: "map_of (sy_store sy3) (ltx_key sample_client LEVEL0 2 2) = None"
    using up_Ok(2) sy1 f by (simp add: ltx_key_l0_inj)
  have state: "sample_state sy3" "d_path (sy_db sy3) = ''app.db''"
    using sy3(1) by (simp_all add: sample_ready_def sample_state_def)
  obtain g sy4 where "build_snapshot sample_host stored wal_start sample_wal sy3 = (Ok g, sy4)"
    using sample_snapshot [OF state(1)] sy3(3) by blast
  then have snap: "build_snapshot_now sample_host stored sy3 = (Ok g, sy4)"
    using sample_reads(2) [OF state(1)] state(2)
    by (simp add: build_snapshot_now_def read_wal_or_empty_def op_bind_def op_get_def op_try_def op_ret_def)
  note g = snapshot_now_Ok [OF snap]
  have sy4: "sy_client sy4 = sample_client" "sy_store sy4 = sy_store sy3"
    using keepsD [OF local_snapshot_now snap] sy3 by (simp_all add: local_step_def)
  obtain c' where c': "map_of (sy_staging sy4) (sf_path g) = Some c'" "sf_level g = LEVEL0"
    using g(1) by (auto simp: staged_here_def)
  obtain out' sy5 where "upload_staged sample_host g sy4 = (Ok out', sy5)"
    using sample_upload [of sy4 g c'] c' sy4 g fresh sy3 by auto
  then have "\<exists>sy'. catch_up_snapshot sample_host stored sy3 = (Ok (), sy')"
    using snap by (simp add: catch_up_snapshot_def op_bind_def op_modify_def)
  moreover have "on_db (checkpoint sample_host Passive True) sy1 = (Ok ?res, ?sy2)"
    by (simp add: on_db_def op_on_def op_map_err_def d)
  moreover have "d_page_size (sy_db sy1) = 512"
    using sy1(3) by (simp add: sample_ready_def sample_state_def)
  ultimately have "\<exists>sy'. run_checkpoint sample_host stored Passive True ?sy = (Ok (Passive, ?res), sy')"
    using b up over unfolding run_checkpoint_alt after_build_def Let_def catch_up_snapshot_def [symmetric]
    by (auto simp: op_bind_def op_get_def op_ret_def)
  then show thesis
    using that b over by blast
qed

lemma sample_truncated:
  obtains f sy1 sy' where "build_next sample_host stored (sample_folding 0 0) = (Ok (Some f), sy1)"
    and "run_checkpoint sample_host stored Truncate True (sample_folding 0 0) =
      (Ok (Truncate, \<lparr>cr_busy = False, cr_log_frames = 0, cr_checkpointed_frames = 0\<rparr>), sy')"
proof -
  let ?sy = "sample_folding 0 0" and ?res = "\<lparr>cr_busy = False, cr_log_frames = 0, cr_checkpointed_frames = 0\<rparr>"
  have "\<exists>f sy1. build_next sample_host stored ?sy = (Ok (Some f), sy1)"
    by (rule sample_build_next [OF sample_folding_fields(6)]) (simp add: sample_folding_fields)
  then obtain f sy1 where b: "build_next sample_host stored ?sy = (Ok (Some f), sy1)"
    by blast
  note first = sample_first_build [OF b]
  have sy1: "sy_client sy1 = sample_client" "sy_store sy1 = []" "sample_ready 0 0 sy1"
    using keepsD [OF local_build_next b] keepsD [OF rdy.keeps_build_next b]
    by (simp_all add: local_step_def ready_step_def sample_folding_fields)
  obtain c where f: "map_of (sy_staging sy1) (sf_path f) = Some c" "sf_level f = LEVEL0"
    using first(1) by (auto simp: staged_pages_def staged_here_def)
  obtain d where d: "checkpoint sample_host Truncate True (sy_db sy1) = (Ok ?res, d)"
    using sample_checkpoint [OF sy1(3), of Truncate True] by auto
  let ?sy2 = "sy1\<lparr>sy_db := d\<rparr>"
  obtain out sy3 where up: "upload_staged sample_host f ?sy2 = (Ok out, sy3)"
    using sample_upload [of ?sy2 f c] f sy1 by auto
  have "on_db (checkpoint sample_host Truncate True) sy1 = (Ok ?res, ?sy2)"
    by (simp add: on_db_def op_on_def op_map_err_def d)
  moreover have "d_page_size (sy_db sy1) = 512"
    using sy1(3) by (simp add: sample_ready_def sample_state_def)
  ultimately have "run_checkpoint sample_host stored Truncate True ?sy = (Ok (Truncate, ?res), sy3)"
    using b up unfolding run_checkpoint_alt after_build_def Let_def
    by (simp add: op_bind_def op_get_def op_ret_def)
  then show thesis
    using that b by blast
qed

lemma sample_folds:
  assumes "sample_ready busy n sy" and "documented_report mode [busy, n, n] k"
  shows "checkpoint_folds sample_host mode (sy_db sy) k"
proof -
  let ?rel = "(if d_locked (sy_db sy) then release_read_lock sample_host else op_ret ()) (sy_db sy)"
  have "fst ?rel = Ok () \<and> sw_row (d_world (snd ?rel)) = Ok [busy, n, n]"
    using assms(1) by (auto simp: sample_ready_def release_read_lock_def sample_host_def sample_batch_def op_simps op_bind_def
        on_world_def)
  then have "?rel = (Ok (), snd ?rel)" "ho_query_row sample_host (checkpoint_sql mode) (d_world (snd ?rel)) =
      (Ok [busy, n, n], d_world (snd ?rel))"
    by (simp_all add: prod_eq_iff sample_host_def)
  then show ?thesis
    using assms(2) unfolding checkpoint_folds_def by blast
qed


section \<open>A checkpoint that could not run\<close>

text \<open>
  C13: a checkpoint that could not run reports -1 frames, which the comparison reads as the greatest
  \<^verbatim>\<open>u64\<close>: every such cycle counts as an over-fold, and does not succeed without uploading a snapshot of the
  whole database.
\<close>

theorem refused_checkpoint_takes_snapshot:
  assumes "run_checkpoint ho lz4c mode restart_wal sy = (Ok (m, res), sy')" and "cr_checkpointed_frames res = -1"
  shows "\<exists>sy1 snap sy2 out sy3. build_snapshot_now ho lz4c sy1 = (Ok snap, sy2) \<and> upload_staged ho snap sy2 = (Ok out, sy3) \<and>
    sy' = sy3\<lparr>sy_resnapshots := sy_resnapshots sy3 + 1\<rparr> \<and> sy_resnapshots sy' = sy_resnapshots sy + 1"
proof -
  obtain staged sy1 where b: "build_next ho lz4c sy = (Ok staged, sy1)"
    and after: "after_build ho lz4c mode restart_wal staged sy1 = (Ok (m, res), sy')"
    using assms(1) by (auto simp: run_checkpoint_alt op_bind_Ok)
  have over: "of_int (cr_checkpointed_frames res) > frames_below ps off" for ps off
    unfolding assms(2) by (rule frames_below_bound)
  from after obtain sy2 sy3 where ck: "on_db (checkpoint ho mode restart_wal) sy1 = (Ok res, sy2)"
    and up: "case staged of None \<Rightarrow> sy3 = sy2 | Some f \<Rightarrow> upload_staged ho f sy2 = (Ok (sf_outcome f), sy3)"
    and catch_up: "catch_up_snapshot ho lz4c sy3 = (Ok (), sy')"
    by (cases rule: after_build_cases) (use over in \<open>auto simp: op_bind_Ok op_ret_def split: if_splits\<close>)
  obtain snap sy4 out sy5 where snap: "build_snapshot_now ho lz4c sy3 = (Ok snap, sy4)"
    "upload_staged ho snap sy4 = (Ok out, sy5)" "sy' = sy5\<lparr>sy_resnapshots := sy_resnapshots sy5 + 1\<rparr>"
    using catch_up by (auto simp: catch_up_snapshot_def op_bind_Ok op_modify_def)
  have "sy_resnapshots sy2 = sy_resnapshots sy1"
    using on_db_same [OF ck] by auto
  moreover have "sy_resnapshots sy3 = sy_resnapshots sy2"
    using up by (cases staged) (auto simp: same_count_def dest: keepsD [OF cnt.keeps_upload_staged])
  ultimately have "sy_resnapshots sy5 = sy_resnapshots sy"
    using keepsD [OF cnt.keeps_build_next b] keepsD [OF cnt.keeps_build_snapshot_now snap(1)]
      keepsD [OF cnt.keeps_upload_staged snap(2)] by (simp add: same_count_def)
  then have "sy_resnapshots sy' = sy_resnapshots sy + 1"
    by (simp add: snap(3))
  with snap show ?thesis
    by blast
qed

theorem refused_checkpoint_takes_snapshot_witness:
  "\<exists>res sy'. run_checkpoint sample_host stored Passive True (sample_folding 1 (-1)) = (Ok (Passive, res), sy') \<and>
    cr_busy res \<and> sy_resnapshots sy' = 1"
proof -
  obtain f sy1 sy' where run: "run_checkpoint sample_host stored Passive True (sample_folding 1 (-1)) =
      (Ok (Passive, \<lparr>cr_busy = ((1 :: int) \<noteq> 0), cr_log_frames = - 1, cr_checkpointed_frames = - 1\<rparr>), sy')"
    by (rule sample_cycle [of "-1" 1]) simp
  from refused_checkpoint_takes_snapshot [OF run] show ?thesis
    using run by (auto simp: sample_folding_fields)
qed

end
