(* ===== verification/Replication.thy ===== *)
theory Replication
  imports UpkeepRuns Overfold
begin

text \<open>
  Replication with maintenance: syncs, checkpoints, compactions, snapshots and retention in any order, and what
  a restore then returns.
\<close>

section \<open>Syncing a tiered replica\<close>

lemma tiered_upload:
  fixes ho :: "'w host" and sy :: "('w, 's) syncer"
  assumes tier: "tiered objs lz4c ps H sy t" and good: "good_store objs sy" and rd: "readable (cl_store (sy_client sy)) objs"
    and up: "upload_staged ho f sy = (Ok out, sy')" and st: "stages lz4c ps H sy (t + 1) f"
  shows "tiered objs lz4c ps H sy' (t + 1)" and "sy_client sy' = sy_client sy" and "po_txid (sy_pos sy') = t + 1"
proof -
  let ?f = "(LEVEL0, t + 1, t + 1)"
  obtain b h pds where b: "map_of (sy_staging sy) (sf_path f) = Some b" "is_encoding lz4c b h pds"
    "carries ps H ?f h pds" "h_min_txid h = t + 1" "h_max_txid h = t + 1" and f: "t + 1 \<noteq> 0" "sf_min f = t + 1"
    "sf_max f = t + 1" "sf_level f = LEVEL0" "po_txid (sf_new_pos f) = t + 1"
    using st by (auto simp: stages_def staged_here_def)
  note up = upload_staged_Ok [OF good up, unfolded f(2-4) b(1)]
  have car: "carrier lz4c ps H ?f b"
    using b f(1) unat_step [of "t + 1"] by (auto simp: carrier_def LEVEL0_def)
  have "objs (sy_store sy') k = objs (sy_store sy) k \<or> k = file_key (sy_client sy) ?f \<and> objs (sy_store sy') k = Some b" for k
    using up(1,2) by (cases "k = file_key (sy_client sy) ?f") (auto simp: file_key_def)
  then have "puts objs ?f b sy sy'"
    using up(1,3,6) by (simp add: puts_def file_key_def)
  then show "tiered objs lz4c ps H sy' (t + 1)"
    by (rule tiered_put_raw [OF tier good rd _ car up(6)]) (use up(1) in \<open>simp add: file_key_def\<close>)
  show "sy_client sy' = sy_client sy" "po_txid (sy_pos sy') = t + 1"
    using up f(5) by simp_all
qed

text \<open>
  A build from \<open>sy\<close> sees the database the history has next: the two files stay as they are while it holds the read
  lock, and the committed frames of the WAL over the database file are the image at the next TXID, reached by the
  frames since the position, if any of them changes a page.
\<close>

definition observed :: "'w host \<Rightarrow> u32 \<Rightarrow> (u64 \<Rightarrow> bytes) \<Rightarrow> ('w, 's) syncer \<Rightarrow> bool" where
  "observed ho ps H sy \<longleftrightarrow> d_page_size (sy_db sy) = ps \<and>
    (\<exists>db_bytes wal. locked_build ho sy db_bytes wal \<and> length wal < 2 ^ 63 \<and>
      (if po_txid (sy_pos sy) = 0
       then \<exists>fs. wal_frames wal ps fs \<and> whole ps db_bytes fs \<and> H 1 = live_image ps db_bytes fs
       else \<exists>r n. wal_reader_new wal = Ok r \<and> resumes (sy_pos sy) r (length wal) n \<and> wh_page_size (w_header r) = ps \<and>
         (changed_pages (drop n (read_frames r)) \<noteq> [] \<longrightarrow>
           step_of ps H (po_txid (sy_pos sy) + 1) db_bytes (take n (read_frames r)) (drop n (read_frames r)))))"

text \<open>The same for a snapshot of the whole database, which a build takes without the read lock.\<close>

definition observed_whole :: "'w host \<Rightarrow> u32 \<Rightarrow> (u64 \<Rightarrow> bytes) \<Rightarrow> ('w, 's) syncer \<Rightarrow> bool" where
  "observed_whole ho ps H sy \<longleftrightarrow> d_page_size (sy_db sy) = ps \<and>
    (\<exists>W db_bytes wal fs. d_world (sy_db sy) \<in> W \<and> still ho W (d_path (sy_db sy)) db_bytes \<and>
      still ho W (d_path (sy_db sy) @ ''-wal'') wal \<and> wal_frames wal ps fs \<and> whole ps db_bytes fs \<and>
      H (po_txid (sy_pos sy) + 1) = live_image ps db_bytes fs)"

lemma observed_whole_stages:
  assumes "observed_whole ho ps H sy" and "lz4_bounded lz4c" and "build_snapshot_now ho lz4c sy = (Ok f, sy')"
  shows "stages lz4c ps H sy' (po_txid (sy_pos sy) + 1) f"
  using assms(1) snapshot_now_stages [OF assms(3) _ _ _ _ _ _ assms(2)] unfolding observed_whole_def by blast

text \<open>
  The state in which a checkpoint cycle from \<open>sy\<close> that folded more frames than it captured takes its catch-up
  snapshot.
\<close>

definition overfolded :: "'w host \<Rightarrow> (bytes \<Rightarrow> bytes) \<Rightarrow> checkpoint_mode \<Rightarrow> bool \<Rightarrow> ('w, 's) syncer \<Rightarrow> ('w, 's) syncer \<Rightarrow> bool" where
  "overfolded ho lz4c mode restart_wal sy sy' \<longleftrightarrow> (\<exists>staged sy1 res sy2. build_next ho lz4c sy = (Ok staged, sy1) \<and>
    on_db (checkpoint ho mode restart_wal) sy1 = (Ok res, sy2) \<and>
    (case staged of None \<Rightarrow> sy' = sy2 | Some f \<Rightarrow> upload_staged ho f sy2 = (Ok (sf_outcome f), sy')) \<and>
    of_int (cr_checkpointed_frames res) > frames_below (d_page_size (sy_db sy1))
      (case staged of Some s \<Rightarrow> po_wal_offset (sf_new_pos s) | None \<Rightarrow> po_wal_offset (sy_pos sy1)))"

lemma observed_stages:
  fixes ho :: "'w host" and sy :: "('w, 's) syncer"
  assumes ob: "observed ho ps H sy" and bound: "lz4_bounded lz4c" and run: "build_next ho lz4c sy = (Ok (Some f), sy')"
  shows "stages lz4c ps H sy' (po_txid (sy_pos sy) + 1) f"
proof -
  have ps: "d_page_size (sy_db sy) = ps"
    using ob by (simp add: observed_def)
  obtain db_bytes wal where env: "locked_build ho sy db_bytes wal" "length wal < 2 ^ 63"
    and seen: "if po_txid (sy_pos sy) = 0
       then \<exists>fs. wal_frames wal ps fs \<and> whole ps db_bytes fs \<and> H 1 = live_image ps db_bytes fs
       else \<exists>r n. wal_reader_new wal = Ok r \<and> resumes (sy_pos sy) r (length wal) n \<and> wh_page_size (w_header r) = ps \<and>
         (changed_pages (drop n (read_frames r)) \<noteq> [] \<longrightarrow>
           step_of ps H (po_txid (sy_pos sy) + 1) db_bytes (take n (read_frames r)) (drop n (read_frames r)))"
    using ob unfolding observed_def by blast
  show ?thesis
  proof (cases "po_txid (sy_pos sy) = 0")
    case True
    then obtain fs where fs: "wal_frames wal ps fs" "whole ps db_bytes fs" "H 1 = live_image ps db_bytes fs"
      using seen by auto
    show ?thesis
      using first_build_stages [where H = H, OF run env True, unfolded ps, OF fs bound] True by auto
  next
    case False
    then obtain r n where r: "wal_reader_new wal = Ok r" "resumes (sy_pos sy) r (length wal) n" "wh_page_size (w_header r) = ps"
      and step: "changed_pages (drop n (read_frames r)) \<noteq> [] \<longrightarrow>
        step_of ps H (po_txid (sy_pos sy) + 1) db_bytes (take n (read_frames r)) (drop n (read_frames r))"
      using seen by auto
    have "changed_pages (drop n (read_frames r)) \<noteq> []"
      using build_next_increment [OF run env r(1) False r(2)] r(3) ps by simp
    note r = r step [rule_format, OF this]
    show ?thesis
      using next_build_stages [OF run env r(1) False r(2), unfolded ps, OF r(3,4) bound] .
  qed
qed

text \<open>
  A step of replication: a maintenance call; a build, which may fail and leave what it staged; a look at the size
  of the WAL; a sync that succeeds; or a checkpoint cycle that succeeds.
\<close>

inductive replication_step ::
  "'w host \<Rightarrow> (bytes \<Rightarrow> bytes) \<Rightarrow> lz4_dec \<Rightarrow> u32 \<Rightarrow> (u64 \<Rightarrow> bytes) \<Rightarrow> ('w, 's) syncer \<Rightarrow> ('w, 's) syncer \<Rightarrow> bool"
  for ho lz4c lz4d ps H where
  upkeep: "upkeep_step ho lz4c lz4d sy sy' \<Longrightarrow> replication_step ho lz4c lz4d ps H sy sy'"
| built: "build_next ho lz4c sy = (r, sy') \<Longrightarrow> replication_step ho lz4c lz4d ps H sy sy'"
| polled: "op_on sy_db (\<lambda>d sy. sy\<lparr>sy_db := d\<rparr>) (wal_frame_count ho) sy = (q :: (nat, sync_error) result, sy') \<Longrightarrow>
    replication_step ho lz4c lz4d ps H sy sy'"
| synced: "observed ho ps H sy \<Longrightarrow> sync ho lz4c sy = (Ok out, sy') \<Longrightarrow> replication_step ho lz4c lz4d ps H sy sy'"
| checkpointed: "observed ho ps H sy \<Longrightarrow> \<forall>sy1. overfolded ho lz4c mode restart_wal sy sy1 \<longrightarrow> observed_whole ho ps H sy1 \<Longrightarrow>
    run_checkpoint ho lz4c mode restart_wal sy = (Ok c, sy') \<Longrightarrow> replication_step ho lz4c lz4d ps H sy sy'"

text \<open>The invariant: the replica is tiered, up to the TXID of the position.\<close>

definition replicated :: "('s \<Rightarrow> string \<Rightarrow> bytes option) \<Rightarrow> (bytes \<Rightarrow> bytes) \<Rightarrow> u32 \<Rightarrow> (u64 \<Rightarrow> bytes) \<Rightarrow> ('w, 's) syncer \<Rightarrow> bool" where
  "replicated objs lz4c ps H sy \<longleftrightarrow> tiered objs lz4c ps H sy (po_txid (sy_pos sy)) \<and> good_store objs sy \<and>
    readable (cl_store (sy_client sy)) objs"

lemma replicated_idle: "replicated objs lz4c ps H sy \<Longrightarrow> local_step sy sy' \<Longrightarrow>
    replicated objs lz4c ps H sy' \<and> po_txid (sy_pos sy') = po_txid (sy_pos sy)"
  using tiered_idle [of objs lz4c ps H sy _ sy'] by (simp add: replicated_def local_step_def good_store_def)

lemma replicated_upload:
  assumes inv: "replicated objs lz4c ps H sy" and st: "stages lz4c ps H sy (po_txid (sy_pos sy) + 1) f"
    and up: "upload_staged ho f sy = (Ok out, sy')"
  shows "replicated objs lz4c ps H sy' \<and> po_txid (sy_pos sy) \<le> po_txid (sy_pos sy')"
proof -
  have "po_txid (sy_pos sy) + 1 \<noteq> 0"
    using st by (simp add: stages_def)
  then have "po_txid (sy_pos sy) \<le> po_txid (sy_pos sy) + 1"
    by uint_arith
  then show ?thesis
    using inv tiered_upload [OF _ _ _ up st, of objs] by (simp add: replicated_def good_store_def)
qed

lemma replicated_sync:
  assumes inv: "replicated objs lz4c ps H sy" and bound: "lz4_bounded lz4c" and ob: "observed ho ps H sy"
    and run: "sync ho lz4c sy = (Ok out, sy')"
  shows "replicated objs lz4c ps H sy' \<and> po_txid (sy_pos sy) \<le> po_txid (sy_pos sy')"
  using run
proof (cases rule: sync_cases)
  case skip
  from replicated_idle [OF inv keepsD [OF local_build_next skip(1)]] show ?thesis
    by simp
next
  case (upload f sy1)
  have same: "sy_pos sy1 = sy_pos sy"
    using keepsD [OF local_build_next upload(1)] by (simp add: local_step_def)
  have "replicated objs lz4c ps H sy1"
    using replicated_idle [OF inv keepsD [OF local_build_next upload(1)]] by blast
  from replicated_upload [OF this _ upload(2)] observed_stages [OF ob bound upload(1)] show ?thesis
    by (simp add: same)
qed

lemma replicated_checkpoint:
  assumes inv: "replicated objs lz4c ps H sy" and bound: "lz4_bounded lz4c" and ob: "observed ho ps H sy"
    and whole: "\<forall>sy1. overfolded ho lz4c mode restart_wal sy sy1 \<longrightarrow> observed_whole ho ps H sy1"
    and run: "run_checkpoint ho lz4c mode restart_wal sy = (Ok c, sy')"
  shows "replicated objs lz4c ps H sy' \<and> po_txid (sy_pos sy) \<le> po_txid (sy_pos sy')"
proof -
  let ?rep = "\<lambda>s. replicated objs lz4c ps H s \<and> po_txid (sy_pos sy) \<le> po_txid (sy_pos s)"
  obtain staged sy1 where b: "build_next ho lz4c sy = (Ok staged, sy1)"
    and after: "after_build ho lz4c mode restart_wal staged sy1 = (Ok c, sy')"
    using run by (auto simp: run_checkpoint_alt op_bind_Ok)
  have rep1: "replicated objs lz4c ps H sy1" and pos1: "sy_pos sy1 = sy_pos sy"
    using replicated_idle [OF inv keepsD [OF local_build_next b]] keepsD [OF local_build_next b] by (simp_all add: local_step_def)
  from after show ?thesis
  proof (cases rule: after_build_cases)
    case (uploaded res sy2 sy3)
    have two: "local_step sy1 sy2" and staging: "sy_staging sy2 = sy_staging sy1"
      using on_db_same [OF uploaded(1)] by (auto simp: local_step_def)
    have rep2: "replicated objs lz4c ps H sy2" and pos2: "po_txid (sy_pos sy2) = po_txid (sy_pos sy)"
      using replicated_idle [OF rep1 two] pos1 by simp_all
    have rep3: "?rep sy3"
    proof (cases staged)
      case None
      then show ?thesis
        using uploaded(2) rep2 pos2 by simp
    next
      case (Some f)
      have "stages lz4c ps H sy1 (po_txid (sy_pos sy) + 1) f"
        using observed_stages [OF ob bound b [unfolded Some]] .
      then have "stages lz4c ps H sy2 (po_txid (sy_pos sy2) + 1) f"
        unfolding stages_def staged_here_def staging pos2 .
      from replicated_upload [OF rep2 this] uploaded(2) show ?thesis
        using Some pos2 by auto
    qed
    show ?thesis
    proof (cases "of_int (cr_checkpointed_frames res) > frames_below (d_page_size (sy_db sy1))
        (case staged of Some s \<Rightarrow> po_wal_offset (sf_new_pos s) | None \<Rightarrow> po_wal_offset (sy_pos sy1))")
      case False
      then show ?thesis
        using uploaded(3) rep3 by simp
    next
      case True
      then have "overfolded ho lz4c mode restart_wal sy sy3"
        unfolding overfolded_def using b uploaded(1,2) by blast
      then have ob3: "observed_whole ho ps H sy3"
        using whole by blast
      have "op_bind (catch_up_snapshot ho lz4c) (\<lambda>_. op_ret (mode, res)) sy3 = (Ok c, sy')"
        using uploaded(3) True by simp
      then obtain f sy4 out sy5 where snap: "build_snapshot_now ho lz4c sy3 = (Ok f, sy4)"
        "upload_staged ho f sy4 = (Ok out, sy5)" "sy' = sy5\<lparr>sy_resnapshots := sy_resnapshots sy5 + 1\<rparr>"
        by (auto simp: catch_up_snapshot_def op_bind_Ok op_modify_def op_ret_def)
      have rep4: "replicated objs lz4c ps H sy4" and pos4: "sy_pos sy4 = sy_pos sy3"
        using replicated_idle [OF _ keepsD [OF local_snapshot_now snap(1)]] rep3 keepsD [OF local_snapshot_now snap(1)]
        by (auto simp: local_step_def)
      have "?rep sy5"
        using replicated_upload [OF rep4 _ snap(2)] observed_whole_stages [OF ob3 bound snap(1)] rep3 pos4 by auto
      moreover have "local_step sy5 sy'"
        by (simp add: snap(3) local_step_def)
      ultimately show ?thesis
        using replicated_idle by fastforce
    qed
  qed simp_all
qed

lemma replication_replicated:
  assumes "lz4_frame_inverse lz4c lz4d" and "lz4_bounded lz4c" and step: "replication_step ho lz4c lz4d ps H sy sy'"
    and inv: "replicated objs lz4c ps H sy"
  shows "replicated objs lz4c ps H sy' \<and> po_txid (sy_pos sy) \<le> po_txid (sy_pos sy')"
  using step
proof (cases rule: replication_step.cases)
  case upkeep
  have "tiered objs lz4c ps H sy' (po_txid (sy_pos sy))"
    using inv unfolding replicated_def by (intro upkeep_tiered [OF assms(1,2) upkeep]) simp_all
  then show ?thesis
    using upkeep_apart [OF upkeep] inv by (simp add: apart_def replicated_def good_store_def)
next
  case (built r)
  show ?thesis
    using replicated_idle [OF inv keepsD [OF local_build_next built]] by simp
next
  case (polled q)
  then have "local_step sy sy'"
    by (auto simp: op_on_def local_step_def split: prod.splits)
  then show ?thesis
    using replicated_idle [OF inv] by simp
next
  case (synced out)
  then show ?thesis
    by (rule replicated_sync [OF inv assms(2)])
next
  case (checkpointed mode restart_wal c)
  then show ?thesis
    by (rule replicated_checkpoint [OF inv assms(2)])
qed

lemma replication_runs:
  assumes "lz4_frame_inverse lz4c lz4d" and "lz4_bounded lz4c" and "(replication_step ho lz4c lz4d ps H)\<^sup>*\<^sup>* sy sy'"
    and "replicated objs lz4c ps H sy"
  shows "replicated objs lz4c ps H sy' \<and> po_txid (sy_pos sy) \<le> po_txid (sy_pos sy')"
  using assms(3,4)
  by (induction rule: rtranclp_induct) (auto dest: replication_replicated [OF assms(1,2)])

text \<open>What the invariant is for.\<close>

lemma replicated_restores:
  assumes "lz4_frame_inverse lz4c lz4d" and "replicated objs lz4c ps H sy" and "po_txid (sy_pos sy) \<noteq> 0"
    and "list_all_levels (sy_client sy) (sy_store sy) = Ok files"
  shows "restore (sy_client sy) lz4d (sy_store sy) = Ok (H (po_txid (sy_pos sy)))"
  using assms(2) replica_restored [OF assms(1) _ assms(3) _ assms(4)]
  by (auto simp: replicated_def tiered_def good_store_def)

section \<open>The sample\<close>

lemma two_steps: "R x y \<Longrightarrow> R y z \<Longrightarrow> R\<^sup>*\<^sup>* x z"
  by (meson converse_rtranclp_into_rtranclp r_into_rtranclp)

lemma tiered_empty:
  assumes "history ps H" and "\<And>k. objs (sy_store sy) k = None" and "sy_files sy = fi_empty"
  shows "tiered objs lz4c ps H sy 0"
proof -
  have zero: "frontier l fi_empty = 0" for l
    by (simp add: frontier_def fi_list_def fi_empty_def max_txid_of_def)
  show ?thesis
    using replica_empty [of ps H objs "sy_store sy", OF assms(1,2)] by (simp add: tiered_def assms(3) proper_index_def zero layered_def reaches_zero)
qed

text \<open>The sample, on an empty replica, and its first sync.\<close>

lemma sample_replicated: "replicated map_of stored 512 (sample_images 1) (sample_folding 0 2)"
proof -
  note sy = sample_folding_fields [of 0 2]
  have "tiered map_of stored 512 (sample_images 1) (sample_folding 0 2) 0"
    by (rule tiered_empty [OF sample_images_history]) (simp_all add: sy, simp add: sample_folding_def sample_syncer_def)
  then show ?thesis
    using sy(8) sample_good(2) by (simp add: replicated_def sy position_default_def)
qed

lemma sample_synced:
  obtains out sy' where "observed sample_host 512 (sample_images 1) (sample_folding 0 2)"
    and "sync sample_host stored (sample_folding 0 2) = (Ok out, sy')"
    and "replicated map_of stored 512 (sample_images 1) sy'" and "sy_client sy' = sample_client" and "po_txid (sy_pos sy') = 1"
proof -
  let ?sy = "sample_folding 0 2"
  note sy = sample_folding_fields [of 0 2]
  have same: "?sy = sample_syncer position_default [] []"
    by (simp add: sample_folding_def sample_syncer_def)
  have zero: "po_txid (sy_pos ?sy) = 0"
    by (simp add: sy position_default_def)
  have ob: "observed sample_host 512 (sample_images 1) ?sy"
    unfolding observed_def zero using sample_locked_build [OF sy(6)] sample_wal_frames sample_whole(1)
    by (intro conjI exI [of _ sample_file] exI [of _ sample_wal]) (auto simp: sy sample_images_def intro!: exI [of _ sample_frames])
  obtain out sy' where run: "sync sample_host stored ?sy = (Ok out, sy')"
    using sample_sync [of position_default "[]" stored] unfolding same by auto
  note rep = replication_replicated [OF stored_inverse stored_bounded synced [OF ob run] sample_replicated]
  have "sy_client sy' = sample_client \<and> po_txid (sy_pos sy') = 1"
    using run
  proof (cases rule: sync_cases)
    case skip
    then show ?thesis
      using sample_build_next [OF sy(6), of stored] sy(1) by auto
  next
    case (upload f sy1)
    have st: "stages stored 512 (sample_images 1) sy1 (0 + 1) f"
      using observed_stages [OF ob stored_bounded upload(1)] zero by simp
    have "local_step ?sy sy1"
      by (rule keepsD [OF local_build_next upload(1)])
    then have good1: "good_store map_of sy1" and cl: "sy_client sy1 = sample_client"
      and same1: "replicated map_of stored 512 (sample_images 1) sy1" and zero1: "po_txid (sy_pos sy1) = 0"
      using sy zero replication_replicated [OF stored_inverse stored_bounded built [OF upload(1)] sample_replicated]
      by (simp_all add: local_step_def good_store_def)
    from same1 have "tiered map_of stored 512 (sample_images 1) sy1 0"
      by (simp add: replicated_def zero1)
    from tiered_upload [OF this good1 _ upload(2) st] show ?thesis
      using sample_good(2) cl by simp
  qed
  then show thesis
    using that [OF ob run] rep by blast
qed

text \<open>
  Maintenance keeps the replica restorable: after any run of compactions, snapshots and retention, each
  call succeeding or failing at any point, a restore still returns the database at the newest TXID, and the
  replica still supports the next round; the position and the staged files are untouched.
\<close>

theorem maintenance_keeps_restore:
  assumes "lz4_frame_inverse lz4c lz4d" and "lz4_bounded lz4c" and "(upkeep_step ho lz4c lz4d)\<^sup>*\<^sup>* sy sy'"
    and "tiered objs lz4c ps H sy t" and "good_store objs sy" and "readable (cl_store (sy_client sy)) objs"
    and "t \<noteq> 0" and "list_all_levels (sy_client sy') (sy_store sy') = Ok files"
  shows "restore (sy_client sy') lz4d (sy_store sy') = Ok (H t) \<and> tiered objs lz4c ps H sy' t \<and> sy_pos sy' = sy_pos sy \<and>
    sy_staging sy' = sy_staging sy"
proof -
  note run = upkeep_runs [OF assms(1-6)]
  then have "replica_holds (sy_client sy') objs lz4c ps H (sy_store sy') t" "sy_client sy' = sy_client sy"
    by (auto simp: tiered_def apart_def)
  then show ?thesis
    using replica_restored [OF assms(1) _ assms(7) _ assms(8)] assms(5) run by (simp add: good_store_def apart_def)
qed

text \<open>
  C2: replication is an invariant of every run: from a replicated state, such as an empty replica, syncs and
  checkpoint cycles that succeed, compactions, snapshots and retention interleave in any order, builds and
  maintenance calls fail at any point, and a restore returns the database as the last upload saw it, at the TXID of
  the position, which never goes back.
\<close>

theorem replication_restores:
  assumes "lz4_frame_inverse lz4c lz4d" and "lz4_bounded lz4c"
    and "(replication_step ho lz4c lz4d ps H)\<^sup>*\<^sup>* sy sy'" and "replicated objs lz4c ps H sy"
    and "po_txid (sy_pos sy') \<noteq> 0" and "list_all_levels (sy_client sy') (sy_store sy') = Ok files"
  shows "restore (sy_client sy') lz4d (sy_store sy') = Ok (H (po_txid (sy_pos sy'))) \<and> replicated objs lz4c ps H sy' \<and>
    po_txid (sy_pos sy) \<le> po_txid (sy_pos sy')"
  using replication_runs [OF assms(1-4)] replicated_restores [OF assms(1) _ assms(5,6)] by blast

theorem replication_restores_witness:
  "\<exists>sy'. (replication_step sample_host stored stored_dec 512 (sample_images 1))\<^sup>*\<^sup>* (sample_folding 0 2) sy' \<and>
    po_txid (sy_pos sy') = 1 \<and> restore (sy_client sy') stored_dec (sy_store sy') = Ok (live_image 512 sample_file sample_frames)"
proof -
  obtain out sy1 where ob: "observed sample_host 512 (sample_images 1) (sample_folding 0 2)"
    and sync: "sync sample_host stored (sample_folding 0 2) = (Ok out, sy1)"
    and sy1: "sy_client sy1 = sample_client" "po_txid (sy_pos sy1) = 1"
    by (rule sample_synced)
  obtain r sy' where snap: "syncer_snapshot sample_host stored stored_dec sy1 = (r, sy')"
    by (cases "syncer_snapshot sample_host stored stored_dec sy1")
  note second = upkeep_step.snapshot [OF snap]
  have run: "(replication_step sample_host stored stored_dec 512 (sample_images 1))\<^sup>*\<^sup>* (sample_folding 0 2) sy'"
    by (rule two_steps [where R = "replication_step sample_host stored stored_dec 512 (sample_images 1)", OF synced [OF ob sync] upkeep [OF second]])
  have sy': "sy_client sy' = sample_client" "po_txid (sy_pos sy') = 1"
    using upkeep_apart [OF second] sy1 by (simp_all add: apart_def)
  obtain files where files: "list_all_levels (sy_client sy') (sy_store sy') = Ok files"
    using sample_lists unfolding sy' by blast
  from replication_restores [OF stored_inverse stored_bounded run sample_replicated _ files] show ?thesis
    using run sy'(2) by (auto simp: sample_images_def)
qed

end
