(* ===== verification/Ticks.thy ===== *)
theory Ticks
  imports Replication Driver
begin

text \<open>
  Ticks of the driver are runs of the replication steps: what a tick and a daemon's loop of ticks leave of the
  replica.
\<close>

section \<open>Steps of a tick\<close>

text \<open>The syncer of the driver moves by steps of replication.\<close>

definition moves ::
  "'w host \<Rightarrow> (bytes \<Rightarrow> bytes) \<Rightarrow> lz4_dec \<Rightarrow> u32 \<Rightarrow> (u64 \<Rightarrow> bytes) \<Rightarrow> ('w, 's) driver \<Rightarrow> ('w, 's) driver \<Rightarrow> bool" where
  "moves ho lz4c lz4d ps H dr dr' \<longleftrightarrow> (replication_step ho lz4c lz4d ps H)\<^sup>*\<^sup>* (dr_syncer dr) (dr_syncer dr')"

interpretation mov: state_order "moves ho lz4c lz4d ps H" for ho lz4c lz4d ps H
  by unfold_locales (auto simp: moves_def intro: rtranclp_trans)

lemma keeps_syncer:
  assumes "\<And>sy r sy'. m sy = (r, sy') \<Longrightarrow> replication_step ho lz4c lz4d ps H sy sy'"
  shows "keeps (moves ho lz4c lz4d ps H) (on_syncer m)"
  unfolding on_syncer_def by (rule mov.keeps_on) (use assms in \<open>auto simp: moves_def\<close>)

lemma keeps_upkeep:
  assumes "\<And>sy r sy'. m sy = (r, sy') \<Longrightarrow> upkeep_step ho lz4c lz4d sy sy'"
  shows "keeps (moves ho lz4c lz4d ps H) (on_syncer m)"
  by (rule keeps_syncer) (use assms in \<open>blast intro: replication_step.upkeep\<close>)

lemma keeps_maintenance:
  "keeps (moves ho lz4c lz4d ps H) (on_syncer (compact_level ho lz4c lz4d dst))"
  "keeps (moves ho lz4c lz4d ps H) (on_syncer (syncer_snapshot ho lz4c lz4d))"
  "keeps (moves ho lz4c lz4d ps H) (on_syncer (enforce_snapshot_retention now retention max_lv))"
  "keeps (moves ho lz4c lz4d ps H) (on_syncer (enforce_l0_retention now retention))"
  by (rule keeps_upkeep, blast intro: upkeep_step.intros)+

lemma keeps_driver: "(\<And>dr. dr_syncer (f dr) = dr_syncer dr) \<Longrightarrow> keeps (moves ho lz4c lz4d ps H) (op_modify f)"
  by (rule mov.keeps_modify) (simp add: moves_def)

lemma keeps_tick_level: "keeps (moves ho lz4c lz4d ps H) (tick_level ho lz4c lz4d now lvl)"
  unfolding tick_level_def Let_def
  by (auto intro!: mov.keeps_pure mov.keeps_bind keeps_driver keeps_maintenance)

lemma keeps_tick_snapshot: "keeps (moves ho lz4c lz4d ps H) (tick_snapshot ho lz4c lz4d now)"
  unfolding tick_snapshot_def Let_def
  by (auto intro!: mov.keeps_pure mov.keeps_bind keeps_driver keeps_maintenance)

lemma keeps_tick_l0: "keeps (moves ho lz4c lz4d ps H) (tick_l0 now)"
  unfolding tick_l0_def Let_def
  by (auto intro!: mov.keeps_pure mov.keeps_bind keeps_driver keeps_maintenance)

text \<open>A tick ships what the database has, a sync and a checkpoint, and then maintains the replica.\<close>

definition tick_ship ::
  "'w host \<Rightarrow> (bytes \<Rightarrow> bytes) \<Rightarrow> instant \<Rightarrow> ('w, 's, sync_outcome \<times> (checkpoint_mode \<times> checkpoint_result) option) driver_op" where
  "tick_ship ho lz4c now =
    op_bind (on_syncer (sync ho lz4c)) (\<lambda>synced.
    op_bind (op_modify (\<lambda>dr. if synced \<noteq> Skipped then dr\<lparr>dr_synced_since := True\<rparr> else dr)) (\<lambda>_.
    op_bind (op_bind (on_syncer (checkpoint_if_needed ho lz4c)) (timed_checkpoint ho lz4c now)) (\<lambda>ckpt.
    op_bind (op_modify (\<lambda>dr. if ckpt \<noteq> None then dr\<lparr>dr_checkpoint_at := now, dr_synced_since := False\<rparr> else dr)) (\<lambda>_.
    op_ret (synced, ckpt)))))"

definition tick_maintain ::
  "'w host \<Rightarrow> (bytes \<Rightarrow> bytes) \<Rightarrow> lz4_dec \<Rightarrow> instant \<Rightarrow> sync_outcome \<times> (checkpoint_mode \<times> checkpoint_result) option
    \<Rightarrow> ('w, 's, tick_report) driver_op" where
  "tick_maintain ho lz4c lz4d now shipped =
    op_bind (op_get dr_levels) (\<lambda>levels.
    op_bind (op_map (tick_level ho lz4c lz4d now) levels) (\<lambda>compactions.
    op_bind (tick_snapshot ho lz4c lz4d now) (\<lambda>snap.
    op_bind (tick_l0 now) (\<lambda>pruned.
    op_bind (op_get (\<lambda>dr. (sy_resnapshots (dr_syncer dr), dr_prev_resnapshots dr))) (\<lambda>(count, prev_count).
    op_bind (op_modify (\<lambda>dr. dr\<lparr>dr_prev_resnapshots := count\<rparr>)) (\<lambda>_.
    op_bind (op_get (\<lambda>dr. staged_backlog_bytes (sy_staging (dr_syncer dr)))) (\<lambda>backlog.
    op_ret \<lparr>tr_synced = fst shipped, tr_checkpoint = snd shipped, tr_compactions = concat compactions, tr_snapshot = snap,
      tr_l0_pruned = pruned, tr_resnapshot_fired = (count > prev_count), tr_staged_backlog_bytes = backlog\<rparr>)))))))"

lemma bind_assoc: "op_bind (op_bind m f) g = op_bind m (\<lambda>x. op_bind (f x) g)"
  by (rule ext) (simp add: op_bind_def split: prod.split result.split)

lemma bind_ret: "op_bind (op_ret x) f = f x"
  by (rule ext) (simp add: op_bind_def op_ret_def)

lemma tick_split: "tick ho lz4c lz4d now = op_bind (tick_ship ho lz4c now) (tick_maintain ho lz4c lz4d now)"
  unfolding tick_def tick_ship_def tick_maintain_def bind_assoc bind_ret fst_conv snd_conv ..

lemma keeps_tick_maintain: "keeps (moves ho lz4c lz4d ps H) (tick_maintain ho lz4c lz4d now shipped)"
  unfolding tick_maintain_def
  by (auto intro!: mov.keeps_pure mov.keeps_bind mov.keeps_map keeps_driver keeps_tick_level keeps_tick_snapshot keeps_tick_l0)

section \<open>What a tick ships\<close>

text \<open>
  What the calls of a tick see: the sync sees the database the history has next, and so does a checkpoint after it,
  with its catch-up snapshot.
\<close>

definition frame_count :: "'w host \<Rightarrow> ('w, 's, nat) sync_op" where
  "frame_count ho = op_on sy_db (\<lambda>d sy. sy\<lparr>sy_db := d\<rparr>) (wal_frame_count ho)"

definition cycle_seen :: "'w host \<Rightarrow> (bytes \<Rightarrow> bytes) \<Rightarrow> u32 \<Rightarrow> (u64 \<Rightarrow> bytes) \<Rightarrow> ('w, 's) syncer \<Rightarrow> bool" where
  "cycle_seen ho lz4c ps H sy \<longleftrightarrow> observed ho ps H sy \<and>
    (\<forall>mode restart_wal sy1. overfolded ho lz4c mode restart_wal sy sy1 \<longrightarrow> observed_whole ho ps H sy1)"

definition tick_seen :: "'w host \<Rightarrow> (bytes \<Rightarrow> bytes) \<Rightarrow> u32 \<Rightarrow> (u64 \<Rightarrow> bytes) \<Rightarrow> ('w, 's) syncer \<Rightarrow> bool" where
  "tick_seen ho lz4c ps H sy \<longleftrightarrow> observed ho ps H sy \<and>
    (\<forall>out sy1. sync ho lz4c sy = (Ok out, sy1) \<longrightarrow> cycle_seen ho lz4c ps H sy1 \<and>
      (\<forall>n sy2. frame_count ho sy1 = (Ok n, sy2) \<longrightarrow> cycle_seen ho lz4c ps H sy2))"

lemma seen_checkpoint:
  assumes "cycle_seen ho lz4c ps H sy" and "run_checkpoint ho lz4c mode restart_wal sy = (Ok c, sy')"
  shows "replication_step ho lz4c lz4d ps H sy sy'"
  by (rule checkpointed [OF _ _ assms(2)]) (use assms(1) in \<open>auto simp: cycle_seen_def\<close>)

lemma seen_checkpoint_if_needed:
  assumes "cycle_seen ho lz4c ps H sy" and "checkpoint_if_needed ho lz4c sy = (Ok c, sy')"
  shows "if c = None then sy' = sy else replication_step ho lz4c lz4d ps H sy sy'"
  using assms(2) seen_checkpoint [OF assms(1)]
  by (auto simp: checkpoint_if_needed_def op_bind_Ok op_get_def op_ret_def split: if_splits)

lemma seen_timed_checkpoint:
  assumes run: "timed_checkpoint ho lz4c now ckpt dr = (Ok c, dr')"
    and seen: "ckpt = None \<Longrightarrow> cycle_seen ho lz4c ps H (dr_syncer dr) \<and>
      (\<forall>n sy. frame_count ho (dr_syncer dr) = (Ok n, sy) \<longrightarrow> cycle_seen ho lz4c ps H sy)"
  shows "moves ho lz4c lz4d ps H dr dr'"
proof (cases ckpt)
  case (Some k)
  then show ?thesis
    using run by (simp add: timed_checkpoint_def op_ret_def mov.refl)
next
  case None
  show ?thesis
  proof (cases "dr_checkpoint_interval dr \<noteq> 0 \<and> dr_synced_since dr")
    case False
    then show ?thesis
      using run None by (simp add: timed_checkpoint_def op_bind_Ok op_get_def op_ret_def mov.refl)
  next
    case True
    then obtain n dr1 where n: "on_syncer (frame_count ho) dr = (Ok n, dr1)"
      and rest: "op_bind (op_get (checkpoint_due now n)) (\<lambda>due.
          if due then op_bind (on_syncer (checkpoint_now ho lz4c Passive)) (\<lambda>c. op_ret (Some c)) else op_ret None) dr1 = (Ok c, dr')"
      using run None by (auto simp: timed_checkpoint_def op_bind_Ok op_get_def frame_count_def)
    have sy1: "frame_count ho (dr_syncer dr) = (Ok n, dr_syncer dr1)"
      using n by (auto simp: on_syncer_def op_on_def [of dr_syncer] split: prod.splits)
    have first: "moves ho lz4c lz4d ps H dr dr1"
      using polled [OF sy1 [unfolded frame_count_def]] by (auto simp: moves_def)
    show ?thesis
    proof (cases "checkpoint_due now n dr1")
      case False
      then have "dr' = dr1"
        using rest by (auto simp: op_bind_Ok op_get_def op_ret_def split: if_splits)
      then show ?thesis
        using first by simp
    next
      case True
      then obtain k where "on_syncer (checkpoint_now ho lz4c Passive) dr1 = (Ok k, dr')"
        using rest by (auto simp: op_bind_Ok op_get_def op_ret_def)
      then have "run_checkpoint ho lz4c Passive False (dr_syncer dr1) = (Ok k, dr_syncer dr')"
        by (auto simp: on_syncer_def op_on_def checkpoint_now_def split: prod.splits)
      from seen_checkpoint [OF _ this] have "moves ho lz4c lz4d ps H dr1 dr'"
        using seen [OF None] sy1 by (auto simp: moves_def)
      then show ?thesis
        using first mov.trans by blast
    qed
  qed
qed

lemma on_syncer_Ok: "on_syncer m dr = (Ok x, dr') \<longleftrightarrow> (\<exists>sy. m (dr_syncer dr) = (Ok x, sy) \<and> dr' = dr\<lparr>dr_syncer := sy\<rparr>)"
  by (auto simp: on_syncer_def op_on_def split: prod.splits)

lemma tick_ship_moves:
  assumes run: "tick_ship ho lz4c now dr = (Ok shipped, dr')" and seen: "tick_seen ho lz4c ps H (dr_syncer dr)"
  shows "moves ho lz4c lz4d ps H dr dr'"
proof -
  obtain out dr0 u dr1 k dr2 c dr3 v where a: "on_syncer (sync ho lz4c) dr = (Ok out, dr0)"
    and b: "op_modify (\<lambda>dr. if out \<noteq> Skipped then dr\<lparr>dr_synced_since := True\<rparr> else dr) dr0 = (Ok u :: (unit, sync_error) result, dr1)"
    and needed: "on_syncer (checkpoint_if_needed ho lz4c) dr1 = (Ok k, dr2)"
    and timed: "timed_checkpoint ho lz4c now k dr2 = (Ok c, dr3)"
    and d: "op_modify (\<lambda>dr. if c \<noteq> None then dr\<lparr>dr_checkpoint_at := now, dr_synced_since := False\<rparr> else dr) dr3 = (Ok v :: (unit, sync_error) result, dr')"
    using run unfolding tick_ship_def op_bind_Ok op_ret_def prod.inject by blast
  obtain sy1 where sync: "sync ho lz4c (dr_syncer dr) = (Ok out, sy1)" and dr0: "dr0 = dr\<lparr>dr_syncer := sy1\<rparr>"
    using a by (auto simp: on_syncer_Ok)
  have dr1: "dr_syncer dr1 = sy1" and dr3: "dr_syncer dr' = dr_syncer dr3"
    using b d by (auto simp: op_modify_def dr0)
  have first: "moves ho lz4c lz4d ps H dr dr1"
    using synced [OF _ sync] seen by (auto simp: moves_def tick_seen_def dr1)
  have seen1: "cycle_seen ho lz4c ps H (dr_syncer dr1)"
    and seen2: "\<forall>n sy. frame_count ho (dr_syncer dr1) = (Ok n, sy) \<longrightarrow> cycle_seen ho lz4c ps H sy"
    using seen sync by (auto simp: tick_seen_def dr1)
  obtain sy2 where sy2: "checkpoint_if_needed ho lz4c (dr_syncer dr1) = (Ok k, sy2)" "dr2 = dr1\<lparr>dr_syncer := sy2\<rparr>"
    using needed by (auto simp: on_syncer_Ok)
  note second = seen_checkpoint_if_needed [OF seen1 sy2(1), of lz4d]
  then have "moves ho lz4c lz4d ps H dr1 dr2"
    by (auto simp: moves_def sy2(2) split: if_splits)
  moreover have "moves ho lz4c lz4d ps H dr2 dr3"
    by (rule seen_timed_checkpoint [OF timed]) (use second seen1 seen2 in \<open>simp add: sy2(2)\<close>)
  ultimately have "moves ho lz4c lz4d ps H dr dr3"
    using first mov.trans by blast
  then show ?thesis
    by (simp add: moves_def dr3)
qed

lemma tick_moves:
  assumes "tick_seen ho lz4c ps H (dr_syncer dr)" and "tick_ship ho lz4c now dr = (Ok shipped, dr1)"
    and "tick ho lz4c lz4d now dr = (r, dr')"
  shows "moves ho lz4c lz4d ps H dr dr'"
proof -
  have "tick_maintain ho lz4c lz4d now shipped dr1 = (r, dr')"
    using assms(2,3) by (simp add: tick_split op_bind_def)
  then show ?thesis
    using tick_ship_moves [OF assms(2,1)] keepsD [OF keeps_tick_maintain] mov.trans by blast
qed

end
