(* ===== verification/FlushEnds.thy ===== *)
theory FlushEnds
  imports Overfold
begin

text \<open>
  \<open>flush\<close> ends on a database nobody writes to: the first sync takes everything the WAL has committed and the
  second finds nothing.
\<close>

section \<open>What is left after a sync\<close>

lemma committed_nil: "committed fs = [] \<longleftrightarrow> (\<forall>f \<in> set fs. \<not> fr_is_commit f)"
  by (simp add: committed_def dropWhile_eq_Nil_conv)

lemma committed_split: "fs = committed fs @ drop (length (committed fs)) fs"
  using committed_take [of fs] by (metis append_take_drop_id length_take min.cobounded1 take_all_iff take_take min_def)

lemma committed_rest: "committed (drop (length (committed fs)) fs) = []"
proof (rule ccontr)
  let ?rest = "drop (length (committed fs)) fs"
  assume ne: "committed ?rest \<noteq> []"
  have "committed fs = committed (committed fs @ ?rest)"
    using committed_split [of fs] by simp
  then show False
    using committed_append [OF ne, of "committed fs"] ne by simp
qed

lemma commit_in_range_drop:
  assumes "commit_in_range fs" shows "commit_in_range (drop n fs)"
proof (cases "committed (drop n fs) = []")
  case False
  have "committed fs = take n fs @ committed (drop n fs)"
    using committed_append [OF False, of "take n fs"] by simp
  then show ?thesis
    using assms False by (simp add: commit_in_range_def)
qed (simp add: commit_in_range_def)

lemma nothing_left: "changed_pages (drop (length (committed fs)) fs) = []"
  by (simp add: changed_pages_def committed_rest)

section \<open>The end of the loop\<close>

text \<open>
  Nobody else writes: in the states \<open>W\<close> of the world the two files stay as they are, and everything the
  syncer calls stays in them.
\<close>

definition undisturbed :: "'w host \<Rightarrow> 'w set \<Rightarrow> string \<Rightarrow> bytes \<Rightarrow> bytes \<Rightarrow> bool" where
  "undisturbed ho W path db_bytes wal \<longleftrightarrow> quiet ho W \<and> still ho W path db_bytes \<and> still ho W (path @ ''-wal'') wal \<and>
    (\<forall>w \<in> W. \<forall>p. snd (ho_read ho p w) \<in> W \<and> snd (ho_len ho p w) \<in> W) \<and>
    (\<forall>d r d'. d_world d \<in> W \<longrightarrow> acquire_read_lock ho d = (r, d') \<longrightarrow> d_world d' \<in> W)"

lemma stays_building:
  assumes "undisturbed ho W path db_bytes wal"
  shows "building_order (stays W) ho"
proof
  have world: "quiet ho W" and reads: "\<And>w p. w \<in> W \<Longrightarrow> snd (ho_read ho p w) \<in> W \<and> snd (ho_len ho p w) \<in> W"
    and lock: "\<And>d r d'. d_world d \<in> W \<Longrightarrow> acquire_read_lock ho d = (r, d') \<Longrightarrow> d_world d' \<in> W"
    using assms by (auto simp: undisturbed_def)
  show "keeps (stays W) (on_host (ho_read ho path))" "keeps (stays W) (on_host (ho_len ho path))" for path
    by (auto simp: keeps_def stays_def on_host_run split: prod.splits dest: reads [of _ path])
  show "keeps (stays W) (on_host (fs_op ho))" "keeps (stays W) (system_now ho)"
    using world by (auto simp: keeps_def stays_def quiet_def system_now_def on_host_run split: prod.splits)
  show "keeps (stays W) (on_db (acquire_read_lock ho))"
    using lock by (auto simp: keeps_def stays_def on_db_def op_on_def op_map_err_def split: prod.splits)
qed (auto simp: stays_def)

lemma undisturbed_locked:
  assumes "undisturbed ho W (d_path (sy_db sy)) db_bytes wal" and "d_world (sy_db sy) \<in> W"
  shows "locked_build ho sy db_bytes wal"
  using assms unfolding undisturbed_def locked_build_def by blast

text \<open>A sync that returns leaves nothing to sync.\<close>

definition drained :: "wal_reader \<Rightarrow> nat \<Rightarrow> position \<Rightarrow> bool" where
  "drained r wal_len pos \<longleftrightarrow> po_txid pos \<noteq> 0 \<and>
    (\<exists>n. resumes pos r wal_len n \<and> changed_pages (drop n (read_frames r)) = [])"

lemma staged_pages_txid: "staged_pages lz4c sy f txid ps commit pds \<Longrightarrow> txid \<noteq> 0 \<and> po_txid (sf_new_pos f) = txid"
  by (auto simp: staged_pages_def header_validate_def split: if_splits dest!: encode_file_accepts)

lemma sync_drains:
  fixes ho :: "'w host" and sy :: "('w, 's) syncer"
  assumes run: "sync ho lz4c sy = (Ok out, sy')" and env: "locked_build ho sy db_bytes wal"
    and wal: "length wal < 2 ^ 63" "wal_reader_new wal = Ok r" and ps: "wh_page_size (w_header r) = d_page_size (sy_db sy)"
    and range: "commit_in_range (read_frames r)" and good: "good_store objs sy"
    and pos: "po_txid (sy_pos sy) = 0 \<or> resumes (sy_pos sy) r (length wal) n"
  shows "drained r (length wal) (sy_pos sy')"
  using run
proof (cases rule: sync_cases)
  case skip
  have pos': "sy_pos sy' = sy_pos sy"
    using keepsD [OF local_build_next skip(1)] by (simp add: local_step_def)
  have "wal_frames wal (d_page_size (sy_db sy)) (read_frames r)"
    using wal(2) ps by (auto simp: wal_frames_def wal_reader_new_def res_simps wal_header_parse_def split: if_splits)
  then have nz: "po_txid (sy_pos sy) \<noteq> 0"
    using build_next_snapshot [OF skip(1) env wal(1)] by auto
  then have n: "resumes (sy_pos sy) r (length wal) n"
    using pos by blast
  from build_next_increment [OF skip(1) env wal nz n ps] show ?thesis
    using nz n by (auto simp: drained_def pos')
next
  case (upload f sy1)
  have "good_store objs sy1"
    using keepsD [OF local_build_next upload(1)] good by (simp add: local_step_def good_store_def)
  from upload_staged_Ok(4) [OF this upload(2)] have pos': "sy_pos sy' = sf_new_pos f" .
  have wal_len: "WAL_HEADER_SIZE \<le> length wal"
    using wal(2) by (auto simp: wal_reader_new_def res_simps wal_header_parse_def split: if_splits)
  show ?thesis
  proof (cases "po_txid (sy_pos sy) = 0")
    case True
    have frames: "wal_frames wal (d_page_size (sy_db sy)) (read_frames r)"
      using wal(2) wal_len ps by (auto simp: wal_frames_def)
    note built = build_next_snapshot [OF upload(1) env wal(1) True frames]
    let ?n = "length (committed (read_frames r))"
    have n: "?n \<le> length (read_frames r)"
      using committed_take [of "read_frames r"] by (metis length_take min.cobounded1)
    have "resumes (sf_new_pos f) r (length wal) ?n"
      using built range wal(2) by (intro resumes_after [OF wal(2,1) n]) (auto simp: commit_in_range_def)
    moreover have "po_txid (sf_new_pos f) \<noteq> 0"
      using built staged_pages_txid by fastforce
    ultimately show ?thesis
      using nothing_left [of "read_frames r"] by (auto simp: drained_def pos')
  next
    case False
    then have n: "resumes (sy_pos sy) r (length wal) n"
      using pos by blast
    let ?fs = "drop n (read_frames r)" and ?n = "n + length (committed (drop n (read_frames r)))"
    note built = build_next_increment [OF upload(1) env wal False n ps]
    have changed: "changed_pages ?fs \<noteq> []"
      using built by simp
    then have ne: "committed ?fs \<noteq> []"
      by (auto simp: changed_pages_def)
    have "length (committed ?fs) \<le> length ?fs"
      using committed_take [of ?fs] by (metis length_take min.cobounded1)
    moreover have "n \<le> length (read_frames r)"
      using n unfolding resumes_def by blast
    ultimately have len: "?n \<le> length (read_frames r)"
      by simp
    have "resumes (sf_new_pos f) r (length wal) ?n"
      using built commit_in_range_drop [OF range, of n] ne by (intro resumes_after [OF wal(2,1) len]) (auto simp: commit_in_range_def)
    moreover have "po_txid (sf_new_pos f) \<noteq> 0"
      using built staged_pages_txid by fastforce
    moreover have "changed_pages (drop ?n (read_frames r)) = []"
      using nothing_left [of ?fs] by (simp add: add.commute)
    ultimately show ?thesis
      by (auto simp: drained_def pos')
  qed
qed

lemma drained_skips:
  fixes ho :: "'w host" and sy :: "('w, 's) syncer"
  assumes run: "sync ho lz4c sy = (Ok out, sy')" and env: "locked_build ho sy db_bytes wal"
    and wal: "length wal < 2 ^ 63" "wal_reader_new wal = Ok r" and ps: "wh_page_size (w_header r) = d_page_size (sy_db sy)"
    and drained: "drained r (length wal) (sy_pos sy)"
  shows "out = Skipped \<and> build_next ho lz4c sy = (Ok None, sy')"
proof -
  obtain n where n: "po_txid (sy_pos sy) \<noteq> 0" "resumes (sy_pos sy) r (length wal) n" "changed_pages (drop n (read_frames r)) = []"
    using drained by (auto simp: drained_def)
  from run show ?thesis
  proof (cases rule: sync_cases)
    case (upload f sy1)
    from build_next_increment [OF upload(1) env wal n(1,2) ps] n(3) show ?thesis
      by simp
  next
    case skip
    then show ?thesis
      by simp
  qed
qed

lemma undisturbed_sync:
  fixes ho :: "'w host" and sy :: "('w, 's) syncer"
  assumes und: "undisturbed ho W (d_path (sy_db sy)) db_bytes wal" and world: "d_world (sy_db sy) \<in> W"
    and run: "sync ho lz4c sy = (Ok out, sy')"
  shows "d_world (sy_db sy') \<in> W" and "d_path (sy_db sy') = d_path (sy_db sy)" and "d_page_size (sy_db sy') = d_page_size (sy_db sy)"
proof -
  note keeps = building_order.keeps_build_next [OF stays_building [OF und]]
  have up: "stays W s s'" if "upload_staged ho f s = (Ok out, s')" for f s s'
    using und that by (auto simp: undisturbed_def intro: keepsD [OF uploading_order.keeps_upload_staged [OF stays_uploading]])
  show "d_world (sy_db sy') \<in> W"
    using run by (cases rule: sync_cases) (use world in \<open>auto simp: stays_def dest!: keepsD [OF keeps] up\<close>)
  show "d_path (sy_db sy') = d_path (sy_db sy)" "d_page_size (sy_db sy') = d_page_size (sy_db sy)"
    using keepsD [OF sam.keeps_sync run] by (simp_all add: same_file_def)
qed

lemma flush_from_step:
  assumes "sync ho lz4c sy = (r, sy')"
  shows "flush_from ho lz4c k sy = (case r of Ok out \<Rightarrow> if out = Skipped then Some (Ok k, sy') else flush_from ho lz4c (k + 1) sy'
    | Err e \<Rightarrow> Some (Err e, sy') | Panic \<Rightarrow> Some (Panic, sy'))"
  by (subst flush_from.simps) (simp add: assms)

text \<open>
  C6: where nobody else writes to the database, \<open>flush\<close> ends, whatever its calls return, and where it succeeds it
  has uploaded at most one file and the position is at the end of what the WAL has committed: nothing is left to sync.
\<close>

theorem flush_ends:
  fixes ho :: "'w host" and sy :: "('w, 's) syncer"
  assumes "undisturbed ho W (d_path (sy_db sy)) db_bytes wal" and "d_world (sy_db sy) \<in> W" and "good_store objs sy"
    and "length wal < 2 ^ 63" and "wal_reader_new wal = Ok r" and "wh_page_size (w_header r) = d_page_size (sy_db sy)"
    and "commit_in_range (read_frames r)" and "po_txid (sy_pos sy) = 0 \<or> resumes (sy_pos sy) r (length wal) n"
  shows "\<exists>res sy'. flush ho lz4c sy = Some (res, sy') \<and> (\<forall>k. res = Ok k \<longrightarrow> k \<le> 1 \<and> drained r (length wal) (sy_pos sy'))"
proof -
  note step = flush_from_step [where ho = ho and lz4c = lz4c]
  obtain q sy1 where first: "sync ho lz4c sy = (q, sy1)" by (cases "sync ho lz4c sy")
  show ?thesis
  proof (cases "\<exists>out. q = Ok out \<and> out \<noteq> Skipped")
    case False
    have "drained r (length wal) (sy_pos sy1)" if "q = Ok out" for out
      using sync_drains [OF first [unfolded that] undisturbed_locked [OF assms(1,2)] assms(4-7,3,8)] .
    then show ?thesis
      using False step [OF first, of 0] by (cases q) (auto simp: flush_def)
  next
    case True
    then obtain out where q: "q = Ok out" "out \<noteq> Skipped" by blast
    have run: "sync ho lz4c sy = (Ok out, sy1)"
      using first q(1) by simp
    note sync1 = undisturbed_sync [OF assms(1,2) run]
    have drained: "drained r (length wal) (sy_pos sy1)"
      using sync_drains [OF run undisturbed_locked [OF assms(1,2)] assms(4-7,3,8)] .
    obtain q2 sy2 where second: "sync ho lz4c sy1 = (q2, sy2)" by (cases "sync ho lz4c sy1")
    have env: "locked_build ho sy1 db_bytes wal"
      using undisturbed_locked [OF _ sync1(1)] assms(1) by (simp add: sync1)
    have "out2 = Skipped \<and> sy_pos sy2 = sy_pos sy1" if "q2 = Ok out2" for out2
      using drained_skips [OF second [unfolded that] env assms(4,5) _ drained] assms(6)
      by (auto simp: sync1 local_step_def dest: keepsD [OF local_build_next])
    then show ?thesis
      using drained step [OF first, of 0] step [OF second, of 1] q by (cases q2) (auto simp: flush_def)
  qed
qed

lemma sample_undisturbed: "undisturbed sample_host {w. sw_disk w = sample_disk} ''app.db'' sample_file sample_wal"
proof -
  have "sw_disk (d_world d') = sample_disk"
    if "sw_disk (d_world d) = sample_disk" "acquire_read_lock sample_host d = (r, d')" for d r d'
    using that by (auto simp: acquire_read_lock_def sample_host_def sample_batch_def op_simps op_bind_def on_world_def
        split: if_splits prod.splits result.splits)
  then show ?thesis
    by (auto simp: undisturbed_def quiet_def still_def fs_op_def sample_host_def sample_disk_def)
qed

theorem flush_ends_witness:
  "\<exists>r res sy'. wal_reader_new sample_wal = Ok r \<and> flush sample_host stored (sample_folding 0 2) = Some (res, sy') \<and>
    (\<forall>k. res = Ok k \<longrightarrow> k \<le> 1 \<and> drained r (length sample_wal) (sy_pos sy'))"
proof -
  obtain r where r: "wal_reader_new sample_wal = Ok r" "w_header r = sample_wal_header" "read_frames r = sample_frames"
    by (rule sample_wal_reader)
  have "d_world (sy_db (sample_folding 0 2)) \<in> {w. sw_disk w = sample_disk}"
    using sample_folding_fields(6) by (simp add: sample_ready_def sample_state_def)
  moreover have "commit_in_range sample_frames"
    by (simp add: commit_in_range_def committed_def fr_is_commit_def sample_wal_records_def)
  ultimately have "\<exists>res sy'. flush sample_host stored (sample_folding 0 2) = Some (res, sy') \<and>
      (\<forall>k. res = Ok k \<longrightarrow> k \<le> 1 \<and> drained r (length sample_wal) (sy_pos sy'))"
    by (intro flush_ends [OF _ _ sample_folding_fields(8) _ r(1), where db_bytes = sample_file and W = "{w. sw_disk w = sample_disk}"])
      (simp_all add: sample_undisturbed sample_folding_fields sample_wal_frames(2) r sample_salts position_default_def)
  then show ?thesis
    using r(1) by blast
qed

end
