(* ===== verification/CliProps.thy ===== *)
theory CliProps
  imports Cli RestoreProps Ticks FlushEnds
begin

text \<open>
  What the program does to a replica and to a local copy: the daemon keeps the replica restorable, and a
  point-in-time restore over a copy that was caught up leaves its position marker behind.
\<close>

section \<open>The daemon\<close>

text \<open>A flush that succeeds is a run of syncs.\<close>

definition syncs_to :: "'w host \<Rightarrow> (bytes \<Rightarrow> bytes) \<Rightarrow> ('w, 's) syncer \<Rightarrow> ('w, 's) syncer \<Rightarrow> bool" where
  "syncs_to ho lz4c sy sy' \<longleftrightarrow> (\<exists>out. sync ho lz4c sy = (Ok out, sy'))"

lemma flush_from_syncs:
  fixes ho :: "'a host" and sy :: "('a, 'b) syncer"
  shows "flush_from ho lz4c k sy = Some (Ok n, sy') \<Longrightarrow> (syncs_to ho lz4c)\<^sup>*\<^sup>* sy sy'"
proof -
  let ?P = "\<lambda>ho lz4c k sy (y :: (u32, sync_error) result \<times> ('a, 'b) syncer). fst y = Ok n \<longrightarrow> (syncs_to ho lz4c)\<^sup>*\<^sup>* sy (snd y)"
  have "?P ho lz4c k sy y" if "flush_from ho lz4c k sy = Some y" for y
  proof (rule flush_from.raw_induct [where P = ?P, OF _ that], intro impI)
    fix self :: "'a host \<Rightarrow> (bytes \<Rightarrow> bytes) \<Rightarrow> u32 \<Rightarrow> ('a, 'b) syncer \<Rightarrow> ((u32, sync_error) result \<times> ('a, 'b) syncer) option"
    fix ho :: "'a host" and lz4c k and sy :: "('a, 'b) syncer" and y
    assume IH: "\<And>ho lz4c k sy y. self ho lz4c k sy = Some y \<Longrightarrow> ?P ho lz4c k sy y" and ok: "fst y = Ok n"
      and body: "(case sync ho lz4c sy of (Ok out, sy) \<Rightarrow> if out = Skipped then Some (Ok k, sy) else self ho lz4c (k + 1) sy
        | (Err e, sy) \<Rightarrow> Some (Err e, sy) | (Panic, sy) \<Rightarrow> Some (Panic, sy)) = Some y"
    obtain r sy1 where run: "sync ho lz4c sy = (r, sy1)" by (cases "sync ho lz4c sy")
    obtain out where out: "r = Ok out" and rest: "if out = Skipped then snd y = sy1 else self ho lz4c (k + 1) sy1 = Some y"
      using body run ok by (cases r) (auto split: if_splits)
    have "(syncs_to ho lz4c)\<^sup>*\<^sup>* sy1 (snd y)"
      using rest IH [of ho lz4c "k + 1" sy1 y] ok by (auto split: if_splits)
    moreover have "syncs_to ho lz4c sy sy1"
      using run out by (simp add: syncs_to_def)
    ultimately show "(syncs_to ho lz4c)\<^sup>*\<^sup>* sy (snd y)"
      by (meson converse_rtranclp_into_rtranclp)
  qed
  then show "flush_from ho lz4c k sy = Some (Ok n, sy') \<Longrightarrow> (syncs_to ho lz4c)\<^sup>*\<^sup>* sy sy'"
    by fastforce
qed

text \<open>
  What the events of the loop see: each tick sees the database and uploads what it ships, and the flush at the end
  succeeds, with each of its syncs seeing the database.
\<close>

fun loop_seen :: "'w host \<Rightarrow> (bytes \<Rightarrow> bytes) \<Rightarrow> lz4_dec \<Rightarrow> u32 \<Rightarrow> (u64 \<Rightarrow> bytes) \<Rightarrow> daemon_event list \<Rightarrow> ('w, 's) driver \<Rightarrow> bool" where
  "loop_seen ho lz4c lz4d ps H [] dr = True"
| "loop_seen ho lz4c lz4d ps H (Tick now # events) dr =
    (tick_seen ho lz4c ps H (dr_syncer dr) \<and> (\<exists>shipped dr1. tick_ship ho lz4c now dr = (Ok shipped, dr1)) \<and>
      loop_seen ho lz4c lz4d ps H events (snd (tick ho lz4c lz4d now dr)))"
| "loop_seen ho lz4c lz4d ps H (CtrlC # events) dr =
    ((\<exists>n dr1. driver_flush ho lz4c dr = Some (Ok n, dr1)) \<and>
      (\<forall>sy. (syncs_to ho lz4c)\<^sup>*\<^sup>* (dr_syncer dr) sy \<longrightarrow> observed ho ps H sy))"

lemma syncs_move:
  assumes "(syncs_to ho lz4c)\<^sup>*\<^sup>* sy sy'" and "\<And>s. (syncs_to ho lz4c)\<^sup>*\<^sup>* sy s \<Longrightarrow> observed ho ps H s"
  shows "(replication_step ho lz4c lz4d ps H)\<^sup>*\<^sup>* sy sy'"
  using assms(1)
proof induction
  case (step s s')
  then have "replication_step ho lz4c lz4d ps H s s'"
    using assms(2) by (auto simp: syncs_to_def intro: synced)
  with step.IH show ?case
    by (rule rtranclp.rtrancl_into_rtrancl)
qed simp

lemma loop_moves:
  assumes "replicate_loop ho lz4c lz4d events dr = Some (r, dr')" and "loop_seen ho lz4c lz4d ps H events dr"
  shows "moves ho lz4c lz4d ps H dr dr'"
  using assms
proof (induction events arbitrary: dr r)
  case Nil
  then show ?case
    by (simp add: mov.refl)
next
  case (Cons e events)
  show ?case
  proof (cases e)
    case (Tick now)
    obtain q dr1 where t: "tick ho lz4c lz4d now dr = (q, dr1)" by (cases "tick ho lz4c lz4d now dr")
    have first: "moves ho lz4c lz4d ps H dr dr1"
      using Cons.prems(2) tick_moves [OF _ _ t] by (auto simp: Tick)
    have "dr' = dr1 \<or> (\<exists>r1. replicate_loop ho lz4c lz4d events dr1 = Some (r1, dr'))"
      using Cons.prems(1) by (auto simp: Tick t split: result.splits)
    then show ?thesis
      using first Cons.IH [of dr1] Cons.prems(2) mov.trans by (auto simp: Tick t)
  next
    case CtrlC
    then obtain n where "flush ho lz4c (dr_syncer dr) = Some (Ok n, dr_syncer dr')"
      using Cons.prems by (auto simp: driver_flush_def)
    then have "(syncs_to ho lz4c)\<^sup>*\<^sup>* (dr_syncer dr) (dr_syncer dr')"
      by (auto simp: flush_def intro: flush_from_syncs)
    then show ?thesis
      using syncs_move Cons.prems(2) unfolding moves_def CtrlC loop_seen.simps by blast
  qed
qed

text \<open>
  C1: the daemon keeps its replica: after any events of its loop, ticks of the driver at any times and the flush
  that ends it, with every upload succeeding and maintenance failing anywhere, a restore returns the database as it
  was last seen, at the TXID of the position, which never goes back.
\<close>

theorem daemon_keeps_restore:
  assumes "lz4_frame_inverse lz4c lz4d" and "lz4_bounded lz4c" and "loop_seen ho lz4c lz4d ps H events dr"
    and "replicate_loop ho lz4c lz4d events dr = Some (r, dr')"
    and "replicated objs lz4c ps H (dr_syncer dr)" and "po_txid (sy_pos (dr_syncer dr')) \<noteq> 0"
    and "list_all_levels (sy_client (dr_syncer dr')) (sy_store (dr_syncer dr')) = Ok files"
  shows "restore (sy_client (dr_syncer dr')) lz4d (sy_store (dr_syncer dr')) = Ok (H (po_txid (sy_pos (dr_syncer dr')))) \<and>
    replicated objs lz4c ps H (dr_syncer dr') \<and> po_txid (sy_pos (dr_syncer dr)) \<le> po_txid (sy_pos (dr_syncer dr'))"
proof -
  have "replicated objs lz4c ps H (dr_syncer dr') \<and> po_txid (sy_pos (dr_syncer dr)) \<le> po_txid (sy_pos (dr_syncer dr'))"
    by (rule replication_runs [OF assms(1,2) loop_moves [OF assms(4,3), unfolded moves_def] assms(5)])
  then show ?thesis
    using replicated_restores [OF assms(1) _ assms(6,7)] by blast
qed

text \<open>Where nothing is left to sync there is nothing to see.\<close>

lemma drained_observed:
  assumes "locked_build ho sy db_bytes wal" and "length wal < 2 ^ 63" and "wal_reader_new wal = Ok r"
    and "wh_page_size (w_header r) = d_page_size (sy_db sy)" and "drained r (length wal) (sy_pos sy)"
  shows "observed ho (d_page_size (sy_db sy)) H sy"
proof -
  obtain n where n: "po_txid (sy_pos sy) \<noteq> 0" "resumes (sy_pos sy) r (length wal) n" "changed_pages (drop n (read_frames r)) = []"
    using assms(5) by (auto simp: drained_def)
  show ?thesis
    unfolding observed_def using assms n
    by (intro conjI refl exI [of _ db_bytes] exI [of _ wal]) (simp_all add: exI [of _ r] exI [of _ n])
qed

text \<open>The sample, once it has nothing more to sync.\<close>

lemma sample_drained_seen:
  assumes ready: "sample_ready b n sy" and r: "wal_reader_new sample_wal = Ok r" "w_header r = sample_wal_header" "read_frames r = sample_frames"
    and drained: "drained r (length sample_wal) (sy_pos sy)" and txid: "po_txid (sy_pos sy) = 1"
  shows "cycle_seen sample_host stored 512 (sample_images 1) sy"
proof -
  let ?W = "{w. sw_disk w = sample_disk}"
  have sy: "d_page_size (sy_db sy) = 512" "d_path (sy_db sy) = ''app.db''"
    using ready by (simp_all add: sample_ready_def sample_state_def)
  have len: "length sample_wal < 2 ^ 63"
    by (simp add: sample_wal_frames(2))
  obtain m where m: "resumes (sy_pos sy) r (length sample_wal) m" "changed_pages (drop m (read_frames r)) = []"
    using drained by (auto simp: drained_def)
  note env = sample_locked_build [OF ready]
  have "observed sample_host 512 (sample_images 1) sy"
    using drained_observed [OF env len r(1) _ drained, of "sample_images 1"] r(2) by (simp add: sy sample_salts)
  moreover have "observed_whole sample_host 512 (sample_images 1) sy1"
    if over: "overfolded sample_host stored mode restart_wal sy sy1" for mode restart_wal sy1
  proof -
    obtain staged sy2 res sy3 where b: "build_next sample_host stored sy = (Ok staged, sy2)"
      and ck: "on_db (checkpoint sample_host mode restart_wal) sy2 = (Ok res, sy3)"
      and up: "case staged of None \<Rightarrow> sy1 = sy3 | Some f \<Rightarrow> upload_staged sample_host f sy3 = (Ok (sf_outcome f), sy1)"
      using over unfolding overfolded_def by blast
    have "staged = None"
      using build_next_increment [OF b env len r(1) _ m(1)] m(2) txid sy(1) r(2) by (cases staged) (auto simp: sample_salts)
    then have same: "sy1 = sy3"
      using up by simp
    have "sample_ready b n sy3"
      using keepsD [OF rdy.keeps_build_next b] keepsD [OF rdy.host_checkpoint ck] ready by (simp add: ready_step_def)
    then have db: "d_page_size (sy_db sy3) = 512" "d_path (sy_db sy3) = ''app.db''" "d_world (sy_db sy3) \<in> ?W"
      by (simp_all add: sample_ready_def sample_state_def)
    have pos: "po_txid (sy_pos sy3) = 1"
      using keepsD [OF local_build_next b] on_db_same [OF ck] txid by (auto simp: local_step_def)
    have still: "still sample_host ?W ''app.db'' sample_file" "still sample_host ?W ''app.db-wal'' sample_wal"
      using sample_undisturbed by (simp_all add: undisturbed_def)
    show ?thesis
      unfolding observed_whole_def same db pos using still db(3) sample_wal_frames(1) sample_whole(1)
      by (intro conjI refl exI [of _ ?W] exI [of _ sample_file] exI [of _ sample_wal] exI [of _ sample_frames])
        (simp_all add: sample_images_def)
  qed
  ultimately show ?thesis
    by (simp add: cycle_seen_def)
qed

text \<open>The limits of the frame-threshold checkpoint do not change.\<close>

definition same_limits :: "('w, 's) syncer \<Rightarrow> ('w, 's) syncer \<Rightarrow> bool" where
  "same_limits sy sy' \<longleftrightarrow> sy_truncate_frames sy' = sy_truncate_frames sy \<and> sy_min_checkpoint_frames sy' = sy_min_checkpoint_frames sy"

interpretation lim: cycle_order same_limits ho for ho
  by unfold_locales (auto simp: same_limits_def system_now_def on_host_run on_db_def op_on_def keeps_def split: prod.splits)

text \<open>What the first tick of the sample ships.\<close>

lemma sample_first_sync:
  obtains out sy' r where "observed sample_host 512 (sample_images 1) (sample_folding 0 2)"
    and "sync sample_host stored (sample_folding 0 2) = (Ok out, sy')" and "sample_ready 0 2 sy'"
    and "po_txid (sy_pos sy') = 1" and "live_wal_frames sy' = 2" and "same_limits (sample_folding 0 2) sy'"
    and "wal_reader_new sample_wal = Ok r" and "w_header r = sample_wal_header" and "read_frames r = sample_frames"
    and "drained r (length sample_wal) (sy_pos sy')"
proof -
  let ?sy = "sample_folding 0 2"
  note sy = sample_folding_fields [of 0 2]
  obtain out sy' where ob: "observed sample_host 512 (sample_images 1) ?sy"
    and run: "sync sample_host stored ?sy = (Ok out, sy')" and txid: "po_txid (sy_pos sy') = 1"
    by (rule sample_synced)
  obtain r where r: "wal_reader_new sample_wal = Ok r" "w_header r = sample_wal_header" "read_frames r = sample_frames"
    by (rule sample_wal_reader)
  have len: "length sample_wal < 2 ^ 63"
    by (simp add: sample_wal_frames(2))
  have range: "commit_in_range sample_frames"
    by (simp add: commit_in_range_def committed_def fr_is_commit_def sample_wal_records_def)
  have drained: "drained r (length sample_wal) (sy_pos sy')"
    by (rule sync_drains [OF run sample_locked_build [OF sy(6)] len r(1) _ _ sy(8)])
      (simp_all add: sy r sample_salts range position_default_def)
  have ready: "sample_ready 0 2 sy'"
    using keepsD [OF rdy.keeps_sync run] sy(6) by (simp add: ready_step_def)
  have "frames_below 512 (po_wal_offset (sy_pos sy')) = 2"
    using run
  proof (cases rule: sync_cases)
    case skip
    then show ?thesis
      using sample_build_next [OF sy(6), of stored] sy(1) by auto
  next
    case (upload f sy1)
    have good: "good_store map_of sy1"
      using keepsD [OF local_build_next upload(1)] sy(8) by (simp add: local_step_def good_store_def)
    obtain b where "map_of (sy_staging sy1) (sf_path f) = Some b"
      using observed_stages [OF ob stored_bounded upload(1)] by (auto simp: stages_def)
    from upload_staged_Ok(4) [OF good upload(2)] show ?thesis
      using sample_first_build(2) [OF upload(1)] by simp
  qed
  then have "live_wal_frames sy' = 2"
    using ready by (simp add: live_wal_frames_def sample_ready_def sample_state_def)
  with that [OF ob run ready txid _ keepsD [OF lim.keeps_sync run] r drained] show thesis
    by blast
qed

lemma sample_frame_count:
  assumes "sample_ready b n sy"
  obtains k sy' where "frame_count sample_host sy = (Ok k, sy')" and "sample_ready b n sy'" and "sy_pos sy' = sy_pos sy"
proof -
  let ?run = "wal_frame_count sample_host (sy_db sy) :: (nat, sync_error) result \<times> sample_world db"
  have "(\<exists>k. fst ?run = Ok k) \<and> sample_ready b n (sy\<lparr>sy_db := snd ?run\<rparr>)"
    using assms by (simp add: wal_frame_count_def wal_size_def op_bind_def op_try_def op_ret_def on_world_def op_on_def sample_host_def
        sample_ready_def sample_state_def split: option.splits)
  then obtain k d where "?run = (Ok k, d)" and "sample_ready b n (sy\<lparr>sy_db := d\<rparr>)"
    by (metis prod.collapse)
  then show thesis
    by (intro that [of k "sy\<lparr>sy_db := d\<rparr>"]) (simp_all add: frame_count_def op_on_def)
qed

lemma sample_tick_seen: "tick_seen sample_host stored 512 (sample_images 1) (sample_folding 0 2)"
proof -
  obtain out sy1 r where ob: "observed sample_host 512 (sample_images 1) (sample_folding 0 2)"
    and run: "sync sample_host stored (sample_folding 0 2) = (Ok out, sy1)" and ready: "sample_ready 0 2 sy1"
    and txid: "po_txid (sy_pos sy1) = 1" and r: "wal_reader_new sample_wal = Ok r" "w_header r = sample_wal_header"
    "read_frames r = sample_frames" and drained: "drained r (length sample_wal) (sy_pos sy1)"
    by (rule sample_first_sync)
  have "cycle_seen sample_host stored 512 (sample_images 1) sy2" if fc: "frame_count sample_host sy1 = (Ok n, sy2)" for n sy2
  proof -
    obtain k sy' where "frame_count sample_host sy1 = (Ok k, sy')" "sample_ready 0 2 sy'" "sy_pos sy' = sy_pos sy1"
      by (rule sample_frame_count [OF ready])
    then show ?thesis
      using fc sample_drained_seen [of 0 2 sy', OF _ r] drained txid by simp
  qed
  then show ?thesis
    using ob run sample_drained_seen [OF ready r drained txid] by (auto simp: tick_seen_def)
qed

lemma sample_ships:
  assumes "dr_syncer dr = sample_folding 0 2" and "dr_checkpoint_interval dr = DEFAULT_CHECKPOINT_INTERVAL" and "dr_checkpoint_at dr = 0"
  obtains shipped dr1 where "tick_ship sample_host stored 0 dr = (Ok shipped, dr1)" and "po_txid (sy_pos (dr_syncer dr1)) = 1"
proof -
  obtain out sy1 where run: "sync sample_host stored (sample_folding 0 2) = (Ok out, sy1)" and ready: "sample_ready 0 2 sy1"
    and txid: "po_txid (sy_pos sy1) = 1" and live: "live_wal_frames sy1 = 2" and lim: "same_limits (sample_folding 0 2) sy1"
    by (rule sample_first_sync)
  obtain k sy2 where fc: "frame_count sample_host sy1 = (Ok k, sy2)" "sy_pos sy2 = sy_pos sy1"
    by (rule sample_frame_count [OF ready])
  define dr1 where "dr1 = (if out \<noteq> Skipped then (dr\<lparr>dr_syncer := sy1\<rparr>)\<lparr>dr_synced_since := True\<rparr> else dr\<lparr>dr_syncer := sy1\<rparr>)"
  have limits: "sy_truncate_frames sy1 = 121359" "sy_min_checkpoint_frames sy1 = 1000"
    using lim by (simp_all add: same_limits_def sample_folding_def sample_syncer_def DEFAULT_MIN_CHECKPOINT_FRAMES_def
        DEFAULT_TRUNCATE_FRAMES_def)
  have dr1: "dr_syncer dr1 = sy1" "dr_checkpoint_interval dr1 = DEFAULT_CHECKPOINT_INTERVAL" "dr_checkpoint_at dr1 = 0"
    using assms(2,3) by (simp_all add: dr1_def)
  have needed: "on_syncer (checkpoint_if_needed sample_host stored) dr1 = (Ok None, dr1)"
    using limits live dr1(1) by (simp add: on_syncer_def op_on_def checkpoint_if_needed_def op_bind_def op_get_def op_ret_def
        word_le_nat_alt dr1_def)
  have "\<exists>dr2. timed_checkpoint sample_host stored 0 None dr1 = (Ok None, dr2) \<and> sy_pos (dr_syncer dr2) = sy_pos sy1"
  proof (cases "dr_synced_since dr1")
    case False
    then show ?thesis
      by (simp add: timed_checkpoint_def op_bind_def op_get_def op_ret_def dr1(1))
  next
    case True
    have "on_syncer (frame_count sample_host) dr1 = (Ok k, dr1\<lparr>dr_syncer := sy2\<rparr>)"
      using fc(1) dr1(1) by (simp add: on_syncer_Ok)
    moreover have "\<not> checkpoint_due 0 k (dr1\<lparr>dr_syncer := sy2\<rparr>)"
      using dr1 by (simp add: checkpoint_due_def DEFAULT_CHECKPOINT_INTERVAL_def)
    moreover have "dr_checkpoint_interval dr1 \<noteq> 0"
      by (simp add: dr1 DEFAULT_CHECKPOINT_INTERVAL_def)
    ultimately show ?thesis
      using True fc(2) by (simp add: timed_checkpoint_def op_bind_def op_get_def op_ret_def frame_count_def)
  qed
  then obtain dr2 where timed: "timed_checkpoint sample_host stored 0 None dr1 = (Ok None, dr2)" "sy_pos (dr_syncer dr2) = sy_pos sy1"
    by blast
  have "on_syncer (sync sample_host stored) dr = (Ok out, dr\<lparr>dr_syncer := sy1\<rparr>)"
    using run assms(1) by (simp add: on_syncer_Ok)
  then have "tick_ship sample_host stored 0 dr = (Ok (out, None), dr2)"
    using needed timed(1) unfolding dr1_def
    by (simp add: tick_ship_def op_bind_def op_modify_def op_ret_def split del: if_split)
  from that [OF this] show thesis
    by (simp add: timed(2) txid)
qed

text \<open>No step changes the client.\<close>

definition same_client :: "('w, 's) syncer \<Rightarrow> ('w, 's) syncer \<Rightarrow> bool" where
  "same_client sy sy' \<longleftrightarrow> sy_client sy' = sy_client sy"

interpretation clt: cycle_order same_client ho for ho
  by unfold_locales (auto simp: same_client_def system_now_def on_host_run on_db_def op_on_def keeps_def split: prod.splits)

lemma steps_client:
  assumes "(replication_step ho lz4c lz4d ps H)\<^sup>*\<^sup>* sy sy'"
  shows "sy_client sy' = sy_client sy"
  using assms
proof induction
  case (step s s')
  have "same_client s s'"
    using step.hyps(2)
  proof (cases rule: replication_step.cases)
    case upkeep
    then show ?thesis
      using upkeep_apart by (fastforce simp: apart_def same_client_def)
  next
    case (polled q)
    then show ?thesis
      by (auto simp: op_on_def same_client_def split: prod.splits)
  qed (auto dest: keepsD [OF clt.keeps_build_next] keepsD [OF clt.keeps_sync] keepsD [OF clt.keeps_run_checkpoint])
  with step.IH show ?case
    by (simp add: same_client_def)
qed simp

theorem daemon_keeps_restore_witness:
  "\<exists>r dr'. replicate_loop sample_host stored stored_dec [Tick 0] (driver_new (sample_folding 0 2) default_levels) = Some (r, dr') \<and>
    restore sample_client stored_dec (sy_store (dr_syncer dr')) = Ok (live_image 512 sample_file sample_frames)"
proof -
  let ?dr = "driver_new (sample_folding 0 2) default_levels"
  have dr: "dr_syncer ?dr = sample_folding 0 2" "dr_checkpoint_interval ?dr = DEFAULT_CHECKPOINT_INTERVAL" "dr_checkpoint_at ?dr = 0"
    by (simp_all add: driver_new_def)
  obtain shipped dr1 where ship: "tick_ship sample_host stored 0 ?dr = (Ok shipped, dr1)" "po_txid (sy_pos (dr_syncer dr1)) = 1"
    by (rule sample_ships [OF dr])
  have seen: "loop_seen sample_host stored stored_dec 512 (sample_images 1) [Tick 0] ?dr"
    using ship(1) sample_tick_seen by (auto simp: dr)
  obtain r dr' where run: "replicate_loop sample_host stored stored_dec [Tick 0] ?dr = Some (r, dr')"
    by (cases "tick sample_host stored stored_dec 0 ?dr"; cases "fst (tick sample_host stored stored_dec 0 ?dr)") auto
  have rep: "replicated map_of stored 512 (sample_images 1) (dr_syncer ?dr)"
    using sample_replicated by (simp add: dr)
  obtain q where tick: "tick sample_host stored stored_dec 0 ?dr = (q, dr')"
    using run by (auto split: prod.splits result.splits)
  note runs = replication_runs [OF stored_inverse stored_bounded]
  have first: "moves sample_host stored stored_dec 512 (sample_images 1) ?dr dr1"
    by (rule tick_ship_moves [OF ship(1)]) (simp add: dr sample_tick_seen)
  have "tick_maintain sample_host stored stored_dec 0 shipped dr1 = (q, dr')"
    using ship(1) tick by (simp add: tick_split op_bind_def)
  then have rest: "moves sample_host stored stored_dec 512 (sample_images 1) dr1 dr'"
    by (rule keepsD [OF keeps_tick_maintain])
  have "po_txid (sy_pos (dr_syncer dr1)) \<le> po_txid (sy_pos (dr_syncer dr'))"
    using runs [OF rest [unfolded moves_def]] runs [OF first [unfolded moves_def]] rep by blast
  then have nz: "po_txid (sy_pos (dr_syncer dr')) \<noteq> 0"
    using ship(2) by auto
  have cl: "sy_client (dr_syncer dr') = sample_client"
    using steps_client [OF first [unfolded moves_def]] steps_client [OF rest [unfolded moves_def]]
    by (simp add: dr sample_folding_fields)
  obtain files where files: "list_all_levels (sy_client (dr_syncer dr')) (sy_store (dr_syncer dr')) = Ok files"
    using sample_lists unfolding cl by blast
  from daemon_keeps_restore [OF stored_inverse stored_bounded seen run rep nz files] show ?thesis
    using run nz by (auto simp: cl sample_images_def)
qed

section \<open>Restores\<close>

lemma write_at_empty: "write_at 0 img [] = img"
  by (simp add: write_at_def set_len_def)

lemma write_image_effects: "run_effects l [CreateFile, WriteAt 0 img] = l\<lparr>l_db := Some img\<rparr>"
  by (simp add: run_effects_def write_at_empty)

text \<open>
  C8: a restore to a TXID over a copy whose position marker is at the newest TXID, and whose file has the size it
  notes, writes the older image and leaves the marker: the incremental restore after it finds the copy up to date
  and changes nothing, so the file stays at the older image.
\<close>

theorem txid_restore_leaves_marker:
  assumes "replica_client_of be replica = Ok client" and "list_all_levels client s = Ok files"
    and "restore_to_txid client lz4d txid s = Ok (img, t)" and "l_marker l = Some (Clean (head_txid files) ps commit (length img))"
  shows "\<exists>effs. restore_cmd be lz4d rfc3339 (Some txid) None False replica l s = (effs, Ok (WroteImage (length img) t)) \<and>
    l_db (run_effects l effs) = Some img \<and>
    restore_cmd be lz4d rfc3339 None None True replica (run_effects l effs) s =
      ([], Ok (CaughtUp (UpToDate (head_txid files))))"
proof -
  let ?effs = "[CreateFile, WriteAt 0 img]"
  have "restore_cmd be lz4d rfc3339 (Some txid) None False replica l s = (?effs, Ok (WroteImage (length img) t))"
    using assms(1,3) by (simp add: restore_cmd_def write_image_def)
  moreover have "catch_up client lz4d (run_effects l ?effs) s = ([], Ok (UpToDate (head_txid files)))"
    using assms(2,4) by (simp add: write_image_effects write_at_empty catch_up_def catch_up_with_def Let_def)
  ultimately show ?thesis
    using assms(1) by (intro exI [of _ ?effs]) (simp add: write_image_effects write_at_empty restore_cmd_def expect_ok_def)
qed

text \<open>The sample replica has TXIDs 1 to 3; the copy was caught up to 3.\<close>

lemma head_txid_le:
  assumes "\<forall>f \<in> set files. fr_max f \<le> m"
  shows "head_txid files \<le> m"
proof -
  have "a \<le> m \<Longrightarrow> \<forall>x \<in> set xs. x \<le> m \<Longrightarrow> foldl max a xs \<le> m" for a and xs :: "u64 list"
    by (induction xs arbitrary: a) auto
  then show ?thesis
    using assms by (simp add: head_txid_def)
qed

definition sample_backends :: "(string \<times> bytes) list backends" where
  "sample_backends = \<lparr>be_gcs = (\<lambda>_. Some mem_store), be_s3 = (\<lambda>_ _ _ _ _. None), be_dir = (\<lambda>_. None), be_env = (\<lambda>_. None)\<rparr>"

theorem txid_restore_leaves_marker_witness:
  "\<exists>effs. l_db (run_effects \<lparr>l_db = Some (sample_history 3), l_marker = Some (Clean 3 512 2 1024)\<rparr> effs) = Some (sample_history 1) \<and>
    restore_cmd sample_backends stored_dec (\<lambda>_. None) (Some 1) None False ''gs://bucket/db''
      \<lparr>l_db = Some (sample_history 3), l_marker = Some (Clean 3 512 2 1024)\<rparr> sample_replica =
      (effs, Ok (WroteImage 1024 1)) \<and>
    restore_cmd sample_backends stored_dec (\<lambda>_. None) None None True ''gs://bucket/db''
      (run_effects \<lparr>l_db = Some (sample_history 3), l_marker = Some (Clean 3 512 2 1024)\<rparr> effs) sample_replica =
      ([], Ok (CaughtUp (UpToDate 3))) \<and>
    sample_history 1 \<noteq> sample_history 3"
proof -
  let ?l = "\<lparr>l_db = Some (sample_history 3), l_marker = Some (Clean 3 512 2 1024)\<rparr>"
  obtain files where files: "list_all_levels sample_client sample_replica = Ok files" "set files = {(0, 1, 1), (1, 2, 3)}"
    by (rule sample_listing)
  have "head_txid files \<le> 3"
    by (rule head_txid_le) (use files(2) in auto)
  moreover have "3 \<le> head_txid files"
    using head_txid_ge [of "(1, 2, 3)" files] files(2) by simp
  ultimately have head: "head_txid files = 3"
    by (rule order.antisym)
  have client: "replica_client_of sample_backends ''gs://bucket/db'' = Ok sample_client"
    by (simp add: replica_client_of_def sample_backends_def strip_start_def split_once_def expect_def sample_client_def)
  obtain t where t: "restore_to_txid sample_client stored_dec 1 sample_replica = Ok (sample_history t, t)" "t \<le> 1"
    "\<forall>fs. is_run 0 fs \<and> set fs \<subseteq> set files \<and> (\<forall>f \<in> set fs. fr_max f \<le> 1) \<longrightarrow> run_end 0 fs \<le> t"
    using restore_to_txid_run [OF stored_inverse sample_faithful [OF files(2)] files(1) sample_proper [OF files(2)], of 1] files(2)
    by auto
  have "1 \<le> t"
    using t(3) [rule_format, of "[(0, 1, 1)]"] files(2) by simp
  with t have "restore_to_txid sample_client stored_dec 1 sample_replica = Ok (sample_history 1, 1)"
    by (metis order.antisym)
  from txid_restore_leaves_marker [OF client files(1) this, of ?l 512 2 "\<lambda>_. None"] show ?thesis
    by (auto simp: head sample_history_def)
qed

end
