(* ===== verification/FlushDelivers.thy ===== *)
theory FlushDelivers
  imports CliProps
begin

text \<open>
  What a flush is for: on a database nobody else writes to, the replica of a flush that succeeds restores to the
  database itself.
\<close>

section \<open>The two syncs of a flush\<close>

lemma flush_rounds:
  fixes ho :: "'w host" and sy :: "('w, 's) syncer"
  assumes und: "undisturbed ho W (d_path (sy_db sy)) db_bytes wal" and in_W: "d_world (sy_db sy) \<in> W" and good: "good_store objs sy"
    and wal: "length wal < 2 ^ 63" "wal_reader_new wal = Ok r" and ps: "wh_page_size (w_header r) = d_page_size (sy_db sy)"
    and range: "commit_in_range (read_frames r)" and pos: "po_txid (sy_pos sy) = 0 \<or> resumes (sy_pos sy) r (length wal) n"
    and run: "flush ho lz4c sy = Some (Ok k, sy')"
  obtains out sy1 where "sync ho lz4c sy = (Ok out, sy1)" and "if out = Skipped then sy' = sy1 else local_step sy1 sy'"
proof -
  obtain q sy1 where first: "sync ho lz4c sy = (q, sy1)" by (cases "sync ho lz4c sy")
  note step = flush_from_step [where ho = ho and lz4c = lz4c]
  obtain out where out: "q = Ok out"
    using run step [OF first, of 0] by (cases q) (auto simp: flush_def)
  note first = first [unfolded out]
  show thesis
  proof (cases "out = Skipped")
    case True
    then show ?thesis
      using that [OF first] run step [OF first, of 0] by (simp add: flush_def)
  next
    case False
    have drained: "drained r (length wal) (sy_pos sy1)"
      by (rule sync_drains [OF first undisturbed_locked [OF und in_W] wal ps range good pos])
    note sync1 = undisturbed_sync [OF und in_W first]
    obtain q2 sy2 where second: "sync ho lz4c sy1 = (q2, sy2)" by (cases "sync ho lz4c sy1")
    obtain out2 where out2: "q2 = Ok out2"
      using run step [OF first, of 0] step [OF second, of 1] False by (cases q2) (auto simp: flush_def)
    note second = second [unfolded out2]
    have "locked_build ho sy1 db_bytes wal"
      using undisturbed_locked [OF _ sync1(1)] und by (simp add: sync1)
    then have skip: "out2 = Skipped" "build_next ho lz4c sy1 = (Ok None, sy2)"
      using drained_skips [OF second _ wal _ drained] ps by (simp_all add: sync1)
    have "sy' = sy2"
      using run step [OF first, of 0] step [OF second, of 1] False skip by (simp add: flush_def)
    moreover have "local_step sy1 sy2"
      by (rule keepsD [OF local_build_next skip(2)])
    ultimately show ?thesis
      using that [OF first] False by simp
  qed
qed

text \<open>Frames that change no page change nothing.\<close>

lemma committed_append_nil: "committed gs = [] \<Longrightarrow> committed (fs @ gs) = committed fs"
  by (auto simp: committed_def dropWhile_append dropWhile_eq_Nil_conv)

lemma nothing_committed:
  assumes "commit_in_range fs" and "changed_pages fs = []"
  shows "committed fs = []"
proof (rule ccontr)
  assume ne: "committed fs \<noteq> []"
  then have "fr_pgno (last (committed fs)) \<in> fr_pgno ` set (committed fs) \<inter> {p. p \<le> last_commit fs}"
    using assms(1) by (auto simp: commit_in_range_def last_commit_def)
  then show False
    using assms(2) by (auto simp: changed_pages_def)
qed

lemma nothing_changed:
  assumes "commit_in_range fs" and "changed_pages (drop n fs) = []"
  shows "live_image ps db_bytes fs = live_image ps db_bytes (take n fs)"
proof -
  have "committed (drop n fs) = []"
    by (rule nothing_committed [OF commit_in_range_drop [OF assms(1)] assms(2)])
  then have same: "committed fs = committed (take n fs)"
    using committed_append_nil [of "drop n fs" "take n fs"] by simp
  have "newest_data fs = newest_data (take n fs)" "last_commit fs = last_commit (take n fs)"
    by (rule ext, simp add: newest_data_def same) (simp add: last_commit_def same)
  then show ?thesis
    unfolding live_image_def live_commit_def live_page_def by metis
qed

section \<open>Delivery\<close>

text \<open>
  The history at the position of a syncer and at the next TXID: before the first sync, the next image is the
  database; later, the image at the position is the database without the frames since, and the next one with them,
  if they change a page.
\<close>

definition up_to_date :: "u32 \<Rightarrow> (u64 \<Rightarrow> bytes) \<Rightarrow> position \<Rightarrow> wal_reader \<Rightarrow> nat \<Rightarrow> bytes \<Rightarrow> nat \<Rightarrow> bool" where
  "up_to_date ps H pos r wal_len db_bytes n \<longleftrightarrow>
    (if po_txid pos = 0 then whole ps db_bytes (read_frames r) \<and> H 1 = live_image ps db_bytes (read_frames r)
     else resumes pos r wal_len n \<and>
      (if changed_pages (drop n (read_frames r)) = [] then H (po_txid pos) = live_image ps db_bytes (take n (read_frames r))
       else step_of ps H (po_txid pos + 1) db_bytes (take n (read_frames r)) (drop n (read_frames r))))"

text \<open>
  C5: where nobody else writes to the database, a flush that succeeds has delivered it: a restore from the replica
  returns the database as its readers see it, the committed frames of the WAL over the file.
\<close>

theorem flush_delivers:
  fixes ho :: "'w host" and sy :: "('w, 's) syncer"
  assumes "lz4_frame_inverse lz4c lz4d" and "lz4_bounded lz4c"
    and "undisturbed ho W (d_path (sy_db sy)) db_bytes wal" and "d_world (sy_db sy) \<in> W"
    and "length wal < 2 ^ 63" and "wal_reader_new wal = Ok r" and "wh_page_size (w_header r) = d_page_size (sy_db sy)"
    and "commit_in_range (read_frames r)"
    and "up_to_date (d_page_size (sy_db sy)) H (sy_pos sy) r (length wal) db_bytes n"
    and "replicated objs lz4c (d_page_size (sy_db sy)) H sy"
    and "flush ho lz4c sy = Some (Ok k, sy')" and "list_all_levels (sy_client sy') (sy_store sy') = Ok files"
  shows "restore (sy_client sy') lz4d (sy_store sy') = Ok (live_image (d_page_size (sy_db sy)) db_bytes (read_frames r)) \<and>
    replicated objs lz4c (d_page_size (sy_db sy)) H sy'"
proof -
  let ?ps = "d_page_size (sy_db sy)" and ?fs = "read_frames r" and ?t = "po_txid (sy_pos sy)"
  have good: "good_store objs sy" and rd: "readable (cl_store (sy_client sy)) objs"
    and holds: "replica_holds (sy_client sy) objs lz4c ?ps H (sy_store sy) ?t"
    using assms(10) by (simp_all add: replicated_def tiered_def)
  have env: "locked_build ho sy db_bytes wal"
    by (rule undisturbed_locked [OF assms(3,4)])
  have pos: "?t = 0 \<or> resumes (sy_pos sy) r (length wal) n"
    using assms(9) by (auto simp: up_to_date_def split: if_splits)
  have frames: "wal_frames wal ?ps ?fs"
    using assms(6,7) by (auto simp: wal_frames_def wal_reader_new_def res_simps wal_header_parse_def split: if_splits)
  obtain out sy1 where sync: "sync ho lz4c sy = (Ok out, sy1)" and rest: "if out = Skipped then sy' = sy1 else local_step sy1 sy'"
    by (rule flush_rounds [OF assms(3,4) good assms(5-8) pos assms(11)])
  have ob: "observed ho ?ps H sy"
    unfolding observed_def using env assms(5,6,7,9) frames
    by (intro conjI refl exI [of _ db_bytes] exI [of _ wal])
      (auto simp: up_to_date_def split: if_splits intro!: exI [of _ ?fs] exI [of _ r] exI [of _ n])
  have rep1: "replicated objs lz4c ?ps H sy1"
    using replicated_sync [OF assms(10,2) ob sync] by blast
  have image: "po_txid (sy_pos sy1) \<noteq> 0 \<and> H (po_txid (sy_pos sy1)) = live_image ?ps db_bytes ?fs"
  proof (cases "?t = 0")
    case True
    with assms(9) have whole: "whole ?ps db_bytes ?fs" "H 1 = live_image ?ps db_bytes ?fs"
      by (simp_all add: up_to_date_def)
    have "po_txid (sy_pos sy1) = 1"
      using first_sync_run [where H = H, OF sync env assms(5) True good rd frames whole assms(2)] holds True by simp
    then show ?thesis
      by (simp add: whole(2))
  next
    case False
    with assms(9) have n: "resumes (sy_pos sy) r (length wal) n"
      and step: "if changed_pages (drop n ?fs) = [] then H ?t = live_image ?ps db_bytes (take n ?fs)
        else step_of ?ps H (?t + 1) db_bytes (take n ?fs) (drop n ?fs)"
      by (simp_all add: up_to_date_def)
    show ?thesis
    proof (cases "changed_pages (drop n ?fs) = []")
      case True
      have idle: "build_next ho lz4c sy = (Ok None, sy1)"
        using drained_skips [OF sync env assms(5-7)] False n True by (auto simp: drained_def)
      have "sy_pos sy1 = sy_pos sy"
        using keepsD [OF local_build_next idle] by (simp add: local_step_def)
      then show ?thesis
        using step True False nothing_changed [OF assms(8) True] by simp
    next
      case changed: False
      then have step': "step_of ?ps H (?t + 1) db_bytes (take n ?fs) (drop n ?fs)"
        using step by simp
      have "?t + 1 \<noteq> 0 \<and> po_txid (sy_pos sy1) = ?t + 1"
        using next_sync_run [where H = H, OF sync env assms(5,6) False n good rd assms(7) step' assms(2) holds] changed by simp
      then show ?thesis
        using step' by (simp add: step_of_def)
    qed
  qed
  have rep: "replicated objs lz4c ?ps H sy'" and same: "po_txid (sy_pos sy') = po_txid (sy_pos sy1)"
    using rest rep1 replicated_idle [OF rep1, of sy'] by (auto split: if_splits)
  then show ?thesis
    using replicated_restores [OF assms(1) rep _ assms(12)] image by simp
qed

text \<open>The sample host with everything shipped: the build reads on after the second frame and finds nothing.\<close>

lemma sample_drained:
  assumes r: "wal_reader_new sample_wal = Ok r" "w_header r = sample_wal_header" "read_frames r = sample_frames"
    and dr: "drained r (length sample_wal) pos"
  shows "po_txid pos \<noteq> 0 \<and> po_wal_offset pos = 1104 \<and> po_salt1 pos = 11 \<and> po_salt2 pos = 12"
proof -
  obtain n where n: "po_txid pos \<noteq> 0" "resumes pos r (length sample_wal) n" "changed_pages (drop n sample_frames) = []"
    using dr by (auto simp: drained_def r(3))
  have "changed_pages (drop 1 sample_frames) = [2]"
  proof -
    have "fr_pgno ` set (committed (drop 1 sample_frames)) \<inter> {p. p \<le> last_commit (drop 1 sample_frames)} = {2}"
      by (auto simp: committed_def fr_is_commit_def sample_wal_records_def last_commit_def)
    then show ?thesis
      by (simp add: changed_pages_def)
  qed
  moreover have "changed_pages (drop 0 sample_frames) = [1, 2]"
    unfolding drop0 by (rule sample_changed)
  ultimately have "n \<noteq> 0" "n \<noteq> 1"
    using n(3) by (metis list.distinct(1))+
  moreover have "n \<le> 2"
    using n(2) by (simp add: resumes_def r(3) sample_wal_records_def)
  ultimately have "n = 2"
    by simp
  then have "unat (po_wal_offset pos) = 1104 \<and> po_salt1 pos = 11 \<and> po_salt2 pos = 12"
    using n(2) by (auto simp: resumes_def r(2) sample_salts frame_size_def split: if_splits)
  moreover from this have "po_wal_offset pos = 1104"
    by (simp add: word_unat_eq_iff)
  ultimately show ?thesis
    using n(1) by simp
qed

lemma sample_second_frame:
  "fh_salt1 (wal_frame_header_parse (take 24 (drop 568 sample_wal))) = 11"
  "fh_salt2 (wal_frame_header_parse (take 24 (drop 568 sample_wal))) = 12"
proof -
  obtain r where r: "wal_reader_new sample_wal = Ok r" "w_header r = sample_wal_header" "read_frames r = sample_frames"
    and parse: "wal_header_parse sample_wal = Ok sample_wal_header"
    by (rule sample_header_reader)
  have "2 \<le> length (read_frames r)"
    by (simp add: r sample_wal_records_def)
  from wal_resume_run [OF r(1) this] obtain r1 where "wal_reader_new_at_offset sample_wal 1104 = Ok r1"
    by (auto simp: r(2) sample_salts frame_size_def)
  then show "fh_salt1 (wal_frame_header_parse (take 24 (drop 568 sample_wal))) = 11"
    "fh_salt2 (wal_frame_header_parse (take 24 (drop 568 sample_wal))) = 12"
    by (auto simp: wal_reader_new_at_offset_def parse Let_def sample_salts frame_size_def split: if_splits)
qed

lemma sample_idle_increment:
  fixes sy :: "(sample_world, (string \<times> bytes) list) syncer"
  assumes sy: "sample_state sy"
  shows "build_incremental sample_host lz4c 1104 salt1 salt2 n sample_wal_header ''app.db-wal'' sy = (Ok None, sy)"
proof -
  let ?h = sample_wal_header and ?fsize = "of_nat WAL_FRAME_HEADER_SIZE + ucast (512 :: u32) :: u64"
  obtain r0 where r0: "wal_reader_new sample_wal = Ok r0" "w_header r0 = ?h" "read_frames r0 = sample_frames"
    by (rule sample_wal_reader)
  obtain w where w: "ho_read sample_host ''app.db-wal'' (d_world (sy_db sy)) = (Ok sample_wal, w)"
    using sample_reads(2) [OF sy] by (auto simp: on_host_run) (metis rmap_err_eq_Ok)
  have head: "read_exact_at sample_host ''app.db-wal'' (1104 - ?fsize) WAL_FRAME_HEADER_SIZE sy = (Ok (take 24 (drop 568 sample_wal)), sy)"
    using sample_reads(2) [OF sy] sample_wal_frames(2) by (simp add: read_exact_at_def op_bind_def op_ret_def)
  obtain seed where seed: "incremental_seed sample_host ''app.db-wal'' 1104 ?fsize ?h sy = (Ok seed, sy)"
    using head by (simp add: incremental_seed_def op_bind_def op_ret_def Let_def sample_second_frame sample_salts)
  have tail: "read_tail sample_host ''app.db-wal'' 1104 sy = (Ok (drop 1104 sample_wal), sy)"
    using sample_reads(2) [OF sy] by (simp add: read_tail_def op_bind_def op_ret_def)
  obtain r where r: "wal_reader_from_tail ?h (drop 1104 sample_wal) 1104 seed = Ok r"
    by (simp add: wal_reader_from_tail_def frame_size_def sample_salts)
  have two: "2 \<le> length (read_frames r0)" "unat (1104 :: u64) = WAL_HEADER_SIZE + 2 * frame_size (w_header r0)"
      "wh_page_size (w_header r0) = 512"
    by (simp_all add: r0 sample_wal_records_def frame_size_def sample_salts)
  have "read_frames r = drop 2 sample_frames"
    using incremental_reader(1) [OF r0(1) two w seed [folded r0(2)], of r] r r0 by simp
  then have none: "pm_pages (snd (wal_page_map r)) = []"
    using page_map_pgnos(2) [of "snd (wal_page_map r)" r] by (simp add: sample_wal_records_def changed_pages_def committed_def)
  obtain r' pm where "wal_page_map r = (r', pm)" by (cases "wal_page_map r")
  then show ?thesis
    using sy seed tail r none
    by (simp add: build_incremental_def Let_def op_bind_def op_get_def op_of_def op_ret_def sample_state_def)
qed

lemma sample_idle_build:
  assumes ready: "sample_ready b n sy0" and r: "wal_reader_new sample_wal = Ok r" "w_header r = sample_wal_header"
      "read_frames r = sample_frames"
    and dr: "drained r (length sample_wal) (sy_pos sy0)"
  obtains sy' where "build_next sample_host lz4c sy0 = (Ok None, sy')"
proof -
  obtain d where d: "acquire_read_lock sample_host (sy_db sy0) = (Ok (), d)" "sample_ready b n (sy0\<lparr>sy_db := d\<rparr>)"
    by (rule sample_acquire [OF ready])
  let ?sy = "sy0\<lparr>sy_db := d\<rparr>"
  have sy: "sample_state ?sy" "d_path (sy_db ?sy) = ''app.db''"
    using d(2) by (simp_all add: sample_ready_def sample_state_def)
  have acq: "on_db (acquire_read_lock sample_host) sy0 = (Ok (), ?sy)"
    by (simp add: on_db_def op_on_def op_map_err_def d(1))
  note reads = sample_reads [OF sy(1)]
  have len: "length sample_wal = 1104" "length sample_wal \<ge> WAL_HEADER_SIZE"
    using sample_wal_frames(2) by simp_all
  have parse: "wal_header_parse (take 32 sample_wal) = Ok sample_wal_header"
    by (rule sample_header_reader) (use wal_header_parse_take [OF len(2)] in simp)
  have head: "read_exact_at sample_host ''app.db-wal'' 0 WAL_HEADER_SIZE ?sy = (Ok (take 32 sample_wal), ?sy)"
    using reads(2) len by (simp add: read_exact_at_def op_bind_def op_ret_def)
  have plan: "sync_plan (sy_pos sy0) 1104 (Some sample_wal_header) = PlanIncremental 1104 11 12"
    using sample_drained [OF r dr] by (simp add: sync_plan_def sample_salts)
  have "build_next sample_host lz4c sy0 = (Ok None, ?sy)"
    using plan reads len parse head sy sample_idle_increment [OF sy(1)] acq
    by (simp add: build_next_def build_under_lock_def op_bind_def op_get_def op_try_def op_of_def op_ret_def Let_def
        cong: plan.case_cong)
  then show thesis
    by (rule that)
qed

theorem flush_delivers_witness:
  "\<exists>k sy'. flush sample_host stored (sample_folding 0 2) = Some (Ok k, sy') \<and>
    restore sample_client stored_dec (sy_store sy') = Ok (live_image 512 sample_file sample_frames)"
proof -
  let ?sy = "sample_folding 0 2"
  note sy = sample_folding_fields [of 0 2]
  obtain out sy1 r where first: "sync sample_host stored ?sy = (Ok out, sy1)" and ready: "sample_ready 0 2 sy1"
    and r: "wal_reader_new sample_wal = Ok r" "w_header r = sample_wal_header" "read_frames r = sample_frames"
    and dr: "drained r (length sample_wal) (sy_pos sy1)"
    by (rule sample_first_sync)
  obtain sy2 where "build_next sample_host stored sy1 = (Ok None, sy2)"
    by (rule sample_idle_build [OF ready r dr])
  then have second: "sync sample_host stored sy1 = (Ok Skipped, sy2)"
    by (simp add: sync_def op_bind_def op_ret_def)
  note step = flush_from_step [where ho = sample_host and lz4c = stored]
  obtain k sy' where run: "flush sample_host stored ?sy = Some (Ok k, sy')" and "sy' = sy1 \<or> sy' = sy2"
    using step [OF first, of 0] step [OF second, of 1] by (cases "out = Skipped") (auto simp: flush_def)
  then have cl: "sy_client sy' = sample_client"
    using keepsD [OF clt.keeps_sync first] keepsD [OF clt.keeps_sync second] by (auto simp: same_client_def sy)
  obtain files where files: "list_all_levels (sy_client sy') (sy_store sy') = Ok files"
    using sample_lists unfolding cl by blast
  have world: "d_world (sy_db ?sy) \<in> {w. sw_disk w = sample_disk}"
    using sy(6) by (simp add: sample_ready_def sample_state_def)
  have ps: "d_page_size (sy_db ?sy) = 512" and path: "d_path (sy_db ?sy) = ''app.db''" and pos: "sy_pos ?sy = position_default"
    by (simp_all add: sy)
  have und: "undisturbed sample_host {w. sw_disk w = sample_disk} (d_path (sy_db ?sy)) sample_file sample_wal"
    unfolding path by (rule sample_undisturbed)
  have up: "up_to_date (d_page_size (sy_db ?sy)) (sample_images 1) (sy_pos ?sy) r (length sample_wal) sample_file 0"
    unfolding ps pos using sample_whole(1) by (simp add: up_to_date_def position_default_def sample_images_def r)
  have rep: "replicated map_of stored (d_page_size (sy_db ?sy)) (sample_images 1) ?sy"
    unfolding ps by (rule sample_replicated)
  have range: "commit_in_range (read_frames r)"
    by (simp add: r commit_in_range_def committed_def fr_is_commit_def sample_wal_records_def)
  have len: "length sample_wal < 2 ^ 63" "wh_page_size (w_header r) = d_page_size (sy_db ?sy)"
    by (simp_all add: sample_wal_frames(2) r sample_salts ps)
  from flush_delivers [OF stored_inverse stored_bounded und world len(1) r(1) len(2) range up rep run files] show ?thesis
    using run by (auto simp: cl ps r)
qed

end
