(* ===== verification/CrashSafety.thy ===== *)
theory CrashSafety
  imports RestoreProps
begin

text \<open>
  Catching up on a disk that loses what was not synced: the effects of an attempt may fail, a crash may cut them
  anywhere, and the next attempt starts from what is left. The marker never claims an image the file is not.
\<close>

section \<open>A disk\<close>

text \<open>
  The local copy as the process sees it, and what of it is on the disk: the content of the database file, its
  directory entry, and the directory of the marker. A marker that was written is on the disk, as MarkerFile shows
  for \<^verbatim>\<open>write_marker\<close> where its sync of the directory succeeds; no sync reaches the entry of that directory
  itself, nor that of a database file that \<^verbatim>\<open>File::create\<close> made.
\<close>

record disk =
  dk_local :: local_db
  dk_synced :: bool
  dk_linked :: bool
  dk_dir :: bool

fun disk_effect :: "disk \<Rightarrow> effect \<Rightarrow> disk" where
  "disk_effect d (WriteMarker m) = d\<lparr>dk_local := apply_effect (dk_local d) (WriteMarker m)\<rparr>"
| "disk_effect d CreateFile = d\<lparr>dk_local := apply_effect (dk_local d) CreateFile, dk_synced := False,
    dk_linked := (dk_linked d \<and> l_db (dk_local d) \<noteq> None)\<rparr>"
| "disk_effect d (SetLen n) = d\<lparr>dk_local := apply_effect (dk_local d) (SetLen n), dk_synced := False\<rparr>"
| "disk_effect d (WriteAt off b) = d\<lparr>dk_local := apply_effect (dk_local d) (WriteAt off b), dk_synced := False\<rparr>"
| "disk_effect d SyncAll = d\<lparr>dk_synced := True\<rparr>"

definition run_disk :: "disk \<Rightarrow> effect list \<Rightarrow> disk" where
  "run_disk d effs = foldl disk_effect d effs"

definition on_disk :: "local_db \<Rightarrow> bool \<Rightarrow> disk" where
  "on_disk l dir = \<lparr>dk_local = l, dk_synced = True, dk_linked = True, dk_dir = dir\<rparr>"

text \<open>What a crash may leave: a file that was not synced holds anything, or is not there.\<close>

definition survives :: "disk \<Rightarrow> local_db \<Rightarrow> bool" where
  "survives d l \<longleftrightarrow>
    (l_marker l = l_marker (dk_local d) \<or> \<not> dk_dir d \<and> l_marker l = None) \<and>
    (dk_synced d \<longrightarrow> l_db l = l_db (dk_local d) \<or> \<not> dk_linked d \<and> l_db l = None)"

text \<open>
  An effect that fails ends the attempt: a marker stays as it was, the file may hold anything. \<open>fault\<close> is the effect
  that fails, if one does.
\<close>

definition fault_leaves :: "effect \<Rightarrow> disk \<Rightarrow> disk \<Rightarrow> bool" where
  "fault_leaves e d d' \<longleftrightarrow>
    (case e of WriteMarker _ \<Rightarrow> d' = d
     | _ \<Rightarrow> \<exists>b linked. d' = d\<lparr>dk_local := (dk_local d)\<lparr>l_db := b\<rparr>, dk_synced := False, dk_linked := linked\<rparr>)"

definition ends :: "nat option \<Rightarrow> effect list \<times> ('a, sync_error) result \<Rightarrow> disk \<Rightarrow> disk \<times> ('a, sync_error) result \<Rightarrow> bool" where
  "ends fault out d end_state \<longleftrightarrow>
    (case fault of
       Some n \<Rightarrow> n < length (fst out) \<and> snd end_state = Err (SyncIo IoOther) \<and>
         fault_leaves (fst out ! n) (run_disk d (take n (fst out))) (fst end_state)
     | None \<Rightarrow> end_state = (run_disk d (fst out), snd out))"

inductive attempt_step :: "'s replica_client \<Rightarrow> lz4_dec \<Rightarrow> 's \<Rightarrow> disk \<Rightarrow> disk \<Rightarrow> bool" for cl lz4d s where
  returned: "ends fault (catch_up cl lz4d (dk_local d) s) d (d', r) \<Longrightarrow> attempt_step cl lz4d s d d'"
| crashed: "survives (run_disk d (take k (fst (catch_up cl lz4d (dk_local d) s)))) l \<Longrightarrow> attempt_step cl lz4d s d (on_disk l dir)"

section \<open>What is on the disk\<close>

lemma run_disk_simps [simp]:
  "run_disk d [] = d" "run_disk d (e # es) = run_disk (disk_effect d e) es"
  by (simp_all add: run_disk_def)

lemma run_disk_append: "run_disk d (xs @ ys) = run_disk (run_disk d xs) ys"
  by (simp add: run_disk_def)

lemma disk_effect_local: "dk_local (disk_effect d e) = apply_effect (dk_local d) e"
  by (cases e) simp_all

lemma run_disk_local: "dk_local (run_disk d effs) = run_effects (dk_local d) effs"
  by (induction effs arbitrary: d) (simp_all add: disk_effect_local)

text \<open>The marker is truthful whatever a crash leaves.\<close>

definition safe :: "(u64 \<Rightarrow> bytes) \<Rightarrow> disk \<Rightarrow> bool" where
  "safe H d \<longleftrightarrow> (\<forall>l. survives d l \<longrightarrow> truthful H l)"

lemma safe_local: "safe H d \<Longrightarrow> truthful H (dk_local d)"
  by (simp add: safe_def survives_def)

lemma safe_on_disk: "truthful H l \<Longrightarrow> safe H (on_disk l dir)"
  by (auto simp: safe_def survives_def on_disk_def truthful_def split: option.splits marker.splits)

lemma safe_applying: "l_marker (dk_local d) = Some (Applying a b) \<Longrightarrow> safe H d"
  by (auto simp: safe_def survives_def truthful_def)

lemma safe_settled:
  assumes "dk_local d = settled ps H t" and "dk_synced d"
  shows "safe H d"
  using assms by (auto simp: safe_def survives_def truthful_def settled_def split: option.splits marker.splits)

lemma guarded_synced:
  assumes "guarded effs True" and "effs \<noteq> []"
  shows "dk_synced (run_disk d effs)"
proof -
  obtain a b body t p c n where effs: "effs = (WriteMarker (Applying a b) # body) @ [SyncAll, WriteMarker (Clean t p c n)]"
    using assms by (auto simp: guarded_def)
  show ?thesis
    unfolding effs run_disk_append by simp
qed

text \<open>One attempt, from a truthful copy.\<close>

lemma prefix_safe:
  assumes "guarded effs (is_ok r)" and "caught_up ps H files (dk_local d) (effs, r)" and "safe H d"
  shows "safe H (run_disk d (take k effs))"
proof -
  consider "take k effs = []" | "take k effs \<noteq> []" "k < length effs \<or> \<not> is_ok r" | "take k effs = effs" "effs \<noteq> []" "is_ok r"
    by fastforce
  then show ?thesis
  proof cases
    case 1
    with assms(3) show ?thesis by auto
  next
    case 2
    with guarded_marked [OF assms(1), of k "dk_local d"] show ?thesis
      by (auto simp: run_disk_local intro: safe_applying)
  next
    case 3
    then have "dk_synced (run_disk d effs)" "\<exists>t. run_effects (dk_local d) effs = settled ps H t"
      using guarded_synced assms(1) caught_up_ok [OF assms(2)] by auto
    then show ?thesis
      using safe_settled [of "run_disk d effs"] by (auto simp: 3(1) run_disk_local)
  qed
qed

lemma fault_safe:
  assumes "guarded effs (is_ok r)" and "caught_up ps H files (dk_local d) (effs, r)" and "safe H d"
    and "n < length effs" and "fault_leaves (effs ! n) (run_disk d (take n effs)) d'"
  shows "safe H d'"
proof (cases "\<exists>m. effs ! n = WriteMarker m")
  case True
  then show ?thesis
    using assms(5) prefix_safe [OF assms(1-3)] by (auto simp: fault_leaves_def)
next
  case False
  then have "n \<noteq> 0"
    using assms(1,4) False by (cases n) (auto simp: guarded_def)
  then have "\<exists>a b. l_marker (run_effects (dk_local d) (take n effs)) = Some (Applying a b)"
    using assms(4) by (intro guarded_marked [OF assms(1)]) auto
  moreover have "l_marker (dk_local d') = l_marker (dk_local (run_disk d (take n effs)))"
    using assms(5) False by (auto simp: fault_leaves_def split: effect.splits)
  ultimately show ?thesis
    by (auto simp: run_disk_local intro: safe_applying)
qed

lemma attempt_safe:
  assumes "lz4_frame_inverse lz4c lz4d" and "faithful cl lz4c ps H s files" and "proper_files files"
    and "list_all_levels cl s = Ok files" and "attempt_step cl lz4d s d d'" and "safe H d"
  shows "safe H d'"
proof -
  obtain effs r where out: "catch_up cl lz4d (dk_local d) s = (effs, r)"
    by fastforce
  have guard: "guarded effs (is_ok r)"
    by (rule catch_up_guarded [OF out])
  have up: "caught_up ps H files (dk_local d) (effs, r)"
    using catch_up_run [OF assms(1-3) safe_local [OF assms(6)]] assms(4) out by (simp add: catch_up_def)
  note prefix = prefix_safe [OF guard up assms(6)]
  from assms(5) show ?thesis
  proof cases
    case (returned fault q)
    then show ?thesis
      using prefix [of "length effs"] fault_safe [OF guard up assms(6)]
      by (auto simp: ends_def out split: option.splits)
  next
    case (crashed k l dir)
    then have "truthful H l"
      using prefix [of k] by (simp add: safe_def out)
    then show ?thesis
      by (simp add: crashed(1) safe_on_disk)
  qed
qed

text \<open>
  C16: through any number of attempts at catching up, each of them cut by a crash at any point, ended by a local
  effect that failed, or complete, with crashes losing what was not synced, the marker never claims an image the
  file is not, on the disk or in memory; the next attempt then does what it should, and when it succeeds the file it
  wrote is on the disk.
\<close>

theorem catch_up_crash_safe:
  assumes "lz4_frame_inverse lz4c lz4d" and "faithful cl lz4c ps H s files" and "proper_files files"
    and "list_all_levels cl s = Ok files" and "truthful H l"
    and "(attempt_step cl lz4d s)\<^sup>*\<^sup>* (on_disk l dir) d" and "catch_up cl lz4d (dk_local d) s = (effs, r)"
  shows "(\<forall>l'. survives d l' \<longrightarrow> truthful H l') \<and> truthful H (dk_local d) \<and>
    (\<forall>k l'. survives (run_disk d (take k effs)) l' \<longrightarrow> truthful H l') \<and>
    caught_up ps H files (dk_local d) (effs, r) \<and> (is_ok r \<longrightarrow> effs = [] \<or> dk_synced (run_disk d effs))"
proof -
  have safe: "safe H d"
    using assms(6) by induction (auto intro: safe_on_disk [OF assms(5)] attempt_safe [OF assms(1-4)])
  have guard: "guarded effs (is_ok r)"
    by (rule catch_up_guarded [OF assms(7)])
  have up: "caught_up ps H files (dk_local d) (effs, r)"
    using catch_up_run [OF assms(1-3) safe_local [OF safe]] assms(4,7) by (simp add: catch_up_def)
  have "\<forall>k l'. survives (run_disk d (take k effs)) l' \<longrightarrow> truthful H l'"
    using prefix_safe [OF guard up safe] by (simp add: safe_def)
  moreover have "is_ok r \<longrightarrow> effs = [] \<or> dk_synced (run_disk d effs)"
    using guard guarded_synced [of effs d] by (cases "effs = []") auto
  ultimately show ?thesis
    using safe safe_local [OF safe] up by (simp add: safe_def)
qed

text \<open>The sample's copy is cut after the first write of a delta, and the write is lost; then it catches up.\<close>

theorem catch_up_crash_safe_witness:
  "\<exists>effs d r effs'. fst (catch_up sample_client stored_dec sample_local sample_replica) = effs \<and>
    survives (run_disk (on_disk sample_local True) (take 1 effs)) (dk_local d) \<and>
    catch_up sample_client stored_dec (dk_local d) sample_replica = (effs', r) \<and>
    (\<forall>l'. survives (run_disk d (take 3 effs')) l' \<longrightarrow> truthful sample_history l')"
proof -
  obtain files where files: "list_all_levels sample_client sample_replica = Ok files"
    "set files = {(0, 1, 1), (1, 2, 3)}" by (rule sample_listing)
  let ?effs = "fst (catch_up sample_client stored_dec sample_local sample_replica)"
  let ?d = "run_disk (on_disk sample_local True) (take 1 ?effs)"
  have left: "survives ?d (dk_local ?d)"
    by (simp add: survives_def)
  have "dk_local (on_disk sample_local True) = sample_local"
    by (simp add: on_disk_def)
  then have "attempt_step sample_client stored_dec sample_replica (on_disk sample_local True) (on_disk (dk_local ?d) True)"
    using left by (intro crashed [where k = 1]) simp
  then have run: "(attempt_step sample_client stored_dec sample_replica)\<^sup>*\<^sup>* (on_disk sample_local True) (on_disk (dk_local ?d) True)"
    by (rule r_into_rtranclp)
  have same: "dk_local (on_disk (dk_local ?d) True) = dk_local ?d"
    by (simp add: on_disk_def)
  obtain effs' r where out: "catch_up sample_client stored_dec (dk_local (on_disk (dk_local ?d) True)) sample_replica = (effs', r)"
    by fastforce
  from catch_up_crash_safe [OF stored_inverse sample_faithful [OF files(2)] sample_proper [OF files(2)] files(1)
      sample_local_truthful run out]
  have "\<forall>l'. survives (run_disk (on_disk (dk_local ?d) True) (take 3 effs')) l' \<longrightarrow> truthful sample_history l'"
    by blast
  then show ?thesis
    using left out same by (intro exI [of _ ?effs] exI [of _ "on_disk (dk_local ?d) True"] exI [of _ r] exI [of _ effs']) simp
qed

end
