(* ===== verification/Spec2Isabelle.thy ===== *)
theory Spec2Isabelle
  imports LtxSnapshot Reader SyncProps Reopening MarkerFile FlushDelivers CrashSafety
begin

text \<open>
  Literstream replicates a SQLite database to an object store. A syncer reads the committed frames of the WAL and
  uploads each batch as an immutable LTX file named by a level and a range of transaction ids (TXIDs). Checkpoint
  cycles fold the WAL into the database file, compactions merge the files of a level into the next, snapshots and
  retention bound what is kept, and a restore merges a contiguous run of files into a database. This library
  models the Rust sources under \<^verbatim>\<open>src/src\<close> (paths below are relative to it) and proves what they promise together:
  the replica restores to the database, a checkpoint cycle ends with the file it captured staged or stored, and what
  is staged reaches the store when the syncer is opened again. Where the code does not keep such a promise, the
  failing case is a theorem as well.

  \<^bold>\<open>Conventions.\<close> A machine integer is a word of its width and wraps, as in a release build; \<^verbatim>\<open>usize\<close> is a natural
  number, a duration a natural number and an instant an integer of nanoseconds. A Rust \<^verbatim>\<open>Result\<close> is
  \<open>Ok\<close> or \<open>Err\<close>, and a failed index, \<^verbatim>\<open>unwrap\<close> or \<^verbatim>\<open>expect\<close> is \<open>Panic\<close> (Prelude). An operation on a state is a
  function to a result and the state after it, which an error keeps (Effect). The object store, the host (SQLite,
  file system, lock, clock) and LZ4 are records or functions that the definitions take as arguments.

  \<^bold>\<open>The program, theory by theory.\<close>

  \<^item> \<^verbatim>\<open>ltx/\<close>, the file format. Checksum: the CRC-64 tables, the hasher and flagged checksums. LtxFormat: header, page
    header, trailer, their encodings and validation, and the error type. Uvarint and LtxEncoder: varints and the
    streaming writer. LtxDecoder: the streaming reader, the page index and \<^verbatim>\<open>read_file\<close>. BinHeap and Compactor: the
    heap of the standard library as far as the merge uses it, the merge of files with its checks. LtxSnapshot and
    FileSize hold facts about what is decoded and how long what is encoded gets.
  \<^item> \<^verbatim>\<open>wal/\<close>. WalReader: headers, the running checksum, reading frames from the start or from a tail, and the page map
    of the committed transactions.
  \<^item> \<^verbatim>\<open>storage/\<close>. Storage: keys and file names, plain, multipart and compare-and-swap uploads, downloads, listing.
  \<^item> \<^verbatim>\<open>sync/restore.rs\<close>, \<^verbatim>\<open>sync/reader.rs\<close>, \<^verbatim>\<open>sync/error.rs\<close>, \<^verbatim>\<open>db/error.rs\<close>. RestorePlan: the errors, listing the levels, the greedy cover
    and the three planners. RestoreApply: applying a plan in memory and to a path, deltas, the position marker and
    catching up, with the effects on the local file in order. MarkerFile: the calls that write the marker, on a file
    system that loses what was not synced. Reader: single pages by ranged reads.
  \<^item> \<^verbatim>\<open>sync/level.rs\<close>, \<^verbatim>\<open>sync/retention.rs\<close>: Level and Retention. The \<^verbatim>\<open>FileIndex\<close> of \<^verbatim>\<open>sync/mod.rs\<close>: FileIndex.
  \<^item> \<^verbatim>\<open>db/mod.rs\<close> and \<^verbatim>\<open>lock.rs\<close>. Db: the handle with its read transaction, checkpoints, the process lock.
  \<^item> \<^verbatim>\<open>sync/mod.rs\<close>. Staging: the state of a syncer (record \<open>syncer\<close>, its fields those of the \<^verbatim>\<open>Syncer\<close> with the store and
    the staging directory added), staging a file by a temporary name, uploading, recovering what a crash left.
    WalSync: \<^verbatim>\<open>build_next\<close>, \<^verbatim>\<open>sync\<close>, \<^verbatim>\<open>flush\<close>, snapshots and increments, \<^verbatim>\<open>run_checkpoint\<close> and its policies, opening.
    Maintenance: compaction, snapshots and the three retention calls.
  \<^item> \<^verbatim>\<open>sync/driver.rs\<close>, \<^verbatim>\<open>bin/literstream.rs\<close>. Driver: the schedule and one tick. Cli: replica URLs, the restore command
    and the daemon's loop.

  The driver calls the syncer; the syncer holds the handle, the replica client, the file index and the staging
  directory, and calls the WAL reader, the LTX encoder and the compactor; restores, the page reader and catching up
  use the client and the LTX decoder only.

  \<^bold>\<open>What the lemmas show.\<close>

  \<^item> Formats: the encoder writes one layout and accepts exactly the pages that fit it, \<open>read_file\<close> inverts it, a
    merge is the encoding of the newest version of every page, the WAL reader yields exactly the frames of the valid
    checksum chain, and the page map is the committed state.
  \<^item> Restores (RestoreCorrect, RestoreProps): a history gives the image after every TXID, and a replica carries it
    when each file holds the pages that changed in its window. Then the plans exist when they can and reach
    furthest, both ways to apply a plan give the image, and catching up leads to the newest image.
  \<^item> Crashes of a restore (CrashSafety, MarkerFile): attempts at catching up may end in a failed effect or a crash
    that loses what was not synced; no marker then claims an image that the file on the disk is not. Writing the
    marker is one step, but a crash can take the marker with its directory, whose own entry is never synced, and
    where the sync of the directory fails the old marker can come back.
  \<^item> One sync (SyncBuild, LiveImage, SyncCorrect, SyncRuns, SyncProps): what is staged is the committed WAL over the
    database file, or what changed in it since the position, and the replica then carries the next image.
  \<^item> Durability (CheckpointSafety, Reopening): the file of the frames a checkpoint cycle captured ends stored or staged
    with its bytes, whatever the cycle returns, and opening again, in any number of attempts, brings each staged file
    to the store byte for byte and in TXID order. Where the process goes on instead, this fails: after an upload that failed,
    the next build over a restarted WAL stages a file of the same range in its place, without its frames
    (\<open>retry_overwrites_staged_frames\<close>). SyncSafety and SyncDurable: some file of a staged range stays staged or stored
    through any run of operations.
  \<^item> Frames another connection commits between capture and checkpoint (Overfold): the snapshot that follows catches
    them in every mode but TRUNCATE. A TRUNCATE checkpoint that was not busy reports no frames, and the cycle succeeds
    with the captured image only.
  \<^item> Maintenance (CompactCarry, Tiers, Replica, Upkeep, Tiered, UpkeepRuns): compactions, snapshots and retention keep
    the files layered, so that the newest TXID stays reachable by a restore, whatever the calls return.
  \<^item> The whole (Replication, Ticks, FlushEnds, FlushDelivers, CliProps): the step relation \<open>replication_step\<close>
    interleaves syncs, checkpoints and maintenance, its invariant \<open>replicated\<close> gives the restore; a tick and the
    daemon's loop are runs of it. Where nobody else writes, \<open>flush\<close> returns, after at most one file, and has
    delivered the database.

  \<^bold>\<open>Interfaces.\<close> \<open>codec\<close> (LtxFormat) is what an encoding of fixed length promises, interpreted for the three
  structures of the format; \<open>max_heap\<close> (BinHeap) and \<open>btree_map\<close> (FileIndex) are the parts of the standard library
  that the merge and the index use; \<open>page_set\<close> (RestoreApply) is the set of pages a restore has written, interpreted
  for the dense and the sparse one. \<open>state_order\<close> (Effect) says that a relation between states is a preorder, so that it
  composes along operations; \<open>staging_order\<close>, \<open>building_order\<close>, \<open>storing_order\<close>, \<open>uploading_order\<close> and \<open>cycle_order\<close>
  (SyncOrder) extend it by the groups of calls a syncer makes, so that what the operations keep is proved once for each
  relation from the calls alone. The interpretations include the durability of staged files, the equality of the index,
  of the client and of the limits, and the runs of the replication steps.

  \<^bold>\<open>Hypotheses on other code.\<close> \<open>lz4_frame_inverse\<close> and \<open>lz4_bounded\<close>: decompression inverts compression, and a frame
  is at most 64 bytes and twice its input. \<open>store_ok\<close>, \<open>readable\<close> and \<open>fault_law\<close> (collected in \<open>good_store\<close> for a
  syncer): a put that succeeds is seen by a get and a listing, a conditional put never replaces an object, an object that
  is there can be read, and a call that fails changes no object but the one it names, to its effect or not at all.
  \<open>txn_law\<close>: BEGIN fails inside a transaction, a statement of a checkpoint opens none, and one that fails may end the
  transaction there is. \<open>documented_report\<close>: the row of a checkpoint has the number of frames folded, or zero where a
  TRUNCATE was not busy. \<open>listed\<close>: a staging directory that is there is not reported missing; \<open>canonical\<close>: its files are
  those the syncer named. \<open>still\<close>, \<open>locked_build\<close>, \<open>quiet\<close>
  and \<open>undisturbed\<close>: the database file and the WAL do not change while a read transaction is held, or while nobody
  else writes. Each is met by the sample host and stores of Db, SampleReplica and SampleSync, on which the witnesses
  run.

  \<^bold>\<open>Termination.\<close> There is no fuel. Recursion that is not structural has its measure: the rest of the data for the WAL
  reader, the varints and the multipart chunks, the unread index entries for the merge, the remaining files
  for the greedy cover. \<open>flush\<close> is a \<open>partial_function (option)\<close>, since other connections can feed it forever, and
  \<open>flush_ends\<close> shows when it returns. The daemon's loop recurs over its list of events.

  \<^bold>\<open>Not modelled.\<close>

  \<^item> \<^verbatim>\<open>lib.rs\<close>, \<^verbatim>\<open>ltx/mod.rs\<close>, \<^verbatim>\<open>wal/mod.rs\<close>: declarations and re-exports. The examples, benchmarks and tests.
  \<^item> The \<^verbatim>\<open>Display\<close> texts of errors and reports, one-line accessors, the argument parser, the builders of
    the cloud stores and the RFC 3339 parser; the last three are parameters of Cli.
  \<^item> The bounds of the platform's clock type, and the bytes of a file that is still being written outside MarkerFile
    and CrashSafety: elsewhere a write or rename happens at once and lasts. A store that fails halfway through a
    listing is a failed listing.
  \<^item> Concurrency between threads: the syncer is used from one thread. Other connections to the database act between the
    calls of the host, which may return anything the hypotheses allow.
  \<^item> A sync whose upload fails is no \<open>replication_step\<close>: a lost acknowledgement can leave the file in the store
    although the position did not move. What it leaves staged is the subject of Reopening. A
    compaction into a base where there is no base is left out by \<open>rooted\<close>: it can claim transactions that are gone.
\<close>

end
